(* ===== verification/Warp_Prelude.thy ===== *)
theory Warp_Prelude
  imports Main "HOL-Library.Word" "HOL-Library.AList"
begin

text \<open>
  Shared vocabulary of the development: keys, instants and durations (Go's
  \<^verbatim>\<open>time.Time\<close> and \<^verbatim>\<open>time.Duration\<close>), contexts and clocks, the error values of
  the packages, Go maps as association lists, and the list and map lemmas the
  components share.

  An instant is the number of nanoseconds since Go's zero time, so
  \<^verbatim>\<open>Time.IsZero\<close> is the test against 0. A duration is an \<^typ>\<open>int\<close> in the range of
  an \<^verbatim>\<open>int64\<close>; sums and differences of durations wrap (\<open>wrap64\<close>) and
  \<^verbatim>\<open>Time.Sub\<close> saturates, as in Go.

  A call of the program reads the clock and polls its context at several
  points. A \<open>clock\<close> gives the instant of the i-th such point of the call and a
  \<open>ctx\<close> says what \<^verbatim>\<open>ctx.Err()\<close> answers at an instant. \<open>tick n\<close> passes the later
  part of a clock on to a callee.
\<close>

section \<open>Basic types\<close>

type_synonym key = string
type_synonym time = int
type_synonym duration = int
type_synonym u64 = "64 word"
type_synonym u32 = "32 word"
type_synonym u16 = "16 word"
type_synonym byte = "8 word"

text \<open>The error values the packages define, those of the context package, and
  \<open>ErrOther\<close> for an error of a library or of a caller-supplied function.\<close>

datatype go_error =
    ErrNotFound | ErrUnregistered | ErrCASMismatch | ErrBusRequired | ErrInvalidLeaseTTL
  | ErrQuorumUnsupported | ErrQuorumNotSatisfied
  | ErrTimeout | ErrConnectionClosed
  | Canceled | DeadlineExceeded
  | ErrOther string

type_synonym clock = "nat \<Rightarrow> time"
type_synonym ctx = "time \<Rightarrow> go_error option"

definition background :: ctx where
  "background = (\<lambda>_. None)"

definition tick :: "nat \<Rightarrow> clock \<Rightarrow> clock" where
  "tick n clk = (\<lambda>i. clk (i + n))"

text \<open>\<^verbatim>\<open>context.WithTimeout(parent, d)\<close> created at instant \<open>t0\<close>: done with the parent, or with
  \<open>DeadlineExceeded\<close> from \<open>t0 + d\<close> on, whichever comes first.\<close>

definition with_timeout :: "ctx \<Rightarrow> time \<Rightarrow> duration \<Rightarrow> ctx" where
  "with_timeout parent t0 d =
     (\<lambda>t. if t \<ge> t0 + d
          then (case parent (t0 + d) of Some e \<Rightarrow> Some e | None \<Rightarrow> Some DeadlineExceeded)
          else parent t)"

lemma background_app [simp]: "background t = None"
  by (simp add: background_def)

lemma tick_app [simp]: "tick n clk i = clk (i + n)"
  by (simp add: tick_def)

section \<open>Instants and durations\<close>

definition wrap64 :: "int \<Rightarrow> int" where
  "wrap64 x = (x + 2 ^ 63) mod 2 ^ 64 - 2 ^ 63"

definition int64 :: "int \<Rightarrow> bool" where
  "int64 x \<longleftrightarrow> - (2 ^ 63) \<le> x \<and> x < 2 ^ 63"

definition dur_add :: "duration \<Rightarrow> duration \<Rightarrow> duration" where
  "dur_add a b = wrap64 (a + b)"

definition dur_sub :: "duration \<Rightarrow> duration \<Rightarrow> duration" where
  "dur_sub a b = wrap64 (a - b)"

definition time_IsZero :: "time \<Rightarrow> bool" where
  "time_IsZero t \<longleftrightarrow> t = 0"

definition time_Add :: "time \<Rightarrow> duration \<Rightarrow> time" where
  "time_Add t d = t + d"

definition time_Sub :: "time \<Rightarrow> time \<Rightarrow> duration" where
  "time_Sub t u = max (- (2 ^ 63)) (min (2 ^ 63 - 1) (t - u))"

definition time_After :: "time \<Rightarrow> time \<Rightarrow> bool" where
  "time_After t u \<longleftrightarrow> t > u"

named_theorems time_defs
lemmas [time_defs] = time_IsZero_def time_Add_def time_Sub_def time_After_def

lemma int64_wrap64 [simp]: "int64 (wrap64 x)"
  by (simp add: int64_def wrap64_def)

lemma wrap64_id: "int64 x \<Longrightarrow> wrap64 x = x"
  by (simp add: int64_def wrap64_def)

lemma wrap64_wrap64 [simp]: "wrap64 (wrap64 x) = wrap64 x"
  by (simp add: wrap64_id)

lemma wrap64_add_left [simp]: "wrap64 (wrap64 x + y) = wrap64 (x + y)"
proof -
  have "wrap64 (wrap64 x + y) = ((x + 2 ^ 63) mod 2 ^ 64 + y) mod 2 ^ 64 - 2 ^ 63"
    by (simp add: wrap64_def algebra_simps)
  also have "\<dots> = (x + 2 ^ 63 + y) mod 2 ^ 64 - 2 ^ 63"
    by (simp only: mod_add_left_eq)
  finally show ?thesis by (simp add: wrap64_def algebra_simps)
qed

lemma wrap64_add_right [simp]: "wrap64 (x + wrap64 y) = wrap64 (x + y)"
  using wrap64_add_left [of y x] by (simp add: add.commute)

lemma wrap64_diff_left [simp]: "wrap64 (wrap64 x - y) = wrap64 (x - y)"
  using wrap64_add_left [of x "- y"] by simp

lemma dur_add_id: "int64 (a + b) \<Longrightarrow> dur_add a b = a + b"
  by (simp add: dur_add_def wrap64_id)

lemma dur_sub_id: "int64 (a - b) \<Longrightarrow> dur_sub a b = a - b"
  by (simp add: dur_sub_def wrap64_id)

lemma time_Sub_id: "int64 (t - u) \<Longrightarrow> time_Sub t u = t - u"
  by (auto simp: time_Sub_def int64_def)

section \<open>Strings and bytes\<close>

text \<open>The conversions \<^verbatim>\<open>[]byte(s)\<close> and \<^verbatim>\<open>string(b)\<close>: a Go string is a sequence of bytes.\<close>

definition bytes_of :: "string \<Rightarrow> byte list" where
  "bytes_of s = map of_char s"

definition string_of :: "byte list \<Rightarrow> string" where
  "string_of bs = map (\<lambda>b. char_of (unat b)) bs"

lemma char_byte [simp]: "char_of (unat (of_char c :: byte)) = c"
proof -
  have "unat (of_char c :: byte) = (of_char c :: nat)"
    by (subst of_nat_of_char [symmetric]) (simp add: unat_of_nat)
  then show ?thesis by simp
qed

lemma string_of_bytes_of [simp]: "string_of (bytes_of s) = s"
  by (induct s) (simp_all add: string_of_def bytes_of_def)

lemma length_bytes_of [simp]: "length (bytes_of s) = length s"
  by (simp add: bytes_of_def)

lemma length_string_of [simp]: "length (string_of d) = length d"
  by (simp add: string_of_def)

section \<open>Go maps as association lists\<close>

text \<open>
  A Go map whose length or iteration the code uses is the association list of
  its entries; a \<^verbatim>\<open>range\<close> loop visits it in list order, so a statement about every
  such list covers every iteration order. A map that is only read and written
  by key is a partial function.
\<close>

type_synonym 'v gomap = "(key \<times> 'v) list"

abbreviation gm_get :: "('k \<times> 'v) list \<Rightarrow> 'k \<Rightarrow> 'v option" where
  "gm_get m k \<equiv> map_of m k"

abbreviation gm_put :: "('k \<times> 'v) list \<Rightarrow> 'k \<Rightarrow> 'v \<Rightarrow> ('k \<times> 'v) list" where
  "gm_put m k v \<equiv> AList.update k v m"

abbreviation gm_del :: "('k \<times> 'v) list \<Rightarrow> 'k \<Rightarrow> ('k \<times> 'v) list" where
  "gm_del m k \<equiv> AList.delete k m"

abbreviation gm_keys :: "('k \<times> 'v) list \<Rightarrow> 'k list" where
  "gm_keys m \<equiv> map fst m"

abbreviation gm_ok :: "('k \<times> 'v) list \<Rightarrow> bool" where
  "gm_ok m \<equiv> distinct (map fst m)"

lemma gm_get_put [simp]: "gm_get (gm_put m k v) k' = (if k' = k then Some v else gm_get m k')"
  by (simp add: update_conv')

lemma gm_get_del [simp]: "gm_get (gm_del m k) k' = (if k' = k then None else gm_get m k')"
  by (simp add: delete_conv')

lemma gm_keys_put: "set (gm_keys (gm_put m k v)) = insert k (set (gm_keys m))"
  by (induct m) auto

lemma set_gm_put: "set (gm_put m k v) \<subseteq> insert (k, v) (set m)"
  by (induct m) auto

lemma gm_ok_put [simp]: "gm_ok m \<Longrightarrow> gm_ok (gm_put m k v)"
  by (rule distinct_update)

lemma gm_ok_del [simp]: "gm_ok m \<Longrightarrow> gm_ok (gm_del m k)"
  by (rule distinct_delete)

lemma gm_get_None_iff: "gm_get m k = None \<longleftrightarrow> k \<notin> set (gm_keys m)"
  by (simp add: map_of_eq_None_iff)

lemma gm_get_in_keys: "gm_get m k = Some v \<Longrightarrow> k \<in> set (gm_keys m)"
  by (metis gm_get_None_iff option.distinct(1))

lemma gm_keys_del: "set (gm_keys (gm_del m k)) = set (gm_keys m) - {k}"
  by (induct m) auto

lemma length_gm_put: "length (gm_put m k v) = (if gm_get m k = None then Suc (length m) else length m)"
  by (induct m) auto

lemma length_gm_del:
  "gm_ok m \<Longrightarrow> length (gm_del m k) = (if gm_get m k = None then length m else length m - 1)"
proof (induct m)
  case (Cons p m)
  then have "k = fst p \<Longrightarrow> gm_del m k = m" by (auto intro!: delete_notin_dom)
  moreover have "k \<noteq> fst p \<Longrightarrow> gm_get m k \<noteq> None \<Longrightarrow> length m > 0" by (cases m) auto
  ultimately show ?case using Cons by (cases p) auto
qed simp

lemma length_gm_del_less: "gm_get m k \<noteq> None \<Longrightarrow> length (gm_del m k) < length m"
  by (induct m) (auto simp: AList.delete_eq less_Suc_eq_le)

text \<open>Weighted sums over the entries of a map.\<close>

definition gm_sum :: "('v \<Rightarrow> int) \<Rightarrow> ('k \<times> 'v) list \<Rightarrow> int" where
  "gm_sum f m = sum_list (map (\<lambda>p. f (snd p)) m)"

lemma gm_sum_Nil [simp]: "gm_sum f [] = 0"
  by (simp add: gm_sum_def)

lemma gm_sum_Cons [simp]: "gm_sum f (p # m) = f (snd p) + gm_sum f m"
  by (simp add: gm_sum_def)

lemma gm_sum_del: "gm_ok m \<Longrightarrow> gm_get m k = Some v \<Longrightarrow> gm_sum f (gm_del m k) = gm_sum f m - f v"
proof (induct m)
  case (Cons p m)
  then have "k = fst p \<Longrightarrow> gm_del m k = m" by (auto intro!: delete_notin_dom)
  with Cons show ?case by (cases p) (auto split: if_splits)
qed simp

lemma gm_sum_put:
  "gm_sum f (gm_put m k v) =
     gm_sum f m + f v - (case gm_get m k of None \<Rightarrow> 0 | Some w \<Rightarrow> f w)"
  by (induct m) (auto split: option.splits)

lemma fst_in_image: "(a, b) \<in> S \<Longrightarrow> a \<in> fst ` S"
  by force

lemma butlast_eq_remove1_last: "distinct xs \<Longrightarrow> xs \<noteq> [] \<Longrightarrow> butlast xs = remove1 (last xs) xs"
  by (induct xs rule: rev_induct) (auto simp: remove1_append)

lemma set_butlast_distinct: "distinct xs \<Longrightarrow> xs \<noteq> [] \<Longrightarrow> set (butlast xs) = set xs - {last xs}"
  by (induct xs rule: rev_induct) auto

text \<open>Moving an element to the front of a list.\<close>

lemma to_front:
  assumes "x \<in> set xs" and "distinct xs"
  shows "set (x # remove1 x xs) = set xs" and "length (x # remove1 x xs) = length xs"
    and "distinct (x # remove1 x xs)"
  using assms length_pos_if_in_set [of x xs] by (auto simp: length_remove1)

section \<open>Decimal notation\<close>

text \<open>As \<^verbatim>\<open>fmt.Sprintf\<close> prints an \<^verbatim>\<open>int\<close> with \<^verbatim>\<open>%d\<close>.\<close>

fun nat_digits :: "nat \<Rightarrow> string" where
  "nat_digits n = (if n < 10 then [char_of (48 + n)] else nat_digits (n div 10) @ [char_of (48 + n mod 10)])"

declare nat_digits.simps [simp del]

definition show_int :: "int \<Rightarrow> string" where
  "show_int i = (if i < 0 then ''-'' @ nat_digits (nat (- i)) else nat_digits (nat i))"

end
