(* ===== verification/Warp_Merge.thy ===== *)
theory Warp_Merge
  imports Warp_Prelude
begin

text \<open>
  Package merge (src/merge/merge.go, src/merge/versioned.go): vector clocks, the
  last-write-wins strategy, the merge engine with its per-key custom functions,
  and bounded version histories.

  A vector clock is the association list of its counters (\<^verbatim>\<open>uint64\<close>, so an
  increment wraps); the nil map is \<^const>\<open>None\<close> of an \<open>option\<close>.
\<close>

section \<open>Vector clocks\<close>

type_synonym vclock = "(string \<times> u64) list"

text \<open>Indexing a Go map yields the zero value for a missing key.\<close>

definition vc_get :: "vclock \<Rightarrow> string \<Rightarrow> u64" where
  "vc_get vc k = (case gm_get vc k of None \<Rightarrow> 0 | Some v \<Rightarrow> v)"

text \<open>The entries a range loop visits; ranging over a nil map visits none.\<close>

definition vc_entries :: "vclock option \<Rightarrow> vclock" where
  "vc_entries v = (case v of None \<Rightarrow> [] | Some vc \<Rightarrow> vc)"

fun vc_copy_loop :: "vclock \<Rightarrow> vclock \<Rightarrow> vclock" where
  "vc_copy_loop n [] = n"
| "vc_copy_loop n ((k, v) # rest) = vc_copy_loop (gm_put n k v) rest"

definition vc_Copy :: "vclock option \<Rightarrow> vclock" where
  "vc_Copy vc = vc_copy_loop [] (vc_entries vc)"

text \<open>\<^verbatim>\<open>vc[region]++\<close>: a write to a nil map panics, which is the result \<^const>\<open>None\<close>.\<close>

definition vc_Increment :: "vclock option \<Rightarrow> string \<Rightarrow> vclock option" where
  "vc_Increment vc region =
     (case vc of None \<Rightarrow> None | Some m \<Rightarrow> Some (gm_put m region (vc_get m region + 1)))"

fun vc_Merge :: "vclock \<Rightarrow> vclock \<Rightarrow> vclock" where
  "vc_Merge vc [] = vc"
| "vc_Merge vc ((k, v) # other) =
     vc_Merge (if v > vc_get vc k then gm_put vc k v else vc) other"

fun compare_own :: "vclock \<Rightarrow> vclock \<Rightarrow> bool \<times> bool \<Rightarrow> bool \<times> bool" where
  "compare_own [] other gs = gs"
| "compare_own ((k, v) # vc) other (grt, sml) =
     (let ov = vc_get other k in
      compare_own vc other
        (if v > ov then (True, sml)
         else if v < ov then (grt, True) else (grt, sml)))"

fun compare_missing :: "vclock \<Rightarrow> vclock \<Rightarrow> bool \<Rightarrow> bool" where
  "compare_missing [] vc sml = sml"
| "compare_missing ((k, v) # other) vc sml =
     compare_missing other vc (if gm_get vc k = None \<and> v > 0 then True else sml)"

definition vc_Compare :: "vclock \<Rightarrow> vclock \<Rightarrow> int" where
  "vc_Compare vc other =
     (let (grt, sml0) = compare_own vc other (False, False);
          sml = compare_missing other vc sml0
      in if grt \<and> sml then -2
         else if grt then 1
         else if sml then -1
         else 0)"

section \<open>Values and strategies\<close>

record 'a mval =
  Data :: 'a
  Timestamp :: time
  Vector :: "vclock option"
  Region :: string

type_synonym 'a strategy = "'a mval \<Rightarrow> 'a mval \<Rightarrow> 'a mval"
type_synonym 'a mergefn = "'a \<Rightarrow> 'a \<Rightarrow> go_error + 'a"

definition LastWriteWins :: "'a strategy" where
  "LastWriteWins old new =
     (let cmp = (case (Vector old, Vector new) of
                   (Some ov, Some nv) \<Rightarrow> vc_Compare nv ov
                 | _ \<Rightarrow> 0)
      in if cmp = 1 then new
         else if cmp = -1 then old
         else if time_After (Timestamp new) (Timestamp old) then new
         else old)"

record 'a engine =
  custom :: "key \<Rightarrow> 'a mergefn option"
  defaultStrategy :: "'a strategy"

definition NewEngine :: "'a engine" where
  "NewEngine = \<lparr>custom = Map.empty, defaultStrategy = LastWriteWins\<rparr>"

definition engine_Register :: "'a engine \<Rightarrow> key \<Rightarrow> 'a mergefn \<Rightarrow> 'a engine" where
  "engine_Register e k fn = e\<lparr>custom := (custom e)(k \<mapsto> fn)\<rparr>"

definition HasCustom :: "'a engine \<Rightarrow> key \<Rightarrow> bool" where
  "HasCustom e k = (custom e k \<noteq> None)"

definition engine_Merge :: "'a engine \<Rightarrow> key \<Rightarrow> 'a mval \<Rightarrow> 'a mval \<Rightarrow> go_error + 'a mval" where
  "engine_Merge e k old new =
     (case custom e k of
        Some fn \<Rightarrow>
          (case fn (Data old) (Data new) of
             Inl err \<Rightarrow> Inl err
           | Inr v \<Rightarrow>
               (let mergedVC = vc_Merge (vc_Copy (Vector old)) (vc_entries (Vector new))
                in Inr \<lparr>Data = v, Timestamp = Timestamp new, Vector = Some mergedVC,
                        Region = Region new\<rparr>))
      | None \<Rightarrow> Inr (defaultStrategy e old new))"

section \<open>Bounded version histories\<close>

record 'a versioned_value =
  versions :: "'a mval list"
  limit :: int

definition NewVersionedValue :: "'a mval \<Rightarrow> int \<Rightarrow> 'a versioned_value" where
  "NewVersionedValue v lim = \<lparr>versions = [] @ [v], limit = lim\<rparr>"

definition vv_Add :: "'a versioned_value \<Rightarrow> 'a mval \<Rightarrow> 'a versioned_value" where
  "vv_Add v val =
     (let vs = versions v @ [val]
      in if limit v > 0 \<and> int (length vs) > limit v
         then v\<lparr>versions := drop (nat (int (length vs) - limit v)) vs\<rparr>
         else v\<lparr>versions := vs\<rparr>)"

definition vv_Latest :: "'a versioned_value \<Rightarrow> 'a mval option" where
  "vv_Latest v =
     (if length (versions v) = 0 then None
      else Some (versions v ! (length (versions v) - 1)))"

text \<open>The loop \<^verbatim>\<open>for i := len(v.versions) - 1; i >= 0; i--\<close>; the first argument is \<open>i + 1\<close>.\<close>

fun at_loop :: "nat \<Rightarrow> 'a mval list \<Rightarrow> time \<Rightarrow> 'a mval option" where
  "at_loop 0 vs t = None"
| "at_loop (Suc i) vs t =
     (if \<not> time_After (Timestamp (vs ! i)) t then Some (vs ! i) else at_loop i vs t)"

definition vv_At :: "'a versioned_value \<Rightarrow> time \<Rightarrow> 'a mval option" where
  "vv_At v t = at_loop (length (versions v)) (versions v) t"

section \<open>Vector clock laws\<close>

text \<open>The reference order: pointwise comparison of the counters.\<close>

definition vc_le :: "vclock \<Rightarrow> vclock \<Rightarrow> bool" where
  "vc_le a b \<longleftrightarrow> (\<forall>k. vc_get a k \<le> vc_get b k)"

lemma vc_get_put [simp]: "vc_get (gm_put vc k v) k' = (if k' = k then v else vc_get vc k')"
  by (simp add: vc_get_def)

lemma vc_get_Nil [simp]: "vc_get [] k = 0"
  by (simp add: vc_get_def)

lemma vc_get_Cons: "vc_get ((k, v) # vc) k' = (if k' = k then v else vc_get vc k')"
  by (simp add: vc_get_def)

lemma vc_get_notin: "k \<notin> fst ` set vc \<Longrightarrow> vc_get vc k = 0"
  by (simp add: vc_get_def map_of_eq_None_iff [THEN iffD2])

lemma vc_get_in: "gm_ok vc \<Longrightarrow> (k, v) \<in> set vc \<Longrightarrow> vc_get vc k = v"
  by (simp add: vc_get_def)

lemma vc_get_mem: "vc_get vc k \<noteq> 0 \<Longrightarrow> (k, vc_get vc k) \<in> set vc"
  by (auto simp: vc_get_def split: option.splits dest: map_of_SomeD)

lemma compare_own_eq:
  "compare_own vc other (g, s) =
     (g \<or> (\<exists>(k, v) \<in> set vc. v > vc_get other k), s \<or> (\<exists>(k, v) \<in> set vc. v < vc_get other k))"
  by (induction vc other "(g, s)" arbitrary: g s rule: compare_own.induct) (auto simp: Let_def)

lemma compare_missing_eq:
  "compare_missing other vc s \<longleftrightarrow> s \<or> (\<exists>(k, v) \<in> set other. gm_get vc k = None \<and> v > 0)"
  by (induction other vc s rule: compare_missing.induct) auto

lemma own_greater_iff:
  assumes "gm_ok vc"
  shows "(\<exists>(k, v) \<in> set vc. v > vc_get other k) \<longleftrightarrow> \<not> vc_le vc other"
proof
  assume "\<exists>(k, v) \<in> set vc. v > vc_get other k"
  then obtain k v where "(k, v) \<in> set vc" "v > vc_get other k" by blast
  with assms have "vc_get vc k > vc_get other k" by (simp add: vc_get_in)
  then show "\<not> vc_le vc other" by (auto simp: vc_le_def not_le)
next
  assume "\<not> vc_le vc other"
  then obtain k where k: "vc_get vc k > vc_get other k" by (auto simp: vc_le_def not_le)
  then have "vc_get vc k \<noteq> 0" by auto
  with k vc_get_mem show "\<exists>(k, v) \<in> set vc. v > vc_get other k" by blast
qed

lemma smaller_iff:
  assumes "gm_ok vc" "gm_ok other"
  shows "((\<exists>(k, v) \<in> set vc. v < vc_get other k) \<or>
          (\<exists>(k, v) \<in> set other. gm_get vc k = None \<and> v > 0)) \<longleftrightarrow> \<not> vc_le other vc"
    (is "?own \<or> ?missing \<longleftrightarrow> _")
proof
  assume "?own \<or> ?missing"
  then have "\<exists>k. vc_get vc k < vc_get other k"
  proof
    assume ?own
    then obtain k v where "(k, v) \<in> set vc" "v < vc_get other k" by blast
    with assms(1) show ?thesis by (intro exI [of _ k]) (simp add: vc_get_in)
  next
    assume ?missing
    then obtain k v where "(k, v) \<in> set other" "gm_get vc k = None" "v > 0" by blast
    with assms(2) show ?thesis by (intro exI [of _ k]) (simp add: vc_get_in, simp add: vc_get_def)
  qed
  then show "\<not> vc_le other vc" by (auto simp: vc_le_def not_le)
next
  assume "\<not> vc_le other vc"
  then obtain k where k: "vc_get vc k < vc_get other k" by (auto simp: vc_le_def not_le)
  then have mem: "(k, vc_get other k) \<in> set other" by (intro vc_get_mem) auto
  show "?own \<or> ?missing"
  proof (cases "gm_get vc k")
    case None
    with k mem show ?thesis by (auto simp: vc_get_def intro!: bexI [of _ "(k, vc_get other k)"])
  next
    case (Some v)
    then have "(k, v) \<in> set vc" "vc_get vc k = v" by (auto simp: vc_get_def dest: map_of_SomeD)
    with k show ?thesis by auto
  qed
qed

lemma vc_Compare_eq:
  assumes "gm_ok vc" "gm_ok other"
  shows "vc_Compare vc other =
    (if vc_le other vc then (if vc_le vc other then 0 else 1)
     else if vc_le vc other then -1 else -2)"
  using smaller_iff [OF assms] own_greater_iff [OF assms(1), of other]
  by (auto simp: vc_Compare_def compare_own_eq compare_missing_eq Let_def)

lemma gm_ok_vc_Merge [simp]: "gm_ok vc \<Longrightarrow> gm_ok (vc_Merge vc other)"
  by (induction vc other rule: vc_Merge.induct) auto

lemma vc_get_Merge:
  "gm_ok other \<Longrightarrow> vc_get (vc_Merge vc other) k = max (vc_get vc k) (vc_get other k)"
proof (induction vc other rule: vc_Merge.induct)
  case (1 vc)
  then show ?case by simp
next
  case (2 vc k' v other)
  from "2.prems" have "vc_get other k' = 0" by (simp add: vc_get_notin)
  with 2 show ?case by (cases "k = k'") (auto simp: vc_get_Cons max_def)
qed

lemma gm_ok_vc_copy_loop: "gm_ok n \<Longrightarrow> gm_ok (vc_copy_loop n vc)"
  by (induction n vc rule: vc_copy_loop.induct) auto

lemma gm_ok_vc_Copy [simp]: "gm_ok (vc_Copy v)"
  by (simp add: vc_Copy_def gm_ok_vc_copy_loop)

lemma gm_get_copy_loop:
  "gm_ok vc \<Longrightarrow>
   gm_get (vc_copy_loop n vc) k = (case gm_get vc k of None \<Rightarrow> gm_get n k | Some v \<Rightarrow> Some v)"
proof (induction n vc rule: vc_copy_loop.induct)
  case (1 n)
  then show ?case by simp
next
  case (2 n k' v rest)
  then have "gm_get rest k' = None" by (simp add: gm_get_None_iff)
  with 2 show ?case by (cases "k = k'") (simp_all split: option.splits)
qed

lemma vc_get_Copy: "gm_ok (vc_entries v) \<Longrightarrow> vc_get (vc_Copy v) k = vc_get (vc_entries v) k"
  by (simp add: vc_Copy_def gm_get_copy_loop vc_get_def split: option.splits)

section \<open>The strategy interface\<close>

text \<open>
  What the engine relies on in a \<^verbatim>\<open>Strategy\<close>: it picks one of the two values and
  merging a value with itself changes nothing.
\<close>

locale merge_strategy =
  fixes strat :: "'a strategy"
  assumes selective: "strat old new = old \<or> strat old new = new"
begin

lemma idem: "strat v v = v"
  using selective by blast

lemma engine_default_selective:
  assumes "defaultStrategy e = strat" and "custom e k = None"
  shows "engine_Merge e k old new = Inr old \<or> engine_Merge e k old new = Inr new"
  using assms selective by (auto simp: engine_Merge_def)

lemma fold_selects: "fold (\<lambda>new old. strat old new) vs v \<in> insert v (set vs)"
proof (induction vs arbitrary: v)
  case Nil
  then show ?case by simp
next
  case (Cons w vs)
  with selective [of v w] show ?case by fastforce
qed

end

interpretation lww: merge_strategy LastWriteWins
  by unfold_locales (auto simp: LastWriteWins_def Let_def)

lemma NewEngine_default [simp]: "defaultStrategy NewEngine = LastWriteWins"
  by (simp add: NewEngine_def)

section \<open>Histories\<close>

definition add_all :: "'a versioned_value \<Rightarrow> 'a mval list \<Rightarrow> 'a versioned_value" where
  "add_all = foldl vv_Add"

lemma limit_vv_Add [simp]: "limit (vv_Add v x) = limit v"
  by (simp add: vv_Add_def Let_def)

lemma versions_vv_Add:
  "versions (vv_Add v x) =
     (if limit v > 0 then drop (Suc (length (versions v)) - nat (limit v)) (versions v @ [x])
      else versions v @ [x])"
proof (cases "limit v > 0 \<and> int (Suc (length (versions v))) > limit v")
  case True
  then have "nat (int (Suc (length (versions v))) - limit v) = Suc (length (versions v)) - nat (limit v)"
    by linarith
  with True show ?thesis by (simp add: vv_Add_def Let_def)
next
  case False
  then show ?thesis by (auto simp: vv_Add_def Let_def)
qed

lemma versions_add_all:
  assumes "length (versions v) \<le> nat (limit v) \<or> limit v \<le> 0"
  shows "versions (add_all v xs) =
    (if limit v > 0 then drop (length (versions v) + length xs - nat (limit v)) (versions v @ xs)
     else versions v @ xs)"
  using assms
proof (induction xs arbitrary: v)
  case Nil
  then show ?case by (auto simp: add_all_def)
next
  case (Cons x xs)
  let ?n = "nat (limit v)" and ?d = "Suc (length (versions v)) - nat (limit v)"
  have step: "versions (add_all v (x # xs)) = versions (add_all (vv_Add v x) xs)"
    by (simp add: add_all_def)
  show ?case
  proof (cases "limit v > 0")
    case True
    have len: "length (versions (vv_Add v x)) = Suc (length (versions v)) - ?d"
      using True by (simp add: versions_vv_Add)
    have vs: "versions (vv_Add v x) @ xs = drop ?d (versions v @ x # xs)"
      using True Cons.prems by (auto simp: versions_vv_Add)
    have le: "length (versions v) \<le> ?n" using Cons.prems True by auto
    let ?m = "length (versions (vv_Add v x)) + length xs - ?n"
    have m: "?m + ?d = length (versions v) + length (x # xs) - ?n"
      using le by (cases "length (versions v) = ?n") (simp_all add: len)
    have "versions (add_all v (x # xs)) = drop ?m (versions (vv_Add v x) @ xs)"
      using Cons.IH [of "vv_Add v x"] len True step by simp
    also have "\<dots> = drop (length (versions v) + length (x # xs) - ?n) (versions v @ x # xs)"
      by (simp only: vs drop_drop m)
    finally show ?thesis by (simp only: True if_True)
  next
    case False
    with Cons.IH [of "vv_Add v x"] step show ?thesis by (simp add: versions_vv_Add)
  qed
qed

lemma at_loop_None: "at_loop i vs t = None \<longleftrightarrow> (\<forall>j < i. Timestamp (vs ! j) > t)"
  by (induction i) (auto simp: time_After_def less_Suc_eq)

lemma at_loop_Some:
  "at_loop i vs t = Some w \<Longrightarrow>
   \<exists>j < i. w = vs ! j \<and> Timestamp w \<le> t \<and> (\<forall>k < i. j < k \<longrightarrow> Timestamp (vs ! k) > t)"
proof (induction i)
  case 0
  then show ?case by simp
next
  case (Suc i)
  show ?case
  proof (cases "Timestamp (vs ! i) \<le> t")
    case True
    with Suc.prems show ?thesis by (intro exI [of _ i]) (auto simp: time_After_def)
  next
    case False
    with Suc obtain j where j: "j < i" "w = vs ! j" "Timestamp w \<le> t"
      "\<forall>k < i. j < k \<longrightarrow> Timestamp (vs ! k) > t" by (auto simp: time_After_def)
    with False show ?thesis by (intro exI [of _ j]) (auto simp: less_Suc_eq)
  qed
qed

section \<open>Properties\<close>

text \<open>
  C30. \<open>Compare\<close> decides the pointwise order of two vector clocks: it answers 1
  exactly when the receiver dominates, -1 exactly when it is dominated, 0
  exactly when all counters agree and -2 exactly when the clocks are concurrent,
  whatever the iteration order of the two maps and whether or not zero counters
  are stored.
\<close>

theorem vc_Compare_decides_order:
  assumes "gm_ok vc" and "gm_ok other"
  shows "(vc_Compare vc other = 1 \<longleftrightarrow> vc_le other vc \<and> \<not> vc_le vc other) \<and>
         (vc_Compare vc other = -1 \<longleftrightarrow> vc_le vc other \<and> \<not> vc_le other vc) \<and>
         (vc_Compare vc other = 0 \<longleftrightarrow> (\<forall>k. vc_get vc k = vc_get other k)) \<and>
         (vc_Compare vc other = -2 \<longleftrightarrow> \<not> vc_le vc other \<and> \<not> vc_le other vc)"
proof -
  have "(\<forall>k. vc_get vc k = vc_get other k) \<longleftrightarrow> vc_le vc other \<and> vc_le other vc"
    by (auto simp: vc_le_def intro: order.antisym)
  then show ?thesis by (simp add: vc_Compare_eq [OF assms])
qed

theorem vc_Compare_decides_order_witness:
  "vc_Compare [(''eu'', 2), (''us'', 1)] [(''us'', 1)] = 1 \<and>
   vc_Compare [(''eu'', 2)] [(''us'', 1)] = -2"
proof -
  have "vc_le [(''us'', 1)] [(''eu'', 2), (''us'', 1)] \<and>
        \<not> vc_le [(''eu'', 2), (''us'', 1)] [(''us'', 1)]"
    by (auto simp: vc_le_def vc_get_Cons intro!: exI [of _ "''eu''"])
  moreover have "\<not> vc_le [(''eu'', 2)] [(''us'', 1)] \<and> \<not> vc_le [(''us'', 1)] [(''eu'', 2)]"
    by (auto simp: vc_le_def vc_get_Cons intro: exI [of _ "''eu''"] exI [of _ "''us''"])
  ultimately show ?thesis
    using vc_Compare_decides_order [of "[(''eu'', 2), (''us'', 1)]" "[(''us'', 1)]"]
      vc_Compare_decides_order [of "[(''eu'', 2)]" "[(''us'', 1)]"]
    by simp
qed

text \<open>
  A successful custom merge joins the clocks of its inputs: the clock of the
  result is the least clock above both, so no later comparison can rank either
  input above the merged value.
\<close>

theorem engine_Merge_joins_clocks:
  assumes "custom e k = Some fn" and "engine_Merge e k old new = Inr m"
    and "gm_ok (vc_entries (Vector old))" and "gm_ok (vc_entries (Vector new))"
  shows "vc_le (vc_entries (Vector old)) (vc_entries (Vector m)) \<and>
         vc_le (vc_entries (Vector new)) (vc_entries (Vector m)) \<and>
         (\<forall>u. vc_le (vc_entries (Vector old)) u \<and> vc_le (vc_entries (Vector new)) u \<longrightarrow>
              vc_le (vc_entries (Vector m)) u) \<and>
         fn (Data old) (Data new) = Inr (Data m) \<and> Timestamp m = Timestamp new"
  using assms
  by (auto simp: engine_Merge_def vc_entries_def [of "Some _"] Let_def vc_le_def vc_get_Merge
      vc_get_Copy split: sum.splits)

theorem engine_Merge_joins_clocks_witness:
  "let e = engine_Register NewEngine ''n'' (\<lambda>a b. Inr (a + b));
       old = \<lparr>Data = 1 :: int, Timestamp = 5, Vector = Some [(''eu'', 3)], Region = ''eu''\<rparr>;
       new = \<lparr>Data = 2, Timestamp = 4, Vector = Some [(''us'', 7)], Region = ''us''\<rparr>
   in \<exists>m. engine_Merge e ''n'' old new = Inr m \<and> Data m = 3 \<and>
          vc_le [(''eu'', 3)] (vc_entries (Vector m))"
  using engine_Merge_joins_clocks
    [of "engine_Register NewEngine ''n'' (\<lambda>a b. Inr (a + b))" "''n''" "\<lambda>a b. Inr (a + b)"
      "\<lparr>Data = 1 :: int, Timestamp = 5, Vector = Some [(''eu'', 3)], Region = ''eu''\<rparr>"
      "\<lparr>Data = 2, Timestamp = 4, Vector = Some [(''us'', 7)], Region = ''us''\<rparr>"]
  by (auto simp: engine_Register_def engine_Merge_def vc_entries_def Let_def)

text \<open>
  Of two values that carry vector clocks, \<open>LastWriteWins\<close> keeps the causally
  newer one, and the one with the later timestamp when neither clock strictly
  dominates.
\<close>

theorem LastWriteWins_respects_causality:
  assumes "Vector old = Some ov" and "Vector new = Some nv" and "gm_ok ov" and "gm_ok nv"
  shows "(vc_le ov nv \<and> \<not> vc_le nv ov \<longrightarrow> LastWriteWins old new = new) \<and>
         (vc_le nv ov \<and> \<not> vc_le ov nv \<longrightarrow> LastWriteWins old new = old) \<and>
         (vc_le nv ov = vc_le ov nv \<longrightarrow>
            Timestamp (LastWriteWins old new) = max (Timestamp old) (Timestamp new))"
  using assms by (auto simp: LastWriteWins_def Let_def vc_Compare_eq time_After_def)

theorem LastWriteWins_respects_causality_witness:
  "LastWriteWins
     \<lparr>Data = ''new'', Timestamp = 1, Vector = Some [(''eu'', 2)], Region = ''eu''\<rparr>
     \<lparr>Data = ''old'', Timestamp = 9, Vector = Some [(''eu'', 1)], Region = ''eu''\<rparr> =
   \<lparr>Data = ''new'', Timestamp = 1, Vector = Some [(''eu'', 2)], Region = ''eu''\<rparr>"
proof -
  have "vc_le [(''eu'', 1)] [(''eu'', 2)] \<and> \<not> vc_le [(''eu'', 2)] [(''eu'', 1)]"
    by (auto simp: vc_le_def vc_get_Cons word_le_nat_alt intro!: exI [of _ "''eu''"])
  then show ?thesis
    using LastWriteWins_respects_causality
      [of "\<lparr>Data = ''new'', Timestamp = 1, Vector = Some [(''eu'', 2)], Region = ''eu''\<rparr>"
        "[(''eu'', 2)]"
        "\<lparr>Data = ''old'', Timestamp = 9, Vector = Some [(''eu'', 1)], Region = ''eu''\<rparr>"
        "[(''eu'', 1)]"]
    by simp
qed

text \<open>
  Because clock dominance is consulted before the timestamp,
  \<open>LastWriteWins\<close> is not the order by timestamp: there are three writes with
  distinct timestamps that two replicas fold in different orders into different
  values, and the later of two writes can lose.
\<close>

theorem LastWriteWins_order_dependent:
  "\<exists>a b c :: string mval.
     distinct [Timestamp a, Timestamp b, Timestamp c] \<and>
     LastWriteWins (LastWriteWins a b) c \<noteq> LastWriteWins (LastWriteWins c a) b \<and>
     Timestamp a > Timestamp b \<and> LastWriteWins b a = b"
proof -
  let ?a = "\<lparr>Data = ''a'', Timestamp = 3, Vector = Some [(''x'', 1)], Region = ''x''\<rparr>"
  let ?b = "\<lparr>Data = ''b'', Timestamp = 1, Vector = Some [(''x'', 2)], Region = ''x''\<rparr>"
  let ?c = "\<lparr>Data = ''c'', Timestamp = 2, Vector = Some [(''y'', 1)], Region = ''y''\<rparr>"
  have "LastWriteWins ?a ?b = ?b" "LastWriteWins ?b ?c = ?c" "LastWriteWins ?c ?a = ?a"
    "LastWriteWins ?b ?a = ?b"
    by (simp_all add: LastWriteWins_def vc_Compare_def vc_get_def Let_def time_After_def)
  then show ?thesis by (intro exI [of _ ?a] exI [of _ ?b] exI [of _ ?c]) simp
qed

text \<open>
  After any sequence of \<open>Add\<close> calls a history with a positive limit holds
  exactly the last \<open>limit\<close> of the values it was given, in order, and an unlimited
  history holds all of them.
\<close>

theorem history_keeps_recent:
  "versions (add_all (NewVersionedValue x n) xs) =
     (if n > 0 then drop (Suc (length xs) - nat n) (x # xs) else x # xs)"
  using versions_add_all [of "NewVersionedValue x n" xs] by (auto simp: NewVersionedValue_def)

text \<open>
  On a history whose timestamps do not decrease, \<open>At t\<close> is the point-in-time
  read: a version not after \<open>t\<close> with the greatest timestamp among those, and none
  only when every version is after \<open>t\<close>.
\<close>

theorem vv_At_point_in_time:
  assumes "sorted (map Timestamp (versions v))"
  shows "case vv_At v t of
     None \<Rightarrow> (\<forall>w \<in> set (versions v). Timestamp w > t)
   | Some w \<Rightarrow> w \<in> set (versions v) \<and> Timestamp w \<le> t \<and>
       (\<forall>u \<in> set (versions v). Timestamp u \<le> t \<longrightarrow> Timestamp u \<le> Timestamp w)"
proof (cases "vv_At v t")
  case None
  then have "\<forall>w \<in> set (versions v). Timestamp w > t"
    by (auto simp: vv_At_def at_loop_None in_set_conv_nth)
  with None show ?thesis by simp
next
  case (Some w)
  then obtain j where j: "j < length (versions v)" "w = versions v ! j" "Timestamp w \<le> t"
    "\<forall>k < length (versions v). j < k \<longrightarrow> Timestamp (versions v ! k) > t"
    by (auto simp: vv_At_def dest: at_loop_Some)
  have "Timestamp u \<le> Timestamp w" if u: "u \<in> set (versions v)" "Timestamp u \<le> t" for u
  proof -
    from u obtain k where k: "k < length (versions v)" "u = versions v ! k"
      by (auto simp: in_set_conv_nth)
    with u j(4) have "k \<le> j" by (meson leD leI)
    with assms j k show ?thesis by (auto dest: sorted_nth_mono)
  qed
  with Some j show ?thesis by auto
qed

theorem vv_At_point_in_time_witness:
  "let h = add_all (NewVersionedValue \<lparr>Data = ''a'', Timestamp = 1, Vector = None, Region = []\<rparr> 3)
             [\<lparr>Data = ''b'', Timestamp = 5, Vector = None, Region = []\<rparr>]
   in map_option Data (vv_At h 4) = Some ''a'' \<and> sorted (map Timestamp (versions h))"
  using vv_At_point_in_time
    [of "add_all (NewVersionedValue \<lparr>Data = ''a'', Timestamp = 1, Vector = None, Region = []\<rparr> 3)
             [\<lparr>Data = ''b'', Timestamp = 5, Vector = None, Region = []\<rparr>]" 4]
  by (simp add: add_all_def NewVersionedValue_def vv_Add_def vv_At_def time_After_def
      split: option.splits)

end
