(* ===== verification/Cache_Api.thy ===== *)
theory Cache_Api
  imports Warp_Prelude
begin

text \<open>
  The \<^verbatim>\<open>Cache\<close> interface of package cache (src/cache/cache.go): a value of the
  interface type is the record of its three methods over the state of the
  implementation.

  A cache may forget an entry at any time (eviction, expiry), so its contract is
  one of coherence. \<open>coh c M\<close> says that the cache answers a lookup of key \<open>k\<close> only
  with values admitted by \<open>M k\<close>. \<open>cache_base\<close> is what every implementation gives,
  \<open>cache_contract\<close> adds that a reported success is one: after a successful store
  only the stored value is admissible, after a successful invalidation none is.
  \<open>cache_view\<close> is the same contract for a cache whose entries are a map.
\<close>

text \<open>Forgetting is a preorder compatible with updates; shared by every interpretation.\<close>

lemma map_le_upd_mono: "m \<subseteq>\<^sub>m n \<Longrightarrow> m(k := v) \<subseteq>\<^sub>m n(k := v)"
  by (auto simp: map_le_def)

lemma map_le_del: "m(k := None) \<subseteq>\<^sub>m m"
  by (auto simp: map_le_def)

lemma map_leI: "(\<And>k v. m k = Some v \<Longrightarrow> n k = Some v) \<Longrightarrow> m \<subseteq>\<^sub>m n"
  by (auto simp: map_le_def)

lemma map_leD: "m \<subseteq>\<^sub>m n \<Longrightarrow> m k = Some v \<Longrightarrow> n k = Some v"
  by (metis domI map_le_def)

record ('c, 'v) cache_ops =
  cGet :: "ctx \<Rightarrow> clock \<Rightarrow> key \<Rightarrow> 'c \<Rightarrow> (go_error + 'v option) \<times> 'c"
  cSet :: "ctx \<Rightarrow> clock \<Rightarrow> key \<Rightarrow> 'v \<Rightarrow> duration \<Rightarrow> 'c \<Rightarrow> go_error option \<times> 'c"
  cInvalidate :: "ctx \<Rightarrow> clock \<Rightarrow> key \<Rightarrow> 'c \<Rightarrow> go_error option \<times> 'c"

text \<open>A call of a cache method, and a sequence of calls, each under its own context and clock.\<close>

datatype 'v cache_call =
    CallGet ctx clock key
  | CallSet ctx clock key 'v duration
  | CallInvalidate ctx clock key

fun run_call :: "('c, 'v) cache_ops \<Rightarrow> 'c \<Rightarrow> 'v cache_call \<Rightarrow> 'c" where
  "run_call ops c (CallGet ctx clk k) = snd (cGet ops ctx clk k c)"
| "run_call ops c (CallSet ctx clk k v ttl) = snd (cSet ops ctx clk k v ttl c)"
| "run_call ops c (CallInvalidate ctx clk k) = snd (cInvalidate ops ctx clk k c)"

fun stored_by :: "'v cache_call \<Rightarrow> key \<Rightarrow> 'v set" where
  "stored_by (CallSet ctx clk k' v ttl) k = (if k' = k then {v} else {})"
| "stored_by _ k = {}"

locale cache_base =
  fixes ops :: "('c, 'v) cache_ops"
    and coh :: "'c \<Rightarrow> (key \<Rightarrow> 'v set) \<Rightarrow> bool"
  assumes coh_mono: "coh c M \<Longrightarrow> (\<And>k. M k \<subseteq> N k) \<Longrightarrow> coh c N"
    and get_sound: "coh c M \<Longrightarrow> cGet ops ctx clk k c = (Inr (Some v), c') \<Longrightarrow> v \<in> M k"
    and get_coh: "coh c M \<Longrightarrow> cGet ops ctx clk k c = (r, c') \<Longrightarrow> coh c' M"
    and set_coh: "coh c M \<Longrightarrow> cSet ops ctx clk k v ttl c = (e, c') \<Longrightarrow> coh c' (M(k := insert v (M k)))"
    and invalidate_coh: "coh c M \<Longrightarrow> cInvalidate ops ctx clk k c = (e, c') \<Longrightarrow> coh c' M"

context cache_base
begin

lemma call_coh: "coh c M \<Longrightarrow> coh (run_call ops c x) (\<lambda>k. M k \<union> stored_by x k)"
proof (cases x)
  case (CallSet ctx clk k v ttl)
  assume "coh c M"
  then have "coh (run_call ops c x) (M(k := insert v (M k)))"
    unfolding CallSet run_call.simps by (rule set_coh) (rule prod.collapse [symmetric])
  then show ?thesis by (rule coh_mono) (auto simp: CallSet)
qed (auto intro: get_coh invalidate_coh prod.collapse [symmetric])

lemma calls_coh: "coh c M \<Longrightarrow> coh (foldl (run_call ops) c xs) (\<lambda>k. M k \<union> (\<Union>x \<in> set xs. stored_by x k))"
proof (induction xs arbitrary: c M)
  case (Cons x xs)
  from Cons.IH [OF call_coh [OF Cons.prems, of x]] show ?case by (simp add: Un_assoc)
qed simp

end

locale cache_contract = cache_base +
  assumes set_ok: "coh c M \<Longrightarrow> cSet ops ctx clk k v ttl c = (None, c') \<Longrightarrow> coh c' (M(k := {v}))"
    and invalidate_ok: "coh c M \<Longrightarrow> cInvalidate ops ctx clk k c = (None, c') \<Longrightarrow> coh c' (M(k := {}))"
begin

lemma get_after_set:
  assumes "coh c M" and "cSet ops ctx clk k v ttl c = (None, c1)"
    and "cGet ops ctx' clk' k c1 = (Inr (Some w), c2)"
  shows "w = v"
  using get_sound [OF set_ok [OF assms(1,2)] assms(3)] by simp

lemma get_after_set_calls:
  assumes "coh c M" and "cSet ops ctx clk k v ttl c = (None, c1)"
    and "\<forall>x \<in> set xs. stored_by x k \<subseteq> {v}"
    and "cGet ops ctx' clk' k (foldl (run_call ops) c1 xs) = (Inr (Some w), c2)"
  shows "w = v"
  using get_sound [OF calls_coh [OF set_ok [OF assms(1,2)]] assms(4)] assms(3) by auto

lemma get_after_invalidate:
  assumes "coh c M" and "cInvalidate ops ctx clk k c = (None, c1)"
    and "cGet ops ctx' clk' k c1 = (Inr r, c2)"
  shows "r = None"
  using get_sound [OF invalidate_ok [OF assms(1,2)], of ctx' clk' k] assms(3) by (cases r) auto

end

text \<open>\<open>view c k\<close> is the value the cache holds for a key, expired or not.\<close>

definition admits :: "(key \<Rightarrow> 'v option) \<Rightarrow> (key \<Rightarrow> 'v set) \<Rightarrow> bool" where
  "admits m M \<longleftrightarrow> (\<forall>k v. m k = Some v \<longrightarrow> v \<in> M k)"

lemma admits_le: "admits n M \<Longrightarrow> m \<subseteq>\<^sub>m n \<Longrightarrow> admits m M"
  by (auto simp: admits_def dest: map_leD)

lemma admits_upd: "admits m M \<Longrightarrow> admits (m(k \<mapsto> v)) (M(k := {v}))"
  by (auto simp: admits_def)

lemma admits_del: "admits m M \<Longrightarrow> admits (m(k := None)) (M(k := {}))"
  by (auto simp: admits_def)

lemma admits_mono: "admits m M \<Longrightarrow> (\<And>k. M k \<subseteq> N k) \<Longrightarrow> admits m N"
  by (auto simp: admits_def)

locale cache_view =
  fixes ops :: "('c, 'v) cache_ops"
    and view :: "'c \<Rightarrow> key \<Rightarrow> 'v option"
    and invar :: "'c \<Rightarrow> bool"
  assumes get_sound:
      "invar c \<Longrightarrow> cGet ops ctx clk k c = (Inr (Some v), c') \<Longrightarrow> view c k = Some v"
    and get_forgets: "invar c \<Longrightarrow> cGet ops ctx clk k c = (r, c') \<Longrightarrow> view c' \<subseteq>\<^sub>m view c"
    and set_forgets:
      "invar c \<Longrightarrow> cSet ops ctx clk k v ttl c = (None, c') \<Longrightarrow> view c' \<subseteq>\<^sub>m (view c)(k \<mapsto> v)"
    and set_error:
      "invar c \<Longrightarrow> cSet ops ctx clk k v ttl c = (Some e, c') \<Longrightarrow>
         view c' \<subseteq>\<^sub>m view c \<or> view c' \<subseteq>\<^sub>m (view c)(k \<mapsto> v)"
    and invalidate_removes:
      "invar c \<Longrightarrow> cInvalidate ops ctx clk k c = (None, c') \<Longrightarrow> view c' \<subseteq>\<^sub>m (view c)(k := None)"
    and invalidate_error:
      "invar c \<Longrightarrow> cInvalidate ops ctx clk k c = (Some e, c') \<Longrightarrow> view c' \<subseteq>\<^sub>m view c"
    and invar_get: "invar c \<Longrightarrow> invar (snd (cGet ops ctx clk k c))"
    and invar_set: "invar c \<Longrightarrow> invar (snd (cSet ops ctx clk k v ttl c))"
    and invar_invalidate: "invar c \<Longrightarrow> invar (snd (cInvalidate ops ctx clk k c))"

sublocale cache_view \<subseteq> entries: cache_contract ops "\<lambda>c M. invar c \<and> admits (view c) M"
proof (standard, goal_cases)
  case (1 c M N)
  then show ?case by (blast intro: admits_mono)
next
  case (2 c M ctx clk k v c')
  then show ?case using get_sound by (fastforce simp: admits_def)
next
  case (3 c M ctx clk k r c')
  then show ?case using get_forgets [of c] invar_get [of c ctx clk k] by (auto intro: admits_le)
next
  case (4 c M ctx clk k v ttl e c')
  have "admits (view c') (M(k := insert v (M k)))" if "view c' \<subseteq>\<^sub>m (view c)(k \<mapsto> v) \<or> view c' \<subseteq>\<^sub>m view c"
    using that
  proof
    assume "view c' \<subseteq>\<^sub>m (view c)(k \<mapsto> v)"
    then have "admits (view c') (M(k := {v}))" using 4 by (blast intro: admits_le admits_upd)
    then show ?thesis by (rule admits_mono) simp
  next
    assume "view c' \<subseteq>\<^sub>m view c"
    then have "admits (view c') M" using 4 by (blast intro: admits_le)
    then show ?thesis by (rule admits_mono) auto
  qed
  moreover have "view c' \<subseteq>\<^sub>m (view c)(k \<mapsto> v) \<or> view c' \<subseteq>\<^sub>m view c"
    using 4 set_forgets [of c ctx clk k v ttl c'] set_error [of c ctx clk k v ttl _ c'] by (cases e) auto
  ultimately show ?case using 4 invar_set [of c ctx clk k v ttl] by simp
next
  case (5 c M ctx clk k e c')
  then show ?case
    using invalidate_removes [of c ctx clk k c'] invalidate_error [of c ctx clk k _ c'] invar_invalidate [of c ctx clk k]
      map_le_trans [OF _ map_le_del, of "view c'" "view c" k] by (cases e) (auto intro: admits_le)
next
  case (6 c M ctx clk k v ttl c')
  then show ?case using set_forgets [of c] invar_set [of c ctx clk k v ttl] by (auto intro: admits_le admits_upd)
next
  case (7 c M ctx clk k c')
  then show ?case
    using invalidate_removes [of c] invar_invalidate [of c ctx clk k] by (auto intro: admits_le admits_del)
qed

end
