(* ===== verification/Warp_LRU.thy ===== *)
theory Warp_LRU
  imports Cache_Api
begin

text \<open>
  The in-memory cache (src/cache/cache.go), which is also the LRU cache of
  src/cache/lru.go: a map of items with expiry and size, a recency list, entry
  and memory limits, and the background sweeper.

  \<^verbatim>\<open>container/list\<close> is a list of keys, front first; an item's \<^verbatim>\<open>element\<close> is the list
  cell that carries its key, so removing or moving the element is removing or
  moving the key. \<^verbatim>\<open>currentMemory\<close> is an atomic \<^verbatim>\<open>int64\<close> and wraps. Of the Prometheus
  metrics the number of \<^verbatim>\<open>evictionCounter.Inc\<close> calls is kept (\<^const>\<open>None\<close> when metrics
  are off); tracing, latency and the counters that repeat \<open>hits\<close> and \<open>misses\<close>
  are write-only and left out.
\<close>

section \<open>Sizes\<close>

text \<open>The dynamic types \<^verbatim>\<open>EstimateSize\<close> distinguishes; \<open>DOther\<close> carries \<^verbatim>\<open>unsafe.Sizeof\<close>.\<close>

datatype go_dyn =
    DSizer int | DString string | DBytes "byte list"
  | DInt | DUint | DInt64 | DUint64 | DFloat64 | DComplex128
  | DInt32 | DUint32 | DFloat32 | DInt16 | DUint16 | DInt8 | DUint8 | DBool
  | DOther nat

fun EstimateSize :: "go_dyn \<Rightarrow> int" where
  "EstimateSize (DSizer n) = n"
| "EstimateSize (DString s) = int (length s)"
| "EstimateSize (DBytes b) = int (length b)"
| "EstimateSize DInt = 8"
| "EstimateSize DUint = 8"
| "EstimateSize DInt64 = 8"
| "EstimateSize DUint64 = 8"
| "EstimateSize DFloat64 = 8"
| "EstimateSize DComplex128 = 8"
| "EstimateSize DInt32 = 4"
| "EstimateSize DUint32 = 4"
| "EstimateSize DFloat32 = 4"
| "EstimateSize DInt16 = 2"
| "EstimateSize DUint16 = 2"
| "EstimateSize DInt8 = 1"
| "EstimateSize DUint8 = 1"
| "EstimateSize DBool = 1"
| "EstimateSize (DOther n) = int n"

section \<open>State and options\<close>

record 'v item =
  val :: 'v
  isize :: int
  expiresAt :: time

record 'v lru =
  items :: "'v item gomap"
  order :: "key list"
  hits :: u64
  misses :: u64
  sweepInterval :: duration
  maxEntries :: int
  maxMemory :: int
  currentMemory :: int
  evictionCounter :: "nat option"

type_synonym 'v lru_option = "'v lru \<Rightarrow> 'v lru"

definition WithSweepInterval :: "duration \<Rightarrow> 'v lru_option" where
  "WithSweepInterval d c = c\<lparr>sweepInterval := d\<rparr>"

definition WithMaxEntries :: "int \<Rightarrow> 'v lru_option" where
  "WithMaxEntries n c = c\<lparr>maxEntries := n\<rparr>"

definition WithMaxMemory :: "int \<Rightarrow> 'v lru_option" where
  "WithMaxMemory n c = c\<lparr>maxMemory := n\<rparr>"

definition WithMetrics :: "'v lru_option" where
  "WithMetrics c = c\<lparr>evictionCounter := Some 0\<rparr>"

definition defaultSweepInterval :: duration where
  "defaultSweepInterval = 60 * 10 ^ 9"

definition NewInMemory :: "'v lru_option list \<Rightarrow> 'v lru" where
  "NewInMemory opts =
     fold (\<lambda>opt c. opt c) opts
       \<lparr>items = [], order = [], hits = 0, misses = 0, sweepInterval = defaultSweepInterval,
        maxEntries = 0, maxMemory = 0, currentMemory = 0, evictionCounter = None\<rparr>"

section \<open>Operations\<close>

definition expired :: "time \<Rightarrow> 'v item \<Rightarrow> bool" where
  "expired now it \<longleftrightarrow> \<not> time_IsZero (expiresAt it) \<and> time_After now (expiresAt it)"

definition eviction_inc :: "'v lru \<Rightarrow> 'v lru" where
  "eviction_inc c = c\<lparr>evictionCounter := map_option Suc (evictionCounter c)\<rparr>"

text \<open>Removing an item: its list element, its map entry and its share of the memory.\<close>

definition drop_item :: "key \<Rightarrow> 'v item \<Rightarrow> 'v lru \<Rightarrow> 'v lru" where
  "drop_item k it c =
     c\<lparr>order := remove1 k (order c), items := gm_del (items c) k,
       currentMemory := wrap64 (currentMemory c - isize it)\<rparr>"

definition lru_Get :: "ctx \<Rightarrow> clock \<Rightarrow> key \<Rightarrow> 'v lru \<Rightarrow> (go_error + 'v option) \<times> 'v lru" where
  "lru_Get ctx clk k c =
     (case ctx (clk 0) of
        Some e \<Rightarrow> (Inl e, c)
      | None \<Rightarrow>
          (case gm_get (items c) k of
             None \<Rightarrow> (Inr None, c\<lparr>misses := misses c + 1\<rparr>)
           | Some it \<Rightarrow>
               if expired (clk 1) it then
                 (let c1 = drop_item k it c
                  in (Inr None, eviction_inc (c1\<lparr>misses := misses c1 + 1\<rparr>)))
               else
                 (let c1 = c\<lparr>order := k # remove1 k (order c)\<rparr>
                  in case ctx (clk 2) of
                       Some e \<Rightarrow> (Inl e, c1)
                     | None \<Rightarrow> (Inr (Some (val it)), c1\<lparr>hits := hits c1 + 1\<rparr>))))"

text \<open>Evicting the back of the recency list.\<close>

definition evict_tail :: "'v lru \<Rightarrow> 'v lru" where
  "evict_tail c =
     (if order c = [] then c
      else let k = last (order c); c1 = c\<lparr>order := butlast (order c)\<rparr>
           in case gm_get (items c1) k of
                None \<Rightarrow> c1
              | Some it \<Rightarrow>
                  eviction_inc (c1\<lparr>currentMemory := wrap64 (currentMemory c1 - isize it),
                                   items := gm_del (items c1) k\<rparr>))"

lemma order_evict_tail [simp]: "order (evict_tail c) = butlast (order c)"
  by (auto simp: evict_tail_def eviction_inc_def Let_def split: option.splits)

function evict_memory :: "'v lru \<Rightarrow> 'v lru" where
  "evict_memory c =
     (if currentMemory c > maxMemory c
      then if order c = [] then c else evict_memory (evict_tail c)
      else c)"
  by pat_completeness auto
termination
  by (relation "measure (\<lambda>c. length (order c))") auto

declare evict_memory.simps [simp del]

lemma evict_memory_done: "currentMemory c \<le> maxMemory c \<Longrightarrow> evict_memory c = c"
  by (subst evict_memory.simps) simp

lemma evict_memory_empty: "order c = [] \<Longrightarrow> evict_memory c = c"
  by (subst evict_memory.simps) simp

lemma evict_memory_step:
  "currentMemory c > maxMemory c \<Longrightarrow> order c \<noteq> [] \<Longrightarrow> evict_memory c = evict_memory (evict_tail c)"
  by (subst evict_memory.simps) simp

definition store_item :: "key \<Rightarrow> 'v \<Rightarrow> int \<Rightarrow> time \<Rightarrow> 'v lru \<Rightarrow> 'v lru" where
  "store_item k v sz ex c =
     (case gm_get (items c) k of
        Some it \<Rightarrow>
          c\<lparr>currentMemory := wrap64 (currentMemory c + wrap64 (sz - isize it)),
            items := gm_put (items c) k (it\<lparr>val := v, isize := sz, expiresAt := ex\<rparr>),
            order := k # remove1 k (order c)\<rparr>
      | None \<Rightarrow>
          c\<lparr>currentMemory := wrap64 (currentMemory c + sz),
            order := k # order c,
            items := gm_put (items c) k \<lparr>val = v, isize = sz, expiresAt = ex\<rparr>\<rparr>)"

definition enforce_entries :: "'v lru \<Rightarrow> 'v lru" where
  "enforce_entries c =
     (if maxEntries c > 0 \<and> int (length (items c)) > maxEntries c then evict_tail c else c)"

definition enforce_memory :: "'v lru \<Rightarrow> 'v lru" where
  "enforce_memory c = (if maxMemory c > 0 then evict_memory c else c)"

definition lru_Set ::
    "('v \<Rightarrow> int) \<Rightarrow> ctx \<Rightarrow> clock \<Rightarrow> key \<Rightarrow> 'v \<Rightarrow> duration \<Rightarrow> 'v lru \<Rightarrow> go_error option \<times> 'v lru" where
  "lru_Set est ctx clk k v ttl c =
     (case ctx (clk 0) of
        Some e \<Rightarrow> (Some e, c)
      | None \<Rightarrow>
          (let ex = (if ttl > 0 then time_Add (clk 1) ttl else 0)
           in case ctx (clk 2) of
                Some e \<Rightarrow> (Some e, c)
              | None \<Rightarrow>
                  (None, enforce_memory (enforce_entries (store_item k v (est v) ex c)))))"

definition lru_Invalidate :: "ctx \<Rightarrow> clock \<Rightarrow> key \<Rightarrow> 'v lru \<Rightarrow> go_error option \<times> 'v lru" where
  "lru_Invalidate ctx clk k c =
     (case ctx (clk 0) of
        Some e \<Rightarrow> (Some e, c)
      | None \<Rightarrow>
          (case ctx (clk 1) of
             Some e \<Rightarrow> (Some e, c)
           | None \<Rightarrow>
               (case gm_get (items c) k of
                  None \<Rightarrow> (None, c)
                | Some it \<Rightarrow> (None, eviction_inc (drop_item k it c)))))"

text \<open>
  The sweeper. One pass visits the items in the order the map iteration yields
  them, at most \<open>sampleSize\<close> of them; \<open>visit\<close> is that order, of which the keys no
  longer present are not visited. A pass that expired at least
  \<open>sampleSize * evictionRatio\<close> items (20 * 0.25 = 5) is repeated at once.
\<close>

definition sampleSize :: nat where "sampleSize = 20"

fun sweep_pass :: "time \<Rightarrow> key list \<Rightarrow> nat \<Rightarrow> nat \<Rightarrow> 'v lru \<Rightarrow> nat \<times> 'v lru" where
  "sweep_pass now [] checked expd c = (expd, c)"
| "sweep_pass now (k # ks) checked expd c =
     (case gm_get (items c) k of
        None \<Rightarrow> sweep_pass now ks checked expd c
      | Some it \<Rightarrow>
          (let (expd1, c1) =
             (if expired now it then (Suc expd, eviction_inc (drop_item k it c)) else (expd, c))
           in if Suc checked \<ge> sampleSize then (expd1, c1)
              else sweep_pass now ks (Suc checked) expd1 c1))"

lemma sweep_pass_length:
  "sweep_pass now ks ch e c = (e', c') \<Longrightarrow> length (items c') + e' \<le> length (items c) + e"
proof (induction now ks ch e c rule: sweep_pass.induct)
  case (2 now k ks ch e c)
  show ?case
  proof (cases "gm_get (items c) k")
    case None
    with 2 show ?thesis by simp
  next
    case (Some it)
    with length_gm_del_less [of "items c" k]
    have "length (items (eviction_inc (drop_item k it c))) < length (items c)"
      by (simp add: eviction_inc_def drop_item_def)
    with 2 Some show ?thesis by (fastforce simp: Let_def split: if_splits)
  qed
qed simp

function sweep :: "clock \<Rightarrow> (nat \<Rightarrow> key list) \<Rightarrow> nat \<Rightarrow> 'v lru \<Rightarrow> 'v lru" where
  "sweep clk visit i c =
     (if items c = [] then c
      else let (expd, c1) = sweep_pass (clk i) (visit i) 0 0 c
           in if expd < 5 then c1 else sweep clk visit (Suc i) c1)"
  by pat_completeness auto
termination
proof (relation "measure (\<lambda>(clk, visit, i, c). length (items c))", simp, clarsimp)
  fix clk :: clock and visit i and c c1 :: "'v lru" and e
  assume "(e, c1) = sweep_pass (clk i) (visit i) 0 0 c" and "\<not> e < 5"
  with sweep_pass_length [of "clk i" "visit i" 0 0 c e c1]
  show "length (items c1) < length (items c)" by simp
qed

declare sweep.simps [simp del]

definition lru_Close :: "'v lru \<Rightarrow> 'v lru" where
  "lru_Close c = c\<lparr>items := [], order := []\<rparr>"

record stats =
  Hits :: u64
  Misses :: u64
  Size :: nat

definition lru_Metrics :: "'v lru \<Rightarrow> stats" where
  "lru_Metrics c = \<lparr>Hits = hits c, Misses = misses c, Size = length (items c)\<rparr>"

definition GetCurrentMemory :: "'v lru \<Rightarrow> int" where
  "GetCurrentMemory c = currentMemory c"

definition lru_ops :: "('v \<Rightarrow> int) \<Rightarrow> ('v lru, 'v) cache_ops" where
  "lru_ops est = \<lparr>cGet = lru_Get, cSet = lru_Set est, cInvalidate = lru_Invalidate\<rparr>"

section \<open>Invariant\<close>

text \<open>
  The recency list enumerates exactly the keys of the map, the memory counter is
  the sum of the item sizes (as an \<^verbatim>\<open>int64\<close>), and the entry limit is respected.
\<close>

definition lru_wf :: "'v lru \<Rightarrow> bool" where
  "lru_wf c \<longleftrightarrow> gm_ok (items c) \<and> distinct (order c) \<and> set (order c) = set (gm_keys (items c)) \<and>
     currentMemory c = wrap64 (gm_sum isize (items c))"

definition lru_inv :: "'v lru \<Rightarrow> bool" where
  "lru_inv c \<longleftrightarrow> lru_wf c \<and> (maxEntries c > 0 \<longrightarrow> int (length (items c)) \<le> maxEntries c)"

definition lru_view :: "'v lru \<Rightarrow> key \<Rightarrow> 'v option" where
  "lru_view c k = map_option val (gm_get (items c) k)"

lemma lru_wf_length: "lru_wf c \<Longrightarrow> length (order c) = length (items c)"
  unfolding lru_wf_def by (metis distinct_card length_map)

lemma eviction_inc_simps [simp]:
  "items (eviction_inc c) = items c" "order (eviction_inc c) = order c"
  "currentMemory (eviction_inc c) = currentMemory c" "maxEntries (eviction_inc c) = maxEntries c"
  "maxMemory (eviction_inc c) = maxMemory c" "hits (eviction_inc c) = hits c"
  "misses (eviction_inc c) = misses c"
  by (simp_all add: eviction_inc_def)

lemma drop_item_simps [simp]:
  "items (drop_item k it c) = gm_del (items c) k" "order (drop_item k it c) = remove1 k (order c)"
  "currentMemory (drop_item k it c) = wrap64 (currentMemory c - isize it)"
  "maxEntries (drop_item k it c) = maxEntries c" "maxMemory (drop_item k it c) = maxMemory c"
  by (simp_all add: drop_item_def)

lemma lru_wf_eviction_inc [simp]: "lru_wf (eviction_inc c) = lru_wf c"
  by (simp add: lru_wf_def)

lemma lru_wf_counters [simp]:
  "lru_wf (c\<lparr>misses := n\<rparr>) = lru_wf c" "lru_wf (c\<lparr>hits := n\<rparr>) = lru_wf c"
  by (simp_all add: lru_wf_def)

lemma lru_wf_drop_item:
  "lru_wf c \<Longrightarrow> gm_get (items c) k = Some it \<Longrightarrow> lru_wf (drop_item k it c)"
  by (auto simp: lru_wf_def gm_keys_del gm_sum_del simp del: set_map)

lemma lru_wf_touch:
  "lru_wf c \<Longrightarrow> gm_get (items c) k = Some it \<Longrightarrow> lru_wf (c\<lparr>order := k # remove1 k (order c)\<rparr>)"
  using gm_get_in_keys [of "items c" k it] by (auto simp: lru_wf_def simp del: map_of_eq_Some_iff)

lemma evict_tail_eq:
  assumes "lru_wf c" and "order c \<noteq> []"
  shows "\<exists>it. gm_get (items c) (last (order c)) = Some it \<and>
    evict_tail c = eviction_inc (drop_item (last (order c)) it c)"
proof -
  from assms have "last (order c) \<in> set (gm_keys (items c))"
    using last_in_set by (force simp: lru_wf_def)
  then obtain it where it: "gm_get (items c) (last (order c)) = Some it"
    using gm_get_None_iff [of "items c" "last (order c)"] by (auto simp del: set_map)
  have "butlast (order c) = remove1 (last (order c)) (order c)"
    using assms by (intro butlast_eq_remove1_last) (simp_all add: lru_wf_def)
  with it assms(2) show ?thesis by (cases c) (simp add: evict_tail_def drop_item_def Let_def)
qed

lemma lru_wf_evict_tail: "lru_wf c \<Longrightarrow> lru_wf (evict_tail c)"
  by (metis evict_tail_def evict_tail_eq lru_wf_drop_item lru_wf_eviction_inc)

lemma lru_wf_evict_memory: "lru_wf c \<Longrightarrow> lru_wf (evict_memory c)"
proof (induction c rule: evict_memory.induct)
  case (1 c)
  then show ?case by (subst evict_memory.simps) (simp add: lru_wf_evict_tail)
qed

lemma lru_wf_store_item: "lru_wf c \<Longrightarrow> lru_wf (store_item k v sz ex c)"
proof (cases "gm_get (items c) k")
  case None
  assume "lru_wf c"
  with None gm_get_None_iff [of "items c" k] show ?thesis
    by (auto simp: store_item_def lru_wf_def gm_keys_put gm_sum_put simp del: set_map)
next
  case (Some it)
  assume wf: "lru_wf c"
  have "wrap64 (gm_sum isize (items c) + (sz - isize it)) =
        wrap64 (gm_sum isize (items c) + sz - isize it)"
    by (simp add: algebra_simps)
  with wf Some gm_get_in_keys [of "items c" k it] show ?thesis
    by (auto simp: store_item_def lru_wf_def gm_keys_put gm_sum_put
        simp del: set_map map_of_eq_Some_iff)
qed

lemma evict_tail_config [simp]:
  "maxEntries (evict_tail c) = maxEntries c" "maxMemory (evict_tail c) = maxMemory c"
  by (auto simp: evict_tail_def Let_def split: option.splits)

lemma evict_memory_config [simp]:
  "maxEntries (evict_memory c) = maxEntries c" "maxMemory (evict_memory c) = maxMemory c"
  by (induction c rule: evict_memory.induct; subst evict_memory.simps; simp)+

lemma store_item_config [simp]:
  "maxEntries (store_item k v sz ex c) = maxEntries c"
  "maxMemory (store_item k v sz ex c) = maxMemory c"
  by (simp_all add: store_item_def split: option.splits)

lemma length_evict_tail: "lru_wf c \<Longrightarrow> length (items (evict_tail c)) = length (items c) - 1"
  using lru_wf_length [of c] lru_wf_length [of "evict_tail c"] lru_wf_evict_tail [of c] by simp

lemma length_evict_memory: "lru_wf c \<Longrightarrow> length (items (evict_memory c)) \<le> length (items c)"
proof (induction c rule: evict_memory.induct)
  case (1 c)
  then show ?case
    by (subst evict_memory.simps) (auto simp: lru_wf_evict_tail length_evict_tail intro: order_trans)
qed

lemma length_store_item: "length (items (store_item k v sz ex c)) \<le> Suc (length (items c))"
  by (auto simp: store_item_def length_gm_put split: option.splits)

lemma lru_inv_enforce_entries:
  assumes "lru_wf c" and "maxEntries c > 0 \<Longrightarrow> int (length (items c)) \<le> maxEntries c + 1"
  shows "lru_inv (enforce_entries c)"
  using assms by (auto simp: enforce_entries_def lru_inv_def lru_wf_evict_tail length_evict_tail)

lemma lru_inv_enforce_memory: "lru_inv c \<Longrightarrow> lru_inv (enforce_memory c)"
  using length_evict_memory [of c]
  by (auto simp: enforce_memory_def lru_inv_def lru_wf_evict_memory)

lemma lru_inv_Set: "lru_inv c \<Longrightarrow> lru_inv (snd (lru_Set est ctx clk k v ttl c))"
proof -
  assume inv: "lru_inv c"
  have "lru_inv (enforce_memory (enforce_entries (store_item k v sz ex c)))" for sz ex
    using inv length_store_item [of k v sz ex c]
    by (intro lru_inv_enforce_memory lru_inv_enforce_entries)
      (auto simp: lru_inv_def lru_wf_store_item)
  with inv show ?thesis by (simp add: lru_Set_def Let_def split: option.splits)
qed

lemma lru_inv_drop_item:
  "lru_inv c \<Longrightarrow> gm_get (items c) k = Some it \<Longrightarrow> lru_inv (eviction_inc (drop_item k it c))"
  using length_gm_del_less [of "items c" k] by (auto simp: lru_inv_def lru_wf_drop_item)

lemma lru_inv_counters [simp]:
  "lru_inv (c\<lparr>misses := n\<rparr>) = lru_inv c" "lru_inv (c\<lparr>hits := n\<rparr>) = lru_inv c"
  "lru_inv (eviction_inc c) = lru_inv c"
  by (simp_all add: lru_inv_def)

lemma lru_inv_touch:
  "lru_inv c \<Longrightarrow> gm_get (items c) k = Some it \<Longrightarrow> lru_inv (c\<lparr>order := k # remove1 k (order c)\<rparr>)"
  by (auto simp: lru_inv_def lru_wf_touch)

lemma lru_inv_Get: "lru_inv c \<Longrightarrow> lru_inv (snd (lru_Get ctx clk k c))"
  using lru_inv_drop_item [of c k] lru_inv_touch [of c k]
  by (auto simp: lru_Get_def Let_def split: option.splits)

lemma lru_inv_Invalidate: "lru_inv c \<Longrightarrow> lru_inv (snd (lru_Invalidate ctx clk k c))"
  using lru_inv_drop_item [of c k] by (auto simp: lru_Invalidate_def split: option.splits)

lemma lru_inv_sweep_pass: "lru_inv c \<Longrightarrow> lru_inv (snd (sweep_pass now ks ch e c))"
proof (induction now ks ch e c rule: sweep_pass.induct)
  case (2 now k ks ch e c)
  then show ?case
    using lru_inv_drop_item [of c k] by (auto simp: Let_def split: option.splits)
qed simp

lemma lru_inv_sweep: "lru_inv c \<Longrightarrow> lru_inv (sweep clk visit i c)"
proof (induction clk visit i c rule: sweep.induct)
  case (1 clk visit i c)
  have "lru_inv (snd (sweep_pass (clk i) (visit i) 0 0 c))"
    by (rule lru_inv_sweep_pass [OF "1.prems"])
  with 1 show ?case by (subst sweep.simps) (auto split: prod.splits)
qed

section \<open>The cache contract\<close>

lemma view_drop_item [simp]: "lru_view (drop_item k it c) = (lru_view c)(k := None)"
  by (auto simp: lru_view_def)

lemma view_eviction_inc [simp]: "lru_view (eviction_inc c) = lru_view c"
  by (auto simp: lru_view_def)

lemma view_other [simp]:
  "lru_view (c\<lparr>order := ks\<rparr>) = lru_view c" "lru_view (c\<lparr>hits := n\<rparr>) = lru_view c"
  "lru_view (c\<lparr>misses := n\<rparr>) = lru_view c"
  by (auto simp: lru_view_def)

lemma view_store_item [simp]: "lru_view (store_item k v sz ex c) = (lru_view c)(k \<mapsto> v)"
  by (auto simp: lru_view_def store_item_def split: option.splits)

lemma view_evict_tail: "lru_view (evict_tail c) \<subseteq>\<^sub>m lru_view c"
  by (auto simp: lru_view_def evict_tail_def Let_def map_le_def split: option.splits)

lemma view_evict_memory: "lru_view (evict_memory c) \<subseteq>\<^sub>m lru_view c"
proof (induction c rule: evict_memory.induct)
  case (1 c)
  then show ?case
    by (subst evict_memory.simps) (auto intro: map_le_trans [OF _ view_evict_tail])
qed

lemma view_Set:
  "lru_Set est ctx clk k v ttl c = (None, c') \<Longrightarrow> lru_view c' \<subseteq>\<^sub>m (lru_view c)(k \<mapsto> v)"
proof -
  have e: "lru_view (enforce_entries d) \<subseteq>\<^sub>m lru_view d" "lru_view (enforce_memory d) \<subseteq>\<^sub>m lru_view d"
    for d :: "'a lru"
    by (simp_all add: enforce_entries_def enforce_memory_def view_evict_tail view_evict_memory)
  have "lru_view (enforce_memory (enforce_entries (store_item k v sz ex c))) \<subseteq>\<^sub>m (lru_view c)(k \<mapsto> v)"
    for sz ex
    using map_le_trans [OF e(2) e(1), of "store_item k v sz ex c"] by simp
  then show "lru_Set est ctx clk k v ttl c = (None, c') \<Longrightarrow> ?thesis"
    by (auto simp: lru_Set_def Let_def split: option.splits)
qed

interpretation lru: cache_view "lru_ops est" lru_view lru_inv
  for est :: "'v \<Rightarrow> int"
proof (standard, goal_cases)
  case (1 c ctx clk k v c')
  then show ?case
    by (auto simp: lru_ops_def lru_Get_def Let_def lru_view_def split: option.splits if_splits)
next
  case (2 c ctx clk k r c')
  then show ?case
    by (auto simp: lru_ops_def lru_Get_def Let_def map_le_del split: option.splits if_splits)
next
  case (3 c ctx clk k v ttl c')
  then show ?case by (auto simp: lru_ops_def dest: view_Set)
next
  case (4 c ctx clk k v ttl e c')
  then show ?case by (auto simp: lru_ops_def lru_Set_def Let_def split: option.splits)
next
  case (5 c ctx clk k c')
  then show ?case
    by (auto simp: lru_ops_def lru_Invalidate_def map_le_def lru_view_def split: option.splits)
next
  case (6 c ctx clk k e c')
  then show ?case by (auto simp: lru_ops_def lru_Invalidate_def split: option.splits)
next
  case (7 c ctx clk k)
  then show ?case by (simp add: lru_ops_def lru_inv_Get)
next
  case (8 c ctx clk k v ttl)
  then show ?case by (simp add: lru_ops_def lru_inv_Set)
next
  case (9 c ctx clk k)
  then show ?case by (simp add: lru_ops_def lru_inv_Invalidate)
qed

section \<open>Limits\<close>

lemma evict_memory_bound: "lru_wf c \<Longrightarrow> maxMemory c > 0 \<Longrightarrow> currentMemory (evict_memory c) \<le> maxMemory c"
proof (induction c rule: evict_memory.induct)
  case (1 c)
  have "order c = [] \<Longrightarrow> currentMemory c = 0"
    using "1.prems" by (simp add: lru_wf_def wrap64_id int64_def)
  with 1 show ?case by (subst evict_memory.simps) (auto simp: lru_wf_evict_tail)
qed

text \<open>The front of the recency list survives eviction if its item fits on its own.\<close>

definition fits :: "key \<Rightarrow> 'v item \<Rightarrow> 'v lru \<Rightarrow> bool" where
  "fits k it c \<longleftrightarrow> lru_wf c \<and> gm_get (items c) k = Some it \<and> order c \<noteq> [] \<and> hd (order c) = k \<and>
     int64 (isize it)"

lemma fits_evict_tail:
  assumes "fits k it c" and "length (order c) > 1"
  shows "fits k it (evict_tail c)"
proof -
  obtain xs where xs: "order c = k # xs" using assms by (cases "order c") (auto simp: fits_def)
  with assms have ne: "xs \<noteq> []" "last (order c) \<noteq> k"
    by (auto simp: fits_def lru_wf_def dest: last_in_set)
  from assms evict_tail_eq [of c] obtain it'
    where "evict_tail c = eviction_inc (drop_item (last (order c)) it' c)" by (auto simp: fits_def)
  with ne assms have "gm_get (items (evict_tail c)) k = Some it" by (simp add: fits_def)
  with assms ne xs show ?thesis by (auto simp: fits_def lru_wf_evict_tail)
qed

lemma fits_single:
  assumes "fits k it c" and "length (order c) \<le> 1"
  shows "currentMemory c = isize it"
proof -
  have wf: "lru_wf c" and get: "gm_get (items c) k = Some it" using assms by (auto simp: fits_def)
  have "length (items c) \<le> 1" using lru_wf_length [OF wf] assms(2) by simp
  then obtain p where "items c = [] \<or> items c = [p]" by (cases "items c"; cases "tl (items c)") auto
  with get have "items c = [(k, it)]" by (cases p) (auto split: if_splits)
  with assms wf show ?thesis by (simp add: fits_def lru_wf_def wrap64_id)
qed

lemma fits_evict_memory: "fits k it c \<Longrightarrow> isize it \<le> maxMemory c \<Longrightarrow> fits k it (evict_memory c)"
proof (induction c rule: evict_memory.induct)
  case (1 c)
  show ?case
  proof (cases "currentMemory c > maxMemory c")
    case True
    with 1 fits_single [of k it c] have "length (order c) > 1" by force
    with 1 True show ?thesis by (subst evict_memory.simps) (auto simp: fits_evict_tail)
  next
    case False
    with 1 show ?thesis by (subst evict_memory.simps) simp
  qed
qed

lemma fits_store_item:
  assumes "lru_wf c" and "int64 sz"
  shows "fits k \<lparr>val = v, isize = sz, expiresAt = ex\<rparr> (store_item k v sz ex c)"
proof -
  have "gm_get (items (store_item k v sz ex c)) k = Some \<lparr>val = v, isize = sz, expiresAt = ex\<rparr>"
    by (auto simp: store_item_def split: option.splits)
  with assms show ?thesis
    by (auto simp: fits_def lru_wf_store_item) (auto simp: store_item_def split: option.splits)
qed

lemma fits_enforce_entries:
  assumes "fits k it c"
  shows "fits k it (enforce_entries c)"
proof (cases "maxEntries c > 0 \<and> int (length (items c)) > maxEntries c")
  case True
  with lru_wf_length [of c] assms have "length (order c) > 1" by (auto simp: fits_def)
  with True assms show ?thesis by (simp add: enforce_entries_def fits_evict_tail)
next
  case False
  with assms show ?thesis by (auto simp: enforce_entries_def)
qed

lemma enforce_config [simp]:
  "maxMemory (enforce_entries c) = maxMemory c" "maxMemory (enforce_memory c) = maxMemory c"
  "maxEntries (enforce_entries c) = maxEntries c" "maxEntries (enforce_memory c) = maxEntries c"
  by (simp_all add: enforce_entries_def enforce_memory_def)

lemma Set_survives:
  assumes "lru_wf c" and "int64 (est v)" and "maxMemory c > 0 \<longrightarrow> est v \<le> maxMemory c"
    and "lru_Set est ctx clk k v ttl c = (None, c')"
  shows "gm_get (items c') k =
    Some \<lparr>val = v, isize = est v, expiresAt = (if ttl > 0 then clk 1 + ttl else 0)\<rparr>"
proof -
  let ?ex = "if ttl > 0 then clk 1 + ttl else 0"
  let ?c1 = "enforce_entries (store_item k v (est v) ?ex c)"
  have "fits k \<lparr>val = v, isize = est v, expiresAt = ?ex\<rparr> ?c1"
    by (intro fits_enforce_entries fits_store_item assms)
  then have "fits k \<lparr>val = v, isize = est v, expiresAt = ?ex\<rparr> (enforce_memory ?c1)"
    using assms(3) by (auto simp: enforce_memory_def intro!: fits_evict_memory)
  moreover have "c' = enforce_memory ?c1"
    using assms(4) by (auto simp: lru_Set_def Let_def time_Add_def split: option.splits)
  ultimately show ?thesis by (simp add: fits_def)
qed

section \<open>Reachable caches\<close>

definition lru_options :: "'v lru_option set" where
  "lru_options = range WithSweepInterval \<union> range WithMaxEntries \<union> range WithMaxMemory \<union> {WithMetrics}"

inductive lru_reach :: "('v \<Rightarrow> int) \<Rightarrow> 'v lru \<Rightarrow> bool" for est where
  new: "set opts \<subseteq> lru_options \<Longrightarrow> lru_reach est (NewInMemory opts)"
| get: "lru_reach est c \<Longrightarrow> lru_reach est (snd (lru_Get ctx clk k c))"
| set: "lru_reach est c \<Longrightarrow> lru_reach est (snd (lru_Set est ctx clk k v ttl c))"
| invalidate: "lru_reach est c \<Longrightarrow> lru_reach est (snd (lru_Invalidate ctx clk k c))"
| sweep: "lru_reach est c \<Longrightarrow> lru_reach est (sweep clk visit i c)"

lemma NewInMemory_empty:
  assumes "set opts \<subseteq> lru_options"
  shows "items (NewInMemory opts) = []" and "order (NewInMemory opts) = []"
    and "currentMemory (NewInMemory opts) = 0"
proof -
  have "set opts \<subseteq> lru_options \<Longrightarrow> items c = [] \<and> order c = [] \<and> currentMemory c = 0 \<Longrightarrow>
      items (fold (\<lambda>opt c. opt c) opts c) = [] \<and> order (fold (\<lambda>opt c. opt c) opts c) = [] \<and>
      currentMemory (fold (\<lambda>opt c. opt c) opts c) = 0" for c :: "'a lru"
  proof (induction opts arbitrary: c)
    case (Cons opt opts)
    then have "items (opt c) = [] \<and> order (opt c) = [] \<and> currentMemory (opt c) = 0"
      by (auto simp: lru_options_def WithSweepInterval_def WithMaxEntries_def WithMaxMemory_def
          WithMetrics_def)
    with Cons show ?case by simp
  qed simp
  with assms show "items (NewInMemory opts) = []" "order (NewInMemory opts) = []"
    "currentMemory (NewInMemory opts) = 0" by (simp_all add: NewInMemory_def)
qed

lemma lru_inv_NewInMemory: "set opts \<subseteq> lru_options \<Longrightarrow> lru_inv (NewInMemory opts)"
  using NewInMemory_empty [of opts] by (auto simp: lru_inv_def lru_wf_def wrap64_id int64_def)

lemma lru_view_New: "set opts \<subseteq> lru_options \<Longrightarrow> lru_view (NewInMemory opts) = Map.empty"
  by (auto simp: lru_view_def NewInMemory_empty)

section \<open>Sweeping\<close>

lemma sweep_pass_get:
  "sweep_pass now ks ch e c = (e', c') \<Longrightarrow>
   gm_get (items c') k = gm_get (items c) k \<or>
   gm_get (items c') k = None \<and> (\<exists>it. gm_get (items c) k = Some it \<and> expired now it)"
proof (induction now ks ch e c rule: sweep_pass.induct)
  case (2 now k' ks ch e c)
  then show ?case by (fastforce simp: Let_def split: option.splits if_splits)
qed simp

lemma sweep_get:
  "gm_get (items (sweep clk visit i c)) k = gm_get (items c) k \<or>
   gm_get (items (sweep clk visit i c)) k = None \<and>
     (\<exists>it j. gm_get (items c) k = Some it \<and> j \<ge> i \<and> expired (clk j) it)"
proof (induction clk visit i c rule: sweep.induct)
  case (1 clk visit i c)
  obtain e c1 where p: "sweep_pass (clk i) (visit i) 0 0 c = (e, c1)" by (cases "sweep_pass (clk i) (visit i) 0 0 c")
  have first: "gm_get (items c1) k = gm_get (items c) k \<or>
      gm_get (items c1) k = None \<and> (\<exists>it. gm_get (items c) k = Some it \<and> expired (clk i) it)"
    by (rule sweep_pass_get [OF p])
  show ?case
  proof (cases "items c = [] \<or> e < 5")
    case True
    with first p show ?thesis by (subst (1 2) sweep.simps) auto
  next
    case False
    then have eq: "sweep clk visit i c = sweep clk visit (Suc i) c1"
      using p by (subst sweep.simps) simp
    from False 1 p have "gm_get (items (sweep clk visit (Suc i) c1)) k = gm_get (items c1) k \<or>
      gm_get (items (sweep clk visit (Suc i) c1)) k = None \<and>
        (\<exists>it j. gm_get (items c1) k = Some it \<and> j \<ge> Suc i \<and> expired (clk j) it)" by simp
    with first show ?thesis unfolding eq by (metis Suc_leD order_refl)
  qed
qed

lemma sweep_pass_complete:
  "distinct ks \<Longrightarrow> ch + length (filter (\<lambda>k. gm_get (items c) k \<noteq> None) ks) \<le> sampleSize \<Longrightarrow>
   k \<in> set ks \<Longrightarrow> gm_get (items (snd (sweep_pass now ks ch e c))) k = Some it \<Longrightarrow> \<not> expired now it"
proof (induction now ks ch e c rule: sweep_pass.induct)
  case (2 now k' ks ch e c)
  show ?case
  proof (cases "gm_get (items c) k'")
    case None
    obtain e1 c1 where p: "sweep_pass now ks ch e c = (e1, c1)" by (cases "sweep_pass now ks ch e c")
    with None "2.prems" have "k \<noteq> k'" using sweep_pass_get [OF p, of k'] by auto
    with None 2 show ?thesis by simp
  next
    case (Some it')
    let ?c1 = "if expired now it' then eviction_inc (drop_item k' it' c) else c"
    let ?e1 = "if expired now it' then Suc e else e"
    let ?r = "sweep_pass now ks (Suc ch) ?e1 ?c1"
    have flt: "filter (\<lambda>k. gm_get (items ?c1) k \<noteq> None) ks = filter (\<lambda>k. gm_get (items c) k \<noteq> None) ks"
      using "2.prems"(1) by (intro filter_cong) auto
    have eq: "snd (sweep_pass now (k' # ks) ch e c) = (if Suc ch \<ge> sampleSize then ?c1 else snd ?r)"
      using Some by (auto simp: Let_def)
    have keep: "gm_get (items (snd ?r)) k' = Some it \<Longrightarrow> gm_get (items ?c1) k' = Some it"
      using sweep_pass_get [of now ks "Suc ch" ?e1 ?c1 "fst ?r" "snd ?r" k'] by auto
    show ?thesis
    proof (cases "Suc ch \<ge> sampleSize")
      case True
      have "Suc (ch + length (filter (\<lambda>k. gm_get (items c) k \<noteq> None) ks)) \<le> sampleSize"
        using "2.prems"(2) Some by simp
      with True have "length (filter (\<lambda>k. gm_get (items c) k \<noteq> None) ks) = 0" by linarith
      then have "filter (\<lambda>k. gm_get (items c) k \<noteq> None) ks = []" by simp
      with True "2.prems" Some eq show ?thesis
        by (auto simp: filter_empty_conv simp del: map_of_eq_Some_iff split: if_splits)
    next
      case False
      show ?thesis
      proof (cases "k = k'")
        case True
        with False "2.prems"(4) Some eq keep show ?thesis
          by (auto simp del: map_of_eq_Some_iff split: if_splits)
      next
        case neq: False
        have "ch + Suc (length (filter (\<lambda>k. gm_get (items ?c1) k \<noteq> None) ks)) \<le> sampleSize"
          using "2.prems"(2) Some flt by simp
        moreover have "k \<in> set ks" "distinct ks" using "2.prems" neq by auto
        moreover have "gm_get (items (snd ?r)) k = Some it" using "2.prems"(4) eq False by simp
        ultimately show ?thesis
          using "2.IH"(2) [OF Some refl, of ?e1 ?c1] False by (auto split: if_splits)
      qed
    qed
  qed
qed simp

section \<open>Recency\<close>

text \<open>
  The abstract LRU policy on the list of keys, most recent first: a store moves
  or inserts its key at the front and keeps the \<open>n\<close> most recent, a lookup of a
  present key moves it to the front.
\<close>

datatype 'v access = AGet key | ASet key 'v

fun lru_spec :: "nat \<Rightarrow> key list \<Rightarrow> 'v access \<Rightarrow> key list" where
  "lru_spec n ks (AGet k) = (if k \<in> set ks then k # remove1 k ks else ks)"
| "lru_spec n ks (ASet k v) = take n (k # remove1 k ks)"

fun lru_access :: "('v \<Rightarrow> int) \<Rightarrow> clock \<Rightarrow> 'v lru \<Rightarrow> 'v access \<Rightarrow> 'v lru" where
  "lru_access est clk c (AGet k) = snd (lru_Get background clk k c)"
| "lru_access est clk c (ASet k v) = snd (lru_Set est background clk k v 0 c)"

definition unexpiring :: "int \<Rightarrow> 'v lru \<Rightarrow> bool" where
  "unexpiring n c \<longleftrightarrow> lru_inv c \<and> maxEntries c = n \<and> n > 0 \<and> maxMemory c \<le> 0 \<and>
     (\<forall>k it. gm_get (items c) k = Some it \<longrightarrow> expiresAt it = 0)"

lemma order_access:
  assumes "unexpiring n c"
  shows "order (lru_access est clk c a) = lru_spec (nat n) (order c) a"
proof (cases a)
  case (AGet k)
  have "k \<in> set (order c) \<longleftrightarrow> gm_get (items c) k \<noteq> None"
    using assms by (simp add: unexpiring_def lru_inv_def lru_wf_def gm_get_None_iff)
  with AGet assms show ?thesis
    by (auto simp: lru_Get_def unexpiring_def expired_def time_IsZero_def Let_def
        simp del: map_of_eq_Some_iff split: option.splits)
next
  case (ASet k v)
  let ?c1 = "store_item k v (est v) 0 c"
  have wf: "lru_wf c" and le: "int (length (items c)) \<le> n" and n: "maxEntries c = n" "n > 0"
    and m: "maxMemory c \<le> 0" using assms by (auto simp: unexpiring_def lru_inv_def)
  have notin: "gm_get (items c) k = None \<Longrightarrow> remove1 k (order c) = order c"
    using wf gm_get_None_iff [of "items c" k] by (auto simp: lru_wf_def remove1_idem)
  then have o1: "order ?c1 = k # remove1 k (order c)"
    by (auto simp: store_item_def split: option.splits)
  have len: "length (items ?c1) = length (order ?c1)" "length (order ?c1) \<le> Suc (nat n)"
    using lru_wf_length [OF lru_wf_store_item [OF wf]] length_store_item [of k v "est v" 0 c] le
    by (simp_all add: le_diff_conv flip: of_nat_le_iff)
  have "order (enforce_entries ?c1) = take (nat n) (order ?c1)"
  proof (cases "length (order ?c1) \<le> nat n")
    case True
    then show ?thesis using n len by (auto simp: enforce_entries_def)
  next
    case False
    with len(2) have "length (order ?c1) = Suc (nat n)" by simp
    with n len show ?thesis by (simp add: enforce_entries_def butlast_conv_take)
  qed
  with ASet o1 m show ?thesis by (simp add: lru_Set_def enforce_memory_def Let_def)
qed

lemma evict_tail_get: "gm_get (items (evict_tail c)) k = Some it \<Longrightarrow> gm_get (items c) k = Some it"
  by (auto simp: evict_tail_def Let_def split: option.splits if_splits simp del: map_of_eq_Some_iff)

lemma unexpiring_access:
  assumes "unexpiring n c"
  shows "unexpiring n (lru_access est clk c a)"
proof (cases a)
  case (AGet k)
  with assms lru_inv_Get [of c background clk k] show ?thesis
    by (auto simp: unexpiring_def lru_Get_def expired_def time_IsZero_def Let_def
        simp del: map_of_eq_Some_iff split: option.splits)
next
  case (ASet k v)
  let ?c' = "snd (lru_Set est background clk k v 0 c)"
  have m: "maxMemory c \<le> 0" using assms by (simp add: unexpiring_def)
  have "?c' = enforce_entries (store_item k v (est v) 0 c)"
    using m by (simp add: lru_Set_def enforce_memory_def Let_def)
  moreover have "gm_get (items ?c') k' = Some it \<Longrightarrow> expiresAt it = 0" for k' it
    using assms calculation
    by (auto simp: unexpiring_def enforce_entries_def store_item_def
        simp del: map_of_eq_Some_iff dest!: evict_tail_get split: option.splits if_splits)
  ultimately show ?thesis
    using ASet assms lru_inv_Set [of c est background clk k v 0] by (auto simp: unexpiring_def)
qed

lemma unexpiring_run: "unexpiring n c \<Longrightarrow> unexpiring n (foldl (lru_access est clk) c as)"
  by (induction as arbitrary: c) (simp_all add: unexpiring_access)

lemma order_run:
  "unexpiring n c \<Longrightarrow>
   order (foldl (lru_access est clk) c as) = foldl (lru_spec (nat n)) (order c) as"
proof (induction as arbitrary: c)
  case (Cons a as)
  then show ?case by (simp add: unexpiring_access order_access)
qed simp

section \<open>Properties\<close>



text \<open>
  A store that returns nil leaves the cache within its limits: the memory
  counter is at most a positive \<open>maxMemory\<close> and the number of items at most a
  positive \<open>maxEntries\<close>, whatever was stored before; the eviction loop always
  ends.
\<close>

theorem lru_Set_within_limits:
  assumes "lru_inv c" and "lru_Set est ctx clk k v ttl c = (None, c')"
  shows "(maxMemory c > 0 \<longrightarrow> GetCurrentMemory c' \<le> maxMemory c) \<and>
         (maxEntries c > 0 \<longrightarrow> int (Size (lru_Metrics c')) \<le> maxEntries c)"
proof -
  let ?ex = "if ttl > 0 then clk 1 + ttl else 0"
  let ?c1 = "enforce_entries (store_item k v (est v) ?ex c)"
  have c': "c' = enforce_memory ?c1"
    using assms(2) by (auto simp: lru_Set_def Let_def time_Add_def split: option.splits)
  have inv1: "lru_inv ?c1"
    using assms(1) length_store_item [of k v "est v" ?ex c]
    by (intro lru_inv_enforce_entries) (auto simp: lru_inv_def lru_wf_store_item)
  then have "maxMemory c > 0 \<Longrightarrow> currentMemory (enforce_memory ?c1) \<le> maxMemory c"
    using evict_memory_bound [of ?c1] by (simp add: enforce_memory_def lru_inv_def)
  moreover have "lru_inv (enforce_memory ?c1)" by (rule lru_inv_enforce_memory [OF inv1])
  ultimately show ?thesis
    unfolding c' by (auto simp: GetCurrentMemory_def lru_Metrics_def lru_inv_def)
qed

theorem lru_Set_within_limits_witness:
  "\<exists>c c'. lru_Set (int \<circ> length) background (\<lambda>i. 8) ''b'' ''12345'' 0 c = (None, c') \<and>
     order c = [''a''] \<and> order c' = [''b''] \<and> maxMemory c = 8 \<and> GetCurrentMemory c' \<le> 8"
proof -
  let ?c = "(NewInMemory [WithMaxMemory 8])\<lparr>items := [(''a'', \<lparr>val = ''12345'', isize = 5, expiresAt = 0\<rparr>)],
      order := [''a''], currentMemory := 5\<rparr>"
  let ?c' = "snd (lru_Set (int \<circ> length) background (\<lambda>i. 8) ''b'' ''12345'' 0 ?c)"
  have inv: "lru_inv ?c"
    by (simp add: lru_inv_def lru_wf_def NewInMemory_def WithMaxMemory_def wrap64_def)
  have set: "lru_Set (int \<circ> length) background (\<lambda>i. 8) ''b'' ''12345'' 0 ?c = (None, ?c')"
    by (simp add: lru_Set_def Let_def)
  have "order ?c' = [''b'']"
    by (simp add: NewInMemory_def WithMaxMemory_def lru_Set_def store_item_def enforce_entries_def
        enforce_memory_def evict_memory.simps evict_tail_def eviction_inc_def wrap64_def Let_def)
  moreover have "maxMemory ?c = 8" by (simp add: NewInMemory_def WithMaxMemory_def)
  ultimately show ?thesis
    using set lru_Set_within_limits [OF inv set] by (intro exI [of _ ?c] exI [of _ ?c']) simp
qed

text \<open>
  Read your write: after a store returned nil, a lookup of the key before the
  deadline \<open>now + ttl\<close> (any time, for a non-positive \<open>ttl\<close>) returns the stored value,
  provided the value alone fits into the memory limit; entry eviction never
  removes the key just stored.
\<close>

theorem lru_read_your_write:
  assumes "lru_inv c" and "int64 (est v)" and "maxMemory c > 0 \<longrightarrow> est v \<le> maxMemory c"
    and "lru_Set est ctx clk k v ttl c = (None, c')"
    and "ctx' (clk' 0) = None" and "ctx' (clk' 2) = None"
    and "ttl > 0 \<longrightarrow> clk' 1 \<le> clk 1 + ttl"
  shows "fst (lru_Get ctx' clk' k c') = Inr (Some v)"
proof -
  have "gm_get (items c') k =
      Some \<lparr>val = v, isize = est v, expiresAt = (if ttl > 0 then clk 1 + ttl else 0)\<rparr>"
    using assms by (intro Set_survives) (auto simp: lru_inv_def)
  with assms show ?thesis
    by (auto simp: lru_Get_def expired_def time_defs Let_def simp del: map_of_eq_Some_iff)
qed

theorem lru_read_your_write_witness:
  "fst (lru_Get background (\<lambda>i. 15) ''k''
      (snd (lru_Set (\<lambda>_. 3) background (\<lambda>i. 10) ''k'' ''v'' 5 (NewInMemory [WithMaxEntries 2])))) =
   Inr (Some ''v'')"
  using lru_read_your_write
    [of "NewInMemory [WithMaxEntries 2]" "\<lambda>_. 3" "''v''" background "\<lambda>i. 10" "''k''" 5
      "snd (lru_Set (\<lambda>_. 3) background (\<lambda>i. 10) ''k'' ''v'' 5 (NewInMemory [WithMaxEntries 2]))"
      background "\<lambda>i. 15"] lru_inv_NewInMemory [of "[WithMaxEntries 2]"]
  by (simp add: lru_options_def int64_def lru_Set_def NewInMemory_def WithMaxEntries_def Let_def)

text \<open>
  C6. The recency list of a cache with an entry limit is, after any sequence of
  stores and lookups, the one of the abstract LRU policy: the evicted entry is
  always the least recently used one, and exactly the listed keys are held.
\<close>

theorem lru_refines_policy:
  "let c = foldl (lru_access est clk) (NewInMemory [WithMaxEntries (int (Suc n))]) as
   in order c = foldl (lru_spec (Suc n)) [] as \<and> dom (lru_view c) = set (order c)"
proof -
  let ?c0 = "NewInMemory [WithMaxEntries (int (Suc n))] :: 'a lru"
  have "lru_inv ?c0" by (rule lru_inv_NewInMemory) (simp add: lru_options_def)
  then have un: "unexpiring (int (Suc n)) ?c0"
    by (simp add: unexpiring_def NewInMemory_def WithMaxEntries_def)
  then have "lru_inv (foldl (lru_access est clk) ?c0 as)"
    using unexpiring_run by (fastforce simp: unexpiring_def)
  then have "dom (lru_view (foldl (lru_access est clk) ?c0 as)) = set (order (foldl (lru_access est clk) ?c0 as))"
    by (auto simp: lru_inv_def lru_wf_def lru_view_def dom_def map_of_eq_None_iff image_iff
        intro: weak_map_of_SomeI)
  moreover have "order ?c0 = []" by (simp add: NewInMemory_def WithMaxEntries_def)
  ultimately show ?thesis using order_run [OF un, of est clk as] by (simp only: Let_def nat_int)
qed

text \<open>
  Sweeping a cache of at most \<open>sampleSize\<close> items removes every item that is
  expired at its first pass and no item that is not expired at some pass, and
  leaves the items it keeps unchanged; the repetition always ends.
\<close>

theorem sweep_exact:
  assumes "distinct (visit i)" and "set (gm_keys (items c)) \<subseteq> set (visit i)"
    and "gm_ok (items c)" and "length (items c) \<le> sampleSize"
  shows "(gm_get (items (sweep clk visit i c)) k = Some it \<longrightarrow>
            gm_get (items c) k = Some it \<and> \<not> expired (clk i) it) \<and>
         (gm_get (items c) k = Some it \<and> (\<forall>j \<ge> i. \<not> expired (clk j) it) \<longrightarrow>
            gm_get (items (sweep clk visit i c)) k = Some it)"
proof (intro conjI impI; (elim conjE)?)
  assume kept: "gm_get (items (sweep clk visit i c)) k = Some it"
  show old: "gm_get (items c) k = Some it" using sweep_get [of clk visit i c k] kept by auto
  let ?r = "sweep_pass (clk i) (visit i) 0 0 c"
  have "items c \<noteq> []" using old by auto
  then have "gm_get (items (snd ?r)) k = Some it"
    using kept sweep_get [of clk visit "Suc i" "snd ?r" k]
    by (subst (asm) sweep.simps) (auto split: prod.splits if_splits simp del: map_of_eq_Some_iff)
  moreover have "length (filter (\<lambda>k. gm_get (items c) k \<noteq> None) (visit i)) \<le> length (items c)"
  proof -
    have "set (filter (\<lambda>k. gm_get (items c) k \<noteq> None) (visit i)) \<subseteq> set (gm_keys (items c))"
      by (auto simp: gm_get_None_iff simp del: map_of_eq_Some_iff dest: gm_get_in_keys)
    then have "card (set (filter (\<lambda>k. gm_get (items c) k \<noteq> None) (visit i))) \<le> card (set (gm_keys (items c)))"
      by (intro card_mono) auto
    also have "\<dots> \<le> length (items c)" using card_length [of "gm_keys (items c)"] by simp
    finally show ?thesis by (simp only: distinct_card [OF distinct_filter [OF assms(1)]])
  qed
  moreover have "k \<in> set (visit i)" using gm_get_in_keys [OF old] assms(2) by blast
  ultimately show "\<not> expired (clk i) it"
    using sweep_pass_complete [of "visit i" 0 c k "clk i" 0 it] assms by simp
next
  assume "gm_get (items c) k = Some it" and "\<forall>j \<ge> i. \<not> expired (clk j) it"
  then show "gm_get (items (sweep clk visit i c)) k = Some it"
    using sweep_get [of clk visit i c k] by (auto simp del: map_of_eq_Some_iff)
qed

theorem sweep_exact_witness:
  "let c = (NewInMemory [])\<lparr>items := [(''a'', \<lparr>val = 1 :: int, isize = 8, expiresAt = 5\<rparr>),
                                      (''b'', \<lparr>val = 2, isize = 8, expiresAt = 0\<rparr>)],
                             order := [''a'', ''b''], currentMemory := 16\<rparr>
   in gm_get (items (sweep (\<lambda>_. 9) (\<lambda>_. [''b'', ''a'']) 0 c)) ''b'' =
        Some \<lparr>val = 2, isize = 8, expiresAt = 0\<rparr> \<and>
      gm_get (items (sweep (\<lambda>_. 9) (\<lambda>_. [''b'', ''a'']) 0 c)) ''a'' \<noteq>
        Some \<lparr>val = 1, isize = 8, expiresAt = 5\<rparr>"
proof -
  let ?c = "(NewInMemory [])\<lparr>items := [(''a'', \<lparr>val = 1 :: int, isize = 8, expiresAt = 5\<rparr>),
                                      (''b'', \<lparr>val = 2, isize = 8, expiresAt = 0\<rparr>)],
                             order := [''a'', ''b''], currentMemory := 16\<rparr>"
  have "distinct [''b'', ''a'']" "set (gm_keys (items ?c)) \<subseteq> set [''b'', ''a'']"
    "gm_ok (items ?c)" "length (items ?c) \<le> sampleSize" by (auto simp: sampleSize_def)
  note ok = sweep_exact [of "\<lambda>_. [''b'', ''a'']" 0 ?c, OF this]
  show ?thesis
    using ok [of "\<lambda>_. 9" "''b''" "\<lparr>val = 2, isize = 8, expiresAt = 0\<rparr>"]
      ok [of "\<lambda>_. 9" "''a''" "\<lparr>val = 1, isize = 8, expiresAt = 5\<rparr>"]
    by (simp add: expired_def time_defs)
qed

text \<open>
  \<open>Close\<close> empties the map and the recency list but not the memory counter,
  so the accounting of a closed cache is wrong: a cache limited to 10 bytes that
  held 8, is closed and stores 8 again reports 8 bytes in use while it is empty,
  and the store that returned nil is lost.
\<close>

theorem lru_Close_leaks_memory:
  "let est = (\<lambda>_. 8);
       c1 = snd (lru_Set est background clk ''a'' v 0 (NewInMemory [WithMaxMemory 10]));
       (e, c2) = lru_Set est background clk ''b'' v 0 (lru_Close c1)
   in e = None \<and> fst (lru_Get background clk ''b'' c2) = Inr None \<and>
      GetCurrentMemory c2 = 8 \<and> Size (lru_Metrics c2) = 0"
proof -
  let ?new = "NewInMemory [WithMaxMemory 10] :: 'a lru"
  let ?it = "\<lparr>val = v, isize = 8, expiresAt = 0\<rparr>"
  have first: "lru_Set (\<lambda>_. 8) background clk ''a'' v 0 ?new =
      (None, ?new\<lparr>items := [(''a'', ?it)], order := [''a''], currentMemory := 8\<rparr>)"
    by (simp add: NewInMemory_def WithMaxMemory_def lru_Set_def store_item_def enforce_entries_def
        enforce_memory_def evict_memory_done wrap64_def)
  let ?c = "?new\<lparr>items := [(''b'', ?it)], order := [''b''], currentMemory := 16\<rparr>"
  have "evict_memory ?c = ?new\<lparr>currentMemory := 8\<rparr>"
    by (simp add: NewInMemory_def WithMaxMemory_def evict_memory_step evict_memory_empty
        evict_tail_def eviction_inc_def wrap64_def Let_def)
  then have second: "lru_Set (\<lambda>_. 8) background clk ''b'' v 0 (?new\<lparr>currentMemory := 8\<rparr>) =
      (None, ?new\<lparr>currentMemory := 8\<rparr>)"
    by (simp add: NewInMemory_def WithMaxMemory_def lru_Set_def store_item_def enforce_entries_def
        enforce_memory_def wrap64_def)
  have closed: "lru_Close (?new\<lparr>items := [(''a'', ?it)], order := [''a''], currentMemory := 8\<rparr>) =
      ?new\<lparr>currentMemory := 8\<rparr>"
    by (simp add: NewInMemory_def WithMaxMemory_def lru_Close_def)
  show ?thesis
    unfolding Let_def first snd_conv closed second
    by (simp add: NewInMemory_def WithMaxMemory_def lru_Get_def GetCurrentMemory_def lru_Metrics_def)
qed

end
