(* ===== verification/Warp_TTL.thy ===== *)
theory Warp_TTL
  imports Complex_Main Warp_Prelude
begin

text \<open>
  The TTL options of a key (\<^verbatim>\<open>cache/ttl.go\<close>), the interface of the TTL strategies,
  and the sliding-window strategy (\<^verbatim>\<open>cache/adaptive/sliding_window.go\<close>).

  The eager-refresh threshold, a \<^verbatim>\<open>float64\<close> in the code, is a rational: the
  model compares ratios exactly where the code rounds them.
\<close>

section \<open>TTL options\<close>

record ttl_options =
  Sliding :: bool
  FreqThreshold :: duration
  Increment :: duration
  Decrement :: duration
  MinTTL :: duration
  MaxTTL :: duration
  FailSafeGracePeriod :: duration
  SoftTimeout :: duration
  EagerRefreshThreshold :: rat

type_synonym ttl_option = "ttl_options \<Rightarrow> ttl_options"

definition zero_ttl_options :: ttl_options where
  "zero_ttl_options = \<lparr>Sliding = False, FreqThreshold = 0, Increment = 0, Decrement = 0, MinTTL = 0,
     MaxTTL = 0, FailSafeGracePeriod = 0, SoftTimeout = 0, EagerRefreshThreshold = 0\<rparr>"

definition WithSliding :: ttl_option where
  "WithSliding o1 = o1\<lparr>Sliding := True\<rparr>"

definition WithFailSafe :: "duration \<Rightarrow> ttl_option" where
  "WithFailSafe grace o1 = o1\<lparr>FailSafeGracePeriod := grace\<rparr>"

definition WithSoftTimeout :: "duration \<Rightarrow> ttl_option" where
  "WithSoftTimeout d o1 = o1\<lparr>SoftTimeout := d\<rparr>"

definition WithEagerRefresh :: "rat \<Rightarrow> ttl_option" where
  "WithEagerRefresh threshold o1 =
     (if threshold \<ge> 0 \<and> threshold \<le> 1 then o1\<lparr>EagerRefreshThreshold := threshold\<rparr> else o1)"

definition WithDynamicTTL ::
    "duration \<Rightarrow> duration \<Rightarrow> duration \<Rightarrow> duration \<Rightarrow> duration \<Rightarrow> ttl_option" where
  "WithDynamicTTL freq inc dec mn mx o1 =
     o1\<lparr>FreqThreshold := freq, Increment := inc, Decrement := dec, MinTTL := mn, MaxTTL := mx\<rparr>"

definition Adjust :: "ttl_options \<Rightarrow> duration \<Rightarrow> time \<Rightarrow> time \<Rightarrow> duration" where
  "Adjust o1 cur prev now =
     (if FreqThreshold o1 \<le> 0 then cur
      else if time_Sub now prev \<le> FreqThreshold o1
      then let cur1 = dur_add cur (Increment o1)
           in if MaxTTL o1 > 0 \<and> cur1 > MaxTTL o1 then MaxTTL o1 else cur1
      else let cur1 = dur_sub cur (Decrement o1)
           in if cur1 < MinTTL o1 then MinTTL o1 else cur1)"

section \<open>Strategies\<close>

record 's strategy_ops =
  sRecord :: "time \<Rightarrow> key \<Rightarrow> 's \<Rightarrow> 's"
  sTTL :: "time \<Rightarrow> key \<Rightarrow> 's \<Rightarrow> duration \<times> 's"

record sliding_window =
  Window :: duration
  Threshold :: int
  ColdTTL :: duration
  HotTTL :: duration
  sw_hits :: "key \<Rightarrow> time list"
  lastTTL :: "key \<rightharpoonup> duration"
  hotKeys :: "bool gomap"
  adjustCounter :: "nat option"
  hotGauge :: "int option"

definition NewSlidingWindow ::
    "duration \<Rightarrow> int \<Rightarrow> duration \<Rightarrow> duration \<Rightarrow> bool \<Rightarrow> sliding_window" where
  "NewSlidingWindow window threshold coldTTL hotTTL reg =
     \<lparr>Window = window, Threshold = threshold, ColdTTL = coldTTL, HotTTL = hotTTL,
      sw_hits = (\<lambda>_. []), lastTTL = Map.empty, hotKeys = [],
      adjustCounter = (if reg then Some 0 else None), hotGauge = (if reg then Some 0 else None)\<rparr>"

text \<open>The in-place compaction loop of \<^verbatim>\<open>Record\<close> and \<^verbatim>\<open>TTL\<close>: position \<open>i\<close> is the next slot
  written, \<open>j\<close> the next one read.\<close>

function compact :: "time \<Rightarrow> nat \<Rightarrow> nat \<Rightarrow> time list \<Rightarrow> time list" where
  "compact cutoff i j ts =
     (if j < length ts
      then if time_After (ts ! j) cutoff
           then compact cutoff (Suc i) (Suc j) (ts[i := ts ! j])
           else compact cutoff i (Suc j) ts
      else take i ts)"
  by pat_completeness auto
termination
  by (relation "measure (\<lambda>(cutoff, i, j, ts). length ts - j)") auto

declare compact.simps [simp del]

definition sw_Record :: "time \<Rightarrow> key \<Rightarrow> sliding_window \<Rightarrow> sliding_window" where
  "sw_Record now k s =
     (let timestamps = sw_hits s k @ [now]; cutoff = time_Add now (wrap64 (- Window s))
      in s\<lparr>sw_hits := (sw_hits s)(k := compact cutoff 0 0 timestamps)\<rparr>)"

definition hot_update :: "bool \<Rightarrow> key \<Rightarrow> sliding_window \<Rightarrow> sliding_window" where
  "hot_update hot k s =
     (let was = (gm_get (hotKeys s) k = Some True)
      in if hot \<and> \<not> was
         then s\<lparr>hotGauge := map_option (\<lambda>g. g + 1) (hotGauge s), hotKeys := gm_put (hotKeys s) k True\<rparr>
         else if \<not> hot \<and> was
         then s\<lparr>hotGauge := map_option (\<lambda>g. g - 1) (hotGauge s), hotKeys := gm_del (hotKeys s) k\<rparr>
         else s)"

definition sw_TTL :: "time \<Rightarrow> key \<Rightarrow> sliding_window \<Rightarrow> duration \<times> sliding_window" where
  "sw_TTL now k s =
     (let cutoff = time_Add now (wrap64 (- Window s));
          timestamps = compact cutoff 0 0 (sw_hits s k);
          s1 = s\<lparr>sw_hits := (sw_hits s)(k := timestamps)\<rparr>;
          hot = (int (length timestamps) \<ge> Threshold s1);
          ttl = (if hot then HotTTL s1 else ColdTTL s1);
          s2 = (if lastTTL s1 k \<noteq> Some ttl
                then s1\<lparr>adjustCounter := map_option Suc (adjustCounter s1), lastTTL := (lastTTL s1)(k \<mapsto> ttl)\<rparr>
                else s1)
      in (ttl, hot_update hot k s2))"

definition sw_ops :: "sliding_window strategy_ops" where
  "sw_ops = \<lparr>sRecord = sw_Record, sTTL = sw_TTL\<rparr>"

section \<open>Lemmas\<close>

text \<open>The compaction keeps the instants after the cutoff, in order.\<close>

lemma compact_filter:
  "i \<le> j \<Longrightarrow> j \<le> length ts \<Longrightarrow>
   compact cutoff i j ts = take i ts @ filter (\<lambda>t. t > cutoff) (drop j ts)"
proof (induction cutoff i j ts rule: compact.induct)
  case (1 cutoff i j ts)
  show ?case
  proof (cases "j < length ts")
    case True
    then have d: "drop j ts = ts ! j # drop (Suc j) ts" by (simp add: Cons_nth_drop_Suc)
    show ?thesis
    proof (cases "ts ! j > cutoff")
      case gt: True
      with True have "compact cutoff i j ts = compact cutoff (Suc i) (Suc j) (ts[i := ts ! j])"
        by (subst compact.simps) (simp add: time_After_def)
      also have "\<dots> = take (Suc i) (ts[i := ts ! j]) @ filter (\<lambda>t. t > cutoff) (drop (Suc j) (ts[i := ts ! j]))"
        using 1 True gt by (simp add: time_After_def)
      also have "take (Suc i) (ts[i := ts ! j]) = take i ts @ [ts ! j]"
        using True "1.prems" by (simp add: take_Suc_conv_app_nth)
      also have "drop (Suc j) (ts[i := ts ! j]) = drop (Suc j) ts" using "1.prems" by simp
      finally show ?thesis using d gt by simp
    next
      case False
      with True have "compact cutoff i j ts = compact cutoff i (Suc j) ts"
        by (subst compact.simps) (simp add: time_After_def)
      with 1 True False d show ?thesis by (simp add: time_After_def)
    qed
  next
    case False
    with 1 show ?thesis by (subst compact.simps) simp
  qed
qed

lemma compact_0 [simp]: "compact cutoff 0 0 ts = filter (\<lambda>t. t > cutoff) ts"
  by (simp add: compact_filter)

lemma sw_hits_Record [simp]:
  "sw_hits (sw_Record now k s) =
     (sw_hits s)(k := filter (\<lambda>t. t > now + wrap64 (- Window s)) (sw_hits s k @ [now]))"
  by (simp add: sw_Record_def Let_def time_Add_def)

lemma hot_update_simps [simp]:
  "sw_hits (hot_update h k s) = sw_hits s" "Window (hot_update h k s) = Window s"
  "Threshold (hot_update h k s) = Threshold s" "HotTTL (hot_update h k s) = HotTTL s"
  "ColdTTL (hot_update h k s) = ColdTTL s" "lastTTL (hot_update h k s) = lastTTL s"
  "adjustCounter (hot_update h k s) = adjustCounter s"
  by (simp_all add: hot_update_def Let_def)

lemma sw_hits_TTL [simp]:
  "sw_hits (snd (sw_TTL now k s)) =
     (sw_hits s)(k := filter (\<lambda>t. t > now + wrap64 (- Window s)) (sw_hits s k))"
  by (simp add: sw_TTL_def Let_def time_Add_def)

lemma sw_TTL_value:
  "fst (sw_TTL now k s) =
     (if int (length (filter (\<lambda>t. t > now + wrap64 (- Window s)) (sw_hits s k))) \<ge> Threshold s
      then HotTTL s else ColdTTL s)"
  by (simp add: sw_TTL_def Let_def time_Add_def)

lemma sw_config [simp]:
  "Window (sw_Record now k s) = Window s" "Threshold (sw_Record now k s) = Threshold s"
  "HotTTL (sw_Record now k s) = HotTTL s" "ColdTTL (sw_Record now k s) = ColdTTL s"
  "Window (snd (sw_TTL now k s)) = Window s" "Threshold (snd (sw_TTL now k s)) = Threshold s"
  "HotTTL (snd (sw_TTL now k s)) = HotTTL s" "ColdTTL (snd (sw_TTL now k s)) = ColdTTL s"
  by (simp_all add: sw_Record_def sw_TTL_def Let_def)

text \<open>A use of the strategy: accesses recorded and TTLs asked for, each at an instant.\<close>

datatype sw_event = RecordAt key time | TTLAt key time

fun sw_time :: "sw_event \<Rightarrow> time" where
  "sw_time (RecordAt k t) = t"
| "sw_time (TTLAt k t) = t"

fun sw_step :: "sliding_window \<Rightarrow> sw_event \<Rightarrow> sliding_window" where
  "sw_step s (RecordAt k t) = sw_Record t k s"
| "sw_step s (TTLAt k t) = snd (sw_TTL t k s)"

definition recorded :: "key \<Rightarrow> sw_event list \<Rightarrow> time list" where
  "recorded k es = [sw_time e. e \<leftarrow> es, e = RecordAt k (sw_time e)]"

lemma recorded_simps [simp]:
  "recorded k [] = []"
  "recorded k (es @ [RecordAt k' t]) = (if k' = k then recorded k es @ [t] else recorded k es)"
  "recorded k (es @ [TTLAt k' t]) = recorded k es"
  by (simp_all add: recorded_def)

lemma sw_step_config [simp]:
  "Window (foldl sw_step s es) = Window s" "Threshold (foldl sw_step s es) = Threshold s"
  "HotTTL (foldl sw_step s es) = HotTTL s" "ColdTTL (foldl sw_step s es) = ColdTTL s"
proof -
  have "Window (sw_step s e) = Window s" "Threshold (sw_step s e) = Threshold s"
    "HotTTL (sw_step s e) = HotTTL s" "ColdTTL (sw_step s e) = ColdTTL s" for s e
    by (cases e; simp)+
  then show "Window (foldl sw_step s es) = Window s" "Threshold (foldl sw_step s es) = Threshold s"
    "HotTTL (foldl sw_step s es) = HotTTL s" "ColdTTL (foldl sw_step s es) = ColdTTL s"
    by (induct es arbitrary: s) simp_all
qed

lemma sw_history:
  assumes "sorted (map sw_time es)" and "\<forall>e \<in> set es. sw_time e \<le> now"
  shows "filter (\<lambda>t. t > now + wrap64 (- Window s))
           (sw_hits (foldl sw_step (s\<lparr>sw_hits := \<lambda>_. []\<rparr>) es) k) =
         filter (\<lambda>t. t > now + wrap64 (- Window s)) (recorded k es)"
  using assms
proof (induction es arbitrary: now rule: rev_induct)
  case (snoc e es)
  let ?s = "foldl sw_step (s\<lparr>sw_hits := \<lambda>_. []\<rparr>) es"
  have IH: "filter (\<lambda>t. t > n + wrap64 (- Window s)) (sw_hits ?s k) =
      filter (\<lambda>t. t > n + wrap64 (- Window s)) (recorded k es)" if "n \<ge> sw_time e" for n
    using snoc.prems that by (intro snoc.IH) (auto simp: sorted_append)
  have le: "sw_time e \<le> now" using snoc.prems by simp
  have ff: "filter (\<lambda>t. t > now + w) (filter (\<lambda>t. t > sw_time e + w) xs) = filter (\<lambda>t. t > now + w) xs"
    for w and xs :: "time list"
    using le by (auto simp: filter_filter intro!: filter_cong)
  show ?case using IH [OF le] ff [of "wrap64 (- Window s)"] le by (cases e) auto
qed simp

text \<open>The gauge of the hot keys.\<close>

definition sw_gauge_ok :: "sliding_window \<Rightarrow> bool" where
  "sw_gauge_ok s \<longleftrightarrow> gm_ok (hotKeys s) \<and> (\<forall>p \<in> set (hotKeys s). snd p) \<and>
     (\<forall>g. hotGauge s = Some g \<longrightarrow> g = int (length (hotKeys s)))"

lemma hot_update_gauge:
  assumes "sw_gauge_ok s" shows "sw_gauge_ok (hot_update h k s)"
proof -
  have ok: "gm_ok (hotKeys s)" "\<forall>p \<in> set (hotKeys s). snd p" using assms by (auto simp: sw_gauge_ok_def)
  have "gm_get (hotKeys s) k \<noteq> Some False" using ok(2) by (fastforce dest: map_of_SomeD)
  then have was: "gm_get (hotKeys s) k = None \<or> gm_get (hotKeys s) k = Some True"
    by (cases "gm_get (hotKeys s) k") auto
  have "set (gm_put (hotKeys s) k True) \<subseteq> insert (k, True) (set (hotKeys s))"
    by (rule set_gm_put)
  moreover have "set (gm_del (hotKeys s) k) \<subseteq> set (hotKeys s)" by (simp add: AList.delete_eq)
  moreover have "gm_get (hotKeys s) k = Some True \<Longrightarrow>
      int (length (hotKeys s) - Suc 0) = int (length (hotKeys s)) - 1" by (cases "hotKeys s") auto
  ultimately show ?thesis
    using assms ok was
    by (auto simp: sw_gauge_ok_def hot_update_def Let_def length_gm_put length_gm_del
        simp del: map_of_eq_Some_iff)
qed

lemma sw_step_gauge: "sw_gauge_ok s \<Longrightarrow> sw_gauge_ok (sw_step s e)"
proof (cases e)
  case (TTLAt k t)
  assume "sw_gauge_ok s"
  then have "sw_gauge_ok (s\<lparr>sw_hits := h, adjustCounter := a, lastTTL := l\<rparr>)"
    and "sw_gauge_ok (s\<lparr>sw_hits := h\<rparr>)" for h a l
    by (simp_all add: sw_gauge_ok_def)
  with TTLAt show ?thesis by (auto simp: sw_TTL_def Let_def intro!: hot_update_gauge)
qed (simp add: sw_gauge_ok_def sw_Record_def Let_def)

section \<open>Properties\<close>

text \<open>
  The dynamic TTL of a key stays within the configured bounds: whatever the
  instants of its accesses, a TTL that starts between the minimum and the maximum
  stays there, as long as the bounds leave room for one increment in an int64.
\<close>

theorem Adjust_stays_in_bounds:
  assumes "0 \<le> MinTTL opts" and "MinTTL opts \<le> MaxTTL opts" and "0 < MaxTTL opts"
    and "0 \<le> Increment opts" and "0 \<le> Decrement opts" and "int64 (Decrement opts)"
    and "int64 (MaxTTL opts + Increment opts)"
    and "MinTTL opts \<le> ttl" and "ttl \<le> MaxTTL opts"
  shows "let cur = fst (foldl (\<lambda>(cur, prev) now. (Adjust opts cur prev now, now)) (ttl, t) ts)
         in MinTTL opts \<le> cur \<and> cur \<le> MaxTTL opts"
proof -
  have step: "MinTTL opts \<le> Adjust opts cur prev now \<and> Adjust opts cur prev now \<le> MaxTTL opts"
    if "MinTTL opts \<le> cur" "cur \<le> MaxTTL opts" for cur prev now
  proof -
    have "dur_add cur (Increment opts) = cur + Increment opts"
      "dur_sub cur (Decrement opts) = cur - Decrement opts"
      using that assms by (auto intro!: dur_add_id dur_sub_id simp: int64_def)
    with that assms show ?thesis by (simp add: Adjust_def Let_def)
  qed
  have "MinTTL opts \<le> fst p \<Longrightarrow> fst p \<le> MaxTTL opts \<Longrightarrow>
      (let cur = fst (foldl (\<lambda>(cur, prev) now. (Adjust opts cur prev now, now)) p ts)
       in MinTTL opts \<le> cur \<and> cur \<le> MaxTTL opts)" for p
    by (induction ts arbitrary: p) (auto simp: Let_def step split: prod.splits)
  with assms show ?thesis by simp
qed

theorem Adjust_stays_in_bounds_witness:
  "let opts = WithDynamicTTL 10 5 7 20 60 zero_ttl_options;
       cur = fst (foldl (\<lambda>(cur, prev) now. (Adjust opts cur prev now, now)) (50, 0) [5, 12, 20, 100])
   in Adjust opts 50 0 5 = 55 \<and> MinTTL opts \<le> cur \<and> cur \<le> MaxTTL opts"
  using Adjust_stays_in_bounds [of "WithDynamicTTL 10 5 7 20 60 zero_ttl_options" 50 0 "[5, 12, 20, 100]"]
  by (simp add: WithDynamicTTL_def zero_ttl_options_def int64_def Let_def Adjust_def time_Sub_def
      dur_add_def wrap64_def)

text \<open>
  The sliding window counts accesses: after any history of \<^verbatim>\<open>Record\<close> and
  \<^verbatim>\<open>TTL\<close> calls at non-decreasing instants, the TTL given for a key is the hot one
  exactly when at least the threshold of its recorded accesses lie within the
  window; pruning on the way never loses an access that still counts.
\<close>

theorem sliding_window_counts:
  assumes "sorted (map sw_time es)" and "\<forall>e \<in> set es. sw_time e \<le> now"
    and "int64 w" and "int64 (- w)"
  shows "fst (sw_TTL now k (foldl sw_step (NewSlidingWindow w th cold hot reg) es)) =
    (if int (length (filter (\<lambda>t. now - w < t) (recorded k es))) \<ge> th then hot else cold)"
proof -
  let ?s = "NewSlidingWindow w th cold hot reg"
  have "?s\<lparr>sw_hits := \<lambda>_. []\<rparr> = ?s" "Window ?s = w" "Threshold ?s = th" "HotTTL ?s = hot" "ColdTTL ?s = cold"
    by (simp_all add: NewSlidingWindow_def)
  moreover have "wrap64 (- w) = - w" using assms(4) by (rule wrap64_id)
  ultimately show ?thesis using sw_history [OF assms(1,2), of ?s k] by (simp add: sw_TTL_value)
qed

theorem sliding_window_counts_witness:
  "fst (sw_TTL 12 ''k'' (foldl sw_step (NewSlidingWindow 10 2 5 60 True)
      [RecordAt ''k'' 1, TTLAt ''k'' 2, RecordAt ''j'' 3, RecordAt ''k'' 4, RecordAt ''k'' 9])) = 60"
  using sliding_window_counts
    [of "[RecordAt ''k'' 1, TTLAt ''k'' 2, RecordAt ''j'' 3, RecordAt ''k'' 4, RecordAt ''k'' 9]" 12 10
      "''k''" 2 5 60 True]
  by (simp add: int64_def recorded_def)

text \<open>
  The hot-key gauge is exact: after any use of the strategy it equals the
  number of keys held as hot, and no key is counted twice.
\<close>

theorem sliding_window_gauge:
  "let s = foldl sw_step (NewSlidingWindow w th cold hot reg) es
   in distinct (gm_keys (hotKeys s)) \<and> hotGauge s = (if reg then Some (int (length (hotKeys s))) else None)"
proof -
  let ?s = "NewSlidingWindow w th cold hot reg"
  have g: "hotGauge (sw_step s e) = None \<longleftrightarrow> hotGauge s = None" for s e
    by (cases e) (simp_all add: sw_Record_def sw_TTL_def hot_update_def Let_def)
  have "sw_gauge_ok (foldl sw_step s es)" if "sw_gauge_ok s" for s
    using that by (induct es arbitrary: s) (simp_all add: sw_step_gauge)
  moreover have none: "(hotGauge (foldl sw_step s es) = None) = (hotGauge s = None)" for s
    by (induct es arbitrary: s) (simp_all add: g)
  moreover have "sw_gauge_ok ?s" by (simp add: sw_gauge_ok_def NewSlidingWindow_def)
  ultimately have ok: "sw_gauge_ok (foldl sw_step ?s es)" by blast
  have "hotGauge (foldl sw_step ?s es) = None \<longleftrightarrow> \<not> reg"
    by (simp add: none) (simp add: NewSlidingWindow_def)
  with ok show ?thesis
    by (cases "hotGauge (foldl sw_step ?s es)") (simp_all add: sw_gauge_ok_def Let_def)
qed

end
