(* ===== verification/Cache_Wrappers.thy ===== *)
theory Cache_Wrappers
  imports Warp_LRU Warp_Merge "HOL-Library.Sublist"
begin

text \<open>
  The caches built on other caches: the error-suppressing wrapper
  (\<^verbatim>\<open>cache/resilient.go\<close>), the Ristretto and LFU caches
  (\<^verbatim>\<open>cache/ristretto.go\<close>, \<^verbatim>\<open>cache/lfu.go\<close>), the adaptive cache
  (\<^verbatim>\<open>cache/adaptive_cache.go\<close>), the factory (\<^verbatim>\<open>cache/factory.go\<close>,
  \<^verbatim>\<open>cache/lru.go\<close>) and the versioned cache (\<^verbatim>\<open>cache/versioned/versioned.go\<close>).
  The Ristretto library is a parameter: the record of the functions the code
  calls, with \<open>ristretto_ok\<close> stating what its documentation promises.
\<close>

section \<open>Resilient cache\<close>

definition resilient_Get ::
    "('c, 'v) cache_ops \<Rightarrow> ctx \<Rightarrow> clock \<Rightarrow> key \<Rightarrow> 'c \<Rightarrow> (go_error + 'v option) \<times> 'c" where
  "resilient_Get inner ctx clk k c =
     (case cGet inner ctx clk k c of
        (Inl e, c1) \<Rightarrow> (Inr None, c1)
      | (Inr r, c1) \<Rightarrow> (Inr r, c1))"

definition resilient_Set ::
    "('c, 'v) cache_ops \<Rightarrow> ctx \<Rightarrow> clock \<Rightarrow> key \<Rightarrow> 'v \<Rightarrow> duration \<Rightarrow> 'c \<Rightarrow> go_error option \<times> 'c" where
  "resilient_Set inner ctx clk k v ttl c =
     (case cSet inner ctx clk k v ttl c of
        (Some e, c1) \<Rightarrow> (None, c1)
      | (None, c1) \<Rightarrow> (None, c1))"

definition resilient_Invalidate ::
    "('c, 'v) cache_ops \<Rightarrow> ctx \<Rightarrow> clock \<Rightarrow> key \<Rightarrow> 'c \<Rightarrow> go_error option \<times> 'c" where
  "resilient_Invalidate inner ctx clk k c =
     (case cInvalidate inner ctx clk k c of
        (Some e, c1) \<Rightarrow> (None, c1)
      | (None, c1) \<Rightarrow> (None, c1))"

definition NewResilient :: "('c, 'v) cache_ops \<Rightarrow> ('c, 'v) cache_ops" where
  "NewResilient inner = \<lparr>cGet = resilient_Get inner, cSet = resilient_Set inner,
     cInvalidate = resilient_Invalidate inner\<rparr>"

lemmas resilient_defs = NewResilient_def resilient_Get_def resilient_Set_def resilient_Invalidate_def

lemma NewResilient_base:
  assumes "cache_base ops coh"
  shows "cache_base (NewResilient ops) coh"
proof (standard, goal_cases)
  case (1 c M N)
  then show ?case by (rule cache_base.coh_mono [OF assms])
next
  case (2 c M ctx clk k v c')
  then show ?case using cache_base.get_sound [OF assms, of c M ctx clk k v]
    by (auto simp: resilient_defs split: prod.splits sum.splits)
next
  case (3 c M ctx clk k r c')
  then show ?case using cache_base.get_coh [OF assms, of c M ctx clk k]
    by (auto simp: resilient_defs split: prod.splits sum.splits)
next
  case (4 c M ctx clk k v ttl e c')
  then show ?case using cache_base.set_coh [OF assms, of c M ctx clk k v ttl _ c']
    by (auto simp: resilient_defs split: prod.splits option.splits)
next
  case (5 c M ctx clk k e c')
  then show ?case using cache_base.invalidate_coh [OF assms, of c M ctx clk k _ c']
    by (auto simp: resilient_defs split: prod.splits option.splits)
qed

text \<open>No call through the wrapper fails.\<close>

lemma resilient_total:
  "fst (cGet (NewResilient ops) ctx clk k c) \<noteq> Inl e"
  "fst (cSet (NewResilient ops) ctx clk k v ttl c) = None"
  "fst (cInvalidate (NewResilient ops) ctx clk k c) = None"
  by (simp_all add: resilient_defs split: prod.splits sum.splits option.splits)

section \<open>Ristretto and LFU caches\<close>

record ristretto_config =
  NumCounters :: int
  MaxCost :: int
  BufferItems :: int

record ('r, 'v) ristretto_lib =
  rNewCache :: "ristretto_config \<Rightarrow> go_error + 'r"
  rGet :: "time \<Rightarrow> key \<Rightarrow> 'r \<Rightarrow> 'v option \<times> 'r"
  rSetWithTTL :: "time \<Rightarrow> key \<Rightarrow> 'v \<Rightarrow> int \<Rightarrow> duration \<Rightarrow> 'r \<Rightarrow> 'r"
  rDel :: "key \<Rightarrow> 'r \<Rightarrow> 'r"
  rWait :: "'r \<Rightarrow> 'r"
  rClose :: "'r \<Rightarrow> 'r"

type_synonym ristretto_option = "ristretto_config \<Rightarrow> ristretto_config"

definition WithRistretto :: "ristretto_config option \<Rightarrow> ristretto_option" where
  "WithRistretto cfg c = (case cfg of None \<Rightarrow> c | Some cfg1 \<Rightarrow> cfg1)"

definition NewRistretto :: "('r, 'v) ristretto_lib \<Rightarrow> ristretto_option list \<Rightarrow> go_error + 'r" where
  "NewRistretto lib opts =
     rNewCache lib (fold (\<lambda>opt cfg. opt cfg) opts
       \<lparr>NumCounters = 10000, MaxCost = 2 ^ 20, BufferItems = 64\<rparr>)"

definition ristretto_Get ::
    "('r, 'v) ristretto_lib \<Rightarrow> ctx \<Rightarrow> clock \<Rightarrow> key \<Rightarrow> 'r \<Rightarrow> (go_error + 'v option) \<times> 'r" where
  "ristretto_Get lib ctx clk k r =
     (case ctx (clk 0) of
        Some e \<Rightarrow> (Inl e, r)
      | None \<Rightarrow>
          (case rGet lib (clk 1) k r of
             (None, r1) \<Rightarrow> (Inr None, r1)
           | (Some v, r1) \<Rightarrow>
               (case ctx (clk 2) of
                  Some e \<Rightarrow> (Inl e, r1)
                | None \<Rightarrow> (Inr (Some v), r1))))"

definition ristretto_Set ::
    "('r, 'v) ristretto_lib \<Rightarrow> ('v \<Rightarrow> int) \<Rightarrow> ctx \<Rightarrow> clock \<Rightarrow> key \<Rightarrow> 'v \<Rightarrow> duration \<Rightarrow> 'r \<Rightarrow> go_error option \<times> 'r" where
  "ristretto_Set lib est ctx clk k v ttl r =
     (case ctx (clk 0) of
        Some e \<Rightarrow> (Some e, r)
      | None \<Rightarrow> (None, rWait lib (rSetWithTTL lib (clk 1) k v (est v) ttl r)))"

definition ristretto_Invalidate ::
    "('r, 'v) ristretto_lib \<Rightarrow> ctx \<Rightarrow> clock \<Rightarrow> key \<Rightarrow> 'r \<Rightarrow> go_error option \<times> 'r" where
  "ristretto_Invalidate lib ctx clk k r =
     (case ctx (clk 0) of
        Some e \<Rightarrow> (Some e, r)
      | None \<Rightarrow> (None, rWait lib (rDel lib k r)))"

definition ristretto_Close :: "('r, 'v) ristretto_lib \<Rightarrow> 'r \<Rightarrow> 'r" where
  "ristretto_Close lib r = rClose lib r"

definition ristretto_ops :: "('r, 'v) ristretto_lib \<Rightarrow> ('v \<Rightarrow> int) \<Rightarrow> ('r, 'v) cache_ops" where
  "ristretto_ops lib est = \<lparr>cGet = ristretto_Get lib, cSet = ristretto_Set lib est,
     cInvalidate = ristretto_Invalidate lib\<rparr>"

definition NewLFU :: "('r, 'v) ristretto_lib \<Rightarrow> ristretto_option list \<Rightarrow> go_error + 'r" where
  "NewLFU lib opts = NewRistretto lib opts"

text \<open>
  What the library promises: \<open>Get\<close> answers with a value that was set for the key,
  a set or delete that has been waited for is visible, and anything may be
  dropped. \<open>rcoh r M\<close> reads: every value held for \<open>k\<close> is in \<open>M k\<close>.
\<close>

definition ristretto_ok :: "('r, 'v) ristretto_lib \<Rightarrow> ('r \<Rightarrow> (key \<Rightarrow> 'v set) \<Rightarrow> bool) \<Rightarrow> bool" where
  "ristretto_ok lib rcoh \<longleftrightarrow>
     (\<forall>r M N. rcoh r M \<longrightarrow> (\<forall>k. M k \<subseteq> N k) \<longrightarrow> rcoh r N) \<and>
     (\<forall>r M t k. rcoh r M \<longrightarrow> rcoh (snd (rGet lib t k r)) M \<and> (\<forall>v. fst (rGet lib t k r) = Some v \<longrightarrow> v \<in> M k)) \<and>
     (\<forall>r M t k v n ttl. rcoh r M \<longrightarrow> rcoh (rWait lib (rSetWithTTL lib t k v n ttl r)) (M(k := {v}))) \<and>
     (\<forall>r M k. rcoh r M \<longrightarrow> rcoh (rWait lib (rDel lib k r)) (M(k := {}))) \<and>
     (\<forall>cfg r. rNewCache lib cfg = Inr r \<longrightarrow> rcoh r (\<lambda>_. {}))"

lemma ristretto_contract:
  assumes "ristretto_ok lib rcoh"
  shows "cache_contract (ristretto_ops lib est) rcoh"
proof -
  note ok = assms [unfolded ristretto_ok_def]
  have mono: "rcoh r N" if "rcoh r M" "\<And>k. M k \<subseteq> N k" for r M N using ok that by blast
  have get: "rcoh (snd (rGet lib t k r)) M \<and> (\<forall>v. fst (rGet lib t k r) = Some v \<longrightarrow> v \<in> M k)"
    if "rcoh r M" for r M t k using ok that by blast
  have set: "rcoh (rWait lib (rSetWithTTL lib t k v n ttl r)) (M(k := {v}))"
    if "rcoh r M" for r M t k v n ttl using ok that by blast
  have del: "rcoh (rWait lib (rDel lib k r)) (M(k := {}))" if "rcoh r M" for r M k using ok that by blast
  show ?thesis
  proof (standard, goal_cases)
    case (1 r M N)
    then show ?case by (rule mono)
  next
    case (2 r M ctx clk k v r')
    then show ?case using get [of r M "clk 1" k]
      by (auto simp: ristretto_ops_def ristretto_Get_def split: option.splits prod.splits)
  next
    case (3 r M ctx clk k res r')
    then show ?case using get [of r M "clk 1" k]
      by (auto simp: ristretto_ops_def ristretto_Get_def split: option.splits prod.splits)
  next
    case (4 r M ctx clk k v ttl e r')
    have "rcoh r' (M(k := {v})) \<or> rcoh r' M"
      using 4 set [of r M] by (auto simp: ristretto_ops_def ristretto_Set_def split: option.splits)
    then show ?case by (auto elim!: mono)
  next
    case (5 r M ctx clk k e r')
    have "rcoh r' (M(k := {})) \<or> rcoh r' M"
      using 5 del [of r M] by (auto simp: ristretto_ops_def ristretto_Invalidate_def split: option.splits)
    then show ?case by (auto elim!: mono split: if_splits)
  next
    case (6 r M ctx clk k v ttl r')
    then show ?case using set [of r M]
      by (auto simp: ristretto_ops_def ristretto_Set_def split: option.splits)
  next
    case (7 r M ctx clk k r')
    then show ?case using del [of r M]
      by (auto simp: ristretto_ops_def ristretto_Invalidate_def split: option.splits)
  qed
qed

section \<open>Adaptive cache\<close>

record ('v, 'r) adaptive =
  ac_lru :: "'v lru"
  ac_lfu :: 'r
  useLFU :: bool
  ac_hits :: u64
  ac_misses :: u64
  switchEvery :: u64

definition NewAdaptive :: "('r, 'v) ristretto_lib \<Rightarrow> go_error + ('v, 'r) adaptive" where
  "NewAdaptive lib =
     (case NewLFU lib [] of
        Inl e \<Rightarrow> Inl e
      | Inr r \<Rightarrow> Inr \<lparr>ac_lru = NewInMemory [], ac_lfu = r, useLFU = False, ac_hits = 0, ac_misses = 0,
                      switchEvery = 100\<rparr>)"

definition adjust :: "('v, 'r) adaptive \<Rightarrow> ('v, 'r) adaptive" where
  "adjust a =
     (let total = ac_hits a + ac_misses a
      in if total < switchEvery a then a
         else a\<lparr>useLFU := (ac_misses a > ac_hits a), ac_hits := 0, ac_misses := 0\<rparr>)"

definition selected_Get ::
    "('r, 'v) ristretto_lib \<Rightarrow> ctx \<Rightarrow> clock \<Rightarrow> key \<Rightarrow> ('v, 'r) adaptive \<Rightarrow> (go_error + 'v option) \<times> ('v, 'r) adaptive" where
  "selected_Get lib ctx clk k a =
     (if useLFU a
      then (case ristretto_Get lib ctx clk k (ac_lfu a) of (r, c) \<Rightarrow> (r, a\<lparr>ac_lfu := c\<rparr>))
      else (case lru_Get ctx clk k (ac_lru a) of (r, c) \<Rightarrow> (r, a\<lparr>ac_lru := c\<rparr>)))"

definition adaptive_Get ::
    "('r, 'v) ristretto_lib \<Rightarrow> ctx \<Rightarrow> clock \<Rightarrow> key \<Rightarrow> ('v, 'r) adaptive \<Rightarrow> (go_error + 'v option) \<times> ('v, 'r) adaptive" where
  "adaptive_Get lib ctx clk k a =
     (case selected_Get lib ctx clk k a of
        (Inl e, a1) \<Rightarrow> (Inl e, a1)
      | (Inr (Some v), a1) \<Rightarrow> (Inr (Some v), adjust (a1\<lparr>ac_hits := ac_hits a1 + 1\<rparr>))
      | (Inr None, a1) \<Rightarrow> (Inr None, adjust (a1\<lparr>ac_misses := ac_misses a1 + 1\<rparr>)))"

definition adaptive_Set ::
    "('r, 'v) ristretto_lib \<Rightarrow> ('v \<Rightarrow> int) \<Rightarrow> ctx \<Rightarrow> clock \<Rightarrow> key \<Rightarrow> 'v \<Rightarrow> duration \<Rightarrow> ('v, 'r) adaptive
     \<Rightarrow> go_error option \<times> ('v, 'r) adaptive" where
  "adaptive_Set lib est ctx clk k v ttl a =
     (let (err1, l) = lru_Set est ctx clk k v ttl (ac_lru a);
          (err2, r) = ristretto_Set lib est ctx (tick 3 clk) k v ttl (ac_lfu a);
          a1 = a\<lparr>ac_lru := l, ac_lfu := r\<rparr>
      in (if err1 \<noteq> None then err1 else err2, a1))"

definition adaptive_Invalidate ::
    "('r, 'v) ristretto_lib \<Rightarrow> ctx \<Rightarrow> clock \<Rightarrow> key \<Rightarrow> ('v, 'r) adaptive \<Rightarrow> go_error option \<times> ('v, 'r) adaptive" where
  "adaptive_Invalidate lib ctx clk k a =
     (let (err1, l) = lru_Invalidate ctx clk k (ac_lru a);
          (err2, r) = ristretto_Invalidate lib ctx (tick 2 clk) k (ac_lfu a);
          a1 = a\<lparr>ac_lru := l, ac_lfu := r\<rparr>
      in (if err1 \<noteq> None then err1 else err2, a1))"

definition adaptive_Close :: "('r, 'v) ristretto_lib \<Rightarrow> ('v, 'r) adaptive \<Rightarrow> ('v, 'r) adaptive" where
  "adaptive_Close lib a = a\<lparr>ac_lru := lru_Close (ac_lru a), ac_lfu := ristretto_Close lib (ac_lfu a)\<rparr>"

definition adaptive_ops ::
    "('r, 'v) ristretto_lib \<Rightarrow> ('v \<Rightarrow> int) \<Rightarrow> (('v, 'r) adaptive, 'v) cache_ops" where
  "adaptive_ops lib est = \<lparr>cGet = adaptive_Get lib, cSet = adaptive_Set lib est,
     cInvalidate = adaptive_Invalidate lib\<rparr>"

section \<open>Factory\<close>

datatype strategy_kind = LRUStrategy | LFUStrategy | AdaptiveStrategy

record factory_config = strategy :: strategy_kind

type_synonym factory_option = "factory_config \<Rightarrow> factory_config"

definition WithStrategy :: "strategy_kind \<Rightarrow> factory_option" where
  "WithStrategy s cfg = cfg\<lparr>strategy := s\<rparr>"

datatype ('v, 'r) any_cache = LRUCache "'v lru" | LFUCache 'r | AdaptiveCache "('v, 'r) adaptive"

definition cache_New :: "('r, 'v) ristretto_lib \<Rightarrow> factory_option list \<Rightarrow> go_error + ('v, 'r) any_cache" where
  "cache_New lib opts =
     (case strategy (fold (\<lambda>opt cfg. opt cfg) opts \<lparr>strategy = LRUStrategy\<rparr>) of
        LFUStrategy \<Rightarrow> map_sum id LFUCache (NewLFU lib [])
      | AdaptiveStrategy \<Rightarrow> map_sum id AdaptiveCache (NewAdaptive lib)
      | LRUStrategy \<Rightarrow> Inr (LRUCache (NewInMemory [])))"

section \<open>Versioned cache\<close>

record 'c vcache =
  base :: 'c
  vlimit :: int
  vorder :: "key list"
  ventries :: "unit gomap"
  vmaxEntries :: int
  vhits :: u64
  vmisses :: u64
  vevictions :: u64

definition versioned_WithMaxEntries :: "int \<Rightarrow> 'c vcache \<Rightarrow> 'c vcache" where
  "versioned_WithMaxEntries n c = c\<lparr>vmaxEntries := n\<rparr>"

definition versioned_New :: "'c \<Rightarrow> int \<Rightarrow> ('c vcache \<Rightarrow> 'c vcache) list \<Rightarrow> 'c vcache" where
  "versioned_New b lim opts =
     fold (\<lambda>opt c. opt c) opts
       \<lparr>base = b, vlimit = lim, vorder = [], ventries = [], vmaxEntries = 0, vhits = 0, vmisses = 0,
        vevictions = 0\<rparr>"

text \<open>\<^verbatim>\<open>c.order.MoveToFront\<close> of the element of a tracked key.\<close>

definition vtouch :: "key \<Rightarrow> 'c vcache \<Rightarrow> 'c vcache" where
  "vtouch k c =
     (case gm_get (ventries c) k of
        Some _ \<Rightarrow> c\<lparr>vorder := k # remove1 k (vorder c)\<rparr>
      | None \<Rightarrow> c)"

definition versioned_Get ::
    "('c, 'a versioned_value) cache_ops \<Rightarrow> ctx \<Rightarrow> clock \<Rightarrow> key \<Rightarrow> 'c vcache \<Rightarrow> (go_error + 'a mval option) \<times> 'c vcache" where
  "versioned_Get bops ctx clk k c =
     (case cGet bops ctx clk k (base c) of
        (Inl e, b) \<Rightarrow> (Inl e, c\<lparr>base := b\<rparr>)
      | (Inr None, b) \<Rightarrow> (Inr None, c\<lparr>base := b, vmisses := vmisses c + 1\<rparr>)
      | (Inr (Some vv), b) \<Rightarrow>
          (let c1 = vtouch k (c\<lparr>base := b\<rparr>); c2 = c1\<lparr>vhits := vhits c1 + 1\<rparr>
           in case vv_Latest vv of
                None \<Rightarrow> (Inr None, c2\<lparr>vmisses := vmisses c2 + 1\<rparr>)
              | Some v \<Rightarrow> (Inr (Some v), c2)))"

definition versioned_GetAt ::
    "('c, 'a versioned_value) cache_ops \<Rightarrow> ctx \<Rightarrow> clock \<Rightarrow> key \<Rightarrow> time \<Rightarrow> 'c vcache
     \<Rightarrow> (go_error + 'a mval option) \<times> 'c vcache" where
  "versioned_GetAt bops ctx clk k at c =
     (case cGet bops ctx clk k (base c) of
        (Inl e, b) \<Rightarrow> (Inl e, c\<lparr>base := b\<rparr>)
      | (Inr None, b) \<Rightarrow> (Inr None, c\<lparr>base := b, vmisses := vmisses c + 1\<rparr>)
      | (Inr (Some vv), b) \<Rightarrow>
          (let c1 = vtouch k (c\<lparr>base := b\<rparr>)
           in case vv_At vv at of
                Some v \<Rightarrow> (Inr (Some v), c1\<lparr>vhits := vhits c1 + 1\<rparr>)
              | None \<Rightarrow> (Inr None, c1\<lparr>vmisses := vmisses c1 + 1\<rparr>)))"

text \<open>The bookkeeping of \<^verbatim>\<open>Set\<close> after the base store: touch a tracked key, otherwise
  track it and evict the least recently used key over the limit.\<close>

definition versioned_track ::
    "('c, 'a versioned_value) cache_ops \<Rightarrow> clock \<Rightarrow> key \<Rightarrow> 'c vcache \<Rightarrow> 'c vcache" where
  "versioned_track bops clk k c =
     (case gm_get (ventries c) k of
        Some _ \<Rightarrow> c\<lparr>vorder := k # remove1 k (vorder c)\<rparr>
      | None \<Rightarrow>
          (let c1 = c\<lparr>vorder := k # vorder c, ventries := gm_put (ventries c) k ()\<rparr>
           in if vmaxEntries c1 > 0 \<and> int (length (vorder c1)) > vmaxEntries c1 \<and> vorder c1 \<noteq> []
              then let l = last (vorder c1);
                       b = snd (cInvalidate bops background clk l (base c1))
                   in c1\<lparr>vorder := butlast (vorder c1), ventries := gm_del (ventries c1) l, base := b,
                         vevictions := vevictions c1 + 1\<rparr>
              else c1))"

definition versioned_Set ::
    "('c, 'a versioned_value) cache_ops \<Rightarrow> ctx \<Rightarrow> clock \<Rightarrow> key \<Rightarrow> 'a mval \<Rightarrow> duration \<Rightarrow> 'c vcache
     \<Rightarrow> go_error option \<times> 'c vcache" where
  "versioned_Set bops ctx clk k v ttl c =
     (case cGet bops ctx clk k (base c) of
        (Inl e, b) \<Rightarrow> (Some e, c\<lparr>base := b\<rparr>)
      | (Inr r, b) \<Rightarrow>
          (let vv = (case r of None \<Rightarrow> NewVersionedValue v (vlimit c) | Some vv0 \<Rightarrow> vv_Add vv0 v)
           in case cSet bops ctx (tick 3 clk) k vv ttl b of
                (Some e, b1) \<Rightarrow> (Some e, c\<lparr>base := b1\<rparr>)
              | (None, b1) \<Rightarrow> (None, versioned_track bops (tick 6 clk) k (c\<lparr>base := b1\<rparr>))))"

definition versioned_Invalidate ::
    "('c, 'a versioned_value) cache_ops \<Rightarrow> ctx \<Rightarrow> clock \<Rightarrow> key \<Rightarrow> 'c vcache \<Rightarrow> go_error option \<times> 'c vcache" where
  "versioned_Invalidate bops ctx clk k c =
     (let c1 = (case gm_get (ventries c) k of
                  Some _ \<Rightarrow> c\<lparr>vorder := remove1 k (vorder c), ventries := gm_del (ventries c) k\<rparr>
                | None \<Rightarrow> c);
          (e, b) = cInvalidate bops ctx clk k (base c1)
      in (e, c1\<lparr>base := b\<rparr>))"

record versioned_metrics =
  vmHits :: u64
  vmMisses :: u64
  vmEvictions :: u64

definition versioned_Metrics :: "'c vcache \<Rightarrow> versioned_metrics" where
  "versioned_Metrics c = \<lparr>vmHits = vhits c, vmMisses = vmisses c, vmEvictions = vevictions c\<rparr>"

definition versioned_ops :: "('c, 'a versioned_value) cache_ops \<Rightarrow> ('c vcache, 'a mval) cache_ops" where
  "versioned_ops bops = \<lparr>cGet = versioned_Get bops, cSet = versioned_Set bops,
     cInvalidate = versioned_Invalidate bops\<rparr>"

section \<open>Contracts of the wrappers\<close>

abbreviation lru_coh :: "'v lru \<Rightarrow> (key \<Rightarrow> 'v set) \<Rightarrow> bool" where
  "lru_coh c M \<equiv> lru_inv c \<and> admits (lru_view c) M"

lemma lru_coh_New: "set opts \<subseteq> lru_options \<Longrightarrow> lru_coh (NewInMemory opts) (\<lambda>_. {})"
proof -
  assume "set opts \<subseteq> lru_options"
  moreover from this have "lru_view (NewInMemory opts) = Map.empty" by (rule lru_view_New)
  ultimately show ?thesis using lru_inv_NewInMemory by (simp add: admits_def)
qed

interpretation resilient_lru: cache_base "NewResilient (lru_ops est)" lru_coh
  for est :: "'v \<Rightarrow> int"
  by (rule NewResilient_base) (rule lru.entries.cache_base_axioms)

definition adaptive_coh ::
    "('r \<Rightarrow> (key \<Rightarrow> 'v set) \<Rightarrow> bool) \<Rightarrow> ('v, 'r) adaptive \<Rightarrow> (key \<Rightarrow> 'v set) \<Rightarrow> bool" where
  "adaptive_coh rcoh a M \<longleftrightarrow> lru_coh (ac_lru a) M \<and> rcoh (ac_lfu a) M"

lemma adaptive_coh_adjust [simp]: "adaptive_coh rcoh (adjust a) M = adaptive_coh rcoh a M"
  by (simp add: adaptive_coh_def adjust_def Let_def)

lemma adaptive_coh_counters [simp]:
  "adaptive_coh rcoh (a\<lparr>ac_hits := h\<rparr>) M = adaptive_coh rcoh a M"
  "adaptive_coh rcoh (a\<lparr>ac_misses := h\<rparr>) M = adaptive_coh rcoh a M"
  by (simp_all add: adaptive_coh_def)

lemma adaptive_contract:
  fixes est :: "'v \<Rightarrow> int"
  assumes "ristretto_ok lib rcoh"
  shows "cache_contract (adaptive_ops lib est) (adaptive_coh rcoh)"
proof -
  from assms have c: "cache_contract (ristretto_ops lib est) rcoh" by (rule ristretto_contract)
  then have b: "cache_base (ristretto_ops lib est) rcoh" by (rule cache_contract.axioms)
  note r = cache_base.coh_mono [OF b] cache_base.get_sound [OF b] cache_base.get_coh [OF b]
    cache_base.set_coh [OF b] cache_base.invalidate_coh [OF b] cache_contract.set_ok [OF c]
    cache_contract.invalidate_ok [OF c]
  note r = r [unfolded ristretto_ops_def cache_ops.simps]
  note l = lru.entries.get_sound lru.entries.get_coh lru.entries.set_coh
    lru.entries.invalidate_coh lru.entries.set_ok lru.entries.invalidate_ok
  note l = lru.entries.coh_mono l [where est = est, unfolded lru_ops_def cache_ops.simps]
  show ?thesis
  proof (standard, goal_cases)
    case (1 a M N)
    have "lru_coh (ac_lru a) N" by (rule l(1) [where M = M]) (use 1 in \<open>simp_all add: adaptive_coh_def\<close>)
    moreover have "rcoh (ac_lfu a) N" by (rule r(1) [where M = M]) (use 1 in \<open>simp_all add: adaptive_coh_def\<close>)
    ultimately show ?case by (simp add: adaptive_coh_def)
  next
    case (2 a M ctx clk k v a')
    then show ?case using l(2) [of "ac_lru a" M ctx clk k v] r(2) [of "ac_lfu a" M ctx clk k v]
      by (auto simp: adaptive_ops_def adaptive_Get_def selected_Get_def adaptive_coh_def
          split: prod.splits sum.splits option.splits if_splits)
  next
    case (3 a M ctx clk k r a')
    obtain q c where L: "lru_Get ctx clk k (ac_lru a) = (q, c)" by (cases "lru_Get ctx clk k (ac_lru a)")
    obtain q' c' where R: "ristretto_Get lib ctx clk k (ac_lfu a) = (q', c')"
      by (cases "ristretto_Get lib ctx clk k (ac_lfu a)")
    have "adaptive_coh rcoh (snd (selected_Get lib ctx clk k a)) M"
      using 3(1) l(3) [OF _ L, of M] r(3) [OF _ R, of M] by (simp add: selected_Get_def adaptive_coh_def L R)
    with 3(2) show ?case
      by (auto simp: adaptive_ops_def adaptive_Get_def split: prod.splits sum.splits option.splits)
  next
    case (4 a M ctx clk k v ttl e a')
    obtain e1 c where L: "lru_Set est ctx clk k v ttl (ac_lru a) = (e1, c)"
      by (cases "lru_Set est ctx clk k v ttl (ac_lru a)")
    obtain e2 c' where R: "ristretto_Set lib est ctx (tick 3 clk) k v ttl (ac_lfu a) = (e2, c')"
      by (cases "ristretto_Set lib est ctx (tick 3 clk) k v ttl (ac_lfu a)")
    from 4(2) have "a' = a\<lparr>ac_lru := c, ac_lfu := c'\<rparr>" by (simp add: adaptive_ops_def adaptive_Set_def L R)
    with 4(1) l(4) [OF _ L, of M] r(4) [OF _ R, of M] show ?case by (simp add: adaptive_coh_def)
  next
    case (5 a M ctx clk k e a')
    obtain e1 c where L: "lru_Invalidate ctx clk k (ac_lru a) = (e1, c)"
      by (cases "lru_Invalidate ctx clk k (ac_lru a)")
    obtain e2 c' where R: "ristretto_Invalidate lib ctx (tick 2 clk) k (ac_lfu a) = (e2, c')"
      by (cases "ristretto_Invalidate lib ctx (tick 2 clk) k (ac_lfu a)")
    from 5(2) have "a' = a\<lparr>ac_lru := c, ac_lfu := c'\<rparr>" by (simp add: adaptive_ops_def adaptive_Invalidate_def L R)
    with 5(1) l(5) [OF _ L, of M] r(5) [OF _ R, of M] show ?case by (simp add: adaptive_coh_def)
  next
    case (6 a M ctx clk k v ttl a')
    obtain e1 c where L: "lru_Set est ctx clk k v ttl (ac_lru a) = (e1, c)"
      by (cases "lru_Set est ctx clk k v ttl (ac_lru a)")
    obtain e2 c' where R: "ristretto_Set lib est ctx (tick 3 clk) k v ttl (ac_lfu a) = (e2, c')"
      by (cases "ristretto_Set lib est ctx (tick 3 clk) k v ttl (ac_lfu a)")
    from 6(2) have "a' = a\<lparr>ac_lru := c, ac_lfu := c'\<rparr>" "e1 = None" "e2 = None"
      by (simp_all add: adaptive_ops_def adaptive_Set_def L R split: if_splits)
    with 6(1) l(6) [of "ac_lru a" M ctx clk k v ttl c] r(6) [of "ac_lfu a" M ctx "tick 3 clk" k v ttl c'] L R
    show ?case by (simp add: adaptive_coh_def)
  next
    case (7 a M ctx clk k a')
    obtain e1 c where L: "lru_Invalidate ctx clk k (ac_lru a) = (e1, c)"
      by (cases "lru_Invalidate ctx clk k (ac_lru a)")
    obtain e2 c' where R: "ristretto_Invalidate lib ctx (tick 2 clk) k (ac_lfu a) = (e2, c')"
      by (cases "ristretto_Invalidate lib ctx (tick 2 clk) k (ac_lfu a)")
    from 7(2) have "a' = a\<lparr>ac_lru := c, ac_lfu := c'\<rparr>" "e1 = None" "e2 = None"
      by (simp_all add: adaptive_ops_def adaptive_Invalidate_def L R split: if_splits)
    with 7(1) l(7) [of "ac_lru a" M ctx clk k c] r(7) [of "ac_lfu a" M ctx "tick 2 clk" k c'] L R
    show ?case by (simp add: adaptive_coh_def)
  qed
qed

subsection \<open>Versioned cache\<close>

lemma vv_Latest_Add [simp]: "vv_Latest (vv_Add vv v) = Some v"
  by (auto simp: vv_Latest_def vv_Add_def Let_def nth_append)

lemma vv_Latest_New [simp]: "vv_Latest (NewVersionedValue v n) = Some v"
  by (simp add: vv_Latest_def NewVersionedValue_def)

lemma versions_Add_suffix: "suffix (versions vv) h \<Longrightarrow> suffix (versions (vv_Add vv v)) (h @ [v])"
proof -
  assume "suffix (versions vv) h"
  then have "suffix (versions vv @ [v]) (h @ [v])" by (auto simp: suffix_def)
  then show ?thesis
    by (auto simp: vv_Add_def Let_def intro: suffix_order.trans [OF suffix_drop])
qed

lemma versions_New_suffix: "suffix (versions (NewVersionedValue v n)) (h @ [v])"
  by (simp add: NewVersionedValue_def suffix_def)

lemma at_loop_find: "n \<le> length vs \<Longrightarrow> at_loop n vs t = find (\<lambda>w. Timestamp w \<le> t) (rev (take n vs))"
  by (induction n) (auto simp: take_Suc_conv_app_nth time_After_def not_less)

lemma vv_At_find: "vv_At vv t = find (\<lambda>w. Timestamp w \<le> t) (rev (versions vv))"
  by (simp add: vv_At_def at_loop_find)

lemma find_suffix:
  assumes "suffix xs ys" and "find P (rev xs) = Some v"
  shows "find P (rev ys) = Some v"
proof -
  have "find P (zs @ ws) = Some v" if "find P zs = Some v" for zs ws
    using that by (induct zs) auto
  moreover obtain zs where "ys = zs @ xs" using assms(1) by (auto simp: suffix_def)
  ultimately show ?thesis using assms(2) by simp
qed

text \<open>The history of each key since it was last invalidated.\<close>

fun hist :: "(key \<Rightarrow> 'a list) \<Rightarrow> 'a cache_call \<Rightarrow> key \<Rightarrow> 'a list" where
  "hist h (CallSet ctx clk k v ttl) = h(k := h k @ [v])"
| "hist h (CallInvalidate ctx clk k) = h(k := [])"
| "hist h (CallGet ctx clk k) = h"

lemma base_vtouch [simp]: "base (vtouch k c) = base c"
  by (simp add: vtouch_def split: option.splits)

lemma base_track_coh:
  assumes "cache_contract bops coh" and "coh (base c) N"
  shows "coh (base (versioned_track bops clk k c)) N"
proof -
  have b: "cache_base bops coh" using assms(1) by (rule cache_contract.axioms)
  have "coh (snd (cInvalidate bops background clk l (base c))) N" for l
    by (rule cache_base.invalidate_coh [OF b assms(2)]) (rule prod.collapse [symmetric])
  with assms(2) show ?thesis by (simp add: versioned_track_def Let_def split: option.splits)
qed

lemma base_Get_coh:
  assumes "cache_contract bops coh" and "coh (base c) N"
  shows "coh (base (snd (versioned_Get bops ctx clk k c))) N"
    and "coh (base (snd (versioned_GetAt bops ctx clk k at c))) N"
    and "fst (versioned_Get bops ctx clk k c) = Inr (Some v) \<Longrightarrow> \<exists>vv \<in> N k. vv_Latest vv = Some v"
    and "fst (versioned_GetAt bops ctx clk k at c) = Inr (Some v) \<Longrightarrow> \<exists>vv \<in> N k. vv_At vv at = Some v"
proof -
  have b: "cache_base bops coh" using assms(1) by (rule cache_contract.axioms)
  obtain r c1 where g: "cGet bops ctx clk k (base c) = (r, c1)" by (cases "cGet bops ctx clk k (base c)")
  have "coh c1 N" by (rule cache_base.get_coh [OF b assms(2) g])
  then show "coh (base (snd (versioned_Get bops ctx clk k c))) N"
    and "coh (base (snd (versioned_GetAt bops ctx clk k at c))) N"
    by (auto simp: versioned_Get_def versioned_GetAt_def g Let_def split: sum.splits option.splits)
  have "r = Inr (Some vv) \<Longrightarrow> vv \<in> N k" for vv
    using cache_base.get_sound [OF b assms(2)] g by blast
  then show "fst (versioned_Get bops ctx clk k c) = Inr (Some v) \<Longrightarrow> \<exists>vv \<in> N k. vv_Latest vv = Some v"
    and "fst (versioned_GetAt bops ctx clk k at c) = Inr (Some v) \<Longrightarrow> \<exists>vv \<in> N k. vv_At vv at = Some v"
    by (auto simp: versioned_Get_def versioned_GetAt_def g Let_def split: sum.splits option.splits)
qed

lemma base_Set_coh:
  assumes C: "cache_contract bops coh" and "coh (base c) N"
    and S: "\<And>vv. vv \<in> N k \<Longrightarrow> vv_Add vv v \<in> S" "NewVersionedValue v (vlimit c) \<in> S"
    and set: "versioned_Set bops ctx clk k v ttl c = (e, c')"
  shows "e = None \<Longrightarrow> coh (base c') (N(k := S))" and "coh (base c') (N(k := N k \<union> S))"
proof -
  have B: "cache_base bops coh" using C by (rule cache_contract.axioms)
  note mono = cache_base.coh_mono [OF B]
  obtain r b where g: "cGet bops ctx clk k (base c) = (r, b)" by (cases "cGet bops ctx clk k (base c)")
  have b: "coh b N" by (rule cache_base.get_coh [OF B assms(2) g])
  have mem: "vv \<in> N k" if "r = Inr (Some vv)" for vv
    using cache_base.get_sound [OF B assms(2)] g that by blast
  have "(e = None \<longrightarrow> coh (base c') (N(k := S))) \<and> coh (base c') (N(k := N k \<union> S))"
  proof (cases r)
    case (Inl err)
    then have "base c' = b" "e = Some err" using set by (auto simp: versioned_Set_def g)
    with mono [OF b, of "N(k := N k \<union> S)"] show ?thesis by simp
  next
    case (Inr q)
    let ?vv = "case q of None \<Rightarrow> NewVersionedValue v (vlimit c) | Some vv0 \<Rightarrow> vv_Add vv0 v"
    have inS: "?vv \<in> S" using S mem Inr by (cases q) auto
    obtain err b1 where s: "cSet bops ctx (tick 3 clk) k ?vv ttl b = (err, b1)"
      by (cases "cSet bops ctx (tick 3 clk) k ?vv ttl b")
    have w: "coh b1 (N(k := insert ?vv (N k)))" by (rule cache_base.set_coh [OF B b s])
    show ?thesis
    proof (cases err)
      case (Some x)
      then have "base c' = b1" "e = Some x" using set Inr by (auto simp: versioned_Set_def g s Let_def)
      with mono [OF w, of "N(k := N k \<union> S)"] inS show ?thesis by auto
    next
      case None
      have "coh b1 (N(k := {?vv}))" by (rule cache_contract.set_ok [OF C b s [unfolded None]])
      from mono [OF this, of "N(k := S)"] inS have "coh b1 (N(k := S))" by auto
      moreover have "c' = versioned_track bops (tick 6 clk) k (c\<lparr>base := b1\<rparr>)"
        using set Inr None by (auto simp: versioned_Set_def g s Let_def)
      ultimately have "coh (base c') (N(k := S))" using base_track_coh [OF C] by simp
      with mono [OF this, of "N(k := N k \<union> S)"] show ?thesis by auto
    qed
  qed
  then show "e = None \<Longrightarrow> coh (base c') (N(k := S))" and "coh (base c') (N(k := N k \<union> S))" by auto
qed

lemma base_Invalidate_coh:
  assumes C: "cache_contract bops coh" and "coh (base c) N"
    and inv: "versioned_Invalidate bops ctx clk k c = (e, c')"
  shows "e = None \<Longrightarrow> coh (base c') (N(k := {}))" and "coh (base c') N"
proof -
  obtain b where i: "cInvalidate bops ctx clk k (base c) = (e, b)" "base c' = b"
    using inv by (auto simp: versioned_Invalidate_def Let_def split: option.splits prod.splits)
  show "e = None \<Longrightarrow> coh (base c') (N(k := {}))"
    using i cache_contract.invalidate_ok [OF C assms(2)] by blast
  show "coh (base c') N"
    using i cache_base.invalidate_coh [OF cache_contract.axioms(1) [OF C] assms(2)] by blast
qed

definition latest_in :: "'a mval set \<Rightarrow> 'a versioned_value set" where
  "latest_in S = {vv. \<forall>v. vv_Latest vv = Some v \<longrightarrow> v \<in> S}"

definition versioned_coh ::
    "('c \<Rightarrow> (key \<Rightarrow> 'a versioned_value set) \<Rightarrow> bool) \<Rightarrow> 'c vcache \<Rightarrow> (key \<Rightarrow> 'a mval set) \<Rightarrow> bool" where
  "versioned_coh coh c M \<longleftrightarrow> coh (base c) (\<lambda>k. latest_in (M k))"

lemma latest_in_simps [simp]:
  "vv_Add vv v \<in> latest_in S \<longleftrightarrow> v \<in> S" "NewVersionedValue v n \<in> latest_in S \<longleftrightarrow> v \<in> S"
  by (simp_all add: latest_in_def)

lemma latest_in_mono: "S \<subseteq> T \<Longrightarrow> latest_in S \<subseteq> latest_in T"
  by (auto simp: latest_in_def)

lemma latest_in_upd: "(\<lambda>k'. latest_in ((M(k := S)) k')) = (\<lambda>k'. latest_in (M k'))(k := latest_in S)"
  by (simp add: fun_eq_iff)

lemma versioned_contract:
  assumes C: "cache_contract bops coh"
  shows "cache_contract (versioned_ops bops) (versioned_coh coh)"
proof -
  note mono = cache_base.coh_mono [OF cache_contract.axioms(1) [OF C]]
  show ?thesis
  proof (standard, goal_cases)
    case (1 c M N)
    show ?case unfolding versioned_coh_def
      by (rule mono [OF 1(1) [unfolded versioned_coh_def]]) (rule latest_in_mono [OF 1(2)])
  next
    case (2 c M ctx clk k v c')
    then show ?case
      using base_Get_coh(3) [OF C, of c "\<lambda>k. latest_in (M k)" ctx clk k v]
      by (auto simp: versioned_ops_def versioned_coh_def latest_in_def)
  next
    case (3 c M ctx clk k r c')
    then show ?case using base_Get_coh(1) [OF C, of c "\<lambda>k. latest_in (M k)" ctx clk k]
      by (simp add: versioned_ops_def versioned_coh_def)
  next
    case (4 c M ctx clk k v ttl e c')
    have "coh (base c') ((\<lambda>k. latest_in (M k))(k := latest_in (M k) \<union> latest_in {v}))"
      using 4 by (intro base_Set_coh(2) [OF C]) (auto simp: versioned_ops_def versioned_coh_def)
    then show ?case unfolding versioned_coh_def
      by (rule mono) (auto intro: latest_in_mono [THEN subsetD])
  next
    case (5 c M ctx clk k e c')
    then show ?case using base_Invalidate_coh(2) [OF C]
      by (auto simp: versioned_ops_def versioned_coh_def)
  next
    case (6 c M ctx clk k v ttl c')
    have "coh (base c') ((\<lambda>k. latest_in (M k))(k := latest_in {v}))"
      using 6 by (intro base_Set_coh(1) [OF C]) (auto simp: versioned_ops_def versioned_coh_def)
    then show ?case unfolding versioned_coh_def latest_in_upd .
  next
    case (7 c M ctx clk k c')
    have "coh (base c') ((\<lambda>k. latest_in (M k))(k := {}))"
      using 7 by (intro base_Invalidate_coh(1) [OF C]) (auto simp: versioned_ops_def versioned_coh_def)
    then show ?case unfolding versioned_coh_def latest_in_upd by (rule mono) auto
  qed
qed

interpretation versioned_lru: cache_contract "versioned_ops (lru_ops est)" "versioned_coh lru_coh"
  for est :: "'a versioned_value \<Rightarrow> int"
  by (rule versioned_contract) (rule lru.entries.cache_contract_axioms)

text \<open>Under a context that is never done the in-memory cache reports no error.\<close>

lemma lru_background [simp]:
  "fst (lru_Get background clk k c) \<noteq> Inl e" "fst (lru_Set est background clk k v ttl c) = None"
  "fst (lru_Invalidate background clk k c) = None"
  by (simp_all add: lru_Get_def lru_Set_def lru_Invalidate_def Let_def split: option.splits)

fun on_background :: "'v cache_call \<Rightarrow> bool" where
  "on_background (CallGet ctx clk k) = True"
| "on_background (CallSet ctx clk k v ttl) = (ctx = background)"
| "on_background (CallInvalidate ctx clk k) = (ctx = background)"

lemma versioned_background:
  "fst (versioned_Set (lru_ops est) background clk k v ttl c) = None"
  "fst (versioned_Invalidate (lru_ops est) background clk k c) = None"
proof -
  obtain r b where g: "lru_Get background clk k (base c) = (r, b)" by (cases "lru_Get background clk k (base c)")
  then have "r \<noteq> Inl e" for e using lru_background(1) [of clk k "base c" e] by simp
  then obtain q where q: "r = Inr q" by (cases r) auto
  have n: "lru_Set est background clk' k vv ttl b = (None, snd (lru_Set est background clk' k vv ttl b))" for clk' vv
    using lru_background(2) [of est clk' k vv ttl b] by (cases "lru_Set est background clk' k vv ttl b") simp
  show "fst (versioned_Set (lru_ops est) background clk k v ttl c) = None"
    by (subst versioned_Set_def, simp add: lru_ops_def g q, subst n, simp)
  show "fst (versioned_Invalidate (lru_ops est) background clk k c) = None"
    using lru_background(3) [of clk k "base c"]
    by (cases "lru_Invalidate background clk k (base c)")
      (simp add: versioned_Invalidate_def lru_ops_def Let_def split: option.splits)
qed

lemma hist_call_coh:
  assumes "lru_coh (base c) (\<lambda>k. {vv. suffix (versions vv) (h k)})" and "on_background x"
  shows "lru_coh (base (run_call (versioned_ops (lru_ops est)) c x))
           (\<lambda>k. {vv. suffix (versions vv) (hist h x k)})"
proof (cases x)
  case (CallGet ctx clk k)
  with assms base_Get_coh(1) [OF lru.entries.cache_contract_axioms assms(1)] show ?thesis
    by (simp add: versioned_ops_def)
next
  case (CallSet ctx clk k v ttl)
  with assms(2) have ctx: "ctx = background" by simp
  let ?c = "snd (versioned_Set (lru_ops est) background clk k v ttl c)"
  have coh: "lru_coh (base ?c) ((\<lambda>k. {vv. suffix (versions vv) (h k)})(k := {vv. suffix (versions vv) (h k @ [v])}))"
  proof (rule base_Set_coh(1) [OF lru.entries.cache_contract_axioms assms(1)])
    show "versioned_Set (lru_ops est) background clk k v ttl c = (None, ?c)"
      by (simp add: prod_eq_iff versioned_background)
  qed (simp_all only: mem_Collect_eq versions_Add_suffix versions_New_suffix)
  have eq: "((\<lambda>k. {vv. suffix (versions vv) (h k)})(k := {vv. suffix (versions vv) (h k @ [v])})) =
      (\<lambda>k. {vv. suffix (versions vv) (hist h x k)})" by (simp add: CallSet fun_eq_iff)
  have run: "run_call (versioned_ops (lru_ops est)) c x = ?c" by (simp add: CallSet ctx versioned_ops_def)
  show ?thesis unfolding run eq [symmetric] by (rule coh)
next
  case (CallInvalidate ctx clk k)
  with assms(2) have ctx: "ctx = background" by simp
  let ?c = "snd (versioned_Invalidate (lru_ops est) background clk k c)"
  have "lru_coh (base ?c) ((\<lambda>k. {vv. suffix (versions vv) (h k)})(k := {}))"
  proof (rule base_Invalidate_coh(1) [OF lru.entries.cache_contract_axioms assms(1)])
    show "versioned_Invalidate (lru_ops est) background clk k c = (None, ?c)"
      by (simp add: prod_eq_iff versioned_background)
  qed simp
  then have "lru_coh (base ?c) (\<lambda>k. {vv. suffix (versions vv) (hist h x k)})"
    by (rule lru.entries.coh_mono) (auto simp: CallInvalidate)
  then show ?thesis by (simp add: CallInvalidate ctx versioned_ops_def)
qed

lemma hist_calls_coh:
  assumes "lru_coh (base c) (\<lambda>k. {vv. suffix (versions vv) (h k)})" and "\<forall>x \<in> set xs. on_background x"
  shows "lru_coh (base (foldl (run_call (versioned_ops (lru_ops est))) c xs))
           (\<lambda>k. {vv. suffix (versions vv) (foldl hist h xs k)})"
  using assms
proof (induction xs arbitrary: c h)
  case (Cons x xs)
  from Cons.IH [OF hist_call_coh [OF Cons.prems(1), of x est]] Cons.prems(2) show ?case by simp
qed simp

lemma base_versioned_New [simp]:
  "base (versioned_New b lim [versioned_WithMaxEntries n]) = b"
  "vorder (versioned_New b lim [versioned_WithMaxEntries n]) = []"
  "ventries (versioned_New b lim [versioned_WithMaxEntries n]) = []"
  "vmaxEntries (versioned_New b lim [versioned_WithMaxEntries n]) = n"
  by (simp_all add: versioned_New_def versioned_WithMaxEntries_def)

text \<open>Every key of the base cache is tracked, and at most the configured number of keys is.\<close>

definition versioned_inv :: "'v lru vcache \<Rightarrow> bool" where
  "versioned_inv c \<longleftrightarrow> lru_inv (base c) \<and> distinct (vorder c) \<and>
     set (gm_keys (ventries c)) = set (vorder c) \<and> dom (lru_view (base c)) \<subseteq> set (vorder c) \<and>
     (vmaxEntries c > 0 \<longrightarrow> int (length (vorder c)) \<le> vmaxEntries c)"

lemma dom_map_le: "m \<subseteq>\<^sub>m n \<Longrightarrow> dom n \<subseteq> S \<Longrightarrow> dom m \<subseteq> S"
  using map_le_implies_dom_le by blast

lemma versioned_inv_base:
  "versioned_inv c \<Longrightarrow> lru_inv b \<Longrightarrow> lru_view b \<subseteq>\<^sub>m lru_view (base c) \<Longrightarrow> versioned_inv (c\<lparr>base := b\<rparr>)"
  using dom_map_le [of "lru_view b" "lru_view (base c)" "set (vorder c)"]
  by (simp add: versioned_inv_def del: set_map)

lemma versioned_inv_front:
  assumes "versioned_inv c" and "gm_get (ventries c) k = Some u"
  shows "versioned_inv (c\<lparr>vorder := k # remove1 k (vorder c)\<rparr>)"
proof -
  have "k \<in> set (vorder c)" using assms gm_get_in_keys [of "ventries c" k u] by (simp add: versioned_inv_def del: set_map)
  with assms(1) to_front [of k "vorder c"] show ?thesis
    unfolding versioned_inv_def by (simp del: set_map remove1.simps set_simps length_Cons distinct.simps)
qed

lemma versioned_inv_touch: "versioned_inv c \<Longrightarrow> versioned_inv (vtouch k c)"
  by (cases "gm_get (ventries c) k") (simp_all add: vtouch_def versioned_inv_front)

lemma versioned_inv_counters [simp]:
  "versioned_inv (c\<lparr>vmisses := n\<rparr>) = versioned_inv c" "versioned_inv (c\<lparr>vhits := n\<rparr>) = versioned_inv c"
  by (simp_all add: versioned_inv_def)

lemma versioned_inv_track:
  assumes "versioned_inv c" and "dom (lru_view b) \<subseteq> insert k (set (vorder c))" and "lru_inv b"
  shows "versioned_inv (versioned_track (lru_ops est) clk k (c\<lparr>base := b\<rparr>))"
proof (cases "gm_get (ventries c) k")
  case (Some u)
  then have "k \<in> set (vorder c)" using assms(1) gm_get_in_keys [of "ventries c" k u] by (simp add: versioned_inv_def del: set_map)
  then have "versioned_inv (c\<lparr>base := b\<rparr>)" using assms by (simp add: versioned_inv_def insert_absorb del: set_map)
  with Some show ?thesis using versioned_inv_front [of "c\<lparr>base := b\<rparr>" k u] by (simp add: versioned_track_def)
next
  case None
  have "k \<notin> set (vorder c)" using assms(1) None by (simp add: versioned_inv_def gm_get_None_iff del: set_map)
  then have d: "distinct (k # vorder c)" "set (gm_keys (gm_put (ventries c) k ())) = set (k # vorder c)"
    using assms(1) by (auto simp: versioned_inv_def gm_keys_put simp del: set_map)
  let ?l = "last (k # vorder c)"
  obtain b1 where i: "lru_Invalidate background clk ?l b = (None, b1)"
    by (metis lru_background(3) prod.collapse)
  have "lru_view b1 \<subseteq>\<^sub>m (lru_view b)(?l := None)" "lru_inv b1"
    using lru.invalidate_removes [OF assms(3)] i lru_inv_Invalidate [OF assms(3), of background clk ?l]
    by (simp_all add: lru_ops_def)
  then have "lru_inv b1" and "dom (lru_view b1) \<subseteq> dom (lru_view b) - {?l}"
    using map_le_implies_dom_le [of "lru_view b1" "(lru_view b)(?l := None)"] by simp_all
  moreover have "set (butlast (k # vorder c)) = set (k # vorder c) - {?l}"
    using set_butlast_distinct [OF d(1)] by simp
  ultimately have b1: "lru_inv b1" "dom (lru_view b1) \<subseteq> set (butlast (k # vorder c))"
    "set (gm_keys (gm_del (gm_put (ventries c) k ()) ?l)) = set (butlast (k # vorder c))"
    using assms(2) d(2) by (auto simp: gm_keys_del simp del: set_map butlast.simps last.simps)
  show ?thesis
  proof (cases "vmaxEntries c > 0 \<and> int (length (k # vorder c)) > vmaxEntries c")
    case True
    then have t: "versioned_track (lru_ops est) clk k (c\<lparr>base := b\<rparr>) =
        c\<lparr>vorder := butlast (k # vorder c), ventries := gm_del (gm_put (ventries c) k ()) ?l, base := b1,
          vevictions := vevictions c + 1\<rparr>"
      using None i by (simp add: versioned_track_def lru_ops_def Let_def del: butlast.simps last.simps)
    have "int (length (butlast (k # vorder c))) \<le> vmaxEntries c"
      using assms(1) True by (simp add: versioned_inv_def)
    with b1 distinct_butlast [OF d(1)] show ?thesis
      unfolding t by (simp add: versioned_inv_def del: butlast.simps last.simps set_map)
  next
    case False
    then have t: "versioned_track (lru_ops est) clk k (c\<lparr>base := b\<rparr>) =
        c\<lparr>vorder := k # vorder c, ventries := gm_put (ventries c) k (), base := b\<rparr>"
      using None by (auto simp: versioned_track_def Let_def)
    from False assms d show ?thesis unfolding t by (auto simp: versioned_inv_def simp del: set_map)
  qed
qed

lemma versioned_inv_Get:
  assumes "versioned_inv c" shows "versioned_inv (snd (versioned_Get (lru_ops est) ctx clk k c))"
proof -
  obtain r b where g: "lru_Get ctx clk k (base c) = (r, b)" by (cases "lru_Get ctx clk k (base c)")
  have i: "lru_inv (base c)" using assms by (simp add: versioned_inv_def)
  have "versioned_inv (c\<lparr>base := b\<rparr>)"
    using assms lru.get_forgets [OF i, of est ctx clk k] lru_inv_Get [OF i, of ctx clk k]
    by (intro versioned_inv_base) (simp_all add: lru_ops_def g)
  then show ?thesis
    by (auto simp: versioned_Get_def lru_ops_def g Let_def versioned_inv_touch split: sum.splits option.splits)
qed

lemma versioned_inv_Set:
  assumes "versioned_inv c"
  shows "versioned_inv (snd (versioned_Set (lru_ops est) ctx clk k v ttl c))"
proof -
  obtain r b where g: "lru_Get ctx clk k (base c) = (r, b)" by (cases "lru_Get ctx clk k (base c)")
  have i: "lru_inv (base c)" using assms by (simp add: versioned_inv_def)
  have le: "lru_inv b" "lru_view b \<subseteq>\<^sub>m lru_view (base c)"
    using lru.get_forgets [OF i, of est ctx clk k] lru_inv_Get [OF i, of ctx clk k] by (simp_all add: lru_ops_def g)
  show ?thesis
  proof (cases r)
    case (Inl e)
    with le assms show ?thesis by (simp add: versioned_Set_def lru_ops_def g versioned_inv_base)
  next
    case (Inr q)
    let ?vv = "case q of None \<Rightarrow> NewVersionedValue v (vlimit c) | Some vv0 \<Rightarrow> vv_Add vv0 v"
    obtain e b1 where s: "lru_Set est ctx (tick 3 clk) k ?vv ttl b = (e, b1)"
      by (cases "lru_Set est ctx (tick 3 clk) k ?vv ttl b")
    have i1: "lru_inv b1" using lru_inv_Set [OF le(1), of est ctx "tick 3 clk" k ?vv ttl] by (simp add: s)
    show ?thesis
    proof (cases e)
      case (Some x)
      then have "b1 = b" using s by (auto simp: lru_Set_def Let_def split: option.splits)
      with le assms Inr Some s show ?thesis by (simp add: versioned_Set_def lru_ops_def g Let_def versioned_inv_base)
    next
      case None
      have "lru_view b1 \<subseteq>\<^sub>m (lru_view b)(k \<mapsto> ?vv)" using lru.set_forgets [OF le(1), of est] s None by (simp add: lru_ops_def)
      then have "dom (lru_view b1) \<subseteq> insert k (dom (lru_view b))" by (auto dest!: map_le_implies_dom_le)
      moreover have "dom (lru_view b) \<subseteq> set (vorder c)"
        by (rule dom_map_le [OF le(2)]) (use assms in \<open>simp add: versioned_inv_def del: set_map\<close>)
      ultimately have d: "dom (lru_view b1) \<subseteq> insert k (set (vorder c))" by blast
      let ?c = "c\<lparr>base := b1\<rparr>"
      have "versioned_inv (versioned_track (lru_ops est) (tick 6 clk) k ?c)"
        using assms d i1 by (rule versioned_inv_track)
      with Inr None s show ?thesis by (simp add: versioned_Set_def lru_ops_def g Let_def)
    qed
  qed
qed

lemma versioned_inv_Invalidate:
  assumes "versioned_inv c"
  shows "versioned_inv (snd (versioned_Invalidate (lru_ops est) background clk k c))"
proof -
  obtain b where i: "lru_Invalidate background clk k (base c) = (None, b)"
    by (metis lru_background(3) prod.collapse)
  have inv: "lru_inv (base c)" using assms by (simp add: versioned_inv_def)
  have b: "lru_inv b" "dom (lru_view b) \<subseteq> dom (lru_view (base c)) - {k}"
    using lru.invalidate_removes [OF inv] i lru_inv_Invalidate [OF inv, of background clk k]
      map_le_implies_dom_le [of "lru_view b" "(lru_view (base c))(k := None)"] by (simp_all add: lru_ops_def)
  show ?thesis
  proof (cases "gm_get (ventries c) k")
    case None
    with b i assms show ?thesis by (auto simp: versioned_Invalidate_def lru_ops_def versioned_inv_def simp del: set_map)
  next
    case (Some u)
    have "length (remove1 k (vorder c)) \<le> length (vorder c)" by (simp add: length_remove1)
    with Some b i assms show ?thesis
      by (auto simp: versioned_Invalidate_def lru_ops_def versioned_inv_def gm_keys_del set_remove1_eq
          simp del: set_map)
  qed
qed

lemma versioned_inv_call:
  "versioned_inv c \<Longrightarrow> on_background x \<Longrightarrow> versioned_inv (run_call (versioned_ops (lru_ops est)) c x)"
  by (cases x) (simp_all add: versioned_ops_def versioned_inv_Get versioned_inv_Set versioned_inv_Invalidate)

lemma versioned_inv_calls:
  "versioned_inv c \<Longrightarrow> \<forall>x \<in> set xs. on_background x \<Longrightarrow>
   versioned_inv (foldl (run_call (versioned_ops (lru_ops est))) c xs)"
  by (induction xs arbitrary: c) (simp_all add: versioned_inv_call)

lemma vmaxEntries_call [simp]:
  "vmaxEntries (run_call (versioned_ops bops) c x) = vmaxEntries c"
proof -
  have t: "vmaxEntries (vtouch k c) = vmaxEntries c" for k and c :: "'c vcache"
    by (simp add: vtouch_def split: option.splits)
  show ?thesis
    by (cases x) (auto simp: versioned_ops_def versioned_Get_def versioned_Set_def versioned_Invalidate_def
        versioned_track_def Let_def t split: prod.splits sum.splits option.splits)
qed

lemma vmaxEntries_calls [simp]:
  "vmaxEntries (foldl (run_call (versioned_ops bops)) c xs) = vmaxEntries c"
  by (induct xs arbitrary: c) simp_all

section \<open>Properties\<close>

text \<open>
  Time travel: over an in-memory base cache, whatever was stored, read and
  invalidated before, a value that \<^verbatim>\<open>GetAt\<close> answers for an instant is the most
  recently stored version of the key, since its last invalidation, whose timestamp
  is not after that instant; eviction and the history limit only forget the oldest
  versions.
\<close>

theorem versioned_time_travel:
  assumes "\<forall>x \<in> set xs. on_background x"
    and "fst (versioned_GetAt (lru_ops est) ctx clk k at
           (foldl (run_call (versioned_ops (lru_ops est)))
             (versioned_New (NewInMemory [WithMaxEntries m]) lim [versioned_WithMaxEntries n]) xs)) =
         Inr (Some v)"
  shows "find (\<lambda>w. Timestamp w \<le> at) (rev (foldl hist (\<lambda>_. []) xs k)) = Some v"
proof -
  let ?c = "versioned_New (NewInMemory [WithMaxEntries m]) lim [versioned_WithMaxEntries n]"
  have "lru_coh (base ?c) (\<lambda>_. {})" using lru_coh_New [of "[WithMaxEntries m]"] by (simp add: lru_options_def)
  then have "lru_coh (base ?c) (\<lambda>k. {vv. suffix (versions vv) []})"
    by (rule lru.entries.coh_mono) simp
  from hist_calls_coh [OF this assms(1)] base_Get_coh(4) [OF lru.entries.cache_contract_axioms _ assms(2)]
  obtain vv where "suffix (versions vv) (foldl hist (\<lambda>_. []) xs k)" "vv_At vv at = Some v" by blast
  then show ?thesis by (metis find_suffix vv_At_find)
qed

lemmas versioned_defs = versioned_New_def versioned_WithMaxEntries_def versioned_ops_def versioned_Get_def
  versioned_GetAt_def versioned_Set_def versioned_track_def versioned_Invalidate_def vtouch_def

lemmas lru_defs = NewInMemory_def WithMaxEntries_def WithMaxMemory_def lru_ops_def lru_Get_def lru_Set_def
  lru_Invalidate_def store_item_def enforce_entries_def enforce_memory_def evict_memory_done expired_def
  drop_item_def eviction_inc_def

theorem versioned_time_travel_witness:
  "let v1 = \<lparr>Data = 1 :: int, Timestamp = 10, Vector = None, Region = ''eu''\<rparr>;
       v2 = \<lparr>Data = 2, Timestamp = 20, Vector = None, Region = ''eu''\<rparr>;
       xs = [CallSet background (\<lambda>_. 10) ''k'' v1 0, CallSet background (\<lambda>_. 20) ''k'' v2 0]
   in find (\<lambda>w. Timestamp w \<le> 15) (rev (foldl hist (\<lambda>_. []) xs ''k'')) = Some v1"
proof -
  let ?v1 = "\<lparr>Data = 1 :: int, Timestamp = 10, Vector = None, Region = ''eu''\<rparr>"
  let ?v2 = "\<lparr>Data = 2 :: int, Timestamp = 20, Vector = None, Region = ''eu''\<rparr>"
  let ?xs = "[CallSet background (\<lambda>_. 10) ''k'' ?v1 0, CallSet background (\<lambda>_. 20) ''k'' ?v2 0]"
  have "fst (versioned_GetAt (lru_ops (\<lambda>_. 1)) background (\<lambda>_. 30) ''k'' 15
      (foldl (run_call (versioned_ops (lru_ops (\<lambda>_. 1))))
        (versioned_New (NewInMemory [WithMaxEntries 5]) 4 [versioned_WithMaxEntries 3]) ?xs)) = Inr (Some ?v1)"
    by (simp add: versioned_defs lru_defs wrap64_def Let_def NewVersionedValue_def vv_Add_def vv_At_def time_defs)
  from versioned_time_travel [OF _ this] show ?thesis by simp
qed

text \<open>
  The entry limit of the versioned cache: over an in-memory base cache the
  base never holds more keys than configured, because every key it holds is tracked.
\<close>

theorem versioned_within_limit:
  fixes est :: "'a versioned_value \<Rightarrow> int"
  assumes "\<forall>x \<in> set xs. on_background x" and "n > 0"
  shows "let c = foldl (run_call (versioned_ops (lru_ops est)))
                  (versioned_New (NewInMemory []) lim [versioned_WithMaxEntries n]) xs
         in int (card (dom (lru_view (base c)))) \<le> n \<and> dom (lru_view (base c)) \<subseteq> set (gm_keys (ventries c))"
proof -
  let ?new = "versioned_New (NewInMemory [] :: 'a versioned_value lru) lim [versioned_WithMaxEntries n]"
  let ?c = "foldl (run_call (versioned_ops (lru_ops est))) ?new xs"
  have "lru_coh (NewInMemory [] :: 'a versioned_value lru) (\<lambda>_. {})" by (rule lru_coh_New) simp
  then have "versioned_inv ?new"
    using lru_view_New [of "[]"] assms(2) by (simp add: versioned_inv_def)
  then have inv: "versioned_inv ?c" using assms(1) by (rule versioned_inv_calls)
  have "vmaxEntries ?c = n" by simp
  moreover have "card (dom (lru_view (base ?c))) \<le> length (vorder ?c)"
    using inv card_mono [of "set (vorder ?c)" "dom (lru_view (base ?c))"] card_length [of "vorder ?c"]
    by (simp add: versioned_inv_def del: set_map)
  ultimately show ?thesis using inv assms(2) by (simp add: versioned_inv_def Let_def del: set_map)
qed

theorem versioned_within_limit_witness:
  "let v = \<lparr>Data = 1 :: int, Timestamp = 10, Vector = None, Region = ''eu''\<rparr>;
       xs = [CallSet background (\<lambda>_. 10) ''a'' v 0, CallSet background (\<lambda>_. 20) ''b'' v 0];
       c = foldl (run_call (versioned_ops (lru_ops (\<lambda>_. 1))))
             (versioned_New (NewInMemory []) 4 [versioned_WithMaxEntries 1]) xs
   in int (card (dom (lru_view (base c)))) \<le> 1"
  using versioned_within_limit
    [of "[CallSet background (\<lambda>_. 10) ''a'' \<lparr>Data = 1 :: int, Timestamp = 10, Vector = None, Region = ''eu''\<rparr> 0,
          CallSet background (\<lambda>_. 20) ''b'' \<lparr>Data = 1, Timestamp = 10, Vector = None, Region = ''eu''\<rparr> 0]"
      1 "\<lambda>_. 1" 4]
  by (simp add: Let_def)

text \<open>
  Switching never serves a stale value: in an adaptive cache, after a store
  reported as successful, any later sequence of calls that stores nothing else under
  the key, however often it makes the cache switch between the LRU and the LFU
  cache, leaves a lookup with the stored value or a miss.
\<close>

theorem adaptive_never_stale:
  assumes "ristretto_ok lib rcoh" and "NewAdaptive lib = Inr a"
    and "adaptive_Set lib est ctx clk k v ttl (foldl (run_call (adaptive_ops lib est)) a xs) = (None, a1)"
    and "\<forall>x \<in> set ys. stored_by x k \<subseteq> {v}"
    and "fst (adaptive_Get lib ctx' clk' k (foldl (run_call (adaptive_ops lib est)) a1 ys)) = Inr (Some w)"
  shows "w = v"
proof -
  note C = adaptive_contract [OF assms(1), of est]
  have "rcoh (ac_lfu a) (\<lambda>_. {})" and l: "ac_lru a = NewInMemory []"
    using assms(1,2) by (auto simp: NewAdaptive_def NewLFU_def NewRistretto_def ristretto_ok_def split: sum.splits)
  then have "adaptive_coh rcoh a (\<lambda>_. {})" using lru_coh_New [of "[]"] by (simp add: adaptive_coh_def)
  from cache_contract.get_after_set_calls
      [OF C cache_base.calls_coh [OF cache_contract.axioms(1) [OF C] this], of ctx clk k v ttl xs a1 ys ctx' clk' w]
  show ?thesis using assms(3,4,5)
    by (cases "adaptive_Get lib ctx' clk' k (foldl (run_call (adaptive_ops lib est)) a1 ys)")
      (simp add: adaptive_ops_def)
qed

definition map_ristretto :: "(key \<Rightarrow> 'v option, 'v) ristretto_lib" where
  "map_ristretto = \<lparr>rNewCache = (\<lambda>_. Inr Map.empty), rGet = (\<lambda>_ k m. (m k, m)),
     rSetWithTTL = (\<lambda>_ k v _ _ m. m(k \<mapsto> v)), rDel = (\<lambda>k m. m(k := None)), rWait = id, rClose = id\<rparr>"

lemma map_ristretto_ok: "ristretto_ok map_ristretto admits"
  by (auto simp: ristretto_ok_def map_ristretto_def admits_def)

theorem adaptive_never_stale_witness:
  "\<exists>a a1. NewAdaptive map_ristretto = Inr a \<and>
     adaptive_Set map_ristretto (\<lambda>_. 1) background (\<lambda>_. 5) ''k'' (7 :: int) 0 a = (None, a1) \<and>
     (\<forall>w. fst (adaptive_Get map_ristretto background (\<lambda>_. 9) ''k''
            (foldl (run_call (adaptive_ops map_ristretto (\<lambda>_. 1))) a1 [CallGet background (\<lambda>_. 8) ''j''])) =
          Inr (Some w) \<longrightarrow> w = 7)"
proof -
  obtain a where a: "NewAdaptive map_ristretto = (Inr a :: go_error + (int, key \<Rightarrow> int option) adaptive)"
    by (simp add: NewAdaptive_def NewLFU_def NewRistretto_def map_ristretto_def)
  obtain a1 where a1: "adaptive_Set map_ristretto (\<lambda>_. 1) background (\<lambda>_. 5) ''k'' 7 0 a = (None, a1)"
    by (simp add: adaptive_Set_def ristretto_Set_def lru_Set_def Let_def split: prod.splits)
  show ?thesis
    using a a1 adaptive_never_stale [OF map_ristretto_ok a, of "\<lambda>_. 1" background "\<lambda>_. 5" "''k''" 7 0 "[]" a1
        "[CallGet background (\<lambda>_. 8) ''j'']" background "\<lambda>_. 9"] by auto
qed

text \<open>
  The resilient wrapper turns every failure of the cache into a miss or a
  skipped write: over an in-memory cache and under any contexts no call reports an
  error, and a lookup still answers only with a value some earlier call stored
  under that key.
\<close>

theorem resilient_never_fails:
  fixes est :: "'v \<Rightarrow> int"
  shows "let ops = NewResilient (lru_ops est);
       c = foldl (run_call ops) (NewInMemory [WithMaxEntries n, WithMaxMemory m]) xs
   in fst (cSet ops ctx clk k v ttl c) = None \<and> fst (cInvalidate ops ctx clk k c) = None \<and>
      (case fst (cGet ops ctx clk k c) of
         Inl e \<Rightarrow> False
       | Inr None \<Rightarrow> True
       | Inr (Some w) \<Rightarrow> \<exists>x \<in> set xs. stored_by x k = {w})"
proof -
  let ?ops = "NewResilient (lru_ops est)" and ?new = "NewInMemory [WithMaxEntries n, WithMaxMemory m] :: 'v lru"
  let ?c = "foldl (run_call ?ops) ?new xs"
  have coh: "lru_coh ?new (\<lambda>_. {})"
    using lru_coh_New [of "[WithMaxEntries n, WithMaxMemory m]"] by (auto simp: lru_options_def)
  have one: "w \<in> stored_by x k \<Longrightarrow> stored_by x k = {w}" for w x by (cases x) (auto split: if_splits)
  have "\<exists>x \<in> set xs. stored_by x k = {w}" if hit: "fst (cGet ?ops ctx clk k ?c) = Inr (Some w)" for w
  proof -
    obtain c' where "cGet ?ops ctx clk k ?c = (Inr (Some w), c')" using hit by (metis prod.collapse)
    from resilient_lru.get_sound [OF resilient_lru.calls_coh [OF coh] this]
    obtain x where "x \<in> set xs" "w \<in> stored_by x k" by auto
    then show ?thesis by (intro bexI [of _ x] one)
  qed
  moreover obtain r where "fst (cGet ?ops ctx clk k ?c) = Inr r"
    using resilient_total(1) [of "lru_ops est" ctx clk k ?c] by (cases "fst (cGet ?ops ctx clk k ?c)") auto
  ultimately show ?thesis
    unfolding Let_def by (cases r) (simp_all add: resilient_total(2,3))
qed

end
