(* ===== verification/Warp_Store.thy ===== *)
theory Warp_Store
  imports Warp_Prelude
begin

text \<open>
  The \<^verbatim>\<open>Store\<close>, \<^verbatim>\<open>Batch\<close> and \<^verbatim>\<open>Batcher\<close> interfaces of package adapter and their
  in-memory implementation (src/adapter/adapter.go). A store is the record of its
  methods over the state of the implementation; \<open>stBatch\<close> is present for stores
  that implement \<^verbatim>\<open>Batcher\<close>. The locale \<open>store_contract\<close> is what the cache layer
  relies on: a store is a map from keys to values.
\<close>

record ('s, 'v, 'b) store_ops =
  stGet :: "ctx \<Rightarrow> clock \<Rightarrow> key \<Rightarrow> 's \<Rightarrow> (go_error + 'v option) \<times> 's"
  stSet :: "ctx \<Rightarrow> clock \<Rightarrow> key \<Rightarrow> 'v \<Rightarrow> 's \<Rightarrow> go_error option \<times> 's"
  stKeys :: "ctx \<Rightarrow> clock \<Rightarrow> 's \<Rightarrow> (go_error + key list) \<times> 's"
  stBatch :: "(ctx \<Rightarrow> clock \<Rightarrow> go_error + 'b) option"
  bSet :: "ctx \<Rightarrow> clock \<Rightarrow> key \<Rightarrow> 'v \<Rightarrow> 'b \<Rightarrow> go_error option \<times> 'b"
  bDelete :: "ctx \<Rightarrow> clock \<Rightarrow> key \<Rightarrow> 'b \<Rightarrow> go_error option \<times> 'b"
  bCommit :: "ctx \<Rightarrow> clock \<Rightarrow> 'b \<Rightarrow> 's \<Rightarrow> go_error option \<times> 's"

locale store_contract =
  fixes ops :: "('s, 'v, 'b) store_ops"
    and view :: "'s \<Rightarrow> key \<Rightarrow> 'v option"
    and invar :: "'s \<Rightarrow> bool"
  assumes get_view: "invar s \<Longrightarrow> stGet ops ctx clk k s = (Inr r, s') \<Longrightarrow> r = view s k"
    and get_keeps: "invar s \<Longrightarrow> stGet ops ctx clk k s = (q, s') \<Longrightarrow> view s' = view s \<and> invar s'"
    and set_view: "invar s \<Longrightarrow> stSet ops ctx clk k v s = (None, s') \<Longrightarrow> view s' = (view s)(k \<mapsto> v)"
    and set_error:
      "invar s \<Longrightarrow> stSet ops ctx clk k v s = (Some e, s') \<Longrightarrow> view s' = view s \<or> view s' = (view s)(k \<mapsto> v)"
    and set_invar: "invar s \<Longrightarrow> stSet ops ctx clk k v s = (e2, s') \<Longrightarrow> invar s'"
    and keys_view: "invar s \<Longrightarrow> stKeys ops ctx clk s = (Inr ks, s') \<Longrightarrow> set ks = dom (view s)"
    and keys_keeps: "invar s \<Longrightarrow> stKeys ops ctx clk s = (p, s') \<Longrightarrow> view s' = view s \<and> invar s'"
begin

lemma read_after_write:
  "invar s \<Longrightarrow> stSet ops ctx clk k v s = (None, s1) \<Longrightarrow> stGet ops ctx' clk' k s1 = (Inr r, s2) \<Longrightarrow> r = Some v"
  using set_view [of s ctx clk k v s1] set_invar [of s ctx clk k v None s1] get_view [of s1 ctx' clk' k r s2]
  by simp

end

text \<open>
  A batch collects sets and deletions and applies them when it is committed. What a
  key that is both set and deleted ends up as is not part of the contract: the
  in-memory batch lets the set win, the Redis batch the deletion.
\<close>

locale batch_store = store_contract ops view invar
  for ops :: "('s, 'v, 'b) store_ops" and view :: "'s \<Rightarrow> key \<Rightarrow> 'v option" and invar :: "'s \<Rightarrow> bool" +
  fixes bsets :: "'b \<Rightarrow> key \<Rightarrow> 'v option"
    and bdels :: "'b \<Rightarrow> key set"
    and binv :: "'b \<Rightarrow> bool"
  assumes batch_new: "stBatch ops = Some mk \<Longrightarrow> mk ctx clk = Inr b \<Longrightarrow> bsets b = Map.empty \<and> bdels b = {} \<and> binv b"
    and batch_set:
      "binv b \<Longrightarrow> bSet ops ctx clk k v b = (None, b') \<Longrightarrow> bsets b' = (bsets b)(k \<mapsto> v) \<and> bdels b' = bdels b \<and> binv b'"
    and batch_delete:
      "binv b \<Longrightarrow> bDelete ops ctx clk k b = (None, b') \<Longrightarrow> bsets b' = bsets b \<and> bdels b' = insert k (bdels b) \<and> binv b'"
    and batch_commit:
      "invar s \<Longrightarrow> binv b \<Longrightarrow> dom (bsets b) \<inter> bdels b = {} \<Longrightarrow> bCommit ops ctx clk b s = (None, s') \<Longrightarrow>
         invar s' \<and> view s' = (\<lambda>k. if k \<in> bdels b then None else view s k) ++ bsets b"

section \<open>The in-memory store\<close>

type_synonym 'v mem_store = "'v gomap"

definition NewInMemoryStore :: "'v mem_store" where
  "NewInMemoryStore = []"

definition mem_Get :: "ctx \<Rightarrow> clock \<Rightarrow> key \<Rightarrow> 'v mem_store \<Rightarrow> (go_error + 'v option) \<times> 'v mem_store" where
  "mem_Get ctx clk k s = (case gm_get s k of None \<Rightarrow> (Inr None, s) | Some v \<Rightarrow> (Inr (Some v), s))"

definition mem_Set :: "ctx \<Rightarrow> clock \<Rightarrow> key \<Rightarrow> 'v \<Rightarrow> 'v mem_store \<Rightarrow> go_error option \<times> 'v mem_store" where
  "mem_Set ctx clk k v s = (None, gm_put s k v)"

definition mem_Keys :: "ctx \<Rightarrow> clock \<Rightarrow> 'v mem_store \<Rightarrow> (go_error + key list) \<times> 'v mem_store" where
  "mem_Keys ctx clk s = (Inr (gm_keys s), s)"

record 'v batch =
  sets :: "'v gomap"
  deletes :: "key list"

definition mem_Batch :: "ctx \<Rightarrow> clock \<Rightarrow> go_error + 'v batch" where
  "mem_Batch ctx clk = Inr \<lparr>sets = [], deletes = []\<rparr>"

definition batch_Set :: "ctx \<Rightarrow> clock \<Rightarrow> key \<Rightarrow> 'v \<Rightarrow> 'v batch \<Rightarrow> go_error option \<times> 'v batch" where
  "batch_Set ctx clk k v b = (None, b\<lparr>sets := gm_put (sets b) k v\<rparr>)"

definition batch_Delete :: "ctx \<Rightarrow> clock \<Rightarrow> key \<Rightarrow> 'v batch \<Rightarrow> go_error option \<times> 'v batch" where
  "batch_Delete ctx clk k b = (None, b\<lparr>deletes := deletes b @ [k]\<rparr>)"

definition mem_Commit :: "ctx \<Rightarrow> clock \<Rightarrow> 'v batch \<Rightarrow> 'v mem_store \<Rightarrow> go_error option \<times> 'v mem_store" where
  "mem_Commit ctx clk b s =
     (let s1 = fold (\<lambda>k s. gm_del s k) (deletes b) s;
          s2 = fold (\<lambda>(k, v) s. gm_put s k v) (sets b) s1
      in (None, s2))"

definition mem_ops :: "('v mem_store, 'v, 'v batch) store_ops" where
  "mem_ops = \<lparr>stGet = mem_Get, stSet = mem_Set, stKeys = mem_Keys, stBatch = Some mem_Batch,
     bSet = batch_Set, bDelete = batch_Delete, bCommit = mem_Commit\<rparr>"

interpretation mem: store_contract mem_ops "\<lambda>s k. gm_get s k" "\<lambda>s. gm_ok s"
  by unfold_locales
    (auto simp: mem_ops_def mem_Get_def mem_Set_def mem_Keys_def dom_map_of_conv_image_fst
      simp del: map_of_eq_Some_iff split: option.splits intro: fst_in_image)

section \<open>Batches\<close>

datatype 'v batch_op = BSet key 'v | BDelete key

fun batch_queue :: "'v batch \<Rightarrow> 'v batch_op \<Rightarrow> 'v batch" where
  "batch_queue b (BSet k v) = snd (batch_Set background (\<lambda>_. 0) k v b)"
| "batch_queue b (BDelete k) = snd (batch_Delete background (\<lambda>_. 0) k b)"

fun apply_op :: "(key \<Rightarrow> 'v option) \<Rightarrow> 'v batch_op \<Rightarrow> key \<Rightarrow> 'v option" where
  "apply_op m (BSet k v) = m(k \<mapsto> v)"
| "apply_op m (BDelete k) = m(k := None)"

lemma gm_get_fold_del:
  "gm_get (fold (\<lambda>k s. gm_del s k) ks s) k = (if k \<in> set ks then None else gm_get s k)"
  by (induct ks arbitrary: s) auto

lemma gm_get_fold_put:
  "gm_ok xs \<Longrightarrow> gm_get (fold (\<lambda>(k, v) s. gm_put s k v) xs s) k =
     (case gm_get xs k of Some v \<Rightarrow> Some v | None \<Rightarrow> gm_get s k)"
  by (induct xs arbitrary: s)
    (auto simp: gm_get_None_iff simp del: map_of_eq_Some_iff split: option.splits dest: gm_get_in_keys)

lemma mem_Commit_view:
  "gm_ok (sets b) \<Longrightarrow> gm_get (snd (mem_Commit ctx clk b s)) k =
     (case gm_get (sets b) k of Some v \<Rightarrow> Some v
      | None \<Rightarrow> if k \<in> set (deletes b) then None else gm_get s k)"
  by (simp add: mem_Commit_def Let_def gm_get_fold_put gm_get_fold_del split: option.splits)

lemma gm_ok_mem_Commit: "gm_ok s \<Longrightarrow> gm_ok (snd (mem_Commit ctx clk b s))"
proof -
  have del: "gm_ok s \<Longrightarrow> gm_ok (fold (\<lambda>k s. gm_del s k) ks s)" for s :: "'a mem_store" and ks
    by (induct ks arbitrary: s) simp_all
  have put: "gm_ok s \<Longrightarrow> gm_ok (fold (\<lambda>(k, v) s. gm_put s k v) xs s)" for s xs :: "'a mem_store"
    by (induct xs arbitrary: s) auto
  show "gm_ok s \<Longrightarrow> gm_ok (snd (mem_Commit ctx clk b s))"
    by (simp add: mem_Commit_def Let_def del put)
qed

interpretation membatch: batch_store mem_ops "\<lambda>s k. gm_get s k" "\<lambda>s. gm_ok s"
  "\<lambda>b k. gm_get (sets b) k" "\<lambda>b. set (deletes b)" "\<lambda>b. gm_ok (sets b)"
proof (unfold_locales, goal_cases)
  case (1 mk ctx clk b)
  then show ?case by (auto simp: mem_ops_def mem_Batch_def)
next
  case (2 b ctx clk k v b')
  then show ?case by (auto simp: mem_ops_def batch_Set_def fun_eq_iff)
next
  case (3 b ctx clk k b')
  then show ?case by (auto simp: mem_ops_def batch_Delete_def)
next
  case (4 s b ctx clk s')
  then have "s' = snd (mem_Commit ctx clk b s)" by (simp add: mem_ops_def mem_Commit_def)
  with 4 show ?case
    using gm_ok_mem_Commit [of s] mem_Commit_view [of b ctx clk s]
    by (auto simp: fun_eq_iff map_add_def simp del: map_of_eq_Some_iff split: option.splits)
qed

lemma batch_queue_ok: "gm_ok (sets b) \<Longrightarrow> gm_ok (sets (batch_queue b x))"
  by (cases x) (simp_all add: batch_Set_def batch_Delete_def)

lemma batch_queue_all:
  fixes ops :: "'v batch_op list"
  defines "b \<equiv> foldl batch_queue \<lparr>sets = [], deletes = []\<rparr> ops"
  shows "gm_ok (sets b)" and "k \<in> set (deletes b) \<longleftrightarrow> BDelete k \<in> set ops"
    and "gm_get (sets b) k = None \<longleftrightarrow> (\<forall>v. BSet k v \<notin> set ops)"
proof -
  have "gm_ok (sets (foldl batch_queue \<lparr>sets = [], deletes = []\<rparr> ops)) \<and>
    (k \<in> set (deletes (foldl batch_queue \<lparr>sets = [], deletes = []\<rparr> ops)) \<longleftrightarrow> BDelete k \<in> set ops) \<and>
    (gm_get (sets (foldl batch_queue \<lparr>sets = [], deletes = []\<rparr> ops)) k = None \<longleftrightarrow> (\<forall>v. BSet k v \<notin> set ops))"
  proof (induct ops rule: rev_induct)
    case (snoc x ops)
    then show ?case by (cases x) (auto simp: batch_Set_def batch_Delete_def)
  qed simp
  then show "gm_ok (sets b)" and "k \<in> set (deletes b) \<longleftrightarrow> BDelete k \<in> set ops"
    and "gm_get (sets b) k = None \<longleftrightarrow> (\<forall>v. BSet k v \<notin> set ops)" by (auto simp: b_def)
qed

lemma apply_ops_view:
  assumes "\<forall>k v. BDelete k \<in> set ops \<longrightarrow> BSet k v \<notin> set ops"
  shows "foldl apply_op m ops k =
    (case gm_get (sets (foldl batch_queue \<lparr>sets = [], deletes = []\<rparr> ops)) k of
       Some v \<Rightarrow> Some v
     | None \<Rightarrow> if BDelete k \<in> set ops then None else m k)"
  using assms
proof (induct ops rule: rev_induct)
  case (snoc x ops)
  then have IH: "foldl apply_op m ops k =
    (case gm_get (sets (foldl batch_queue \<lparr>sets = [], deletes = []\<rparr> ops)) k of
       Some v \<Rightarrow> Some v | None \<Rightarrow> if BDelete k \<in> set ops then None else m k)" by auto
  show ?case
  proof (cases x)
    case (BSet k' v)
    with IH show ?thesis by (auto simp: batch_Set_def split: option.splits)
  next
    case (BDelete k')
    have "k' = k \<Longrightarrow> gm_get (sets (foldl batch_queue \<lparr>sets = [], deletes = []\<rparr> ops)) k = None"
      using snoc.prems BDelete by (simp add: batch_queue_all(3))
    with IH BDelete show ?thesis by (auto simp: batch_Delete_def split: option.splits)
  qed
qed simp

section \<open>Properties\<close>

text \<open>
  C34. Committing an in-memory batch has the effect of applying its operations one
  after the other, provided no key is both set and deleted in the batch.
\<close>

theorem mem_batch_sequential:
  assumes "\<forall>k v. BDelete k \<in> set ops \<longrightarrow> BSet k v \<notin> set ops"
  shows "(\<lambda>k. gm_get (snd (mem_Commit ctx clk (foldl batch_queue (projr (mem_Batch ctx clk)) ops) s)) k) =
         foldl apply_op (\<lambda>k. gm_get s k) ops"
proof
  fix k
  show "gm_get (snd (mem_Commit ctx clk (foldl batch_queue (projr (mem_Batch ctx clk)) ops) s)) k =
      foldl apply_op (\<lambda>k. gm_get s k) ops k"
    using apply_ops_view [OF assms, of "\<lambda>k. gm_get s k" k]
    by (simp add: mem_Batch_def mem_Commit_view batch_queue_all(1,2))
qed

theorem mem_batch_sequential_witness:
  "gm_get (snd (mem_Commit background (\<lambda>_. 0)
      (foldl batch_queue (projr (mem_Batch background (\<lambda>_. 0))) [BSet ''a'' (1 :: int), BDelete ''b'', BSet ''a'' 2])
      [(''b'', 7), (''c'', 8)])) ''b'' =
   foldl apply_op (\<lambda>k. gm_get [(''b'', 7), (''c'', 8)] k) [BSet ''a'' 1, BDelete ''b'', BSet ''a'' 2] ''b''"
  using mem_batch_sequential [of "[BSet ''a'' (1 :: int), BDelete ''b'', BSet ''a'' 2]" background "\<lambda>_. 0"
      "[(''b'', 7), (''c'', 8)]"]
  by (simp add: fun_eq_iff)

end
