(* ===== verification/Warp_Syncbus.thy ===== *)
theory Warp_Syncbus
  imports Warp_Merge "HOL-Library.Multiset"
begin

text \<open>
  Package syncbus: Go channels as they are used by the buses, the \<^verbatim>\<open>Bus\<close> interface,
  the in-memory bus (src/syncbus/syncbus.go) and the circuit-breaker decorator
  (src/syncbus/circuit_breaker.go).

  The sharded map of the go-foundation library is a parameter \<open>safemap\<close>, with
  \<open>safemap_ok\<close> stating that it is a map; so is its circuit breaker. A \<^verbatim>\<open>select\<close> of Go
  chooses among the ready cases: \<open>pick\<close> is that choice. Publishing is split into the
  steps between which other goroutines may run (\<open>publish_begin\<close>, the delivery under
  the read lock, \<open>publish_end\<close>), and \<open>bus_step\<close> is their interleaving.
\<close>

section \<open>Channels\<close>

record 'a chan =
  buf :: "'a list"
  cap :: nat
  closed :: bool

definition make_chan :: "nat \<Rightarrow> 'a chan" where
  "make_chan n = \<lparr>buf = [], cap = n, closed = False\<rparr>"

definition chan_ready :: "'a chan \<Rightarrow> bool" where
  "chan_ready c \<longleftrightarrow> length (buf c) < cap c"

datatype 'a send = Sent "'a chan" | Full | SendPanic

text \<open>The send case of a \<^verbatim>\<open>select\<close> with a default.\<close>

definition try_send :: "'a \<Rightarrow> 'a chan \<Rightarrow> 'a send" where
  "try_send x c =
     (if closed c then SendPanic
      else if chan_ready c then Sent (c\<lparr>buf := buf c @ [x]\<rparr>)
      else Full)"

section \<open>The Bus interface\<close>

datatype scope = ScopeLocal | ScopeGlobal

record publish_options =
  oRegion :: string
  oVectorClock :: "vclock option"
  oScope :: scope

type_synonym publish_option = "publish_options \<Rightarrow> publish_options"

definition zero_publish_options :: publish_options where
  "zero_publish_options = \<lparr>oRegion = '''', oVectorClock = None, oScope = ScopeLocal\<rparr>"

definition WithRegion :: "string \<Rightarrow> publish_option" where
  "WithRegion region o1 = o1\<lparr>oRegion := region\<rparr>"

definition WithVectorClock :: "vclock option \<Rightarrow> publish_option" where
  "WithVectorClock vc o1 = o1\<lparr>oVectorClock := vc\<rparr>"

definition WithScope :: "scope \<Rightarrow> publish_option" where
  "WithScope sc o1 = o1\<lparr>oScope := sc\<rparr>"

definition publish_opts :: "publish_option list \<Rightarrow> publish_options" where
  "publish_opts opts = fold (\<lambda>opt o1. opt o1) opts zero_publish_options"

record event =
  evKey :: key
  evRegion :: string
  evVectorClock :: "vclock option"
  evScope :: scope

type_synonym chan_id = nat

record 'b bus_ops =
  bPublish :: "ctx \<Rightarrow> clock \<Rightarrow> key \<Rightarrow> publish_option list \<Rightarrow> 'b \<Rightarrow> go_error option \<times> 'b"
  bPublishAndAwait :: "ctx \<Rightarrow> clock \<Rightarrow> key \<Rightarrow> int \<Rightarrow> publish_option list \<Rightarrow> 'b \<Rightarrow> go_error option \<times> 'b"
  bPublishAndAwaitTopology :: "ctx \<Rightarrow> clock \<Rightarrow> key \<Rightarrow> int \<Rightarrow> publish_option list \<Rightarrow> 'b \<Rightarrow> go_error option \<times> 'b"
  bSubscribe :: "ctx \<Rightarrow> clock \<Rightarrow> key \<Rightarrow> 'b \<Rightarrow> (go_error + chan_id) \<times> 'b"
  bUnsubscribe :: "ctx \<Rightarrow> clock \<Rightarrow> key \<Rightarrow> chan_id \<Rightarrow> 'b \<Rightarrow> go_error option \<times> 'b"
  bRevokeLease :: "ctx \<Rightarrow> clock \<Rightarrow> string \<Rightarrow> 'b \<Rightarrow> go_error option \<times> 'b"
  bSubscribeLease :: "ctx \<Rightarrow> clock \<Rightarrow> string \<Rightarrow> 'b \<Rightarrow> (go_error + chan_id) \<times> 'b"
  bUnsubscribeLease :: "ctx \<Rightarrow> clock \<Rightarrow> string \<Rightarrow> chan_id \<Rightarrow> 'b \<Rightarrow> go_error option \<times> 'b"
  bIsHealthy :: "'b \<Rightarrow> bool"
  bPeers :: "'b \<Rightarrow> string list"

section \<open>The sharded map library\<close>

record ('m, 'v) safemap =
  smNew :: 'm
  smGet :: "'m \<Rightarrow> key \<Rightarrow> 'v option"
  smCompute :: "'m \<Rightarrow> key \<Rightarrow> ('v option \<Rightarrow> 'v) \<Rightarrow> 'm"
  smDelete :: "'m \<Rightarrow> key \<Rightarrow> 'm"

definition safemap_ok :: "('m, 'v) safemap \<Rightarrow> bool" where
  "safemap_ok sm \<longleftrightarrow>
     (\<forall>k. smGet sm (smNew sm) k = None) \<and>
     (\<forall>m k f k'. smGet sm (smCompute sm m k f) k' = (if k' = k then Some (f (smGet sm m k)) else smGet sm m k')) \<and>
     (\<forall>m k k'. smGet sm (smDelete sm m k) k' = (if k' = k then None else smGet sm m k'))"

record ('m, 'n) bus_lib =
  subs_map :: "('m, chan_id list) safemap"
  pending_map :: "('n, bool) safemap"

section \<open>The in-memory bus\<close>

record ('m, 'n) mem_bus =
  subs :: 'm
  pending :: 'n
  chans :: "event chan list"
  published :: u64
  delivered :: u64
  panicked :: bool

definition NewInMemoryBus :: "('m, 'n) bus_lib \<Rightarrow> ('m, 'n) mem_bus" where
  "NewInMemoryBus lib = \<lparr>subs = smNew (subs_map lib), pending = smNew (pending_map lib), chans = [],
     published = 0, delivered = 0, panicked = False\<rparr>"

definition membus_IsHealthy :: "('m, 'n) mem_bus \<Rightarrow> bool" where
  "membus_IsHealthy b = True"

definition membus_Peers :: "('m, 'n) mem_bus \<Rightarrow> string list" where
  "membus_Peers b = []"

text \<open>\<^verbatim>\<open>b.pending.Compute\<close>: marks the key and reports whether it was marked already.\<close>

definition publish_begin :: "('m, 'n) bus_lib \<Rightarrow> key \<Rightarrow> ('m, 'n) mem_bus \<Rightarrow> bool \<times> ('m, 'n) mem_bus" where
  "publish_begin lib k b =
     (smGet (pending_map lib) (pending b) k \<noteq> None,
      b\<lparr>pending := smCompute (pending_map lib) (pending b) k (\<lambda>_. True)\<rparr>)"

definition publish_end :: "('m, 'n) bus_lib \<Rightarrow> key \<Rightarrow> ('m, 'n) mem_bus \<Rightarrow> ('m, 'n) mem_bus" where
  "publish_end lib k b = b\<lparr>pending := smDelete (pending_map lib) (pending b) k\<rparr>"

definition subscribers :: "('m, 'n) bus_lib \<Rightarrow> key \<Rightarrow> ('m, 'n) mem_bus \<Rightarrow> chan_id list" where
  "subscribers lib k b = (case smGet (subs_map lib) (subs b) k of None \<Rightarrow> [] | Some cs \<Rightarrow> cs)"

text \<open>
  The delivery loop over the channels of a key. Each iteration selects among a
  done context, a ready channel and the default; \<open>pick i\<close> is the choice when both
  cases are ready. The result is the error of a done context and the number of
  channels served; a send on a closed channel panics.
\<close>

fun deliver_loop ::
    "ctx \<Rightarrow> clock \<Rightarrow> (nat \<Rightarrow> bool) \<Rightarrow> event \<Rightarrow> nat \<Rightarrow> chan_id list \<Rightarrow> nat \<Rightarrow> ('m, 'n) mem_bus
     \<Rightarrow> (go_error option \<times> nat) \<times> ('m, 'n) mem_bus" where
  "deliver_loop ctx clk pick ev i [] n b = ((None, n), b)"
| "deliver_loop ctx clk pick ev i (c # cs) n b =
     (let ch = chans b ! c; done = ctx (clk i)
      in if done \<noteq> None \<and> (pick i \<or> \<not> closed ch \<and> \<not> chan_ready ch) then ((done, n), b)
         else case try_send ev ch of
                SendPanic \<Rightarrow> ((None, n), b\<lparr>panicked := True\<rparr>)
              | Full \<Rightarrow> deliver_loop ctx clk pick ev (Suc i) cs n b
              | Sent ch' \<Rightarrow>
                  deliver_loop ctx clk pick ev (Suc i) cs (Suc n)
                    (b\<lparr>chans := (chans b)[c := ch'], delivered := delivered b + 1\<rparr>))"

definition make_event :: "key \<Rightarrow> publish_options \<Rightarrow> event" where
  "make_event k o1 = \<lparr>evKey = k, evRegion = oRegion o1, evVectorClock = oVectorClock o1, evScope = ScopeLocal\<rparr>"

text \<open>The part of \<^verbatim>\<open>Publish\<close> under the read lock.\<close>

definition publish_body ::
    "('m, 'n) bus_lib \<Rightarrow> (nat \<Rightarrow> bool) \<Rightarrow> ctx \<Rightarrow> clock \<Rightarrow> key \<Rightarrow> publish_options \<Rightarrow> ('m, 'n) mem_bus
     \<Rightarrow> go_error option \<times> ('m, 'n) mem_bus" where
  "publish_body lib pick ctx clk k o1 b =
     (let cs = subscribers lib k b
      in if length cs = 0 then (None, b)
         else let b1 = b\<lparr>published := published b + 1\<rparr>;
                  ((e, n), b2) = deliver_loop ctx clk pick (make_event k o1) 0 cs 0 b1
              in (e, b2))"

definition membus_Publish ::
    "('m, 'n) bus_lib \<Rightarrow> (nat \<Rightarrow> bool) \<Rightarrow> ctx \<Rightarrow> clock \<Rightarrow> key \<Rightarrow> publish_option list \<Rightarrow> ('m, 'n) mem_bus
     \<Rightarrow> go_error option \<times> ('m, 'n) mem_bus" where
  "membus_Publish lib pick ctx clk k opts b =
     (case ctx (clk 0) of
        Some e \<Rightarrow> (Some e, b)
      | None \<Rightarrow>
          (let (already, b1) = publish_begin lib k b
           in if already then (None, b1)
              else let (e, b2) = publish_body lib pick ctx (tick 1 clk) k (publish_opts opts) b1
                   in (e, publish_end lib k b2)))"

text \<open>The part of \<^verbatim>\<open>PublishAndAwait\<close> under the read lock.\<close>

definition await_body ::
    "('m, 'n) bus_lib \<Rightarrow> (nat \<Rightarrow> bool) \<Rightarrow> ctx \<Rightarrow> clock \<Rightarrow> key \<Rightarrow> int \<Rightarrow> publish_options \<Rightarrow> ('m, 'n) mem_bus
     \<Rightarrow> go_error option \<times> ('m, 'n) mem_bus" where
  "await_body lib pick ctx clk k replicas o1 b =
     (let cs = subscribers lib k b
      in if int (length cs) < replicas then (Some ErrQuorumNotSatisfied, b)
         else case deliver_loop ctx clk pick (make_event k o1) 0 cs 0 b of
                ((Some e, n), b1) \<Rightarrow> (Some e, b1)
              | ((None, n), b1) \<Rightarrow>
                  if int n < replicas then (Some ErrQuorumNotSatisfied, b1)
                  else (None, b1\<lparr>published := published b1 + 1\<rparr>))"

definition membus_PublishAndAwait ::
    "('m, 'n) bus_lib \<Rightarrow> (nat \<Rightarrow> bool) \<Rightarrow> ctx \<Rightarrow> clock \<Rightarrow> key \<Rightarrow> int \<Rightarrow> publish_option list \<Rightarrow> ('m, 'n) mem_bus
     \<Rightarrow> go_error option \<times> ('m, 'n) mem_bus" where
  "membus_PublishAndAwait lib pick ctx clk k replicas0 opts b =
     (let replicas = (if replicas0 \<le> 0 then 1 else replicas0)
      in case ctx (clk 0) of
           Some e \<Rightarrow> (Some e, b)
         | None \<Rightarrow>
             (let (already, b1) = publish_begin lib k b
              in if already then (None, b1)
                 else let (e, b2) = await_body lib pick ctx (tick 1 clk) k replicas (publish_opts opts) b1
                      in (e, publish_end lib k b2)))"

definition membus_PublishAndAwaitTopology ::
    "('m, 'n) bus_lib \<Rightarrow> (nat \<Rightarrow> bool) \<Rightarrow> ctx \<Rightarrow> clock \<Rightarrow> key \<Rightarrow> int \<Rightarrow> publish_option list \<Rightarrow> ('m, 'n) mem_bus
     \<Rightarrow> go_error option \<times> ('m, 'n) mem_bus" where
  "membus_PublishAndAwaitTopology lib pick ctx clk k minZones opts b =
     membus_PublishAndAwait lib pick ctx clk k minZones opts b"

definition membus_Subscribe ::
    "('m, 'n) bus_lib \<Rightarrow> ctx \<Rightarrow> clock \<Rightarrow> key \<Rightarrow> ('m, 'n) mem_bus \<Rightarrow> (go_error + chan_id) \<times> ('m, 'n) mem_bus" where
  "membus_Subscribe lib ctx clk k b =
     (case ctx (clk 0) of
        Some e \<Rightarrow> (Inl e, b)
      | None \<Rightarrow>
          (let c = length (chans b)
           in (Inr c, b\<lparr>chans := chans b @ [make_chan 1],
                        subs := smCompute (subs_map lib) (subs b) k
                          (\<lambda>v. case v of None \<Rightarrow> [c] | Some cs \<Rightarrow> cs @ [c])\<rparr>)))"

text \<open>Removal of the first occurrence by swapping with the last one.\<close>

fun index_of :: "'a \<Rightarrow> 'a list \<Rightarrow> nat option" where
  "index_of x [] = None"
| "index_of x (y # ys) = (if y = x then Some 0 else map_option Suc (index_of x ys))"

definition swap_remove :: "'a \<Rightarrow> 'a list \<Rightarrow> 'a list" where
  "swap_remove x xs =
     (case index_of x xs of
        None \<Rightarrow> xs
      | Some i \<Rightarrow> take (length xs - 1) (xs[i := xs ! (length xs - 1)]))"

definition membus_Unsubscribe ::
    "('m, 'n) bus_lib \<Rightarrow> ctx \<Rightarrow> clock \<Rightarrow> key \<Rightarrow> chan_id \<Rightarrow> ('m, 'n) mem_bus \<Rightarrow> go_error option \<times> ('m, 'n) mem_bus" where
  "membus_Unsubscribe lib ctx clk k c b =
     (case ctx (clk 0) of
        Some e \<Rightarrow> (Some e, b)
      | None \<Rightarrow>
          (let cs = subscribers lib k b;
               b1 = b\<lparr>subs := smCompute (subs_map lib) (subs b) k
                        (\<lambda>v. case v of None \<Rightarrow> [] | Some cs \<Rightarrow> swap_remove c cs)\<rparr>
           in if c \<in> set cs
              then (None, b1\<lparr>chans := (chans b1)[c := (chans b1 ! c)\<lparr>closed := True\<rparr>],
                             panicked := panicked b1 \<or> closed (chans b1 ! c)\<rparr>)
              else (None, b1)))"

definition lease_key :: "string \<Rightarrow> key" where
  "lease_key idn = ''lease:'' @ idn"

definition membus_RevokeLease where
  "membus_RevokeLease lib pick ctx clk idn b = membus_Publish lib pick ctx clk (lease_key idn) [] b"

definition membus_SubscribeLease where
  "membus_SubscribeLease lib ctx clk idn b = membus_Subscribe lib ctx clk (lease_key idn) b"

definition membus_UnsubscribeLease where
  "membus_UnsubscribeLease lib ctx clk idn c b = membus_Unsubscribe lib ctx clk (lease_key idn) c b"

record bus_metrics =
  Published :: u64
  Delivered :: u64

definition membus_Metrics :: "('m, 'n) mem_bus \<Rightarrow> bus_metrics" where
  "membus_Metrics b = \<lparr>Published = published b, Delivered = delivered b\<rparr>"

text \<open>A receive by the consumer of a channel.\<close>

definition membus_receive :: "chan_id \<Rightarrow> ('m, 'n) mem_bus \<Rightarrow> event option \<times> ('m, 'n) mem_bus" where
  "membus_receive c b =
     (case buf (chans b ! c) of
        [] \<Rightarrow> (None, b)
      | e # es \<Rightarrow> (Some e, b\<lparr>chans := (chans b)[c := (chans b ! c)\<lparr>buf := es\<rparr>]\<rparr>))"

definition membus_ops :: "('m, 'n) bus_lib \<Rightarrow> (nat \<Rightarrow> bool) \<Rightarrow> ('m, 'n) mem_bus bus_ops" where
  "membus_ops lib pick = \<lparr>bPublish = membus_Publish lib pick, bPublishAndAwait = membus_PublishAndAwait lib pick,
     bPublishAndAwaitTopology = membus_PublishAndAwaitTopology lib pick, bSubscribe = membus_Subscribe lib,
     bUnsubscribe = membus_Unsubscribe lib, bRevokeLease = membus_RevokeLease lib pick,
     bSubscribeLease = membus_SubscribeLease lib, bUnsubscribeLease = membus_UnsubscribeLease lib,
     bIsHealthy = membus_IsHealthy, bPeers = membus_Peers\<rparr>"

section \<open>Circuit breaker\<close>

datatype breaker_state = StateClosed | StateOpen | StateHalfOpen

text \<open>
  The breaker of the library: its constructor, its state, the error it refuses
  calls with, and \<^verbatim>\<open>Execute\<close>, which is given the call as a function on the decorated
  bus. What it promises: a call is either refused, and then not made, or made once,
  and then its result is returned.
\<close>

record ('r, 'b) breaker_lib =
  brNew :: "int \<Rightarrow> duration \<Rightarrow> 'r"
  brState :: "'r \<Rightarrow> breaker_state"
  brErrCircuitOpen :: go_error
  brExecute :: "clock \<Rightarrow> ('b \<Rightarrow> go_error option \<times> 'b) \<Rightarrow> 'b \<Rightarrow> 'r \<Rightarrow> go_error option \<times> 'b \<times> 'r"

definition breaker_ok :: "('r, 'b) breaker_lib \<Rightarrow> bool" where
  "breaker_ok lib \<longleftrightarrow> (\<forall>clk f b r. \<exists>r'.
     brExecute lib clk f b r = (Some (brErrCircuitOpen lib), b, r') \<or>
     brExecute lib clk f b r = (fst (f b), snd (f b), r'))"

record ('b, 'r) cb_bus =
  inner :: 'b
  breaker :: 'r

definition NewCircuitBreaker :: "('r, 'b) breaker_lib \<Rightarrow> 'b \<Rightarrow> int \<Rightarrow> duration \<Rightarrow> ('b, 'r) cb_bus" where
  "NewCircuitBreaker lib b threshold timeout = \<lparr>inner = b, breaker = brNew lib threshold timeout\<rparr>"

definition cb_execute ::
    "('r, 'b) breaker_lib \<Rightarrow> clock \<Rightarrow> ('b \<Rightarrow> go_error option \<times> 'b) \<Rightarrow> ('b, 'r) cb_bus \<Rightarrow> go_error option \<times> ('b, 'r) cb_bus" where
  "cb_execute lib clk f cb =
     (case brExecute lib clk f (inner cb) (breaker cb) of
        (e, b, r) \<Rightarrow> (e, cb\<lparr>inner := b, breaker := r\<rparr>))"

definition cb_IsHealthy :: "('r, 'b) breaker_lib \<Rightarrow> ('b, 'r) cb_bus \<Rightarrow> bool" where
  "cb_IsHealthy lib cb \<longleftrightarrow> brState lib (breaker cb) = StateClosed"

definition cb_Publish where
  "cb_Publish lib ops ctx clk k opts cb = cb_execute lib clk (bPublish ops ctx (tick 1 clk) k opts) cb"

definition cb_PublishAndAwait where
  "cb_PublishAndAwait lib ops ctx clk k replicas opts cb =
     cb_execute lib clk (bPublishAndAwait ops ctx (tick 1 clk) k replicas opts) cb"

definition cb_PublishAndAwaitTopology where
  "cb_PublishAndAwaitTopology lib ops ctx clk k minZones opts cb =
     cb_execute lib clk (bPublishAndAwaitTopology ops ctx (tick 1 clk) k minZones opts) cb"

definition cb_RevokeLease where
  "cb_RevokeLease lib ops ctx clk idn cb = cb_execute lib clk (bRevokeLease ops ctx (tick 1 clk) idn) cb"

definition cb_Subscribe :: "'b bus_ops \<Rightarrow> ctx \<Rightarrow> clock \<Rightarrow> key \<Rightarrow> ('b, 'r) cb_bus \<Rightarrow> (go_error + chan_id) \<times> ('b, 'r) cb_bus" where
  "cb_Subscribe ops ctx clk k cb = (case bSubscribe ops ctx clk k (inner cb) of (r, b) \<Rightarrow> (r, cb\<lparr>inner := b\<rparr>))"

definition cb_Unsubscribe where
  "cb_Unsubscribe ops ctx clk k c cb = (case bUnsubscribe ops ctx clk k c (inner cb) of (r, b) \<Rightarrow> (r, cb\<lparr>inner := b\<rparr>))"

definition cb_SubscribeLease where
  "cb_SubscribeLease ops ctx clk idn cb = (case bSubscribeLease ops ctx clk idn (inner cb) of (r, b) \<Rightarrow> (r, cb\<lparr>inner := b\<rparr>))"

definition cb_UnsubscribeLease where
  "cb_UnsubscribeLease ops ctx clk idn c cb =
     (case bUnsubscribeLease ops ctx clk idn c (inner cb) of (r, b) \<Rightarrow> (r, cb\<lparr>inner := b\<rparr>))"

section \<open>Delivery\<close>

definition push :: "'a \<Rightarrow> 'a chan \<Rightarrow> 'a chan" where
  "push x c = c\<lparr>buf := buf c @ [x]\<rparr>"

lemma push_simps [simp]: "closed (push x c) = closed c" "cap (push x c) = cap c" "buf (push x c) = buf c @ [x]"
  by (simp_all add: push_def)

lemma push_neq [simp]: "push x c \<noteq> c" "c \<noteq> push x c"
  by (metis push_simps(3) append_self_conv list.distinct(1))+

lemma deliver_frame:
  "deliver_loop ctx clk pick ev i cs n b = (r, b') \<Longrightarrow>
   subs b' = subs b \<and> pending b' = pending b \<and> published b' = published b \<and>
   length (chans b') = length (chans b) \<and> (\<forall>c. c \<notin> set cs \<longrightarrow> chans b' ! c = chans b ! c)"
proof (induction ctx clk pick ev i cs n b rule: deliver_loop.induct)
  case (2 ctx clk pick ev i c cs n b)
  show ?case
  proof (cases "ctx (clk i) \<noteq> None \<and> (pick i \<or> \<not> closed (chans b ! c) \<and> \<not> chan_ready (chans b ! c))")
    case True
    with 2 show ?thesis by (auto simp: Let_def)
  next
    case nd: False
    show ?thesis
    proof (cases "try_send ev (chans b ! c)")
      case (Sent ch)
      with nd "2.prems" have "deliver_loop ctx clk pick ev (Suc i) cs (Suc n)
          (b\<lparr>chans := (chans b)[c := ch], delivered := delivered b + 1\<rparr>) = (r, b')" by (auto simp: Let_def)
      from "2.IH"(1) [OF refl refl nd Sent this] show ?thesis by auto
    next
      case Full
      with nd "2.prems" have "deliver_loop ctx clk pick ev (Suc i) cs n b = (r, b')" by (auto simp: Let_def)
      from "2.IH"(2) [OF refl refl nd Full this] show ?thesis by auto
    next
      case SendPanic
      with nd "2.prems" show ?thesis by (auto simp: Let_def)
    qed
  qed
qed auto

lemma deliver_served:
  assumes "deliver_loop ctx clk pick ev i cs n b = ((e, n'), b')"
    and "distinct cs" and "\<forall>c \<in> set cs. c < length (chans b) \<and> \<not> closed (chans b ! c)"
  shows "panicked b' = panicked b \<and>
    (\<forall>c \<in> set cs. chans b' ! c = chans b ! c \<or> chan_ready (chans b ! c) \<and> chans b' ! c = push ev (chans b ! c)) \<and>
    n' = n + card {c \<in> set cs. chans b' ! c = push ev (chans b ! c)} \<and>
    (e = None \<longrightarrow> (\<forall>c \<in> set cs. chan_ready (chans b ! c) \<longrightarrow> chans b' ! c = push ev (chans b ! c)))"
  using assms
proof (induction ctx clk pick ev i cs n b rule: deliver_loop.induct)
  case (2 ctx clk pick ev i c cs n b)
  let ?done = "ctx (clk i) \<noteq> None \<and> (pick i \<or> \<not> closed (chans b ! c) \<and> \<not> chan_ready (chans b ! c))"
  have c: "c < length (chans b)" "\<not> closed (chans b ! c)" "c \<notin> set cs" "distinct cs" using "2.prems" by auto
  show ?case
  proof (cases ?done)
    case True
    with "2.prems" have "e \<noteq> None" "n' = n" "b' = b" by (auto simp: Let_def)
    then show ?thesis by auto
  next
    case nd: False
    show ?thesis
    proof (cases "chan_ready (chans b ! c)")
      case True
      let ?b = "b\<lparr>chans := (chans b)[c := push ev (chans b ! c)], delivered := delivered b + 1\<rparr>"
      have t: "try_send ev (chans b ! c) = Sent (push ev (chans b ! c))"
        using c True by (simp add: try_send_def push_def)
      with nd "2.prems"(1) have l: "deliver_loop ctx clk pick ev (Suc i) cs (Suc n) ?b = ((e, n'), b')"
        by (auto simp: Let_def)
      have other: "chans ?b ! c' = chans b ! c'" if "c' \<in> set cs" for c' using that c by (cases "c' = c") auto
      have at_c: "chans b' ! c = push ev (chans b ! c)" using deliver_frame [OF l] c by simp
      have "\<forall>c' \<in> set cs. c' < length (chans ?b) \<and> \<not> closed (chans ?b ! c')"
        using "2.prems"(3) other by simp
      from "2.IH"(1) [OF refl refl nd t l c(4) this] other
      have IH: "panicked b' = panicked b"
        "\<forall>c' \<in> set cs. chans b' ! c' = chans b ! c' \<or> chan_ready (chans b ! c') \<and> chans b' ! c' = push ev (chans b ! c')"
        "n' = Suc n + card {c' \<in> set cs. chans b' ! c' = push ev (chans ?b ! c')}"
        "e = None \<longrightarrow> (\<forall>c' \<in> set cs. chan_ready (chans b ! c') \<longrightarrow> chans b' ! c' = push ev (chans b ! c'))"
        by auto
      have "{c' \<in> set cs. chans b' ! c' = push ev (chans ?b ! c')} = {c' \<in> set cs. chans b' ! c' = push ev (chans b ! c')}"
        using other by auto
      moreover have "{c' \<in> set (c # cs). chans b' ! c' = push ev (chans b ! c')} =
          insert c {c' \<in> set cs. chans b' ! c' = push ev (chans b ! c')}" using at_c by auto
      ultimately have "n' = n + card {c' \<in> set (c # cs). chans b' ! c' = push ev (chans b ! c')}"
        using IH(3) c(3) by simp
      with IH at_c True show ?thesis by simp
    next
      case False
      then have t: "try_send ev (chans b ! c) = Full" using c by (simp add: try_send_def)
      with nd "2.prems"(1) have l: "deliver_loop ctx clk pick ev (Suc i) cs n b = ((e, n'), b')"
        by (auto simp: Let_def)
      have at_c: "chans b' ! c = chans b ! c" using deliver_frame [OF l] c by simp
      then have "{c' \<in> set (c # cs). chans b' ! c' = push ev (chans b ! c')} =
          {c' \<in> set cs. chans b' ! c' = push ev (chans b ! c')}" by auto
      with "2.IH"(2) [OF refl refl nd t l c(4)] "2.prems"(3) at_c False show ?thesis by simp
    qed
  qed
qed simp

section \<open>Subscriptions\<close>

lemma index_of_None: "index_of x xs = None \<longleftrightarrow> x \<notin> set xs"
  by (induct xs) auto

lemma index_of_Some: "index_of x xs = Some i \<Longrightarrow> i < length xs \<and> xs ! i = x"
  by (induct xs arbitrary: i) (auto split: if_splits)

lemma mset_swap_remove: "mset (swap_remove x xs) = mset xs - {#x#}"
proof (cases "index_of x xs")
  case None
  then have "x \<notin> set xs" by (simp add: index_of_None)
  with None show ?thesis by (simp add: swap_remove_def diff_single_trivial)
next
  case (Some i)
  then have i: "i < length xs" "xs ! i = x" by (auto dest: index_of_Some)
  let ?l = "xs ! (length xs - 1)" and ?ys = "xs[i := xs ! (length xs - 1)]"
  have ne: "?ys \<noteq> []" and len: "length ?ys = length xs" using i by auto
  have "?ys ! (length xs - 1) = ?l" using i by (cases "i = length xs - 1") auto
  then have "last ?ys = ?l" using ne by (simp add: last_conv_nth)
  then have "?ys = take (length xs - 1) ?ys @ [?l]"
    using append_butlast_last_id [OF ne] by (simp add: butlast_conv_take)
  from arg_cong [OF this, of mset] have "mset ?ys = mset (take (length xs - 1) ?ys) + {#?l#}"
    by (simp only: mset_append mset.simps add_mset_add_single [symmetric] empty_neutral)
  moreover have "mset ?ys = add_mset ?l (mset xs - {#x#})" using i by (simp add: mset_update)
  ultimately have "mset (take (length xs - 1) ?ys) = mset xs - {#x#}" by simp
  then show ?thesis using Some by (simp add: swap_remove_def)
qed

lemma swap_remove_Nil [simp]: "swap_remove x [] = []"
  by (simp add: swap_remove_def)

lemma swap_remove_distinct:
  assumes "distinct xs"
  shows "set (swap_remove x xs) = set xs - {x}" and "distinct (swap_remove x xs)"
proof -
  have m: "mset (swap_remove x xs) = mset (remove1 x xs)" by (simp add: mset_swap_remove)
  from mset_eq_setD [OF m] assms show "set (swap_remove x xs) = set xs - {x}" by (simp add: set_remove1_eq)
  from mset_eq_imp_distinct_iff [OF m] assms show "distinct (swap_remove x xs)" by (simp add: distinct_remove1)
qed

lemma safemap_simps [simp]:
  assumes "safemap_ok sm"
  shows "smGet sm (smNew sm) k = None"
    and "smGet sm (smCompute sm m k f) k' = (if k' = k then Some (f (smGet sm m k)) else smGet sm m k')"
    and "smGet sm (smDelete sm m k) k' = (if k' = k then None else smGet sm m k')"
  using assms unfolding safemap_ok_def by blast+

definition bus_lib_ok :: "('m, 'n) bus_lib \<Rightarrow> bool" where
  "bus_lib_ok lib \<longleftrightarrow> safemap_ok (subs_map lib) \<and> safemap_ok (pending_map lib)"

text \<open>Registered channels exist, are open, and belong to one subscription; nothing has panicked.\<close>

definition bus_wf :: "('m, 'n) bus_lib \<Rightarrow> ('m, 'n) mem_bus \<Rightarrow> bool" where
  "bus_wf lib b \<longleftrightarrow> \<not> panicked b \<and>
     (\<forall>k. distinct (subscribers lib k b) \<and>
       (\<forall>c \<in> set (subscribers lib k b). c < length (chans b) \<and> \<not> closed (chans b ! c))) \<and>
     (\<forall>k k' c. c \<in> set (subscribers lib k b) \<longrightarrow> c \<in> set (subscribers lib k' b) \<longrightarrow> k = k')"

lemma subscribers_simps [simp]:
  "subscribers lib k (b\<lparr>pending := p\<rparr>) = subscribers lib k b"
  "subscribers lib k (b\<lparr>published := n\<rparr>) = subscribers lib k b"
  "subscribers lib k (b\<lparr>chans := cs\<rparr>) = subscribers lib k b"
  by (simp_all add: subscribers_def)

lemma bus_wf_simps [simp]:
  "bus_wf lib (b\<lparr>pending := p\<rparr>) = bus_wf lib b" "bus_wf lib (b\<lparr>published := n\<rparr>) = bus_wf lib b"
  by (simp_all add: bus_wf_def)

lemma bus_wf_New: "bus_lib_ok lib \<Longrightarrow> bus_wf lib (NewInMemoryBus lib)"
  by (simp add: bus_wf_def NewInMemoryBus_def subscribers_def bus_lib_ok_def)

lemma bus_wf_deliver:
  assumes "bus_wf lib b"
    and d: "deliver_loop ctx clk pick ev i (subscribers lib k b) n b = ((e, n'), b')"
  shows "bus_wf lib b'"
proof -
  have wf: "distinct (subscribers lib k b)"
    "\<forall>c \<in> set (subscribers lib k b). c < length (chans b) \<and> \<not> closed (chans b ! c)"
    using assms(1) by (auto simp: bus_wf_def)
  note f = deliver_frame [OF d] and s = deliver_served [OF d wf]
  have subs: "subscribers lib k' b' = subscribers lib k' b" for k' using f by (simp add: subscribers_def)
  have "closed (chans b' ! c) = closed (chans b ! c)" for c
    using f s by (cases "c \<in> set (subscribers lib k b)") auto
  with assms(1) f s subs show ?thesis by (simp add: bus_wf_def)
qed

lemma bus_wf_publish_body:
  assumes "bus_wf lib b" shows "bus_wf lib (snd (publish_body lib pick ctx clk k o1 b))"
proof -
  let ?b = "b\<lparr>published := published b + 1\<rparr>"
  obtain e n b' where d: "deliver_loop ctx clk pick (make_event k o1) 0 (subscribers lib k ?b) 0 ?b = ((e, n), b')"
    by (metis surj_pair)
  have "bus_wf lib ?b" using assms by simp
  then have "bus_wf lib b'" using d by (rule bus_wf_deliver)
  with assms d show ?thesis by (simp add: publish_body_def Let_def)
qed

lemma bus_wf_await_body:
  assumes "bus_wf lib b" shows "bus_wf lib (snd (await_body lib pick ctx clk k r o1 b))"
proof -
  obtain e n b' where d: "deliver_loop ctx clk pick (make_event k o1) 0 (subscribers lib k b) 0 b = ((e, n), b')"
    by (metis surj_pair)
  have "bus_wf lib b'" by (rule bus_wf_deliver [OF assms d])
  with assms d show ?thesis by (cases e) (simp_all add: await_body_def Let_def)
qed

lemma bus_wf_Subscribe:
  assumes "bus_lib_ok lib" and "bus_wf lib b"
  shows "bus_wf lib (snd (membus_Subscribe lib ctx clk k b))"
proof (cases "ctx (clk 0)")
  case None
  let ?c = "length (chans b)"
  let ?b = "b\<lparr>chans := chans b @ [make_chan 1],
              subs := smCompute (subs_map lib) (subs b) k (\<lambda>v. case v of None \<Rightarrow> [?c] | Some cs \<Rightarrow> cs @ [?c])\<rparr>"
  have s: "subscribers lib k' ?b = (if k' = k then subscribers lib k b @ [?c] else subscribers lib k' b)" for k'
    using assms(1) by (simp add: subscribers_def bus_lib_ok_def split: option.splits)
  have lt: "c \<in> set (subscribers lib k' b) \<Longrightarrow> c < ?c" for c k' using assms(2) by (simp add: bus_wf_def)
  have "bus_wf lib ?b"
    unfolding bus_wf_def s using assms(2) lt
    by (auto simp: bus_wf_def nth_append make_chan_def dest: lt)
  with None show ?thesis by (simp add: membus_Subscribe_def Let_def)
qed (simp add: membus_Subscribe_def assms)

lemma bus_wf_Unsubscribe:
  assumes "bus_lib_ok lib" and "bus_wf lib b"
  shows "bus_wf lib (snd (membus_Unsubscribe lib ctx clk k c b))"
proof (cases "ctx (clk 0)")
  case None
  define s1 where "s1 = smCompute (subs_map lib) (subs b) k (\<lambda>v. case v of None \<Rightarrow> [] | Some cs \<Rightarrow> swap_remove c cs)"
  have s: "subscribers lib k' (b\<lparr>subs := s1\<rparr>) =
      (if k' = k then swap_remove c (subscribers lib k b) else subscribers lib k' b)" for k'
    using assms(1) by (auto simp: s1_def subscribers_def bus_lib_ok_def split: option.splits)
  have d: "distinct (subscribers lib k' b)" for k' using assms(2) by (simp add: bus_wf_def)
  note sr = swap_remove_distinct [OF d, of c]
  have wf1: "bus_wf lib (b\<lparr>subs := s1\<rparr>)"
    unfolding bus_wf_def s using assms(2) sr by (auto simp: bus_wf_def)
  show ?thesis
  proof (cases "c \<in> set (subscribers lib k b)")
    case False
    with None wf1 show ?thesis by (simp add: membus_Unsubscribe_def s1_def Let_def)
  next
    case True
    then have c: "c < length (chans b)" "\<not> closed (chans b ! c)"
      "\<And>k'. c \<in> set (subscribers lib k' b) \<Longrightarrow> k' = k" using assms(2) by (auto simp: bus_wf_def)
    let ?b = "b\<lparr>subs := s1, chans := (chans b)[c := (chans b ! c)\<lparr>closed := True\<rparr>]\<rparr>"
    have s': "subscribers lib k' ?b = subscribers lib k' (b\<lparr>subs := s1\<rparr>)" for k' by (simp add: subscribers_def)
    have "c \<notin> set (subscribers lib k' (b\<lparr>subs := s1\<rparr>))" for k' using c(3) sr unfolding s by auto
    then have "c' \<in> set (subscribers lib k' (b\<lparr>subs := s1\<rparr>)) \<Longrightarrow> chans ?b ! c' = chans b ! c'" for c' k'
      by (cases "c' = c") auto
    with wf1 have "bus_wf lib ?b" unfolding bus_wf_def s' by simp
    moreover have "snd (membus_Unsubscribe lib ctx clk k c b) = ?b"
      using None True c(2) assms(2) by (simp add: membus_Unsubscribe_def s1_def Let_def bus_wf_def)
    ultimately show ?thesis by simp
  qed
qed (simp add: membus_Unsubscribe_def assms)

section \<open>Interleaved publishers\<close>

text \<open>
  \<open>bus_reach lib b B S\<close>: the bus can be in state \<open>b\<close> while the publishers of the keys
  in \<open>B\<close> have marked their key as pending and not yet delivered, and those of \<open>S\<close>
  have delivered and not yet removed their mark.
\<close>

inductive bus_reach ::
    "('m, 'n) bus_lib \<Rightarrow> ('m, 'n) mem_bus \<Rightarrow> key set \<Rightarrow> key set \<Rightarrow> bool" for lib where
  new: "bus_reach lib (NewInMemoryBus lib) {} {}"
| begins: "bus_reach lib b B S \<Longrightarrow> publish_begin lib k b = (False, b') \<Longrightarrow> bus_reach lib b' (insert k B) S"
| duplicate: "bus_reach lib b B S \<Longrightarrow> publish_begin lib k b = (True, b') \<Longrightarrow> bus_reach lib b' B S"
| publishes: "bus_reach lib b B S \<Longrightarrow> k \<in> B \<Longrightarrow>
    bus_reach lib (snd (publish_body lib pick ctx clk k o1 b)) (B - {k}) (insert k S)"
| awaits: "bus_reach lib b B S \<Longrightarrow> k \<in> B \<Longrightarrow>
    bus_reach lib (snd (await_body lib pick ctx clk k r o1 b)) (B - {k}) (insert k S)"
| ends: "bus_reach lib b B S \<Longrightarrow> k \<in> S \<Longrightarrow> bus_reach lib (publish_end lib k b) B (S - {k})"
| subscribes: "bus_reach lib b B S \<Longrightarrow> bus_reach lib (snd (membus_Subscribe lib ctx clk k b)) B S"
| unsubscribes: "bus_reach lib b B S \<Longrightarrow> bus_reach lib (snd (membus_Unsubscribe lib ctx clk k c b)) B S"
| receives: "bus_reach lib b B S \<Longrightarrow> bus_reach lib (snd (membus_receive c b)) B S"

lemma bus_wf_receive: "bus_wf lib b \<Longrightarrow> bus_wf lib (snd (membus_receive c b))"
proof -
  assume wf: "bus_wf lib b"
  have "closed ((chans b)[c := (chans b ! c)\<lparr>buf := es\<rparr>] ! c') = closed (chans b ! c')" for es c'
    by (cases "c' = c"; cases "c < length (chans b)") (auto simp: list_update_beyond)
  with wf show ?thesis by (simp add: membus_receive_def bus_wf_def split: list.splits)
qed

lemma pending_frame [simp]:
  "pending (snd (publish_body lib pick ctx clk k o1 b)) = pending b"
  "pending (snd (await_body lib pick ctx clk k r o1 b)) = pending b"
  "pending (snd (membus_Subscribe lib ctx clk k b)) = pending b"
  "pending (snd (membus_Unsubscribe lib ctx clk k c b)) = pending b"
  "pending (snd (membus_receive c b)) = pending b"
proof -
  obtain e n b' where d: "deliver_loop ctx clk pick (make_event k o1) 0 (subscribers lib k b) 0
      (b\<lparr>published := published b + 1\<rparr>) = ((e, n), b')" by (metis surj_pair)
  obtain e2 n2 b2 where d2: "deliver_loop ctx clk pick (make_event k o1) 0 (subscribers lib k b) 0 b =
      ((e2, n2), b2)" by (metis surj_pair)
  show "pending (snd (publish_body lib pick ctx clk k o1 b)) = pending b"
    using deliver_frame [OF d] by (simp add: publish_body_def Let_def d)
  show "pending (snd (await_body lib pick ctx clk k r o1 b)) = pending b"
    using deliver_frame [OF d2] by (cases e2) (simp_all add: await_body_def Let_def d2)
qed (simp_all add: membus_Subscribe_def membus_Unsubscribe_def membus_receive_def Let_def
    split: option.splits list.splits)

definition in_flight :: "('m, 'n) bus_lib \<Rightarrow> ('m, 'n) mem_bus \<Rightarrow> key set" where
  "in_flight lib b = {k. smGet (pending_map lib) (pending b) k \<noteq> None}"

lemma bus_reach_inv:
  assumes "bus_lib_ok lib" and "bus_reach lib b B S"
  shows "bus_wf lib b \<and> in_flight lib b = B \<union> S \<and> B \<inter> S = {}"
  using assms(2)
proof induction
  case new
  then show ?case using assms(1) bus_wf_New by (auto simp: in_flight_def NewInMemoryBus_def bus_lib_ok_def)
next
  case (begins b B S k b')
  from begins.hyps(2) have "b' = b\<lparr>pending := smCompute (pending_map lib) (pending b) k (\<lambda>_. True)\<rparr>" "k \<notin> in_flight lib b"
    by (auto simp: publish_begin_def in_flight_def)
  moreover from this(1) have "in_flight lib b' = insert k (in_flight lib b)"
    using assms(1) by (auto simp: in_flight_def bus_lib_ok_def)
  ultimately show ?case using begins.IH by auto
next
  case (duplicate b B S k b')
  from duplicate.hyps(2) have "b' = b\<lparr>pending := smCompute (pending_map lib) (pending b) k (\<lambda>_. True)\<rparr>" "k \<in> in_flight lib b"
    by (auto simp: publish_begin_def in_flight_def)
  moreover from this(1) have "in_flight lib b' = insert k (in_flight lib b)"
    using assms(1) by (auto simp: in_flight_def bus_lib_ok_def)
  ultimately show ?case using duplicate.IH by auto
next
  case (publishes b B S k pick ctx clk o1)
  then show ?case by (auto simp: in_flight_def bus_wf_publish_body)
next
  case (awaits b B S k pick ctx clk r o1)
  then show ?case by (auto simp: in_flight_def bus_wf_await_body)
next
  case (ends b B S k)
  then show ?case using assms(1) by (auto simp: publish_end_def in_flight_def bus_lib_ok_def)
next
  case (subscribes b B S ctx clk k)
  then show ?case using assms(1) by (simp add: in_flight_def bus_wf_Subscribe)
next
  case (unsubscribes b B S ctx clk k c)
  then show ?case using assms(1) by (simp add: in_flight_def bus_wf_Unsubscribe)
next
  case (receives b B S c)
  then show ?case by (simp add: in_flight_def bus_wf_receive)
qed

lemma membus_Publish_effect:
  assumes "bus_lib_ok lib" and "bus_wf lib b" and "k \<notin> in_flight lib b"
  shows "\<exists>b'. membus_Publish lib pick background clk k opts b = (None, b') \<and> k \<notin> in_flight lib b' \<and>
     (\<forall>c < length (chans b). chans b' ! c =
        (if c \<in> set (subscribers lib k b) \<and> chan_ready (chans b ! c)
         then push (make_event k (publish_opts opts)) (chans b ! c) else chans b ! c))"
proof -
  let ?ev = "make_event k (publish_opts opts)"
  let ?b1 = "b\<lparr>pending := smCompute (pending_map lib) (pending b) k (\<lambda>_. True)\<rparr>"
  let ?b2 = "?b1\<lparr>published := published b + 1\<rparr>" and ?cs = "subscribers lib k b"
  have beg: "publish_begin lib k b = (False, ?b1)"
    using assms(3) by (simp add: publish_begin_def in_flight_def)
  obtain e n b3 where d: "deliver_loop background (tick 1 clk) pick ?ev 0 ?cs 0 ?b2 = ((e, n), b3)"
    by (metis surj_pair)
  have wf: "distinct ?cs" "\<forall>c \<in> set ?cs. c < length (chans ?b2) \<and> \<not> closed (chans ?b2 ! c)"
    using assms(2) by (auto simp: bus_wf_def)
  have "fst (fst (deliver_loop background clk' pick ev i cs m b')) = None" for clk' ev i cs m and b' :: "('a, 'b) mem_bus"
    by (induction "background" clk' pick ev i cs m b' rule: deliver_loop.induct)
      (auto simp: Let_def split: send.splits)
  from this [of "tick 1 clk" ?ev 0 ?cs 0 ?b2] have e: "e = None" unfolding d by simp
  note s = deliver_served [OF d wf] and f = deliver_frame [OF d]
  let ?b4 = "if ?cs = [] then ?b1 else b3"
  have "membus_Publish lib pick background clk k opts b = (None, publish_end lib k ?b4)"
    using beg d e by (simp add: membus_Publish_def publish_body_def Let_def)
  moreover have "k \<notin> in_flight lib (publish_end lib k ?b4)"
    using assms(1) by (simp add: publish_end_def in_flight_def bus_lib_ok_def)
  moreover have "chans (publish_end lib k ?b4) ! c =
      (if c \<in> set ?cs \<and> chan_ready (chans b ! c) then push ?ev (chans b ! c) else chans b ! c)" for c
    using s f e by (auto simp: publish_end_def)
  ultimately show ?thesis by blast
qed

section \<open>Properties\<close>

text \<open>
  C31. No interleaving of publishers, subscribers, unsubscribers and consumers makes
  the bus panic: every channel it can send on is open, belongs to one subscription,
  and at most one publisher per key is between its pending mark and its removal.
\<close>

theorem bus_never_panics:
  assumes "bus_lib_ok lib" and "bus_reach lib b B S"
  shows "\<not> panicked b \<and> (\<forall>k. \<forall>c \<in> set (subscribers lib k b). \<not> closed (chans b ! c)) \<and>
         in_flight lib b = B \<union> S \<and> B \<inter> S = {}"
  using bus_reach_inv [OF assms] by (simp add: bus_wf_def)

definition map_safemap :: "(key \<Rightarrow> 'v option, 'v) safemap" where
  "map_safemap = \<lparr>smNew = Map.empty, smGet = (\<lambda>m k. m k), smCompute = (\<lambda>m k f. m(k \<mapsto> f (m k))),
     smDelete = (\<lambda>m k. m(k := None))\<rparr>"

abbreviation map_lib :: "(key \<Rightarrow> chan_id list option, key \<Rightarrow> bool option) bus_lib" where
  "map_lib \<equiv> \<lparr>subs_map = map_safemap, pending_map = map_safemap\<rparr>"

lemma map_lib_ok: "bus_lib_ok map_lib"
  by (auto simp: bus_lib_ok_def safemap_ok_def map_safemap_def)

theorem bus_never_panics_witness:
  "let b1 = snd (membus_Subscribe map_lib background (\<lambda>_. 0) ''k'' (NewInMemoryBus map_lib));
       b2 = snd (publish_begin map_lib ''k'' b1);
       b3 = snd (membus_Unsubscribe map_lib background (\<lambda>_. 0) ''k'' 0 b2)
   in closed (chans b3 ! 0) \<and> \<not> panicked b3 \<and> in_flight map_lib b3 = {''k''}"
proof -
  let ?b1 = "snd (membus_Subscribe map_lib background (\<lambda>_. 0) ''k'' (NewInMemoryBus map_lib))"
  let ?b2 = "snd (publish_begin map_lib ''k'' ?b1)"
  let ?b3 = "snd (membus_Unsubscribe map_lib background (\<lambda>_. 0) ''k'' 0 ?b2)"
  have "bus_reach map_lib ?b1 {} {}" by (intro bus_reach.subscribes bus_reach.new)
  moreover have "publish_begin map_lib ''k'' ?b1 = (False, ?b2)"
    by (simp add: publish_begin_def membus_Subscribe_def NewInMemoryBus_def map_safemap_def Let_def)
  ultimately have "bus_reach map_lib ?b2 {''k''} {}" by (rule bus_reach.begins)
  then have "bus_reach map_lib ?b3 {''k''} {}" by (rule bus_reach.unsubscribes)
  from bus_never_panics [OF map_lib_ok this] have "\<not> panicked ?b3" "in_flight map_lib ?b3 = {''k''}" by simp_all
  moreover have "closed (chans ?b3 ! 0)"
    by (simp add: membus_Unsubscribe_def publish_begin_def membus_Subscribe_def NewInMemoryBus_def
        map_safemap_def subscribers_def Let_def)
  ultimately show ?thesis unfolding Let_def by blast
qed

text \<open>
  A publication of a key that is not already being published puts the event into
  the buffer of exactly those subscribers of the key whose channel has room, leaves
  every other channel as it was and ends with the key not pending.
\<close>

theorem Publish_delivers:
  assumes "bus_lib_ok lib" and "bus_wf lib b" and "k \<notin> in_flight lib b"
  shows "\<exists>b'. membus_Publish lib pick background clk k opts b = (None, b') \<and> k \<notin> in_flight lib b' \<and>
     (\<forall>c < length (chans b). chans b' ! c =
        (if c \<in> set (subscribers lib k b) \<and> chan_ready (chans b ! c)
         then push (make_event k (publish_opts opts)) (chans b ! c) else chans b ! c))"
  by (rule membus_Publish_effect [OF assms])

theorem Publish_delivers_witness:
  "\<exists>b'. membus_Publish map_lib (\<lambda>_. True) background (\<lambda>_. 3) ''k'' [WithRegion ''eu'']
       (snd (membus_Subscribe map_lib background (\<lambda>_. 0) ''k'' (NewInMemoryBus map_lib))) = (None, b') \<and>
     buf (chans b' ! 0) = [\<lparr>evKey = ''k'', evRegion = ''eu'', evVectorClock = None, evScope = ScopeLocal\<rparr>]"
proof -
  let ?b = "snd (membus_Subscribe map_lib background (\<lambda>_. 0) ''k'' (NewInMemoryBus map_lib))"
  have b: "subscribers map_lib ''k'' ?b = [0]" "chans ?b = [make_chan 1]" "in_flight map_lib ?b = {}"
    by (simp_all add: membus_Subscribe_def NewInMemoryBus_def map_safemap_def subscribers_def in_flight_def Let_def)
  have "bus_wf map_lib ?b" by (intro bus_wf_Subscribe bus_wf_New map_lib_ok)
  from Publish_delivers [OF map_lib_ok this, of "''k''" "\<lambda>_. True" "\<lambda>_. 3" "[WithRegion ''eu'']"]
  show ?thesis
    unfolding b by (auto simp: make_chan_def chan_ready_def make_event_def publish_opts_def WithRegion_def
        zero_publish_options_def)
qed

text \<open>
  A quorum publication that reports success was received by a quorum: if the key
  was not already being published, at least the requested number of distinct
  subscribers (at least one) has the event at the end of its buffer.
\<close>

theorem PublishAndAwait_quorum:
  assumes "bus_wf lib b" and "k \<notin> in_flight lib b"
    and "membus_PublishAndAwait lib pick ctx clk k replicas opts b = (None, b')"
  shows "max 1 replicas \<le> int (card {c \<in> set (subscribers lib k b).
     chans b' ! c = push (make_event k (publish_opts opts)) (chans b ! c)})"
proof -
  let ?ev = "make_event k (publish_opts opts)" and ?cs = "subscribers lib k b"
  let ?b1 = "b\<lparr>pending := smCompute (pending_map lib) (pending b) k (\<lambda>_. True)\<rparr>"
  have beg: "publish_begin lib k b = (False, ?b1)"
    using assms(2) by (simp add: publish_begin_def in_flight_def)
  obtain e n b3 where d: "deliver_loop ctx (tick 1 clk) pick ?ev 0 ?cs 0 ?b1 = ((e, n), b3)"
    by (metis surj_pair)
  have wf: "distinct ?cs" "\<forall>c \<in> set ?cs. c < length (chans ?b1) \<and> \<not> closed (chans ?b1 ! c)"
    using assms(1) by (auto simp: bus_wf_def)
  note s = deliver_served [OF d wf]
  have m: "(if replicas \<le> 0 then 1 else replicas) = max 1 replicas" by auto
  have r: "chans b' = chans b3 \<and> max 1 replicas \<le> int n"
    using assms(3) beg d
    by (auto simp: membus_PublishAndAwait_def await_body_def publish_end_def Let_def m
        simp del: One_nat_def split: option.splits if_splits)
  have "n = card {c \<in> set ?cs. chans b3 ! c = push ?ev (chans b ! c)}" using s by simp
  with r show ?thesis by simp
qed

theorem PublishAndAwait_quorum_witness:
  "\<exists>b'. membus_PublishAndAwait map_lib (\<lambda>_. True) background (\<lambda>_. 3) ''k'' 1 []
       (snd (membus_Subscribe map_lib background (\<lambda>_. 0) ''k'' (NewInMemoryBus map_lib))) = (None, b') \<and>
     1 \<le> int (card {c. c = 0 \<and> chans b' ! c = push (make_event ''k'' (publish_opts [])) (make_chan 1)})"
proof -
  let ?b = "snd (membus_Subscribe map_lib background (\<lambda>_. 0) ''k'' (NewInMemoryBus map_lib))"
  have b: "subscribers map_lib ''k'' ?b = [0]" "chans ?b = [make_chan 1]" "in_flight map_lib ?b = {}"
    by (simp_all add: membus_Subscribe_def NewInMemoryBus_def map_safemap_def subscribers_def in_flight_def Let_def)
  obtain b' where r: "membus_PublishAndAwait map_lib (\<lambda>_. True) background (\<lambda>_. 3) ''k'' 1 [] ?b = (None, b')"
    using b by (simp add: membus_PublishAndAwait_def publish_begin_def await_body_def in_flight_def Let_def
        map_safemap_def make_chan_def chan_ready_def try_send_def)
  have "bus_wf map_lib ?b" by (intro bus_wf_Subscribe bus_wf_New map_lib_ok)
  from PublishAndAwait_quorum [OF this _ r] have
    "1 \<le> int (card {c. c = 0 \<and> chans b' ! c = push (make_event ''k'' (publish_opts [])) (chans ?b ! c)})"
    by (simp add: b)
  moreover have "{c. c = 0 \<and> chans b' ! c = push (make_event ''k'' (publish_opts [])) (chans ?b ! c)} =
      {c. c = 0 \<and> chans b' ! c = push (make_event ''k'' (publish_opts [])) (make_chan 1)}" by (auto simp: b)
  ultimately show ?thesis using r by auto
qed

text \<open>
  The pending mark suppresses the quorum check: while one publication of a key is
  in flight, a second \<^verbatim>\<open>PublishAndAwait\<close> of the key reports success for any number of
  replicas, here on a bus without any subscriber, and sends nothing.
\<close>

theorem PublishAndAwait_pending_unchecked:
  assumes "bus_lib_ok lib"
  shows "let b1 = snd (publish_begin lib k (NewInMemoryBus lib));
             (e, b2) = membus_PublishAndAwait lib pick background clk k replicas opts b1
         in e = None \<and> subscribers lib k b1 = [] \<and> chans b2 = []"
proof -
  have "fst (publish_begin lib k (snd (publish_begin lib k (NewInMemoryBus lib))))"
    using assms by (auto simp: publish_begin_def bus_lib_ok_def)
  moreover have "chans (snd (publish_begin lib k b)) = chans b" for b by (simp add: publish_begin_def)
  ultimately show ?thesis
    using assms by (auto simp: membus_PublishAndAwait_def subscribers_def bus_lib_ok_def Let_def
        NewInMemoryBus_def publish_begin_def split: prod.splits)
qed

theorem PublishAndAwait_pending_unchecked_witness:
  "fst (membus_PublishAndAwait map_lib (\<lambda>_. True) background (\<lambda>_. 5) ''k'' 3 []
      (snd (publish_begin map_lib ''k'' (NewInMemoryBus map_lib)))) = None"
  using PublishAndAwait_pending_unchecked [OF map_lib_ok, of "''k''" "\<lambda>_. True" "\<lambda>_. 5" 3 "[]"]
  by (simp add: Let_def split: prod.splits)

end
