(* ===== verification/Warp_Core.thy ===== *)
theory Warp_Core
  imports Warp_TTL Cache_Wrappers Warp_Store Warp_Syncbus
begin

text \<open>
  The orchestrator (src/core/core.go): the sharded registry of keys, \<^verbatim>\<open>Get\<close>,
  \<^verbatim>\<open>GetOrSet\<close>, \<^verbatim>\<open>GetAt\<close>, \<^verbatim>\<open>Set\<close>, \<^verbatim>\<open>Invalidate\<close>, \<^verbatim>\<open>Warmup\<close> and the adapter for the
  validator. Transactions are in \<open>Warp_Txn\<close> and leases in \<open>Warp_Lease\<close>.

  A \<open>warp\<close> holds the states of its cache, store and bus; the record \<open>env\<close> holds
  their method tables. A registration is an object that goroutines share, so the
  shards map keys to references into \<open>regs_heap\<close>. A goroutine the code starts is
  queued in \<open>tasks\<close> and runs later, in any order, as \<open>run_task\<close>.

  Parameters of an operation stand for what is outside its control: \<open>flight\<close> is
  the result of a call of the same key that singleflight shares (\<open>None\<close> when the
  function is run by this call), \<open>late\<close> says that the soft timeout fires before
  the fetch ends.
\<close>

unbundle bit_operations_syntax

section \<open>Data\<close>

datatype mode = ModeStrongLocal | ModeEventualDistributed | ModeStrongDistributed

type_synonym reg_id = nat
type_synonym strat_id = nat

record registration =
  rttl :: duration
  ttlStrategy :: "strat_id option"
  ttlOpts :: ttl_options
  rmode :: mode
  currentTTL :: duration
  lastAccess :: time
  quorum :: int

definition regShardCount :: nat where
  "regShardCount = 512"

datatype 'v task =
    RefreshTask key reg_id duration
  | LoadTask key reg_id duration "clock \<Rightarrow> go_error + 'v"
  | EagerTask key reg_id duration
  | PublishTask key "duration option"
  | ListenTask key

record lease =
  lkeys :: "key list"
  timer :: "time option"
  ticker :: "(time \<times> duration) option"
  renewal :: duration
  lsub :: "chan_id option"

record ('c, 's, 'b, 'st, 'v) warp =
  w_cache :: 'c
  w_store :: "'s option"
  w_bus :: "'b option"
  merges :: "'v engine"
  leases :: "lease gomap"
  publishErrCh :: "go_error chan"
  shards :: "nat \<Rightarrow> reg_id gomap"
  regs_heap :: "registration list"
  strats :: "strat_id \<Rightarrow> 'st"
  hitCounter :: "nat option"
  missCounter :: "nat option"
  w_evictionCounter :: "nat option"
  latencyHist :: bool
  traceEnabled :: bool
  resilient :: bool
  publishTimeout :: duration
  tasks :: "'v task list"
  listeners :: "chan_id list"

record ('c, 's, 'b, 'bt, 'st, 'v) env =
  cops :: "('c, 'v mval) cache_ops"
  vgetat :: "(ctx \<Rightarrow> clock \<Rightarrow> key \<Rightarrow> time \<Rightarrow> 'c \<Rightarrow> (go_error + 'v mval option) \<times> 'c) option"
  sops :: "('s, 'v, 'bt) store_ops"
  bops :: "'b bus_ops"
  stops :: "'st strategy_ops"

section \<open>Options and construction\<close>

type_synonym ('c, 's, 'b, 'st, 'v) warp_option = "('c, 's, 'b, 'st, 'v) warp \<Rightarrow> ('c, 's, 'b, 'st, 'v) warp"

definition core_WithMetrics :: "('c, 's, 'b, 'st, 'v) warp_option" where
  "core_WithMetrics w = w\<lparr>hitCounter := Some 0, missCounter := Some 0, w_evictionCounter := Some 0,
     latencyHist := True\<rparr>"

definition WithCacheResiliency :: "('c, 's, 'b, 'st, 'v) warp_option" where
  "WithCacheResiliency w = w\<lparr>resilient := True\<rparr>"

definition WithPublishTimeout :: "duration \<Rightarrow> ('c, 's, 'b, 'st, 'v) warp_option" where
  "WithPublishTimeout d w = w\<lparr>publishTimeout := d\<rparr>"

definition core_WithTracing :: "('c, 's, 'b, 'st, 'v) warp_option" where
  "core_WithTracing w = w\<lparr>traceEnabled := True\<rparr>"

definition warp_New ::
    "'c \<Rightarrow> 's option \<Rightarrow> 'b option \<Rightarrow> 'v engine option \<Rightarrow> (strat_id \<Rightarrow> 'st) \<Rightarrow> ('c, 's, 'b, 'st, 'v) warp_option list
     \<Rightarrow> ('c, 's, 'b, 'st, 'v) warp" where
  "warp_New c s b m sts opts =
     fold (\<lambda>opt w. opt w) opts
       \<lparr>w_cache = c, w_store = s, w_bus = b, merges = (case m of None \<Rightarrow> NewEngine | Some e \<Rightarrow> e),
        leases = [], publishErrCh = make_chan 1, shards = (\<lambda>_. []), regs_heap = [], strats = sts,
        hitCounter = None, missCounter = None, w_evictionCounter = None, latencyHist = False,
        traceEnabled = False, resilient = False, publishTimeout = 0, tasks = [], listeners = []\<rparr>"

text \<open>The cache \<^verbatim>\<open>w.cache\<close>: with the resiliency option it is the wrapped one.\<close>

definition w_cops :: "('c, 's, 'b, 'bt, 'st, 'v) env \<Rightarrow> ('c, 's, 'b, 'st, 'v) warp \<Rightarrow> ('c, 'v mval) cache_ops" where
  "w_cops E w = (if resilient w then NewResilient (cops E) else cops E)"

definition cache_Get where
  "cache_Get E ctx clk k w =
     (case cGet (w_cops E w) ctx clk k (w_cache w) of (r, c) \<Rightarrow> (r, w\<lparr>w_cache := c\<rparr>))"

definition cache_Set where
  "cache_Set E ctx clk k v ttl w =
     (case cSet (w_cops E w) ctx clk k v ttl (w_cache w) of (e, c) \<Rightarrow> (e, w\<lparr>w_cache := c\<rparr>))"

definition cache_Invalidate where
  "cache_Invalidate E ctx clk k w =
     (case cInvalidate (w_cops E w) ctx clk k (w_cache w) of (e, c) \<Rightarrow> (e, w\<lparr>w_cache := c\<rparr>))"

definition hit_inc :: "('c, 's, 'b, 'st, 'v) warp \<Rightarrow> ('c, 's, 'b, 'st, 'v) warp" where
  "hit_inc w = w\<lparr>hitCounter := map_option Suc (hitCounter w)\<rparr>"

definition miss_inc :: "('c, 's, 'b, 'st, 'v) warp \<Rightarrow> ('c, 's, 'b, 'st, 'v) warp" where
  "miss_inc w = w\<lparr>missCounter := map_option Suc (missCounter w)\<rparr>"

section \<open>The sharded registry\<close>

definition hashString :: "key \<Rightarrow> u32" where
  "hashString k = foldl (\<lambda>h c. (h XOR of_char c) * 16777619) 2166136261 k"

definition shard_of :: "key \<Rightarrow> nat" where
  "shard_of k = unat (hashString k) mod regShardCount"

definition getReg :: "key \<Rightarrow> ('c, 's, 'b, 'st, 'v) warp \<Rightarrow> reg_id option" where
  "getReg k w = gm_get (shards w (shard_of k)) k"

definition add_reg :: "key \<Rightarrow> registration \<Rightarrow> ('c, 's, 'b, 'st, 'v) warp \<Rightarrow> ('c, 's, 'b, 'st, 'v) warp" where
  "add_reg k r w =
     w\<lparr>regs_heap := regs_heap w @ [r],
       shards := (shards w)(shard_of k := gm_put (shards w (shard_of k)) k (length (regs_heap w)))\<rparr>"

definition ttl_opts :: "ttl_option list \<Rightarrow> ttl_options" where
  "ttl_opts opts = fold (\<lambda>opt o1. opt o1) opts zero_ttl_options"

definition Register ::
    "key \<Rightarrow> mode \<Rightarrow> duration \<Rightarrow> ttl_option list \<Rightarrow> ('c, 's, 'b, 'st, 'v) warp \<Rightarrow> bool \<times> ('c, 's, 'b, 'st, 'v) warp" where
  "Register k m ttl opts w =
     (case getReg k w of
        Some _ \<Rightarrow> (False, w)
      | None \<Rightarrow>
          (let w1 = add_reg k \<lparr>rttl = ttl, ttlStrategy = None, ttlOpts = ttl_opts opts, rmode = m,
                               currentTTL = ttl, lastAccess = 0, quorum = 1\<rparr> w
           in if (m = ModeEventualDistributed \<or> m = ModeStrongDistributed) \<and> w_bus w1 \<noteq> None
              then (True, w1\<lparr>tasks := tasks w1 @ [ListenTask k]\<rparr>)
              else (True, w1)))"

definition RegisterDynamicTTL ::
    "key \<Rightarrow> mode \<Rightarrow> strat_id \<Rightarrow> ttl_option list \<Rightarrow> ('c, 's, 'b, 'st, 'v) warp \<Rightarrow> bool \<times> ('c, 's, 'b, 'st, 'v) warp" where
  "RegisterDynamicTTL k m strat opts w =
     (case getReg k w of
        Some _ \<Rightarrow> (False, w)
      | None \<Rightarrow>
          (True, add_reg k \<lparr>rttl = 0, ttlStrategy = Some strat, ttlOpts = ttl_opts opts, rmode = m,
                            currentTTL = 0, lastAccess = 0, quorum = 1\<rparr> w))"

definition Unregister :: "key \<Rightarrow> ('c, 's, 'b, 'st, 'v) warp \<Rightarrow> ('c, 's, 'b, 'st, 'v) warp" where
  "Unregister k w = w\<lparr>shards := (shards w)(shard_of k := gm_del (shards w (shard_of k)) k)\<rparr>"

definition reg_upd :: "reg_id \<Rightarrow> (registration \<Rightarrow> registration) \<Rightarrow> ('c, 's, 'b, 'st, 'v) warp \<Rightarrow> ('c, 's, 'b, 'st, 'v) warp" where
  "reg_upd r f w = w\<lparr>regs_heap := (regs_heap w)[r := f (regs_heap w ! r)]\<rparr>"

definition SetQuorum :: "key \<Rightarrow> int \<Rightarrow> ('c, 's, 'b, 'st, 'v) warp \<Rightarrow> bool \<times> ('c, 's, 'b, 'st, 'v) warp" where
  "SetQuorum k replicas w =
     (case getReg k w of
        None \<Rightarrow> (False, w)
      | Some r \<Rightarrow>
          (True, reg_upd r (\<lambda>g. g\<lparr>quorum := (if replicas < 1 then 1 else replicas)\<rparr>) w))"

definition SetQuorumAware ::
    "key \<Rightarrow> int \<Rightarrow> int \<Rightarrow> ('c, 's, 'b, 'st, 'v) warp \<Rightarrow> bool \<times> ('c, 's, 'b, 'st, 'v) warp" where
  "SetQuorumAware k replicas minZones w =
     (case getReg k w of
        None \<Rightarrow> (False, w)
      | Some r \<Rightarrow>
          (True, reg_upd r (\<lambda>g. g\<lparr>quorum := (if replicas < 1 then 1 else replicas)\<rparr>) w))"

definition quorumSize :: "reg_id \<Rightarrow> ('c, 's, 'b, 'st, 'v) warp \<Rightarrow> int" where
  "quorumSize r w = (if quorum (regs_heap w ! r) < 1 then 1 else quorum (regs_heap w ! r))"

section \<open>Bus access\<close>

definition Peers :: "('c, 's, 'b, 'bt, 'st, 'v) env \<Rightarrow> ('c, 's, 'b, 'st, 'v) warp \<Rightarrow> string list" where
  "Peers E w = (case w_bus w of None \<Rightarrow> [] | Some b \<Rightarrow> bPeers (bops E) b)"

definition core_Subscribe ::
    "('c, 's, 'b, 'bt, 'st, 'v) env \<Rightarrow> ctx \<Rightarrow> clock \<Rightarrow> key \<Rightarrow> ('c, 's, 'b, 'st, 'v) warp
     \<Rightarrow> (go_error + chan_id) \<times> ('c, 's, 'b, 'st, 'v) warp" where
  "core_Subscribe E ctx clk k w =
     (case w_bus w of
        None \<Rightarrow> (Inl ErrBusRequired, w)
      | Some b \<Rightarrow> (case bSubscribe (bops E) ctx clk k b of (r, b1) \<Rightarrow> (r, w\<lparr>w_bus := Some b1\<rparr>)))"

definition core_Unsubscribe ::
    "('c, 's, 'b, 'bt, 'st, 'v) env \<Rightarrow> ctx \<Rightarrow> clock \<Rightarrow> key \<Rightarrow> chan_id \<Rightarrow> ('c, 's, 'b, 'st, 'v) warp
     \<Rightarrow> go_error option \<times> ('c, 's, 'b, 'st, 'v) warp" where
  "core_Unsubscribe E ctx clk k ch w =
     (case w_bus w of
        None \<Rightarrow> (Some ErrBusRequired, w)
      | Some b \<Rightarrow> (case bUnsubscribe (bops E) ctx clk k ch b of (e, b1) \<Rightarrow> (e, w\<lparr>w_bus := Some b1\<rparr>)))"

text \<open>\<^verbatim>\<open>listenForInvalidations\<close>: the subscription, and the body of its loop for one event.\<close>

definition listen_start ::
    "('c, 's, 'b, 'bt, 'st, 'v) env \<Rightarrow> clock \<Rightarrow> key \<Rightarrow> ('c, 's, 'b, 'st, 'v) warp \<Rightarrow> ('c, 's, 'b, 'st, 'v) warp" where
  "listen_start E clk k w =
     (case w_bus w of
        None \<Rightarrow> w
      | Some b \<Rightarrow>
          (case bSubscribe (bops E) background clk k b of
             (Inl e, b1) \<Rightarrow> w\<lparr>w_bus := Some b1\<rparr>
           | (Inr ch, b1) \<Rightarrow> w\<lparr>w_bus := Some b1, listeners := listeners w @ [ch]\<rparr>))"

definition listen_event ::
    "('c, 's, 'b, 'bt, 'st, 'v) env \<Rightarrow> clock \<Rightarrow> event \<Rightarrow> ('c, 's, 'b, 'st, 'v) warp \<Rightarrow> ('c, 's, 'b, 'st, 'v) warp" where
  "listen_event E clk ev w = snd (cache_Invalidate E background clk (evKey ev) w)"

definition bus_healthy where
  "bus_healthy E b = bIsHealthy (bops E) b"

text \<open>The background publication of \<^verbatim>\<open>Set\<close> and \<^verbatim>\<open>Invalidate\<close> in eventual mode; an error goes
  to \<^verbatim>\<open>publishErrCh\<close> if that has room.\<close>

definition publish_task ::
    "('c, 's, 'b, 'bt, 'st, 'v) env \<Rightarrow> clock \<Rightarrow> key \<Rightarrow> duration option \<Rightarrow> ('c, 's, 'b, 'st, 'v) warp
     \<Rightarrow> ('c, 's, 'b, 'st, 'v) warp" where
  "publish_task E clk k timeout w =
     (case w_bus w of
        None \<Rightarrow> w
      | Some b \<Rightarrow>
          (let pubCtx = (case timeout of Some d \<Rightarrow> with_timeout background (clk 0) d | None \<Rightarrow> background)
           in case bPublish (bops E) pubCtx (tick 1 clk) k [] b of
                (None, b1) \<Rightarrow> w\<lparr>w_bus := Some b1\<rparr>
              | (Some e, b1) \<Rightarrow>
                  (case try_send e (publishErrCh w) of
                     Sent ch \<Rightarrow> w\<lparr>w_bus := Some b1, publishErrCh := ch\<rparr>
                   | _ \<Rightarrow> w\<lparr>w_bus := Some b1\<rparr>)))"

definition spawn_publish :: "key \<Rightarrow> ('c, 's, 'b, 'st, 'v) warp \<Rightarrow> ('c, 's, 'b, 'st, 'v) warp" where
  "spawn_publish k w =
     w\<lparr>tasks := tasks w @ [PublishTask k (if publishTimeout w > 0 then Some (publishTimeout w) else None)]\<rparr>"

section \<open>Get\<close>

text \<open>A result \<^verbatim>\<open>(T, error)\<close>; the zero value is \<open>None\<close>.\<close>

type_synonym 'v ret = "'v option \<times> go_error option"

definition strat_Record ::
    "('c, 's, 'b, 'bt, 'st, 'v) env \<Rightarrow> clock \<Rightarrow> key \<Rightarrow> registration \<Rightarrow> ('c, 's, 'b, 'st, 'v) warp \<Rightarrow> ('c, 's, 'b, 'st, 'v) warp" where
  "strat_Record E clk k g w =
     (case ttlStrategy g of
        None \<Rightarrow> w
      | Some st \<Rightarrow> w\<lparr>strats := (strats w)(st := sRecord (stops E) (clk 0) k (strats w st))\<rparr>)"

text \<open>\<^verbatim>\<open>ttl := d; if reg.ttlStrategy != nil { ttl = reg.ttlStrategy.TTL(key) }\<close>\<close>

definition strat_TTL ::
    "('c, 's, 'b, 'bt, 'st, 'v) env \<Rightarrow> clock \<Rightarrow> key \<Rightarrow> registration \<Rightarrow> duration \<Rightarrow> ('c, 's, 'b, 'st, 'v) warp
     \<Rightarrow> duration \<times> ('c, 's, 'b, 'st, 'v) warp" where
  "strat_TTL E clk k g d w =
     (case ttlStrategy g of
        None \<Rightarrow> (d, w)
      | Some st \<Rightarrow>
          (case sTTL (stops E) (clk 0) k (strats w st) of
             (ttl, s) \<Rightarrow> (ttl, w\<lparr>strats := (strats w)(st := s)\<rparr>)))"

definition effective_ttl :: "registration \<Rightarrow> duration \<Rightarrow> duration" where
  "effective_ttl g ttl = dur_add ttl (FailSafeGracePeriod (ttlOpts g))"

definition reg_touch :: "reg_id \<Rightarrow> duration \<Rightarrow> time \<Rightarrow> ('c, 's, 'b, 'st, 'v) warp \<Rightarrow> ('c, 's, 'b, 'st, 'v) warp" where
  "reg_touch r ttl t w = reg_upd r (\<lambda>g. g\<lparr>currentTTL := ttl, lastAccess := t\<rparr>) w"

text \<open>\<^verbatim>\<open>merge.Value[T]{Data: d, Timestamp: t}\<close>\<close>

definition fresh_value :: "'v \<Rightarrow> time \<Rightarrow> 'v mval" where
  "fresh_value d t = \<lparr>Data = d, Timestamp = t, Vector = None, Region = ''''\<rparr>"

text \<open>The function run by singleflight: fetch from the store, or fail with \<^verbatim>\<open>ErrNotFound\<close>.\<close>

definition fetch ::
    "('c, 's, 'b, 'bt, 'st, 'v) env \<Rightarrow> ctx \<Rightarrow> clock \<Rightarrow> key \<Rightarrow> ('c, 's, 'b, 'st, 'v) warp
     \<Rightarrow> (go_error + 'v mval) \<times> ('c, 's, 'b, 'st, 'v) warp" where
  "fetch E ctx clk k w =
     (case w_store w of
        None \<Rightarrow> (Inl ErrNotFound, w)
      | Some s \<Rightarrow>
          (case stGet (sops E) ctx clk k s of
             (Inl e, s1) \<Rightarrow> (Inl e, w\<lparr>w_store := Some s1\<rparr>)
           | (Inr None, s1) \<Rightarrow> (Inl ErrNotFound, w\<lparr>w_store := Some s1\<rparr>)
           | (Inr (Some v), s1) \<Rightarrow> (Inr (fresh_value v (clk 3)), w\<lparr>w_store := Some s1\<rparr>)))"

definition shared_fetch where
  "shared_fetch E flight ctx clk k w = (case flight of Some res \<Rightarrow> (res, w) | None \<Rightarrow> fetch E ctx clk k w)"

text \<open>Store a fetched value: adjust the registration and set the cache, ignoring its error.\<close>

definition refill ::
    "('c, 's, 'b, 'bt, 'st, 'v) env \<Rightarrow> ctx \<Rightarrow> clock \<Rightarrow> key \<Rightarrow> reg_id \<Rightarrow> duration \<Rightarrow> 'v mval \<Rightarrow> ('c, 's, 'b, 'st, 'v) warp
     \<Rightarrow> ('c, 's, 'b, 'st, 'v) warp" where
  "refill E ctx clk k r d mv w =
     (let g = regs_heap w ! r;
          (ttl, w1) = strat_TTL E clk k g d w;
          w2 = reg_touch r ttl (Timestamp mv) w1
      in snd (cache_Set E ctx (tick 1 clk) k mv (effective_ttl g ttl) w2))"

text \<open>Sliding expiration and frequency-based adjustment on a hit.\<close>

definition slide ::
    "('c, 's, 'b, 'bt, 'st, 'v) env \<Rightarrow> ctx \<Rightarrow> clock \<Rightarrow> key \<Rightarrow> reg_id \<Rightarrow> 'v mval \<Rightarrow> time \<Rightarrow> ('c, 's, 'b, 'st, 'v) warp
     \<Rightarrow> ('c, 's, 'b, 'st, 'v) warp" where
  "slide E ctx clk k r v now w =
     (let g = regs_heap w ! r; o1 = ttlOpts g
      in if \<not> (Sliding o1 \<or> FreqThreshold o1 > 0) then w
         else if ttlStrategy g \<noteq> None
         then let (ttl0, w1) = strat_TTL E clk k g 0 w;
                  ttl = (if FreqThreshold o1 > 0 then Adjust o1 ttl0 (lastAccess (regs_heap w1 ! r)) now else ttl0);
                  w2 = reg_touch r ttl now w1
              in snd (cache_Set E ctx (tick 1 clk) k v (effective_ttl g ttl) w2)
         else let ttl = Adjust o1 (currentTTL g) (lastAccess g) now;
                  w2 = reg_touch r ttl now w
              in snd (cache_Set E ctx (tick 1 clk) k v (effective_ttl g ttl) w2))"

text \<open>Whether a hit starts a background refresh: little of the logical TTL is left.\<close>

definition eager_due :: "registration \<Rightarrow> time \<Rightarrow> time \<Rightarrow> bool" where
  "eager_due g ts now \<longleftrightarrow>
     currentTTL g > 0 \<and>
     rat_of_int (time_Sub (time_Add ts (currentTTL g)) now) / rat_of_int (currentTTL g) \<le> EagerRefreshThreshold (ttlOpts g)"

definition is_stale :: "registration \<Rightarrow> time \<Rightarrow> time \<Rightarrow> bool" where
  "is_stale g ts now \<longleftrightarrow>
     FailSafeGracePeriod (ttlOpts g) > 0 \<and> time_After now (time_Add ts (currentTTL g))"

text \<open>The test of the fast path on a cache hit.\<close>

definition plain_hit :: "registration \<Rightarrow> ('c, 's, 'b, 'st, 'v) warp \<Rightarrow> bool" where
  "plain_hit g w \<longleftrightarrow>
     Sliding (ttlOpts g) = False \<and> EagerRefreshThreshold (ttlOpts g) = 0 \<and>
     FailSafeGracePeriod (ttlOpts g) = 0 \<and> ttlStrategy g = None \<and> \<not> traceEnabled w \<and> \<not> latencyHist w"

text \<open>A hit whose value is logically expired, with a store to refresh it from.\<close>

definition get_stale ::
    "('c, 's, 'b, 'bt, 'st, 'v) env \<Rightarrow> (go_error + 'v mval) option \<Rightarrow> bool \<Rightarrow> ctx \<Rightarrow> clock \<Rightarrow> key \<Rightarrow> reg_id \<Rightarrow> 'v mval
     \<Rightarrow> ('c, 's, 'b, 'st, 'v) warp \<Rightarrow> 'v ret \<times> ('c, 's, 'b, 'st, 'v) warp" where
  "get_stale E flight late ctx clk k r v w =
     (let g = regs_heap w ! r
      in if SoftTimeout (ttlOpts g) > 0 \<and> late
         then ((Some (Data v), None), hit_inc (w\<lparr>tasks := tasks w @ [RefreshTask k r (currentTTL g)]\<rparr>))
         else case shared_fetch E flight background clk k w of
                (Inl e, w1) \<Rightarrow>
                  if e \<noteq> ErrNotFound then ((Some (Data v), None), hit_inc w1)
                  else ((Some (Data v), Some ErrNotFound), w1)
              | (Inr mv, w1) \<Rightarrow>
                  ((Some (Data mv), None), hit_inc (refill E ctx (tick 4 clk) k r (currentTTL g) mv w1)))"

definition get_hit ::
    "('c, 's, 'b, 'bt, 'st, 'v) env \<Rightarrow> (go_error + 'v mval) option \<Rightarrow> bool \<Rightarrow> ctx \<Rightarrow> clock \<Rightarrow> key \<Rightarrow> reg_id \<Rightarrow> 'v mval
     \<Rightarrow> ('c, 's, 'b, 'st, 'v) warp \<Rightarrow> 'v ret \<times> ('c, 's, 'b, 'st, 'v) warp" where
  "get_hit E flight late ctx clk k r v w =
     (let g = regs_heap w ! r
      in if plain_hit g w then ((Some (Data v), None), hit_inc w)
         else
           let now = clk 0;
               w1 = strat_Record E (tick 1 clk) k g w
           in if is_stale g (Timestamp v) now \<and> w_store w1 \<noteq> None
              then get_stale E flight late ctx (tick 2 clk) k r v w1
              else
                let w2 = slide E ctx (tick 2 clk) k r v now w1;
                    g2 = regs_heap w2 ! r;
                    w3 = (if EagerRefreshThreshold (ttlOpts g2) > 0 \<and> w_store w2 \<noteq> None \<and>
                             eager_due g2 (Timestamp v) now
                          then w2\<lparr>tasks := tasks w2 @ [EagerTask k r (currentTTL g2)]\<rparr> else w2)
                in ((Some (Data v), None), hit_inc w3))"

definition get_miss ::
    "('c, 's, 'b, 'bt, 'st, 'v) env \<Rightarrow> (go_error + 'v mval) option \<Rightarrow> ctx \<Rightarrow> clock \<Rightarrow> key \<Rightarrow> reg_id
     \<Rightarrow> ('c, 's, 'b, 'st, 'v) warp \<Rightarrow> 'v ret \<times> ('c, 's, 'b, 'st, 'v) warp" where
  "get_miss E flight ctx clk k r w =
     (if w_store w = None then ((None, Some ErrNotFound), w)
      else case shared_fetch E flight ctx clk k w of
             (Inl e, w1) \<Rightarrow> ((None, Some e), w1)
           | (Inr mv, w1) \<Rightarrow>
               ((Some (Data mv), None), refill E ctx (tick 4 clk) k r (rttl (regs_heap w1 ! r)) mv w1))"

definition warp_Get ::
    "('c, 's, 'b, 'bt, 'st, 'v) env \<Rightarrow> (go_error + 'v mval) option \<Rightarrow> bool \<Rightarrow> ctx \<Rightarrow> clock \<Rightarrow> key
     \<Rightarrow> ('c, 's, 'b, 'st, 'v) warp \<Rightarrow> 'v ret \<times> ('c, 's, 'b, 'st, 'v) warp" where
  "warp_Get E flight late ctx clk k w =
     (case getReg k w of
        None \<Rightarrow> ((None, Some ErrUnregistered), w)
      | Some r \<Rightarrow>
          (case cache_Get E ctx clk k w of
             (Inr (Some v), w1) \<Rightarrow> get_hit E flight late ctx (tick 3 clk) k r v w1
           | (_, w1) \<Rightarrow> get_miss E flight ctx (tick 3 clk) k r (miss_inc w1)))"

section \<open>Background tasks\<close>

text \<open>The goroutine left behind by a soft timeout, once the fetch has a result; in \<^verbatim>\<open>Get\<close>
  the fetch is from the store, in \<^verbatim>\<open>GetOrSet\<close> it is the loader.\<close>

definition late_refill where
  "late_refill E clk k r d mv w =
     (let g = regs_heap w ! r; (ttl, w1) = strat_TTL E clk k g d w
      in snd (cache_Set E background (tick 1 clk) k mv (effective_ttl g ttl) w1))"

definition refresh_task where
  "refresh_task E flight clk k r d w =
     (case shared_fetch E flight background clk k w of
        (Inl e, w1) \<Rightarrow> w1
      | (Inr mv, w1) \<Rightarrow> late_refill E (tick 4 clk) k r d mv w1)"

definition load :: "(clock \<Rightarrow> go_error + 'v) \<Rightarrow> clock \<Rightarrow> go_error + 'v mval" where
  "load loader clk = (case loader clk of Inl e \<Rightarrow> Inl e | Inr d \<Rightarrow> Inr (fresh_value d (clk 3)))"

definition load_task where
  "load_task E flight clk k r d loader w =
     (case (case flight of Some res \<Rightarrow> res | None \<Rightarrow> load loader clk) of
        Inl e \<Rightarrow> w
      | Inr mv \<Rightarrow> late_refill E (tick 4 clk) k r d mv w)"

text \<open>The eager refresh: a fetch, under the soft timeout if one is set.\<close>

definition eager_task where
  "eager_task E flight clk k r d w =
     (let st = SoftTimeout (ttlOpts (regs_heap w ! r));
          fetchCtx = (if st > 0 then with_timeout background (clk 0) st else background)
      in case shared_fetch E flight fetchCtx (tick 1 clk) k w of
           (Inl e, w1) \<Rightarrow> w1
         | (Inr mv, w1) \<Rightarrow> refill E background (tick 5 clk) k r d mv w1)"

fun run_task ::
    "('c, 's, 'b, 'bt, 'st, 'v) env \<Rightarrow> (go_error + 'v mval) option \<Rightarrow> clock \<Rightarrow> 'v task \<Rightarrow> ('c, 's, 'b, 'st, 'v) warp
     \<Rightarrow> ('c, 's, 'b, 'st, 'v) warp" where
  "run_task E flight clk (RefreshTask k r d) w = refresh_task E flight clk k r d w"
| "run_task E flight clk (LoadTask k r d loader) w = load_task E flight clk k r d loader w"
| "run_task E flight clk (EagerTask k r d) w = eager_task E flight clk k r d w"
| "run_task E flight clk (PublishTask k t) w = publish_task E clk k t w"
| "run_task E flight clk (ListenTask k) w = listen_start E clk k w"

section \<open>Set\<close>

definition store_Set ::
    "('c, 's, 'b, 'bt, 'st, 'v) env \<Rightarrow> ctx \<Rightarrow> clock \<Rightarrow> key \<Rightarrow> 'v \<Rightarrow> ('c, 's, 'b, 'st, 'v) warp
     \<Rightarrow> go_error option \<times> ('c, 's, 'b, 'st, 'v) warp" where
  "store_Set E ctx clk k v w =
     (case w_store w of
        None \<Rightarrow> (None, w)
      | Some s \<Rightarrow> (case stSet (sops E) ctx clk k v s of (e, s1) \<Rightarrow> (e, w\<lparr>w_store := Some s1\<rparr>)))"

text \<open>The closure \<^verbatim>\<open>applyLocal\<close> of \<^verbatim>\<open>Set\<close>: cache, then store, then registration.\<close>

definition set_local ::
    "('c, 's, 'b, 'bt, 'st, 'v) env \<Rightarrow> ctx \<Rightarrow> clock \<Rightarrow> key \<Rightarrow> reg_id \<Rightarrow> 'v mval \<Rightarrow> duration \<Rightarrow> time
     \<Rightarrow> ('c, 's, 'b, 'st, 'v) warp \<Rightarrow> go_error option \<times> ('c, 's, 'b, 'st, 'v) warp" where
  "set_local E ctx clk k r v ttl now w =
     (case cache_Set E ctx clk k v (effective_ttl (regs_heap w ! r) ttl) w of
        (Some e, w1) \<Rightarrow> (Some e, w1)
      | (None, w1) \<Rightarrow>
          (case store_Set E ctx (tick 3 clk) k (Data v) w1 of
             (Some e, w2) \<Rightarrow> (Some e, w2)
           | (None, w2) \<Rightarrow> (None, reg_touch r ttl now w2)))"

text \<open>\<^verbatim>\<open>w.bus.PublishAndAwait\<close> with the quorum of the key.\<close>

definition publish_await ::
    "('c, 's, 'b, 'bt, 'st, 'v) env \<Rightarrow> ctx \<Rightarrow> clock \<Rightarrow> key \<Rightarrow> reg_id \<Rightarrow> 'b \<Rightarrow> ('c, 's, 'b, 'st, 'v) warp
     \<Rightarrow> go_error option \<times> ('c, 's, 'b, 'st, 'v) warp" where
  "publish_await E ctx clk k r b w =
     (case bPublishAndAwait (bops E) ctx clk k (quorumSize r w) [] b of
        (e, b1) \<Rightarrow> (e, w\<lparr>w_bus := Some b1\<rparr>))"

text \<open>The switch on the mode, shared by \<^verbatim>\<open>Set\<close> and \<^verbatim>\<open>Invalidate\<close>: \<open>applyL\<close> is the local update.\<close>

definition by_mode ::
    "('c, 's, 'b, 'bt, 'st, 'v) env \<Rightarrow> ctx \<Rightarrow> clock \<Rightarrow> key \<Rightarrow> reg_id
     \<Rightarrow> (clock \<Rightarrow> ('c, 's, 'b, 'st, 'v) warp \<Rightarrow> go_error option \<times> ('c, 's, 'b, 'st, 'v) warp)
     \<Rightarrow> ('c, 's, 'b, 'st, 'v) warp \<Rightarrow> go_error option \<times> ('c, 's, 'b, 'st, 'v) warp" where
  "by_mode E ctx clk k r applyL w =
     (case rmode (regs_heap w ! r) of
        ModeEventualDistributed \<Rightarrow>
          (case applyL clk w of
             (Some e, w1) \<Rightarrow> (Some e, w1)
           | (None, w1) \<Rightarrow>
               (case w_bus w1 of
                  None \<Rightarrow> (None, w1)
                | Some b \<Rightarrow> if bus_healthy E b then (None, spawn_publish k w1) else (None, w1)))
      | ModeStrongDistributed \<Rightarrow>
          (case w_bus w of
             None \<Rightarrow> (Some ErrBusRequired, w)
           | Some b \<Rightarrow>
               if \<not> bus_healthy E b then applyL clk w
               else case publish_await E ctx clk k r b w of
                      (Some e, w1) \<Rightarrow> (Some e, w1)
                    | (None, w1) \<Rightarrow> applyL (tick 8 clk) w1)
      | ModeStrongLocal \<Rightarrow> applyL clk w)"

text \<open>The value \<^verbatim>\<open>Set\<close> will write: merged with the cached one, or with the stored one when the
  key has a merge function of its own.\<close>

definition merge_new ::
    "('c, 's, 'b, 'bt, 'st, 'v) env \<Rightarrow> ctx \<Rightarrow> clock \<Rightarrow> key \<Rightarrow> 'v mval \<Rightarrow> 'v mval option \<Rightarrow> ('c, 's, 'b, 'st, 'v) warp
     \<Rightarrow> (go_error + 'v mval) \<times> ('c, 's, 'b, 'st, 'v) warp" where
  "merge_new E ctx clk k newVal old w =
     (let merge = (\<lambda>o1. case engine_Merge (merges w) k o1 newVal of Inl e \<Rightarrow> newVal | Inr m \<Rightarrow> m)
      in case old of
           Some o1 \<Rightarrow> (Inr (merge o1), w)
         | None \<Rightarrow>
             (case w_store w of
                None \<Rightarrow> (Inr newVal, w)
              | Some s \<Rightarrow>
                  if \<not> HasCustom (merges w) k then (Inr newVal, w)
                  else case stGet (sops E) ctx clk k s of
                         (Inl e, s1) \<Rightarrow> (Inl e, w\<lparr>w_store := Some s1\<rparr>)
                       | (Inr None, s1) \<Rightarrow> (Inr newVal, w\<lparr>w_store := Some s1\<rparr>)
                       | (Inr (Some d), s1) \<Rightarrow> (Inr (merge (fresh_value d 0)), w\<lparr>w_store := Some s1\<rparr>)))"

definition warp_Set ::
    "('c, 's, 'b, 'bt, 'st, 'v) env \<Rightarrow> ctx \<Rightarrow> clock \<Rightarrow> key \<Rightarrow> 'v \<Rightarrow> ('c, 's, 'b, 'st, 'v) warp
     \<Rightarrow> go_error option \<times> ('c, 's, 'b, 'st, 'v) warp" where
  "warp_Set E ctx clk k value w =
     (case getReg k w of
        None \<Rightarrow> (Some ErrUnregistered, w)
      | Some r \<Rightarrow>
          (let g = regs_heap w ! r;
               w1 = strat_Record E clk k g w;
               now = clk 1
           in case cache_Get E ctx (tick 2 clk) k w1 of
                (Inl e, w2) \<Rightarrow> (Some e, w2)
              | (Inr old, w2) \<Rightarrow>
                  (case merge_new E ctx (tick 5 clk) k (fresh_value value now) old w2 of
                     (Inl e, w3) \<Rightarrow> (Some e, w3)
                   | (Inr newVal, w3) \<Rightarrow>
                       (let (ttl, w4) = strat_TTL E (tick 8 clk) k g (rttl g) w3
                        in by_mode E ctx (tick 9 clk) k r
                             (\<lambda>clk w. set_local E ctx clk k r newVal ttl now w) w4))))"

section \<open>GetOrSet\<close>

definition default_registration :: registration where
  "default_registration = \<lparr>rttl = 300000000000, ttlStrategy = None, ttlOpts = zero_ttl_options,
     rmode = ModeStrongLocal, currentTTL = 300000000000, lastAccess = 0, quorum = 1\<rparr>"

text \<open>The registration of a key, made with default settings if it has none.\<close>

definition ensure_reg :: "key \<Rightarrow> ('c, 's, 'b, 'st, 'v) warp \<Rightarrow> reg_id \<times> ('c, 's, 'b, 'st, 'v) warp" where
  "ensure_reg k w =
     (case getReg k w of
        Some r \<Rightarrow> (r, w)
      | None \<Rightarrow> (length (regs_heap w), add_reg k default_registration w))"

definition gos_stale ::
    "('c, 's, 'b, 'bt, 'st, 'v) env \<Rightarrow> (go_error + 'v mval) option \<Rightarrow> bool \<Rightarrow> ctx \<Rightarrow> clock \<Rightarrow> key \<Rightarrow> reg_id \<Rightarrow> 'v mval
     \<Rightarrow> (clock \<Rightarrow> go_error + 'v) \<Rightarrow> ('c, 's, 'b, 'st, 'v) warp \<Rightarrow> 'v ret \<times> ('c, 's, 'b, 'st, 'v) warp" where
  "gos_stale E flight late ctx clk k r v loader w =
     (let g = regs_heap w ! r
      in if SoftTimeout (ttlOpts g) > 0 \<and> late
         then ((Some (Data v), None), hit_inc (w\<lparr>tasks := tasks w @ [LoadTask k r (currentTTL g) loader]\<rparr>))
         else case (case flight of Some res \<Rightarrow> res | None \<Rightarrow> load loader clk) of
                Inl e \<Rightarrow> ((Some (Data v), None), hit_inc w)
              | Inr mv \<Rightarrow> ((Some (Data mv), None), hit_inc (refill E ctx (tick 4 clk) k r (currentTTL g) mv w)))"

text \<open>The function run by singleflight on a miss: look again, load, register the access, set.\<close>

definition gos_load ::
    "('c, 's, 'b, 'bt, 'st, 'v) env \<Rightarrow> ctx \<Rightarrow> clock \<Rightarrow> key \<Rightarrow> reg_id \<Rightarrow> (clock \<Rightarrow> go_error + 'v)
     \<Rightarrow> ('c, 's, 'b, 'st, 'v) warp \<Rightarrow> (go_error + 'v mval) \<times> ('c, 's, 'b, 'st, 'v) warp" where
  "gos_load E ctx clk k r loader w =
     (case cache_Get E ctx clk k w of
        (Inl e, w1) \<Rightarrow> (Inl e, w1)
      | (Inr (Some v), w1) \<Rightarrow> (Inr v, w1)
      | (Inr None, w1) \<Rightarrow>
          (case load loader (tick 3 clk) of
             Inl e \<Rightarrow> (Inl e, w1)
           | Inr mv \<Rightarrow>
               (let g = regs_heap w1 ! r;
                    (ttl, w2) = strat_TTL E (tick 7 clk) k g (rttl g) w1;
                    w3 = reg_touch r ttl (Timestamp mv) w2
                in (Inr mv, snd (warp_Set E ctx (tick 8 clk) k (Data mv) w3)))))"

definition GetOrSet ::
    "('c, 's, 'b, 'bt, 'st, 'v) env \<Rightarrow> (go_error + 'v mval) option \<Rightarrow> bool \<Rightarrow> ctx \<Rightarrow> clock \<Rightarrow> key
     \<Rightarrow> (ctx \<Rightarrow> clock \<Rightarrow> go_error + 'v) \<Rightarrow> ('c, 's, 'b, 'st, 'v) warp \<Rightarrow> 'v ret \<times> ('c, 's, 'b, 'st, 'v) warp" where
  "GetOrSet E flight late ctx clk k loader w =
     (let (r, w0) = ensure_reg k w;
          w1 = strat_Record E clk k (regs_heap w0 ! r) w0
      in case cache_Get E ctx (tick 1 clk) k w1 of
           (Inl e, w2) \<Rightarrow> ((None, Some e), w2)
         | (Inr (Some v), w2) \<Rightarrow>
             (let now = clk 4
              in if is_stale (regs_heap w2 ! r) (Timestamp v) now
                 then gos_stale E flight late ctx (tick 5 clk) k r v (loader ctx) w2
                 else ((Some (Data v), None), hit_inc (slide E ctx (tick 5 clk) k r v now w2)))
         | (Inr None, w2) \<Rightarrow>
             (case (case flight of
                      Some res \<Rightarrow> (res, miss_inc w2)
                    | None \<Rightarrow> gos_load E ctx (tick 4 clk) k r (loader ctx) (miss_inc w2)) of
                (Inl e, w3) \<Rightarrow> ((None, Some e), w3)
              | (Inr mv, w3) \<Rightarrow> ((Some (Data mv), None), w3)))"

section \<open>GetAt\<close>

definition GetAt ::
    "('c, 's, 'b, 'bt, 'st, 'v) env \<Rightarrow> ctx \<Rightarrow> clock \<Rightarrow> key \<Rightarrow> time \<Rightarrow> ('c, 's, 'b, 'st, 'v) warp
     \<Rightarrow> 'v ret \<times> ('c, 's, 'b, 'st, 'v) warp" where
  "GetAt E ctx clk k ts w =
     (case getReg k w of
        None \<Rightarrow> ((None, Some ErrUnregistered), w)
      | Some r \<Rightarrow>
          (let w1 = strat_Record E clk k (regs_heap w ! r) w
           in case (if resilient w1 then None else vgetat E) of
                None \<Rightarrow> ((None, Some ErrNotFound), w1)
              | Some f \<Rightarrow>
                  (case f ctx (tick 1 clk) k ts (w_cache w1) of
                     (Inl e, c) \<Rightarrow> ((None, Some e), w1\<lparr>w_cache := c\<rparr>)
                   | (Inr (Some v), c) \<Rightarrow> ((Some (Data v), None), hit_inc (w1\<lparr>w_cache := c\<rparr>))
                   | (Inr None, c) \<Rightarrow> ((None, Some ErrNotFound), miss_inc (w1\<lparr>w_cache := c\<rparr>)))))"

section \<open>Invalidate\<close>

definition invalidate_local where
  "invalidate_local E ctx clk k w =
     (case cache_Invalidate E ctx clk k w of
        (Some e, w1) \<Rightarrow> (Some e, w1)
      | (None, w1) \<Rightarrow> (None, w1\<lparr>w_evictionCounter := map_option Suc (w_evictionCounter w1)\<rparr>))"

definition warp_Invalidate ::
    "('c, 's, 'b, 'bt, 'st, 'v) env \<Rightarrow> ctx \<Rightarrow> clock \<Rightarrow> key \<Rightarrow> ('c, 's, 'b, 'st, 'v) warp
     \<Rightarrow> go_error option \<times> ('c, 's, 'b, 'st, 'v) warp" where
  "warp_Invalidate E ctx clk k w =
     (case getReg k w of
        None \<Rightarrow> (Some ErrUnregistered, w)
      | Some r \<Rightarrow> by_mode E ctx clk k r (\<lambda>clk w. invalidate_local E ctx clk k w) w)"

definition InvalidateLocal where
  "InvalidateLocal E ctx clk k w = cache_Invalidate E ctx clk k w"

definition warp_Merge :: "key \<Rightarrow> 'v mergefn \<Rightarrow> ('c, 's, 'b, 'st, 'v) warp \<Rightarrow> ('c, 's, 'b, 'st, 'v) warp" where
  "warp_Merge k fn w = w\<lparr>merges := engine_Register (merges w) k fn\<rparr>"

section \<open>Warmup\<close>

text \<open>The registered keys, shard by shard.\<close>

definition all_keys :: "('c, 's, 'b, 'st, 'v) warp \<Rightarrow> key list" where
  "all_keys w = concat (map (\<lambda>i. gm_keys (shards w i)) [0..<regShardCount])"

text \<open>
  The workers: each fetches one key under the group context \<open>gctx\<close> and sends the
  value found to the buffered result channel. \<open>ks\<close> is the order in which they end;
  a worker that finds the group context done before it starts, or after the fetch
  when \<open>skip\<close> chooses that case of its select, sends nothing. The result is what the
  channel holds.
\<close>

fun warmup_fetch ::
    "('c, 's, 'b, 'bt, 'st, 'v) env \<Rightarrow> ctx \<Rightarrow> (key \<Rightarrow> bool) \<Rightarrow> clock \<Rightarrow> key list \<Rightarrow> ('c, 's, 'b, 'st, 'v) warp
     \<Rightarrow> (key \<times> 'v) list \<times> ('c, 's, 'b, 'st, 'v) warp" where
  "warmup_fetch E gctx skip clk [] w = ([], w)"
| "warmup_fetch E gctx skip clk (k # ks) w =
     (case w_store w of
        None \<Rightarrow> ([], w)
      | Some s \<Rightarrow>
          if gctx (clk 0) \<noteq> None \<and> skip k then warmup_fetch E gctx skip (tick 5 clk) ks w
          else
            let (res, s1) = stGet (sops E) gctx (tick 1 clk) k s;
                (rs, w1) = warmup_fetch E gctx skip (tick 5 clk) ks (w\<lparr>w_store := Some s1\<rparr>)
            in case res of
                 Inr (Some v) \<Rightarrow> if gctx (clk 4) \<noteq> None \<and> skip k then (rs, w1) else ((k, v) # rs, w1)
               | _ \<Rightarrow> (rs, w1))"

text \<open>The consumer: it stops at the first result received after the group context is done.
  A key unregistered since the keys were collected makes the code dereference a nil
  registration; the model stops there.\<close>

fun warmup_load ::
    "('c, 's, 'b, 'bt, 'st, 'v) env \<Rightarrow> ctx \<Rightarrow> ctx \<Rightarrow> clock \<Rightarrow> (key \<times> 'v) list \<Rightarrow> ('c, 's, 'b, 'st, 'v) warp
     \<Rightarrow> ('c, 's, 'b, 'st, 'v) warp" where
  "warmup_load E gctx ctx clk [] w = w"
| "warmup_load E gctx ctx clk ((k, v) # rs) w =
     (if gctx (clk 0) \<noteq> None then w
      else case getReg k w of
             None \<Rightarrow> w
           | Some r \<Rightarrow>
               (let now = clk 1;
                    g = regs_heap w ! r;
                    (ttl, w1) = strat_TTL E (tick 2 clk) k g (rttl g) w;
                    w2 = reg_touch r ttl now w1;
                    w3 = snd (cache_Set E ctx (tick 3 clk) k (fresh_value v now) (effective_ttl g ttl) w2)
                in warmup_load E gctx ctx (tick 6 clk) rs w3))"

definition Warmup ::
    "('c, 's, 'b, 'bt, 'st, 'v) env \<Rightarrow> ctx \<Rightarrow> (key \<Rightarrow> bool) \<Rightarrow> key list \<Rightarrow> ctx \<Rightarrow> clock \<Rightarrow> clock \<Rightarrow> ('c, 's, 'b, 'st, 'v) warp
     \<Rightarrow> ('c, 's, 'b, 'st, 'v) warp" where
  "Warmup E gctx skip ks ctx fclk clk w =
     (case w_store w of
        None \<Rightarrow> w
      | Some _ \<Rightarrow>
          (let (rs, w1) = warmup_fetch E gctx skip fclk ks w in warmup_load E gctx ctx clk rs w1))"

section \<open>The validator's view of the cache\<close>

definition vc_Get ::
    "('c, 's, 'b, 'bt, 'st, 'v) env \<Rightarrow> ctx \<Rightarrow> clock \<Rightarrow> key \<Rightarrow> ('c, 's, 'b, 'st, 'v) warp
     \<Rightarrow> (go_error + 'v option) \<times> ('c, 's, 'b, 'st, 'v) warp" where
  "vc_Get E ctx clk k w =
     (case cache_Get E ctx clk k w of
        (Inl e, w1) \<Rightarrow> (Inl e, w1)
      | (Inr (Some v), w1) \<Rightarrow> (Inr (Some (Data v)), w1)
      | (Inr None, w1) \<Rightarrow> (Inr None, w1))"

definition vc_Set ::
    "('c, 's, 'b, 'bt, 'st, 'v) env \<Rightarrow> ctx \<Rightarrow> clock \<Rightarrow> key \<Rightarrow> 'v \<Rightarrow> duration \<Rightarrow> ('c, 's, 'b, 'st, 'v) warp
     \<Rightarrow> go_error option \<times> ('c, 's, 'b, 'st, 'v) warp" where
  "vc_Set E ctx clk k value d w =
     (let now = clk 0; mv = fresh_value value now
      in case getReg k w of
           None \<Rightarrow> cache_Set E ctx (tick 1 clk) k mv 0 w
         | Some r \<Rightarrow>
             (let g = regs_heap w ! r;
                  w1 = strat_Record E (tick 1 clk) k g w;
                  (ttl, w2) = strat_TTL E (tick 2 clk) k g (rttl g) w1;
                  w3 = reg_touch r ttl now w2
              in cache_Set E ctx (tick 3 clk) k mv ttl w3))"

definition vc_Invalidate where
  "vc_Invalidate E ctx clk k w = cache_Invalidate E ctx clk k w"

definition validator_cache ::
    "('c, 's, 'b, 'bt, 'st, 'v) env \<Rightarrow> (('c, 's, 'b, 'st, 'v) warp, 'v) cache_ops" where
  "validator_cache E = \<lparr>cGet = vc_Get E, cSet = vc_Set E, cInvalidate = vc_Invalidate E\<rparr>"

section \<open>An in-memory deployment\<close>

text \<open>The method tables of a warp over the in-memory cache, store and bus, with sliding-window
  strategies.\<close>

definition lru_env ::
    "('v mval \<Rightarrow> int) \<Rightarrow> ('sm, 'im) bus_lib \<Rightarrow> (nat \<Rightarrow> bool)
     \<Rightarrow> ('v mval lru, 'v mem_store, ('sm, 'im) mem_bus, 'v batch, sliding_window, 'v) env" where
  "lru_env est lib pick =
     \<lparr>cops = lru_ops est, vgetat = None, sops = mem_ops, bops = membus_ops lib pick, stops = sw_ops\<rparr>"

text \<open>A concrete one, with integer values, for the examples of the properties.\<close>

definition local_env where
  "local_env = lru_env (\<lambda>_ :: int mval. 1) map_lib (\<lambda>_. True)"

definition local_warp where
  "local_warp = warp_New (NewInMemory []) (Some NewInMemoryStore) (Some (NewInMemoryBus map_lib)) (None :: int engine option)
     (\<lambda>_. NewSlidingWindow 10 2 5 50 False) []"

end
