(* ===== verification/Warp_Registry.thy ===== *)
theory Warp_Registry
  imports Warp_Core
begin

text \<open>
  The sharded registry of package core refines one map from keys to registrations:
  hashing, sharding and the sharing of registration objects are invisible. The
  invariant \<open>reg_wf\<close> says that every key is in the shard its hash selects and that
  no two keys share a registration object.
\<close>

definition reg_wf :: "('c, 's, 'b, 'st, 'v) warp \<Rightarrow> bool" where
  "reg_wf w \<longleftrightarrow>
     (\<forall>i. gm_ok (shards w i)) \<and>
     (\<forall>i k. k \<in> set (gm_keys (shards w i)) \<longrightarrow> shard_of k = i) \<and>
     (\<forall>k r. getReg k w = Some r \<longrightarrow> r < length (regs_heap w)) \<and>
     (\<forall>k k' r. getReg k w = Some r \<longrightarrow> getReg k' w = Some r \<longrightarrow> k = k')"

definition regs_of :: "('c, 's, 'b, 'st, 'v) warp \<Rightarrow> key \<Rightarrow> registration option" where
  "regs_of w k = map_option (\<lambda>r. regs_heap w ! r) (getReg k w)"

lemma shard_of_less [simp]: "shard_of k < regShardCount"
  by (simp add: shard_of_def regShardCount_def)

lemma getReg_frame [simp]:
  "getReg k (w\<lparr>w_cache := c\<rparr>) = getReg k w" "getReg k (w\<lparr>w_store := s\<rparr>) = getReg k w"
  "getReg k (w\<lparr>w_bus := b\<rparr>) = getReg k w" "getReg k (w\<lparr>tasks := t\<rparr>) = getReg k w"
  "getReg k (w\<lparr>strats := st\<rparr>) = getReg k w" "getReg k (w\<lparr>regs_heap := h\<rparr>) = getReg k w"
  "getReg k (w\<lparr>hitCounter := n\<rparr>) = getReg k w" "getReg k (w\<lparr>missCounter := n\<rparr>) = getReg k w"
  "getReg k (w\<lparr>w_evictionCounter := n\<rparr>) = getReg k w" "getReg k (w\<lparr>listeners := l\<rparr>) = getReg k w"
  "getReg k (w\<lparr>publishErrCh := p\<rparr>) = getReg k w" "getReg k (w\<lparr>merges := m\<rparr>) = getReg k w"
  by (simp_all add: getReg_def)

lemma getReg_add_reg: "getReg k' (add_reg k g w) = (if k' = k then Some (length (regs_heap w)) else getReg k' w)"
  by (auto simp: getReg_def add_reg_def)

lemma getReg_Unregister: "getReg k' (Unregister k w) = (if k' = k then None else getReg k' w)"
  by (auto simp: getReg_def Unregister_def)

lemma getReg_reg_upd [simp]: "getReg k (reg_upd r f w) = getReg k w"
  by (simp add: reg_upd_def)

lemma heap_simps [simp]:
  "regs_heap (add_reg k g w) = regs_heap w @ [g]" "regs_heap (Unregister k w) = regs_heap w"
  "length (regs_heap (reg_upd r f w)) = length (regs_heap w)"
  by (simp_all add: add_reg_def Unregister_def reg_upd_def)

lemma reg_wf_add_reg:
  assumes "reg_wf w" shows "reg_wf (add_reg k g w)"
proof -
  have "getReg k' w = Some r \<Longrightarrow> r \<noteq> length (regs_heap w)" for k' r
    using assms by (fastforce simp: reg_wf_def)
  moreover have "gm_ok (shards (add_reg k g w) i)" for i using assms by (simp add: reg_wf_def add_reg_def)
  moreover have "k' \<in> set (gm_keys (shards (add_reg k g w) i)) \<Longrightarrow> shard_of k' = i" for i k'
    using assms by (auto simp: reg_wf_def add_reg_def gm_keys_put simp del: set_map split: if_splits)
  ultimately show ?thesis
    using assms unfolding reg_wf_def getReg_add_reg heap_simps by (auto simp: less_Suc_eq split: if_splits)
qed

lemma reg_wf_Unregister:
  assumes "reg_wf w" shows "reg_wf (Unregister k w)"
proof -
  have "gm_ok (shards (Unregister k w) i)" for i using assms by (simp add: reg_wf_def Unregister_def)
  moreover have "k' \<in> set (gm_keys (shards (Unregister k w) i)) \<Longrightarrow> shard_of k' = i" for i k'
    using assms by (auto simp: reg_wf_def Unregister_def gm_keys_del simp del: set_map split: if_splits)
  ultimately show ?thesis
    using assms unfolding reg_wf_def getReg_Unregister heap_simps by (auto split: if_splits)
qed

lemma reg_wf_reg_upd: "reg_wf w \<Longrightarrow> reg_wf (reg_upd r f w)"
  by (simp add: reg_wf_def) (simp add: reg_upd_def)

lemma regs_of_add_reg:
  assumes "reg_wf w" shows "regs_of (add_reg k g w) = (regs_of w)(k \<mapsto> g)"
proof
  fix k'
  have "getReg k' w = Some r \<Longrightarrow> r < length (regs_heap w)" for r using assms by (simp add: reg_wf_def)
  then show "regs_of (add_reg k g w) k' = ((regs_of w)(k \<mapsto> g)) k'"
    by (cases "getReg k' w") (simp_all add: regs_of_def getReg_add_reg nth_append)
qed

lemma regs_of_Unregister: "regs_of (Unregister k w) = (regs_of w)(k := None)"
  by (auto simp: regs_of_def getReg_Unregister fun_eq_iff)

lemma regs_of_reg_upd:
  assumes "reg_wf w" and "getReg k w = Some r"
  shows "regs_of (reg_upd r f w) = (regs_of w)(k \<mapsto> f (regs_heap w ! r))"
proof
  fix k'
  have r: "r < length (regs_heap w)" using assms by (simp add: reg_wf_def)
  show "regs_of (reg_upd r f w) k' = ((regs_of w)(k \<mapsto> f (regs_heap w ! r))) k'"
  proof (cases "k' = k")
    case True
    with assms(2) r show ?thesis by (simp add: regs_of_def) (simp add: reg_upd_def)
  next
    case False
    then have "getReg k' w \<noteq> Some r" using assms by (auto simp: reg_wf_def)
    with False show ?thesis by (cases "getReg k' w") (simp_all add: regs_of_def, simp add: reg_upd_def)
  qed
qed

section \<open>The flat specification\<close>

datatype reg_op =
    OpRegister key mode duration "ttl_option list"
  | OpRegisterDynamic key mode strat_id "ttl_option list"
  | OpUnregister key
  | OpSetQuorum key int

fun reg_exec :: "('c, 's, 'b, 'st, 'v) warp \<Rightarrow> reg_op \<Rightarrow> bool \<times> ('c, 's, 'b, 'st, 'v) warp" where
  "reg_exec w (OpRegister k m ttl opts) = Register k m ttl opts w"
| "reg_exec w (OpRegisterDynamic k m st opts) = RegisterDynamicTTL k m st opts w"
| "reg_exec w (OpUnregister k) = (True, Unregister k w)"
| "reg_exec w (OpSetQuorum k n) = SetQuorum k n w"

fun reg_spec :: "(key \<Rightarrow> registration option) \<Rightarrow> reg_op \<Rightarrow> bool \<times> (key \<Rightarrow> registration option)" where
  "reg_spec m (OpRegister k md ttl opts) =
     (if m k \<noteq> None then (False, m)
      else (True, m(k \<mapsto> \<lparr>rttl = ttl, ttlStrategy = None, ttlOpts = ttl_opts opts, rmode = md,
                          currentTTL = ttl, lastAccess = 0, quorum = 1\<rparr>)))"
| "reg_spec m (OpRegisterDynamic k md st opts) =
     (if m k \<noteq> None then (False, m)
      else (True, m(k \<mapsto> \<lparr>rttl = 0, ttlStrategy = Some st, ttlOpts = ttl_opts opts, rmode = md,
                          currentTTL = 0, lastAccess = 0, quorum = 1\<rparr>)))"
| "reg_spec m (OpUnregister k) = (True, m(k := None))"
| "reg_spec m (OpSetQuorum k n) =
     (case m k of None \<Rightarrow> (False, m) | Some g \<Rightarrow> (True, m(k \<mapsto> g\<lparr>quorum := max 1 n\<rparr>)))"

lemma regs_of_None [simp]: "regs_of w k = None \<longleftrightarrow> getReg k w = None"
  by (simp add: regs_of_def)

lemma reg_wf_tasks [simp]: "reg_wf (w\<lparr>tasks := t\<rparr>) = reg_wf w" "regs_of (w\<lparr>tasks := t\<rparr>) = regs_of w"
  by (simp_all add: reg_wf_def regs_of_def fun_eq_iff)

lemma reg_exec_refines:
  assumes "reg_wf w"
  shows "fst (reg_exec w op) = fst (reg_spec (regs_of w) op)"
    and "regs_of (snd (reg_exec w op)) = snd (reg_spec (regs_of w) op)"
    and "reg_wf (snd (reg_exec w op))"
proof -
  have "fst (reg_exec w op) = fst (reg_spec (regs_of w) op) \<and>
    regs_of (snd (reg_exec w op)) = snd (reg_spec (regs_of w) op) \<and> reg_wf (snd (reg_exec w op))"
  proof (cases op)
    case (OpRegister k m ttl opts)
    with assms show ?thesis
      by (cases "getReg k w") (auto simp: Register_def Let_def regs_of_add_reg reg_wf_add_reg)
  next
    case (OpRegisterDynamic k m st opts)
    with assms show ?thesis
      by (cases "getReg k w") (auto simp: RegisterDynamicTTL_def regs_of_add_reg reg_wf_add_reg)
  next
    case (OpUnregister k)
    with assms show ?thesis by (simp add: regs_of_Unregister reg_wf_Unregister)
  next
    case (OpSetQuorum k n)
    show ?thesis
    proof (cases "getReg k w")
      case None
      then show ?thesis using assms OpSetQuorum by (simp add: SetQuorum_def regs_of_def)
    next
      case (Some r)
      moreover have "(if n < 1 then 1 else n) = max 1 n" by simp
      ultimately show ?thesis
        using assms OpSetQuorum
        by (simp add: SetQuorum_def regs_of_reg_upd [OF assms Some] reg_wf_reg_upd) (simp add: regs_of_def)
    qed
  qed
  then show "fst (reg_exec w op) = fst (reg_spec (regs_of w) op)"
    and "regs_of (snd (reg_exec w op)) = snd (reg_spec (regs_of w) op)"
    and "reg_wf (snd (reg_exec w op))" by auto
qed

text \<open>The equations by which the examples evaluate operations of the concrete warp.\<close>

lemmas warp_eval = local_env_def lru_env_def local_warp_def warp_New_def NewInMemory_def Register_def add_reg_def getReg_def
  warp_Set_def strat_Record_def strat_TTL_def cache_Get_def cache_Set_def w_cops_def lru_ops_def lru_Get_def lru_Set_def
  merge_new_def NewEngine_def HasCustom_def NewInMemoryStore_def by_mode_def set_local_def effective_ttl_def store_Set_def
  mem_ops_def mem_Set_def mem_Get_def reg_touch_def reg_upd_def store_item_def enforce_entries_def enforce_memory_def
  fresh_value_def ttl_opts_def zero_ttl_options_def dur_add_def wrap64_def time_Add_def time_After_def time_IsZero_def
  expired_def warp_Get_def get_hit_def plain_hit_def hit_inc_def

section \<open>Properties\<close>

fun reg_runs :: "('c, 's, 'b, 'st, 'v) warp \<Rightarrow> reg_op list \<Rightarrow> bool list \<times> ('c, 's, 'b, 'st, 'v) warp" where
  "reg_runs w [] = ([], w)"
| "reg_runs w (op # ops) =
     (let (b, w1) = reg_exec w op; (bs, w2) = reg_runs w1 ops in (b # bs, w2))"

fun spec_runs :: "(key \<Rightarrow> registration option) \<Rightarrow> reg_op list \<Rightarrow> bool list \<times> (key \<Rightarrow> registration option)" where
  "spec_runs m [] = ([], m)"
| "spec_runs m (op # ops) =
     (let (b, m1) = reg_spec m op; (bs, m2) = spec_runs m1 ops in (b # bs, m2))"

lemma reg_runs_refines:
  "reg_wf w \<Longrightarrow> fst (reg_runs w ops) = fst (spec_runs (regs_of w) ops) \<and>
   regs_of (snd (reg_runs w ops)) = snd (spec_runs (regs_of w) ops) \<and> reg_wf (snd (reg_runs w ops))"
proof (induction ops arbitrary: w)
  case (Cons op ops)
  note r = reg_exec_refines [OF Cons.prems, of op]
  obtain b w1 where e: "reg_exec w op = (b, w1)" by (cases "reg_exec w op")
  obtain b' m1 where s: "reg_spec (regs_of w) op = (b', m1)" by (cases "reg_spec (regs_of w) op")
  have "reg_wf w1" "b = b'" "regs_of w1 = m1" using r e s by simp_all
  with Cons.IH [of w1] e s show ?case
    by (cases "reg_runs w1 ops"; cases "spec_runs m1 ops") simp
qed simp

lemma warp_New_empty:
  assumes "\<And>opt w. opt \<in> set opts \<Longrightarrow> shards (opt w) = shards w \<and> regs_heap (opt w) = regs_heap w"
  shows "reg_wf (warp_New c s b m sts opts)" and "regs_of (warp_New c s b m sts opts) = Map.empty"
proof -
  have "shards (fold (\<lambda>opt w. opt w) opts w) = shards w \<and> regs_heap (fold (\<lambda>opt w. opt w) opts w) = regs_heap w" for w
    using assms by (induction opts arbitrary: w) auto
  then have "shards (warp_New c s b m sts opts) = (\<lambda>_. [])" "regs_heap (warp_New c s b m sts opts) = []"
    by (simp_all add: warp_New_def)
  then show "reg_wf (warp_New c s b m sts opts)" "regs_of (warp_New c s b m sts opts) = Map.empty"
    by (auto simp: reg_wf_def regs_of_def getReg_def)
qed

lemma set_all_keys:
  assumes "reg_wf w"
  shows "set (all_keys w) = dom (regs_of w)" and "distinct (all_keys w)"
proof -
  define ks where "ks = (\<lambda>i. gm_keys (shards w i))"
  have all: "all_keys w = concat (map ks [0..<regShardCount])" by (simp add: all_keys_def ks_def)
  have k: "k \<in> set (ks i) \<longleftrightarrow> i = shard_of k \<and> getReg k w \<noteq> None" for i k
    using assms by (auto simp: ks_def reg_wf_def getReg_def gm_get_None_iff simp del: set_map)
  then show "set (all_keys w) = dom (regs_of w)"
    unfolding all by (auto simp: dom_def regs_of_def)
  have "distinct (concat (map ks is))" if "distinct is" for "is"
    using that
  proof (induction "is")
    case (Cons i "is")
    moreover have "set (ks i) \<inter> set (concat (map ks is)) = {}" using Cons.prems k by auto
    moreover have "distinct (ks i)" using assms by (simp add: ks_def reg_wf_def)
    ultimately show ?case by simp
  qed simp
  then show "distinct (all_keys w)" by (simp add: all)
qed

text \<open>
  C25. The sharded registry refines one map: for every sequence of registrations,
  dynamic registrations, removals and quorum settings, the answers and the
  registrations held are those of a flat map, whatever the hash values, and the keys
  collected over all shards are exactly the registered ones, each once.
\<close>

theorem registry_refines_map:
  "let w0 = warp_New c s b m sts [] ; (answers, w) = reg_runs w0 ops
   in (answers, regs_of w) = spec_runs Map.empty ops \<and>
      set (all_keys w) = dom (regs_of w) \<and> distinct (all_keys w)"
proof -
  let ?new = "warp_New c s b m sts []"
  have "reg_wf ?new" "regs_of ?new = Map.empty" by (rule warp_New_empty, simp)+
  with reg_runs_refines [of ?new ops] set_all_keys [of "snd (reg_runs ?new ops)"] show ?thesis
    by (cases "reg_runs ?new ops"; cases "spec_runs Map.empty ops") simp
qed

end
