(* ===== verification/Warp_Lease.thy ===== *)
theory Warp_Lease
  imports Warp_Registry
begin

text \<open>
  Leases (src/core/lease.go). A lease groups keys; revoking it drops them from the
  cache and tells the other nodes over the bus. A lease made by \<^verbatim>\<open>Grant\<close> expires by a
  timer, which a ticker of half the period keeps pushing back.

  The lease table is the field \<open>leases\<close> of a warp. \<^verbatim>\<open>timer\<close> is the instant at which the
  expiration timer fires and \<^verbatim>\<open>ticker\<close> the instant of the next tick with the period;
  the goroutines of a lease are the steps \<open>lease_tick\<close>, \<open>lease_expire\<close> and
  \<open>lease_notice\<close>. The UUID library is the parameter \<open>uuid\<close>, the answer of
  \<^verbatim>\<open>uuid.GenerateUUID()\<close>.
\<close>

text \<open>The subscription to revocations, and the goroutine that waits on it.\<close>

definition lease_subscribe ::
    "('c, 's, 'b, 'bt, 'st, 'v) env \<Rightarrow> ctx \<Rightarrow> clock \<Rightarrow> string \<Rightarrow> lease \<Rightarrow> ('c, 's, 'b, 'st, 'v) warp
     \<Rightarrow> lease \<times> ('c, 's, 'b, 'st, 'v) warp" where
  "lease_subscribe E ctx clk lid l w =
     (case w_bus w of
        None \<Rightarrow> (l, w)
      | Some b \<Rightarrow>
          (case bSubscribeLease (bops E) ctx clk lid b of
             (Inl e, b1) \<Rightarrow> (l, w\<lparr>w_bus := Some b1\<rparr>)
           | (Inr ch, b1) \<Rightarrow> (l\<lparr>lsub := Some ch\<rparr>, w\<lparr>w_bus := Some b1\<rparr>)))"

definition Grant ::
    "('c, 's, 'b, 'bt, 'st, 'v) env \<Rightarrow> go_error + string \<Rightarrow> ctx \<Rightarrow> clock \<Rightarrow> duration \<Rightarrow> ('c, 's, 'b, 'st, 'v) warp
     \<Rightarrow> (go_error + string) \<times> ('c, 's, 'b, 'st, 'v) warp" where
  "Grant E uuid ctx clk ttl w =
     (if ttl \<le> 0 then (Inl ErrInvalidLeaseTTL, w)
      else case uuid of
             Inl e \<Rightarrow> (Inl e, w)
           | Inr lid \<Rightarrow>
               (let interval = (if ttl div 2 \<le> 0 then ttl else ttl div 2);
                    l = \<lparr>lkeys = [], timer = Some (clk 0 + ttl), ticker = Some (clk 1 + interval, interval),
                         renewal = ttl, lsub = None\<rparr>;
                    (l1, w1) = lease_subscribe E ctx (tick 2 clk) lid l w
                in (Inr lid, w1\<lparr>leases := gm_put (leases w1) lid l1\<rparr>)))"

definition Attach ::
    "('c, 's, 'b, 'bt, 'st, 'v) env \<Rightarrow> clock \<Rightarrow> string \<Rightarrow> key \<Rightarrow> ('c, 's, 'b, 'st, 'v) warp \<Rightarrow> ('c, 's, 'b, 'st, 'v) warp" where
  "Attach E clk lid k w =
     (let (l, w1) =
        (case gm_get (leases w) lid of
           Some l \<Rightarrow> (l, w)
         | None \<Rightarrow>
             lease_subscribe E background clk lid \<lparr>lkeys = [], timer = None, ticker = None, renewal = 0, lsub = None\<rparr> w)
      in w1\<lparr>leases := gm_put (leases w1) lid (l\<lparr>lkeys := (if k \<in> set (lkeys l) then lkeys l else lkeys l @ [k])\<rparr>)\<rparr>)"

fun invalidate_keys ::
    "('c, 's, 'b, 'bt, 'st, 'v) env \<Rightarrow> ctx \<Rightarrow> clock \<Rightarrow> key list \<Rightarrow> ('c, 's, 'b, 'st, 'v) warp \<Rightarrow> ('c, 's, 'b, 'st, 'v) warp" where
  "invalidate_keys E ctx clk [] w = w"
| "invalidate_keys E ctx clk (k # ks) w =
     invalidate_keys E ctx (tick 2 clk) ks (snd (cache_Invalidate E ctx clk k w))"

text \<open>\<^verbatim>\<open>revoke\<close>. Stopping the timer and the ticker is dropping the lease that holds them.\<close>

definition revoke ::
    "('c, 's, 'b, 'bt, 'st, 'v) env \<Rightarrow> ctx \<Rightarrow> clock \<Rightarrow> string \<Rightarrow> bool \<Rightarrow> ('c, 's, 'b, 'st, 'v) warp
     \<Rightarrow> ('c, 's, 'b, 'st, 'v) warp" where
  "revoke E ctx clk lid publish w =
     (case gm_get (leases w) lid of
        None \<Rightarrow> w
      | Some l \<Rightarrow>
          (let w1 = w\<lparr>leases := gm_del (leases w) lid\<rparr>;
               w2 = (case (w_bus w1, lsub l) of
                       (Some b, Some ch) \<Rightarrow> w1\<lparr>w_bus := Some (snd (bUnsubscribeLease (bops E) background clk lid ch b))\<rparr>
                     | _ \<Rightarrow> w1);
               w3 = invalidate_keys E ctx (tick 1 clk) (lkeys l) w2
           in case w_bus w3 of
                None \<Rightarrow> w3
              | Some b \<Rightarrow>
                  if publish
                  then w3\<lparr>w_bus := Some (snd (bRevokeLease (bops E) ctx (tick (1 + 2 * length (lkeys l)) clk) lid b))\<rparr>
                  else w3))"

definition lease_Revoke where
  "lease_Revoke E ctx clk lid w = revoke E ctx clk lid True w"

text \<open>\<^verbatim>\<open>Warp.GrantLease\<close>, \<^verbatim>\<open>Warp.RevokeLease\<close>, \<^verbatim>\<open>Warp.AttachKey\<close>.\<close>

definition GrantLease where
  "GrantLease E uuid ctx clk ttl w = Grant E uuid ctx clk ttl w"

definition RevokeLease where
  "RevokeLease E ctx clk lid w = lease_Revoke E ctx clk lid w"

definition AttachKey where
  "AttachKey E clk lid k w = Attach E clk lid k w"

section \<open>The goroutines of a lease\<close>

text \<open>The renewal goroutine receives a tick at \<open>now\<close> and resets the timer.\<close>

definition lease_tick :: "time \<Rightarrow> string \<Rightarrow> ('c, 's, 'b, 'st, 'v) warp \<Rightarrow> ('c, 's, 'b, 'st, 'v) warp" where
  "lease_tick now lid w =
     (case gm_get (leases w) lid of
        None \<Rightarrow> w
      | Some l \<Rightarrow>
          (case ticker l of
             None \<Rightarrow> w
           | Some (next, period) \<Rightarrow>
               if next \<le> now
               then w\<lparr>leases := gm_put (leases w) lid
                        (l\<lparr>timer := Some (now + renewal l), ticker := Some (next + period, period)\<rparr>)\<rparr>
               else w))"

text \<open>The function of the expiration timer, run at \<open>clk 0\<close> if the timer is due.\<close>

definition lease_expire ::
    "('c, 's, 'b, 'bt, 'st, 'v) env \<Rightarrow> clock \<Rightarrow> string \<Rightarrow> ('c, 's, 'b, 'st, 'v) warp \<Rightarrow> ('c, 's, 'b, 'st, 'v) warp" where
  "lease_expire E clk lid w =
     (case gm_get (leases w) lid of
        None \<Rightarrow> w
      | Some l \<Rightarrow>
          (case timer l of
             None \<Rightarrow> w
           | Some due \<Rightarrow> if due \<le> clk 0 then revoke E background (tick 1 clk) lid True w else w))"

text \<open>A revocation received from the bus.\<close>

definition lease_notice ::
    "('c, 's, 'b, 'bt, 'st, 'v) env \<Rightarrow> clock \<Rightarrow> string \<Rightarrow> ('c, 's, 'b, 'st, 'v) warp \<Rightarrow> ('c, 's, 'b, 'st, 'v) warp" where
  "lease_notice E clk lid w = revoke E background clk lid False w"

section \<open>Frames\<close>

lemma lease_subscribe_frame:
  assumes "lease_subscribe E ctx clk lid l w = (l', w')"
  shows "w_cache w' = w_cache w" "leases w' = leases w" "w_store w' = w_store w" "resilient w' = resilient w"
    and "lkeys l' = lkeys l" "timer l' = timer l" "ticker l' = ticker l" "renewal l' = renewal l"
  using assms by (auto simp: lease_subscribe_def split: option.splits prod.splits sum.splits)

lemma cache_Invalidate_frame [simp]:
  "leases (snd (cache_Invalidate E ctx clk k w)) = leases w"
  "w_bus (snd (cache_Invalidate E ctx clk k w)) = w_bus w"
  "w_store (snd (cache_Invalidate E ctx clk k w)) = w_store w"
  "resilient (snd (cache_Invalidate E ctx clk k w)) = resilient w"
  "tasks (snd (cache_Invalidate E ctx clk k w)) = tasks w"
  by (simp_all add: cache_Invalidate_def split: prod.splits)

lemma invalidate_keys_frame [simp]:
  "leases (invalidate_keys E ctx clk ks w) = leases w"
  "w_bus (invalidate_keys E ctx clk ks w) = w_bus w"
  "w_store (invalidate_keys E ctx clk ks w) = w_store w"
  "resilient (invalidate_keys E ctx clk ks w) = resilient w"
  "tasks (invalidate_keys E ctx clk ks w) = tasks w"
  by (induct ks arbitrary: clk w) simp_all

lemma leases_revoke: "leases (revoke E ctx clk lid p w) = gm_del (leases w) lid"
  by (auto simp: revoke_def Let_def map_of_eq_None_iff delete_id split: option.splits)

text \<open>What a revocation leaves of the cache.\<close>

lemma w_cache_revoke:
  assumes "gm_get (leases w) lid = Some l"
  shows "\<exists>w2. w_cache (revoke E ctx clk lid p w) = w_cache (invalidate_keys E ctx (tick 1 clk) (lkeys l) w2) \<and>
    w_cache w2 = w_cache w \<and> resilient w2 = resilient w"
proof -
  define w1 where "w1 = w\<lparr>leases := gm_del (leases w) lid\<rparr>"
  define w2 where "w2 = (case (w_bus w1, lsub l) of
    (Some b, Some ch) \<Rightarrow> w1\<lparr>w_bus := Some (snd (bUnsubscribeLease (bops E) background clk lid ch b))\<rparr> | _ \<Rightarrow> w1)"
  have "w_cache w2 = w_cache w" "resilient w2 = resilient w"
    by (simp_all add: w2_def w1_def split: option.splits)
  moreover have "w_cache (revoke E ctx clk lid p w) = w_cache (invalidate_keys E ctx (tick 1 clk) (lkeys l) w2)"
    using assms unfolding revoke_def Let_def w2_def w1_def by (auto split: option.splits)
  ultimately show ?thesis by blast
qed

section \<open>Revocation over the in-memory cache\<close>

lemma snd_cInvalidate_w_cops:
  "snd (cInvalidate (w_cops E w) ctx clk k c) = snd (cInvalidate (cops E) ctx clk k c)"
  by (auto simp: w_cops_def NewResilient_def resilient_Invalidate_def split: prod.splits option.splits)

lemma w_cache_Invalidate:
  "w_cache (snd (cache_Invalidate E ctx clk k w)) = snd (cInvalidate (cops E) ctx clk k (w_cache w))"
  using snd_cInvalidate_w_cops [of E w ctx clk k "w_cache w"] by (simp add: cache_Invalidate_def split_beta)

lemma invalidate_keys_lru:
  assumes "lru_coh (w_cache w) M" and "\<forall>t. ctx t = None"
  shows "lru_coh (w_cache (invalidate_keys (lru_env est lib pick) ctx clk ks w)) (\<lambda>k. if k \<in> set ks then {} else M k)"
  using assms(1)
proof (induct ks arbitrary: clk w M)
  case (Cons k ks)
  let ?c = "snd (lru_Invalidate ctx clk k (w_cache w))"
  have "lru_Invalidate ctx clk k (w_cache w) = (None, ?c)"
    using assms(2) by (simp add: lru_Invalidate_def Let_def split: option.splits)
  then have "lru_coh ?c (M(k := {}))"
    using lru.entries.invalidate_ok [OF Cons.prems] by (simp add: lru_ops_def)
  moreover have "w_cache (snd (cache_Invalidate (lru_env est lib pick) ctx clk k w)) = ?c"
    by (simp add: w_cache_Invalidate lru_env_def lru_ops_def)
  ultimately have "lru_coh (w_cache (snd (cache_Invalidate (lru_env est lib pick) ctx clk k w))) (M(k := {}))" by simp
  from Cons.hyps [OF this] have
    "lru_coh (w_cache (invalidate_keys (lru_env est lib pick) ctx clk (k # ks) w))
       (\<lambda>j. if j \<in> set ks then {} else (M(k := {})) j)" by simp
  then show ?case by (rule lru.entries.coh_mono) auto
qed simp

lemma invalidate_keys_done:
  assumes "\<forall>t. ctx t \<noteq> None"
  shows "w_cache (invalidate_keys (lru_env est lib pick) ctx clk ks w) = w_cache w"
proof (induct ks arbitrary: clk w)
  case (Cons k ks)
  have "snd (lru_Invalidate ctx clk k (w_cache w)) = w_cache w"
    using assms [rule_format, of "clk 0"] by (auto simp: lru_Invalidate_def)
  then have "w_cache (snd (cache_Invalidate (lru_env est lib pick) ctx clk k w)) = w_cache w"
    by (simp add: w_cache_Invalidate lru_env_def lru_ops_def)
  with Cons show ?case by simp
qed simp

lemma lru_revoke_drops:
  assumes "lru_inv (w_cache w)" and "gm_get (leases w) lid = Some l" and "k \<in> set (lkeys l)" and "\<forall>t. ctx t = None"
  shows "lru_view (w_cache (revoke (lru_env est lib pick) ctx clk lid p w)) k = None"
proof -
  have "lru_coh (w_cache w) (\<lambda>_. UNIV)" using assms(1) by (simp add: admits_def)
  moreover from w_cache_revoke [OF assms(2)] obtain w2 where
    "w_cache (revoke (lru_env est lib pick) ctx clk lid p w) =
       w_cache (invalidate_keys (lru_env est lib pick) ctx (tick 1 clk) (lkeys l) w2)" and "w_cache w2 = w_cache w"
    by blast
  ultimately have
    "lru_coh (w_cache (revoke (lru_env est lib pick) ctx clk lid p w)) (\<lambda>k. if k \<in> set (lkeys l) then {} else UNIV)"
    using invalidate_keys_lru [of w2 "\<lambda>_. UNIV" ctx est lib pick "tick 1 clk" "lkeys l"] assms(4) by simp
  then have "v \<in> (if k \<in> set (lkeys l) then {} else UNIV)"
    if "lru_view (w_cache (revoke (lru_env est lib pick) ctx clk lid p w)) k = Some v" for v
    using that unfolding admits_def by blast
  with assms(3) show ?thesis
    by (cases "lru_view (w_cache (revoke (lru_env est lib pick) ctx clk lid p w)) k") auto
qed

section \<open>Renewal\<close>

datatype lease_event = LTick time | LExpire clock | LAttach clock key

fun event_time :: "lease_event \<Rightarrow> time" where
  "event_time (LTick t) = t"
| "event_time (LExpire clk) = clk 0"
| "event_time (LAttach clk k) = clk 0"

fun lease_step ::
    "('c, 's, 'b, 'bt, 'st, 'v) env \<Rightarrow> string \<Rightarrow> ('c, 's, 'b, 'st, 'v) warp \<Rightarrow> lease_event \<Rightarrow> ('c, 's, 'b, 'st, 'v) warp" where
  "lease_step E lid w (LTick t) = lease_tick t lid w"
| "lease_step E lid w (LExpire clk) = lease_expire E clk lid w"
| "lease_step E lid w (LAttach clk k) = AttachKey E clk lid k w"

text \<open>The renewal goroutine never is \<open>late\<close> or more behind its ticker.\<close>

fun punctual ::
    "('c, 's, 'b, 'bt, 'st, 'v) env \<Rightarrow> string \<Rightarrow> duration \<Rightarrow> ('c, 's, 'b, 'st, 'v) warp \<Rightarrow> lease_event list \<Rightarrow> bool" where
  "punctual E lid late w [] = True"
| "punctual E lid late w (ev # evs) =
     ((case gm_get (leases w) lid of
         Some l \<Rightarrow> (case ticker l of Some (next, p) \<Rightarrow> event_time ev < next + late | None \<Rightarrow> True)
       | None \<Rightarrow> True) \<and>
      punctual E lid late (lease_step E lid w ev) evs)"

text \<open>Time left: the timer is at least \<open>late\<close> past the next tick.\<close>

definition renewing :: "duration \<Rightarrow> key set \<Rightarrow> string \<Rightarrow> ('c, 's, 'b, 'st, 'v) warp \<Rightarrow> bool" where
  "renewing late ks lid w \<longleftrightarrow>
     (\<exists>l due next p. gm_get (leases w) lid = Some l \<and> timer l = Some due \<and> ticker l = Some (next, p) \<and>
        next + late \<le> due \<and> p + late \<le> renewal l \<and> set (lkeys l) = ks)"

fun attached :: "lease_event \<Rightarrow> key set" where
  "attached (LAttach clk k) = {k}"
| "attached _ = {}"

lemma renewing_step:
  assumes "renewing late ks lid w" and "punctual E lid late w [ev]"
  shows "renewing late (ks \<union> attached ev) lid (lease_step E lid w ev)"
proof (cases ev)
  case (LTick t)
  with assms show ?thesis by (auto simp: renewing_def lease_tick_def)
next
  case (LExpire clk)
  with assms show ?thesis by (auto simp: renewing_def lease_expire_def)
next
  case (LAttach clk k)
  with assms show ?thesis by (auto simp: renewing_def AttachKey_def Attach_def insert_absorb)
qed

lemma renewing_steps:
  "renewing late ks lid w \<Longrightarrow> punctual E lid late w evs \<Longrightarrow>
     renewing late (ks \<union> (\<Union>ev \<in> set evs. attached ev)) lid (foldl (lease_step E lid) w evs)"
proof (induction evs arbitrary: w ks)
  case (Cons ev evs)
  from Cons.prems have "renewing late (ks \<union> attached ev) lid (lease_step E lid w ev)"
    by (intro renewing_step) simp_all
  from Cons.IH [OF this] Cons.prems show ?case by (simp add: Un_assoc)
qed simp

lemma renewing_Grant:
  assumes "Grant E uuid ctx clk ttl w = (Inr lid, w0)" and "2 \<le> ttl" and "late + (clk 1 - clk 0) \<le> ttl div 2"
    and "clk 0 \<le> clk 1"
  shows "renewing late {} lid w0"
proof -
  let ?l = "\<lparr>lkeys = [], timer = Some (clk 0 + ttl), ticker = Some (clk 1 + ttl div 2, ttl div 2), renewal = ttl, lsub = None\<rparr>"
  obtain l1 w1 where s: "lease_subscribe E ctx (tick 2 clk) lid ?l w = (l1, w1)"
    by (cases "lease_subscribe E ctx (tick 2 clk) lid ?l w")
  have "w0 = w1\<lparr>leases := gm_put (leases w1) lid l1\<rparr>"
    using assms(1,2) s by (auto simp: Grant_def Let_def split: if_splits sum.splits prod.splits)
  moreover have "ttl div 2 + ttl div 2 \<le> ttl" by simp
  then have "clk 1 + ttl div 2 + late \<le> clk 0 + ttl" "ttl div 2 + late \<le> ttl" using assms(3,4) by linarith+
  ultimately show ?thesis using lease_subscribe_frame [OF s] by (simp add: renewing_def)
qed

lemmas lease_eval = local_env_def local_warp_def lru_env_def warp_New_def membus_ops_def Grant_def Attach_def AttachKey_def
  lease_subscribe_def membus_SubscribeLease_def membus_Subscribe_def NewInMemoryBus_def map_safemap_def
  lease_tick_def lease_expire_def lease_key_def Let_def lru_inv_NewInMemory

section \<open>Properties\<close>



text \<open>
  Revoking a lease ends it and leaves none of its keys in the in-memory cache,
  provided the context of the call is not done.
\<close>

theorem lease_revoke_drops_keys:
  assumes "lru_inv (w_cache w)" and "gm_get (leases w) lid = Some l" and "\<forall>t. ctx t = None"
    and "w' = RevokeLease (lru_env est lib pick) ctx clk lid w"
  shows "gm_get (leases w') lid = None \<and> (\<forall>k \<in> set (lkeys l). lru_view (w_cache w') k = None)"
  using lru_revoke_drops [OF assms(1,2) _ assms(3)] assms(4)
  by (auto simp: RevokeLease_def lease_Revoke_def leases_revoke)

theorem lease_revoke_drops_keys_witness:
  "gm_get (leases (RevokeLease local_env background (\<lambda>_. 0) ''l'' (AttachKey local_env (\<lambda>_. 0) ''l'' ''a'' local_warp))) ''l'' =
     None"
  using lease_revoke_drops_keys [of "AttachKey local_env (\<lambda>_. 0) ''l'' ''a'' local_warp" "''l''"
      "the (gm_get (leases (AttachKey local_env (\<lambda>_. 0) ''l'' ''a'' local_warp)) ''l'')" background
      _ "\<lambda>_. 1" map_lib "\<lambda>_. True" "\<lambda>_. 0"]
  by (simp add: lease_eval)

text \<open>
  With a context that is done, revoking a lease removes the lease but leaves its
  keys cached: the cache is as before, and a second revocation finds nothing to do.
\<close>

theorem lease_revoke_done_keeps_keys:
  assumes "gm_get (leases w) lid = Some l" and "\<forall>t. ctx t \<noteq> None"
    and "w' = RevokeLease (lru_env est lib pick) ctx clk lid w"
  shows "gm_get (leases w') lid = None \<and> w_cache w' = w_cache w \<and>
    RevokeLease (lru_env est lib pick) ctx' clk' lid w' = w'"
proof -
  have "w_cache w' = w_cache w"
    using w_cache_revoke [OF assms(1), of "lru_env est lib pick" ctx clk True] invalidate_keys_done [OF assms(2)]
    unfolding assms(3) RevokeLease_def lease_Revoke_def by metis
  moreover have "gm_get (leases w') lid = None" by (simp add: assms(3) RevokeLease_def lease_Revoke_def leases_revoke)
  ultimately show ?thesis by (simp add: RevokeLease_def lease_Revoke_def revoke_def [of _ _ _ _ _ w'])
qed

theorem lease_revoke_done_keeps_keys_witness:
  "w_cache (RevokeLease local_env (\<lambda>_. Some Canceled) (\<lambda>_. 0) ''l'' (AttachKey local_env (\<lambda>_. 0) ''l'' ''a'' local_warp)) =
     w_cache (AttachKey local_env (\<lambda>_. 0) ''l'' ''a'' local_warp)"
  using lease_revoke_done_keeps_keys [of "AttachKey local_env (\<lambda>_. 0) ''l'' ''a'' local_warp" "''l''"
      "the (gm_get (leases (AttachKey local_env (\<lambda>_. 0) ''l'' ''a'' local_warp)) ''l'')" "\<lambda>_. Some Canceled"
      _ "\<lambda>_. 1" map_lib "\<lambda>_. True" "\<lambda>_. 0"]
  by (simp add: lease_eval)

end
