(* ===== verification/Warp_Coherence.thy ===== *)
theory Warp_Coherence
  imports Warp_Lease
begin

text \<open>
  Write-through coherence of the orchestrator. The locale \<open>write_through\<close> states what
  the cache and the store must promise; inside it, every operation of a warp keeps the
  invariant \<open>wt\<close>: whatever the cache can answer for a key is the data the store holds
  for it. The interpretation is the in-memory cache over the in-memory store.
\<close>

fun is_load :: "'v task \<Rightarrow> bool" where
  "is_load (LoadTask k r d f) = True"
| "is_load _ = False"

text \<open>A key without a grace period. With one, \<^verbatim>\<open>GetOrSet\<close> refreshes a stale value from the
  loader into the cache alone, so the cache may then differ from the store.\<close>

definition no_grace :: "key \<Rightarrow> ('c, 's, 'b, 'st, 'v) warp \<Rightarrow> bool" where
  "no_grace k w \<longleftrightarrow>
     (case getReg k w of None \<Rightarrow> True | Some r \<Rightarrow> FailSafeGracePeriod (ttlOpts (regs_heap w ! r)) \<le> 0)"

locale write_through =
  fixes E :: "('c, 's, 'b, 'bt, 'st, 'v) env"
    and coh :: "'c \<Rightarrow> (key \<Rightarrow> 'v mval set) \<Rightarrow> bool"
    and sview :: "'s \<Rightarrow> key \<Rightarrow> 'v option"
    and sinv :: "'s \<Rightarrow> bool"
  assumes cache: "cache_contract (cops E) coh"
    and cache_set_error: "coh c M \<Longrightarrow> cSet (cops E) ctx clk k v ttl c = (Some e, c') \<Longrightarrow> coh c' M"
    and store: "store_contract (sops E) sview sinv"
    and store_set_total: "sinv s \<Longrightarrow> fst (stSet (sops E) ctx clk k d s) = None"

context write_through
begin

definition adm :: "'s \<Rightarrow> key \<Rightarrow> 'v mval set" where
  "adm s = (\<lambda>k. {v. sview s k = Some (Data v)})"

definition wt :: "'s \<Rightarrow> ('c, 's, 'b, 'st, 'v) warp \<Rightarrow> bool" where
  "wt s w \<longleftrightarrow> \<not> resilient w \<and> w_store w = Some s \<and> sinv s \<and> coh (w_cache w) (adm s) \<and>
     (\<forall>t \<in> set (tasks w). \<not> is_load t)"

definition wt_any :: "('c, 's, 'b, 'st, 'v) warp \<Rightarrow> bool" where
  "wt_any w \<longleftrightarrow> (\<exists>s. wt s w)"

definition same_view :: "'s \<Rightarrow> 's \<Rightarrow> bool" where
  "same_view s s' \<longleftrightarrow> sview s' = sview s"

lemma adm_same: "same_view s s' \<Longrightarrow> adm s' = adm s"
  by (simp add: adm_def same_view_def)

lemma wt_frame [simp]:
  "wt s (w\<lparr>w_bus := b\<rparr>) = wt s w" "wt s (w\<lparr>strats := st\<rparr>) = wt s w" "wt s (w\<lparr>regs_heap := h\<rparr>) = wt s w"
  "wt s (w\<lparr>hitCounter := n\<rparr>) = wt s w" "wt s (w\<lparr>missCounter := n\<rparr>) = wt s w"
  "wt s (w\<lparr>w_evictionCounter := n\<rparr>) = wt s w" "wt s (w\<lparr>listeners := l\<rparr>) = wt s w"
  "wt s (w\<lparr>publishErrCh := p\<rparr>) = wt s w" "wt s (w\<lparr>merges := m\<rparr>) = wt s w"
  "wt s (w\<lparr>shards := sh\<rparr>) = wt s w"
  by (simp_all add: wt_def)

lemma wt_helpers [simp]:
  "wt s (hit_inc w) = wt s w" "wt s (miss_inc w) = wt s w" "wt s (reg_touch r ttl t w) = wt s w"
  "wt s (strat_Record E clk k g w) = wt s w" "wt s (snd (strat_TTL E clk k g d w)) = wt s w"
  by (simp_all add: hit_inc_def miss_inc_def reg_touch_def reg_upd_def strat_Record_def strat_TTL_def
      split: option.splits prod.splits)

lemma wt_cops: "wt s w \<Longrightarrow> w_cops E w = cops E"
  by (simp add: wt_def w_cops_def)

lemma wt_cache_Get:
  assumes "wt s w" and "cache_Get E ctx clk k w = (r, w')"
  shows "wt s w'" and "r = Inr (Some v) \<Longrightarrow> sview s k = Some (Data v)"
proof -
  have B: "cache_base (cops E) coh" using cache by (rule cache_contract.axioms)
  obtain c where g: "cGet (cops E) ctx clk k (w_cache w) = (r, c)" and w': "w' = w\<lparr>w_cache := c\<rparr>"
    using assms wt_cops [OF assms(1)] by (auto simp: cache_Get_def split: prod.splits)
  have c: "coh (w_cache w) (adm s)" using assms(1) by (simp add: wt_def)
  show "wt s w'" using assms(1) cache_base.get_coh [OF B c g] by (simp add: wt_def w')
  show "r = Inr (Some v) \<Longrightarrow> sview s k = Some (Data v)"
    using cache_base.get_sound [OF B c] g by (auto simp: adm_def)
qed

lemma wt_cache_Set:
  assumes "wt s w" and "sview s k = Some (Data v)"
  shows "wt s (snd (cache_Set E ctx clk k v ttl w))"
proof -
  have B: "cache_base (cops E) coh" using cache by (rule cache_contract.axioms)
  obtain e c where g: "cSet (cops E) ctx clk k v ttl (w_cache w) = (e, c)"
    by (cases "cSet (cops E) ctx clk k v ttl (w_cache w)")
  have c: "coh (w_cache w) (adm s)" using assms(1) by (simp add: wt_def)
  have "v \<in> adm s k" using assms(2) by (simp add: adm_def)
  then have "(adm s)(k := insert v (adm s k)) = adm s" by (simp add: insert_absorb)
  with cache_base.set_coh [OF B c g] have "coh c (adm s)" by simp
  with assms(1) show ?thesis by (simp add: cache_Set_def wt_cops [OF assms(1)] g wt_def)
qed

lemma wt_cache_Invalidate: "wt s w \<Longrightarrow> wt s (snd (cache_Invalidate E ctx clk k w))"
proof -
  assume w: "wt s w"
  have B: "cache_base (cops E) coh" using cache by (rule cache_contract.axioms)
  obtain e c where g: "cInvalidate (cops E) ctx clk k (w_cache w) = (e, c)"
    by (cases "cInvalidate (cops E) ctx clk k (w_cache w)")
  have "coh c (adm s)" using w by (intro cache_base.invalidate_coh [OF B _ g]) (simp add: wt_def)
  with w show ?thesis by (simp add: cache_Invalidate_def wt_cops [OF w] g wt_def)
qed

lemma wt_store_Get:
  assumes "wt s w" and "stGet (sops E) ctx clk k s = (r, s')"
  shows "wt s' (w\<lparr>w_store := Some s'\<rparr>)" and "same_view s s'" and "r = Inr x \<Longrightarrow> x = sview s k"
proof -
  have i: "sinv s" using assms(1) by (simp add: wt_def)
  from store_contract.get_keeps [OF store i assms(2)] have k: "sview s' = sview s" "sinv s'" by auto
  then show "same_view s s'" by (simp add: same_view_def)
  then have "adm s' = adm s" by (rule adm_same)
  with assms(1) k show "wt s' (w\<lparr>w_store := Some s'\<rparr>)" by (simp add: wt_def)
  show "r = Inr x \<Longrightarrow> x = sview s k" using store_contract.get_view [OF store i] assms(2) by blast
qed

lemma wt_fetch:
  assumes "wt s w" and "fetch E ctx clk k w = (r, w')"
  shows "\<exists>s'. wt s' w' \<and> same_view s s' \<and> (\<forall>mv. r = Inr mv \<longrightarrow> sview s k = Some (Data mv))"
proof -
  have st: "w_store w = Some s" using assms(1) by (simp add: wt_def)
  obtain q s' where g: "stGet (sops E) ctx clk k s = (q, s')" by (cases "stGet (sops E) ctx clk k s")
  note k = wt_store_Get [OF assms(1) g]
  have "w' = w\<lparr>w_store := Some s'\<rparr>" and "\<forall>mv. r = Inr mv \<longrightarrow> q = Inr (Some (Data mv))"
    using assms(2) st g by (auto simp: fetch_def fresh_value_def split: sum.splits option.splits)
  with k show ?thesis by metis
qed

lemma wt_strat_TTL: "wt s w \<Longrightarrow> strat_TTL E clk k g d w = (ttl, w') \<Longrightarrow> wt s w'"
  using wt_helpers(5) [of s clk k g d w] by simp

lemma wt_refill:
  assumes "wt s w" and "sview s k = Some (Data mv)"
  shows "wt s (refill E ctx clk k r d mv w)"
proof -
  obtain ttl w1 where t: "strat_TTL E clk k (regs_heap w ! r) d w = (ttl, w1)"
    by (cases "strat_TTL E clk k (regs_heap w ! r) d w")
  with assms show ?thesis by (simp add: refill_def t wt_cache_Set wt_strat_TTL [OF assms(1) t])
qed

lemma wt_late_refill:
  assumes "wt s w" and "sview s k = Some (Data mv)"
  shows "wt s (late_refill E clk k r d mv w)"
proof -
  obtain ttl w1 where t: "strat_TTL E clk k (regs_heap w ! r) d w = (ttl, w1)"
    by (cases "strat_TTL E clk k (regs_heap w ! r) d w")
  with assms show ?thesis by (simp add: late_refill_def t wt_cache_Set wt_strat_TTL [OF assms(1) t])
qed

lemma wt_slide:
  assumes "wt s w" and "sview s k = Some (Data v)"
  shows "wt s (slide E ctx clk k r v now w)"
proof -
  obtain ttl w1 where t: "strat_TTL E clk k (regs_heap w ! r) 0 w = (ttl, w1)"
    by (cases "strat_TTL E clk k (regs_heap w ! r) 0 w")
  from wt_strat_TTL [OF assms(1) t] assms show ?thesis by (simp add: slide_def Let_def t wt_cache_Set)
qed

subsection \<open>Get\<close>

lemma wt_get_stale:
  assumes "wt s w" and "sview s k = Some (Data v)" and "get_stale E None late ctx clk k r v w = ((d, e), w')"
  shows "\<exists>s'. wt s' w' \<and> same_view s s'" and "d = Some x \<Longrightarrow> sview s k = Some x"
proof -
  let ?g = "regs_heap w ! r"
  have "(\<exists>s'. wt s' w' \<and> same_view s s') \<and> (d = Some x \<longrightarrow> sview s k = Some x)"
  proof (cases "SoftTimeout (ttlOpts ?g) > 0 \<and> late")
    case True
    have "wt s (w\<lparr>tasks := tasks w @ [RefreshTask k r (currentTTL ?g)]\<rparr>)" using assms(1) by (simp add: wt_def)
    with True assms show ?thesis by (auto simp: get_stale_def Let_def same_view_def)
  next
    case False
    obtain q w1 where f: "fetch E background clk k w = (q, w1)" by (cases "fetch E background clk k w")
    from wt_fetch [OF assms(1) f] obtain s' where
      s': "wt s' w1" "same_view s s'" "\<forall>mv. q = Inr mv \<longrightarrow> sview s k = Some (Data mv)" by blast
    show ?thesis
    proof (cases q)
      case (Inl err)
      with False assms s' f show ?thesis
        by (auto simp: get_stale_def shared_fetch_def Let_def split: if_splits)
    next
      case (Inr mv)
      with s' have mv: "sview s k = Some (Data mv)" by simp
      have "sview s' k = Some (Data mv)" using mv s'(2) by (simp add: same_view_def)
      note refilled = wt_refill [OF s'(1) this]
      with False assms s' f Inr mv show ?thesis
        by (auto simp: get_stale_def shared_fetch_def Let_def intro!: exI [of _ s'] refilled)
    qed
  qed
  then show "\<exists>s'. wt s' w' \<and> same_view s s'" and "d = Some x \<Longrightarrow> sview s k = Some x" by auto
qed

lemma wt_get_hit:
  assumes "wt s w" and "sview s k = Some (Data v)" and "get_hit E None late ctx clk k r v w = ((d, e), w')"
  shows "\<exists>s'. wt s' w' \<and> same_view s s'" and "d = Some x \<Longrightarrow> sview s k = Some x"
proof -
  let ?g = "regs_heap w ! r" and ?w1 = "strat_Record E (tick 1 clk) k (regs_heap w ! r) w"
  have w1: "wt s ?w1" using assms(1) by simp
  have "(\<exists>s'. wt s' w' \<and> same_view s s') \<and> (d = Some x \<longrightarrow> sview s k = Some x)"
  proof (cases "plain_hit ?g w")
    case True
    with assms show ?thesis by (auto simp: get_hit_def Let_def same_view_def)
  next
    case np: False
    show ?thesis
    proof (cases "is_stale ?g (Timestamp v) (clk 0) \<and> w_store ?w1 \<noteq> None")
      case True
      with np assms(3) have "get_stale E None late ctx (tick 2 clk) k r v ?w1 = ((d, e), w')"
        by (simp add: get_hit_def Let_def)
      from wt_get_stale [OF w1 assms(2) this] show ?thesis by blast
    next
      case False
      let ?w2 = "slide E ctx (tick 2 clk) k r v (clk 0) ?w1"
      have w2: "wt s ?w2" by (rule wt_slide [OF w1 assms(2)])
      then have "wt s (?w2\<lparr>tasks := tasks ?w2 @ [EagerTask k r (currentTTL (regs_heap ?w2 ! r))]\<rparr>)" by (simp add: wt_def)
      with w2 np False assms(2,3) show ?thesis
        by (auto simp: get_hit_def Let_def same_view_def split: if_splits)
    qed
  qed
  then show "\<exists>s'. wt s' w' \<and> same_view s s'" and "d = Some x \<Longrightarrow> sview s k = Some x" by auto
qed

lemma wt_get_miss:
  assumes "wt s w" and "get_miss E None ctx clk k r w = ((d, e), w')"
  shows "\<exists>s'. wt s' w' \<and> same_view s s'" and "d = Some x \<Longrightarrow> sview s k = Some x"
proof -
  have st: "w_store w \<noteq> None" using assms(1) by (simp add: wt_def)
  obtain q w1 where f: "fetch E ctx clk k w = (q, w1)" by (cases "fetch E ctx clk k w")
  from wt_fetch [OF assms(1) f] obtain s' where
    s': "wt s' w1" "same_view s s'" "\<forall>mv. q = Inr mv \<longrightarrow> sview s k = Some (Data mv)" by blast
  have "(\<exists>s'. wt s' w' \<and> same_view s s') \<and> (d = Some x \<longrightarrow> sview s k = Some x)"
  proof (cases q)
    case (Inl err)
    with st assms s' f show ?thesis by (auto simp: get_miss_def shared_fetch_def)
  next
    case (Inr mv)
    with s' have mv: "sview s k = Some (Data mv)" by simp
    have "sview s' k = Some (Data mv)" using mv s'(2) by (simp add: same_view_def)
    note refilled = wt_refill [OF s'(1) this]
    with st assms s' f Inr mv show ?thesis by (auto simp: get_miss_def shared_fetch_def intro!: exI [of _ s'] refilled)
  qed
  then show "\<exists>s'. wt s' w' \<and> same_view s s'" and "d = Some x \<Longrightarrow> sview s k = Some x" by auto
qed

lemma wt_Get:
  assumes "wt s w" and "warp_Get E None late ctx clk k w = ((d, e), w')"
  shows "\<exists>s'. wt s' w' \<and> same_view s s'" and "d = Some x \<Longrightarrow> sview s k = Some x"
proof -
  have "(\<exists>s'. wt s' w' \<and> same_view s s') \<and> (d = Some x \<longrightarrow> sview s k = Some x)"
  proof (cases "getReg k w")
    case None
    with assms show ?thesis by (auto simp: warp_Get_def same_view_def)
  next
    case (Some r)
    obtain q w1 where g: "cache_Get E ctx clk k w = (q, w1)" by (cases "cache_Get E ctx clk k w")
    note c = wt_cache_Get [OF assms(1) g]
    show ?thesis
    proof (cases "\<exists>v. q = Inr (Some v)")
      case True
      then obtain v where q: "q = Inr (Some v)" by blast
      with Some assms(2) g have "get_hit E None late ctx (tick 3 clk) k r v w1 = ((d, e), w')"
        by (simp add: warp_Get_def)
      from wt_get_hit [OF c(1) c(2) [OF q] this] show ?thesis by blast
    next
      case False
      with Some assms(2) g have m: "get_miss E None ctx (tick 3 clk) k r (miss_inc w1) = ((d, e), w')"
        by (auto simp: warp_Get_def split: sum.splits option.splits)
      have "wt s (miss_inc w1)" using c(1) by simp
      from wt_get_miss [OF this m] show ?thesis by blast
    qed
  qed
  then show "\<exists>s'. wt s' w' \<and> same_view s s'" and "d = Some x \<Longrightarrow> sview s k = Some x" by auto
qed

subsection \<open>Set and Invalidate\<close>

lemma wt_regs [simp]: "wt s (reg_upd r f w) = wt s w"
  by (simp add: reg_upd_def)

lemma wt_bus_task:
  assumes "wt s w" and "\<not> is_load t"
  shows "wt s (w\<lparr>tasks := tasks w @ [t]\<rparr>)"
  using assms by (auto simp: wt_def)

lemma wt_leases [simp]: "wt s (w\<lparr>leases := l\<rparr>) = wt s w"
  by (simp add: wt_def)

text \<open>The local part of \<^verbatim>\<open>Set\<close>: on success the store holds the new data and nothing else changed.\<close>

lemma wt_set_local:
  assumes "wt s w" and "set_local E ctx clk k r v ttl now w = (e, w')"
  shows "\<exists>s'. wt s' w' \<and> (e = None \<longrightarrow> sview s' = (sview s)(k \<mapsto> Data v)) \<and> (e \<noteq> None \<longrightarrow> sview s' = sview s)"
proof -
  obtain e1 c where g: "cSet (cops E) ctx clk k v (effective_ttl (regs_heap w ! r) ttl) (w_cache w) = (e1, c)"
    by (cases "cSet (cops E) ctx clk k v (effective_ttl (regs_heap w ! r) ttl) (w_cache w)")
  have w: "coh (w_cache w) (adm s)" "w_store w = Some s" "sinv s" using assms(1) by (simp_all add: wt_def)
  let ?w1 = "w\<lparr>w_cache := c\<rparr>"
  have cs: "cache_Set E ctx clk k v (effective_ttl (regs_heap w ! r) ttl) w = (e1, ?w1)"
    by (simp add: cache_Set_def wt_cops [OF assms(1)] g)
  show ?thesis
  proof (cases e1)
    case (Some err)
    with g have "coh c (adm s)" using cache_set_error [OF w(1)] by simp
    with assms Some cs show ?thesis by (auto simp: set_local_def wt_def)
  next
    case None
    have c: "coh c ((adm s)(k := {v}))" by (rule cache_contract.set_ok [OF cache w(1) g [unfolded None]])
    obtain e2 s' where st: "stSet (sops E) ctx (tick 3 clk) k (Data v) s = (e2, s')"
      by (cases "stSet (sops E) ctx (tick 3 clk) k (Data v) s")
    with store_set_total [OF w(3), of ctx "tick 3 clk" k "Data v"] have [simp]: "e2 = None" by simp
    note s' = store_contract.set_view [OF store w(3) st [simplified]] store_contract.set_invar [OF store w(3) st]
    have "coh c (adm s')"
      using cache_base.coh_mono [OF cache_contract.axioms(1) [OF cache] c] by (auto simp: adm_def s' split: if_splits)
    then have "wt s' (?w1\<lparr>w_store := Some s'\<rparr>)" using assms(1) s' by (simp add: wt_def)
    then have "wt s' (reg_touch r ttl now (?w1\<lparr>w_store := Some s'\<rparr>))" by simp
    with assms(2) None cs w(2) st s'(1) show ?thesis by (auto simp: set_local_def store_Set_def)
  qed
qed

text \<open>The switch on the mode keeps any property of the pair that the local update gives and that
  does not speak about the bus and the queued publications.\<close>

lemma by_mode_keeps:
  assumes "by_mode E ctx clk k r f w = (e, w')" and "P w"
    and step: "\<And>clk u e u'. P u \<Longrightarrow> f clk u = (e, u') \<Longrightarrow> Q e u'"
    and fail: "\<And>u e. P u \<Longrightarrow> Q (Some e) u"
    and bus: "\<And>u b. P u \<Longrightarrow> P (u\<lparr>w_bus := b\<rparr>)"
    and spawn: "\<And>u e k. Q e u \<Longrightarrow> Q e (spawn_publish k u)"
  shows "Q e w'"
proof (cases "rmode (regs_heap w ! r)")
  case ModeStrongLocal
  with assms(1) step [OF assms(2)] show ?thesis by (simp add: by_mode_def)
next
  case ModeEventualDistributed
  obtain e1 w1 where "f clk w = (e1, w1)" by (cases "f clk w")
  with ModeEventualDistributed assms(1) step [OF assms(2)] spawn show ?thesis
    by (auto simp: by_mode_def split: option.splits if_splits)
next
  case ModeStrongDistributed
  show ?thesis
  proof (cases "w_bus w")
    case None
    with ModeStrongDistributed assms(1) fail [OF assms(2)] show ?thesis by (auto simp: by_mode_def)
  next
    case (Some b)
    obtain e1 b1 where "bPublishAndAwait (bops E) ctx clk k (quorumSize r w) [] b = (e1, b1)"
      by (cases "bPublishAndAwait (bops E) ctx clk k (quorumSize r w) [] b")
    then have p: "publish_await E ctx clk k r b w = (e1, w\<lparr>w_bus := Some b1\<rparr>)" by (simp add: publish_await_def)
    have "P (w\<lparr>w_bus := Some b1\<rparr>)" using assms(2) by (rule bus)
    with ModeStrongDistributed Some p assms(1) fail step step [OF assms(2)] show ?thesis
      by (auto simp: by_mode_def split: if_splits option.splits)
  qed
qed

lemma wt_spawn_publish [simp]: "wt s w \<Longrightarrow> wt s (spawn_publish k w)"
  by (simp add: spawn_publish_def wt_bus_task)

lemma wt_merge_new:
  assumes "wt s w" and "merge_new E ctx clk k nv old w = (q, w')"
  shows "\<exists>s'. wt s' w' \<and> same_view s s'"
proof -
  have st: "w_store w = Some s" using assms(1) by (simp add: wt_def)
  obtain p s1 where g: "stGet (sops E) ctx clk k s = (p, s1)" by (cases "stGet (sops E) ctx clk k s")
  note k = wt_store_Get [OF assms(1) g]
  have "w' = w \<or> w' = w\<lparr>w_store := Some s1\<rparr>"
    using assms(2) st g by (auto simp: merge_new_def Let_def split: option.splits if_splits sum.splits)
  with k assms(1) show ?thesis by (auto simp: same_view_def)
qed

text \<open>A write of \<open>k\<close> that answered \<open>e\<close> from a state with store \<open>s\<close>.\<close>

definition wrote :: "'s \<Rightarrow> key \<Rightarrow> go_error option \<Rightarrow> ('c, 's, 'b, 'st, 'v) warp \<Rightarrow> bool" where
  "wrote s k e w \<longleftrightarrow> (\<exists>s'. wt s' w \<and>
     (case e of Some _ \<Rightarrow> sview s' = sview s | None \<Rightarrow> \<exists>d. sview s' = (sview s)(k \<mapsto> d)))"

lemma wrote_fail: "wt s' w \<Longrightarrow> sview s' = sview s \<Longrightarrow> wrote s k (Some e) w"
  by (auto simp: wrote_def)

lemma wrote_spawn: "wrote s k e w \<Longrightarrow> wrote s k e (spawn_publish k' w)"
  by (auto simp: wrote_def split: option.splits intro: wt_spawn_publish)

lemma wrote_set_local:
  "wt s' w \<Longrightarrow> sview s' = sview s \<Longrightarrow> set_local E ctx clk k r v ttl now w = (e, w') \<Longrightarrow> wrote s k e w'"
  using wt_set_local [of s' w ctx clk k r v ttl now e w'] by (cases e) (auto simp: wrote_def)

lemma wt_Set:
  assumes "wt s w" and "warp_Set E ctx clk k d w = (e, w')"
  shows "wrote s k e w'"
proof (cases "getReg k w")
  case None
  with assms show ?thesis by (auto simp: warp_Set_def intro: wrote_fail)
next
  case (Some r)
  let ?g = "regs_heap w ! r" and ?w1 = "strat_Record E clk k (regs_heap w ! r) w"
  have w1: "wt s ?w1" using assms(1) by simp
  obtain q w2 where g: "cache_Get E ctx (tick 2 clk) k ?w1 = (q, w2)" by (cases "cache_Get E ctx (tick 2 clk) k ?w1")
  note w2 = wt_cache_Get(1) [OF w1 g]
  show ?thesis
  proof (cases q)
    case (Inl err)
    with Some assms(2) g w2 show ?thesis by (auto simp: warp_Set_def Let_def intro: wrote_fail)
  next
    case (Inr old)
    obtain p w3 where m: "merge_new E ctx (tick 5 clk) k (fresh_value d (clk 1)) old w2 = (p, w3)"
      by (cases "merge_new E ctx (tick 5 clk) k (fresh_value d (clk 1)) old w2")
    from wt_merge_new [OF w2 m] obtain s3 where s3: "wt s3 w3" "sview s3 = sview s" by (auto simp: same_view_def)
    show ?thesis
    proof (cases p)
      case Inl
      with Some Inr assms(2) g m s3 show ?thesis by (auto simp: warp_Set_def Let_def intro: wrote_fail)
    next
      case (Inr nv)
      obtain ttl w4 where t: "strat_TTL E (tick 8 clk) k ?g (rttl ?g) w3 = (ttl, w4)"
        by (cases "strat_TTL E (tick 8 clk) k ?g (rttl ?g) w3")
      have w4: "wt s3 w4" by (rule wt_strat_TTL [OF s3(1) t])
      have "by_mode E ctx (tick 9 clk) k r (\<lambda>clk' w. set_local E ctx clk' k r nv ttl (clk 1) w) w4 = (e, w')"
        using Some \<open>q = Inr old\<close> Inr assms(2) g m t by (simp add: warp_Set_def Let_def)
      then show ?thesis
        by (rule by_mode_keeps [where P = "wt s3" and Q = "wrote s k", OF _ w4])
          (auto intro: wrote_fail wrote_set_local wrote_spawn simp: s3(2))
    qed
  qed
qed

lemma wt_Invalidate:
  assumes "wt s w" and "warp_Invalidate E ctx clk k w = (e, w')"
  shows "wt s w'"
proof (cases "getReg k w")
  case None
  with assms show ?thesis by (simp add: warp_Invalidate_def)
next
  case (Some r)
  have step: "wt s u'" if u: "wt s u" "invalidate_local E ctx clk k u = (e, u')" for clk u e u'
    using wt_cache_Invalidate [OF u(1), of ctx clk k] u(2)
    by (auto simp: invalidate_local_def split: prod.splits option.splits)
  from Some assms(2) have "by_mode E ctx clk k r (\<lambda>clk w. invalidate_local E ctx clk k w) w = (e, w')"
    by (simp add: warp_Invalidate_def)
  then show ?thesis
    by (rule by_mode_keeps [where P = "wt s" and Q = "\<lambda>e. wt s", OF _ assms(1)]) (auto intro: step)
qed

subsection \<open>Registration, bus and background tasks\<close>

lemma wt_add_reg [simp]: "wt s (add_reg k g w) = wt s w"
  by (simp add: wt_def add_reg_def)

lemma wt_registry:
  "wt s w \<Longrightarrow> wt s (snd (Register k m ttl opts w))"
  "wt s w \<Longrightarrow> wt s (snd (RegisterDynamicTTL k m st opts w))"
  "wt s w \<Longrightarrow> wt s (Unregister k w)"
  "wt s w \<Longrightarrow> wt s (snd (SetQuorum k n w))"
  "wt s w \<Longrightarrow> wt s (snd (SetQuorumAware k n z w))"
  "wt s w \<Longrightarrow> wt s (warp_Merge k fn w)"
  by (auto simp: Register_def RegisterDynamicTTL_def Unregister_def SetQuorum_def SetQuorumAware_def warp_Merge_def
      Let_def wt_bus_task split: option.splits)

lemma wt_bus:
  "wt s w \<Longrightarrow> wt s (snd (core_Subscribe E ctx clk k w))"
  "wt s w \<Longrightarrow> wt s (snd (core_Unsubscribe E ctx clk k ch w))"
  "wt s w \<Longrightarrow> wt s (listen_start E clk k w)"
  "wt s w \<Longrightarrow> wt s (publish_task E clk k t w)"
  "wt s w \<Longrightarrow> wt s (listen_event E clk ev w)"
  by (auto simp: core_Subscribe_def core_Unsubscribe_def listen_start_def publish_task_def listen_event_def Let_def
      wt_cache_Invalidate split: option.splits prod.splits sum.splits send.splits)

lemma wt_drop_task: "wt s w \<Longrightarrow> wt s (w\<lparr>tasks := remove1 t (tasks w)\<rparr>)"
  by (auto simp: wt_def dest: set_mp [OF set_remove1_subset])

lemma wt_fetch_then:
  assumes "wt s w" and "\<And>w' mv s'. wt s' w' \<Longrightarrow> sview s' k = Some (Data mv) \<Longrightarrow> wt s' (f mv w')"
  shows "\<exists>s'. wt s' (case fetch E ctx clk k w of (Inl e, w1) \<Rightarrow> w1 | (Inr mv, w1) \<Rightarrow> f mv w1) \<and> same_view s s'"
proof -
  obtain q w1 where f: "fetch E ctx clk k w = (q, w1)" by (cases "fetch E ctx clk k w")
  from wt_fetch [OF assms(1) f] obtain s' where
    s': "wt s' w1" "same_view s s'" "\<forall>mv. q = Inr mv \<longrightarrow> sview s k = Some (Data mv)" by blast
  then have "q = Inr mv \<Longrightarrow> wt s' (f mv w1)" for mv by (intro assms(2)) (simp_all add: same_view_def)
  with s' f show ?thesis by (cases q) auto
qed

lemma wt_run_task:
  assumes "wt s w" and "\<not> is_load t"
  shows "\<exists>s'. wt s' (run_task E None clk t w) \<and> same_view s s'"
proof (cases t)
  case (RefreshTask k r d)
  show ?thesis
    using wt_fetch_then [OF assms(1), of k "late_refill E (tick 4 clk) k r d" background clk]
    by (simp add: RefreshTask refresh_task_def shared_fetch_def wt_late_refill)
next
  case (EagerTask k r d)
  let ?st = "SoftTimeout (ttlOpts (regs_heap w ! r))"
  show ?thesis
    using wt_fetch_then [OF assms(1), of k "refill E background (tick 5 clk) k r d"
        "if ?st > 0 then with_timeout background (clk 0) ?st else background" "tick 1 clk"]
    by (simp add: EagerTask eager_task_def shared_fetch_def Let_def wt_refill)
qed (use assms in \<open>auto simp: same_view_def wt_bus intro!: exI [of _ s]\<close>)

subsection \<open>Warmup\<close>

lemma wt_warmup_fetch:
  assumes "wt s w" and "warmup_fetch E gctx skip clk ks w = (rs, w')"
  shows "\<exists>s'. wt s' w' \<and> same_view s s' \<and> (\<forall>(k, v) \<in> set rs. sview s k = Some v)"
  using assms
proof (induct ks arbitrary: clk w s rs w')
  case (Cons k ks)
  have st: "w_store w = Some s" using Cons.prems(1) by (simp add: wt_def)
  show ?case
  proof (cases "gctx (clk 0) \<noteq> None \<and> skip k")
    case True
    with Cons.prems(2) st have "warmup_fetch E gctx skip (tick 5 clk) ks w = (rs, w')" by simp
    from Cons.hyps [OF Cons.prems(1) this] show ?thesis .
  next
    case False
    obtain q s1 where g: "stGet (sops E) gctx (tick 1 clk) k s = (q, s1)" by (cases "stGet (sops E) gctx (tick 1 clk) k s")
    note k = wt_store_Get [OF Cons.prems(1) g]
    obtain rs1 w1 where f: "warmup_fetch E gctx skip (tick 5 clk) ks (w\<lparr>w_store := Some s1\<rparr>) = (rs1, w1)"
      by (cases "warmup_fetch E gctx skip (tick 5 clk) ks (w\<lparr>w_store := Some s1\<rparr>)")
    from Cons.hyps [OF k(1) f] obtain s' where
      s': "wt s' w1" "same_view s1 s'" "\<forall>(k, v) \<in> set rs1. sview s1 k = Some v" by blast
    have "w' = w1" and "set rs \<subseteq> set rs1 \<union> {(k, v) | v. q = Inr (Some v)}"
      using Cons.prems(2) False st g f by (auto split: sum.splits option.splits if_splits)
    with s' k show ?thesis by (fastforce simp: same_view_def)
  qed
qed (auto simp: same_view_def)

lemma wt_warmup_load:
  assumes "wt s w" and "\<forall>(k, v) \<in> set rs. sview s k = Some v"
  shows "wt s (warmup_load E gctx ctx clk rs w)"
  using assms
proof (induct rs arbitrary: clk w)
  case (Cons p rs)
  obtain k v where p: "p = (k, v)" by (cases p)
  have rec: "wt s (warmup_load E gctx ctx clk rs w)" if "wt s w" for clk w
    using Cons.hyps [OF that] Cons.prems(2) by simp
  show ?case
  proof (cases "gctx (clk 0) \<noteq> None \<or> getReg k w = None")
    case True
    with Cons.prems(1) p show ?thesis by auto
  next
    case False
    then obtain r where r: "getReg k w = Some r" "gctx (clk 0) = None" by auto
    let ?g = "regs_heap w ! r"
    obtain ttl w1 where t: "strat_TTL E (tick 2 clk) k ?g (rttl ?g) w = (ttl, w1)"
      by (cases "strat_TTL E (tick 2 clk) k ?g (rttl ?g) w")
    from wt_strat_TTL [OF Cons.prems(1) t] have "wt s (reg_touch r ttl (clk 1) w1)" by simp
    moreover have "sview s k = Some (Data (fresh_value v (clk 1)))"
      using Cons.prems(2) p by (simp add: fresh_value_def)
    ultimately have "wt s (snd (cache_Set E ctx (tick 3 clk) k (fresh_value v (clk 1)) (effective_ttl ?g ttl)
        (reg_touch r ttl (clk 1) w1)))" by (rule wt_cache_Set)
    from rec [OF this] show ?thesis by (simp add: p r t Let_def)
  qed
qed simp

lemma wt_Warmup:
  assumes "wt s w"
  shows "\<exists>s'. wt s' (Warmup E gctx skip ks ctx fclk clk w) \<and> same_view s s'"
proof -
  have st: "w_store w = Some s" using assms by (simp add: wt_def)
  obtain rs w1 where f: "warmup_fetch E gctx skip fclk ks w = (rs, w1)" by (cases "warmup_fetch E gctx skip fclk ks w")
  from wt_warmup_fetch [OF assms f] obtain s' where
    s': "wt s' w1" "same_view s s'" "\<forall>(k, v) \<in> set rs. sview s' k = Some v" by (auto simp: same_view_def)
  from wt_warmup_load [OF s'(1,3)] s'(2) st f show ?thesis by (auto simp: Warmup_def)
qed

subsection \<open>Leases\<close>

lemma wt_invalidate_keys: "wt s w \<Longrightarrow> wt s (invalidate_keys E ctx clk ks w)"
  by (induct ks arbitrary: clk w) (simp_all add: wt_cache_Invalidate)

lemma wt_lease_subscribe: "wt s w \<Longrightarrow> wt s (snd (lease_subscribe E ctx clk lid l w))"
  by (auto simp: lease_subscribe_def split: option.splits prod.splits sum.splits)

lemma wt_revoke:
  assumes "wt s w"
  shows "wt s (revoke E ctx clk lid p w)"
proof (cases "gm_get (leases w) lid")
  case (Some l)
  let ?w1 = "w\<lparr>leases := gm_del (leases w) lid\<rparr>"
  have "wt s ?w1" "\<And>b. wt s (?w1\<lparr>w_bus := b\<rparr>)" using assms by simp_all
  then show ?thesis
    using Some by (auto simp: revoke_def Let_def wt_invalidate_keys split: option.splits)
qed (simp add: revoke_def assms)

lemma wt_lease:
  assumes "wt s w"
  shows "wt s (snd (GrantLease E uuid ctx clk ttl w))" and "wt s (AttachKey E clk lid k w)"
    and "wt s (RevokeLease E ctx clk lid w)" and "wt s (lease_tick now lid w)"
    and "wt s (lease_expire E clk lid w)" and "wt s (lease_notice E clk lid w)"
proof -
  show "wt s (snd (GrantLease E uuid ctx clk ttl w))"
    using wt_lease_subscribe [OF assms] assms
    by (auto simp: GrantLease_def Grant_def Let_def split_beta split: sum.splits)
  show "wt s (AttachKey E clk lid k w)"
    using wt_lease_subscribe [OF assms] assms
    by (auto simp: AttachKey_def Attach_def Let_def split_beta split: option.splits)
  show "wt s (RevokeLease E ctx clk lid w)" "wt s (lease_notice E clk lid w)" "wt s (lease_expire E clk lid w)"
    using assms by (auto simp: RevokeLease_def lease_Revoke_def lease_notice_def lease_expire_def wt_revoke split: option.splits)
  show "wt s (lease_tick now lid w)"
    using assms by (auto simp: lease_tick_def split: option.splits)
qed

subsection \<open>GetOrSet and GetAt\<close>

lemma wt_gos_load:
  assumes "wt s w" and "gos_load E ctx clk k r loader w = (q, w')"
  shows "\<exists>s'. wt s' w'"
proof -
  obtain p w1 where g: "cache_Get E ctx clk k w = (p, w1)" by (cases "cache_Get E ctx clk k w")
  note w1 = wt_cache_Get(1) [OF assms(1) g]
  show ?thesis
  proof (cases "\<exists>mv. p = Inr None \<and> load loader (tick 3 clk) = Inr mv")
    case False
    with assms(2) g w1 show ?thesis by (auto simp: gos_load_def split: sum.splits option.splits)
  next
    case True
    then obtain mv where mv: "p = Inr None" "load loader (tick 3 clk) = Inr mv" by blast
    let ?g = "regs_heap w1 ! r"
    obtain ttl w2 where t: "strat_TTL E (tick 7 clk) k ?g (rttl ?g) w1 = (ttl, w2)"
      by (cases "strat_TTL E (tick 7 clk) k ?g (rttl ?g) w1")
    have w3: "wt s (reg_touch r ttl (Timestamp mv) w2)" using wt_strat_TTL [OF w1 t] by simp
    obtain e w4 where st: "warp_Set E ctx (tick 8 clk) k (Data mv) (reg_touch r ttl (Timestamp mv) w2) = (e, w4)"
      by (cases "warp_Set E ctx (tick 8 clk) k (Data mv) (reg_touch r ttl (Timestamp mv) w2)")
    from wt_Set [OF w3 st] assms(2) g mv t st show ?thesis by (auto simp: gos_load_def Let_def wrote_def)
  qed
qed

lemma frame_regs_heap [simp]:
  "regs_heap (strat_Record E clk k g w) = regs_heap w" "regs_heap (snd (cache_Get E ctx clk k w)) = regs_heap w"
  by (simp_all add: strat_Record_def cache_Get_def split: option.splits prod.splits)

lemma wt_GetOrSet:
  assumes "wt s w" and "no_grace k w" and "GetOrSet E None late ctx clk k loader w = (res, w')"
  shows "\<exists>s'. wt s' w'"
proof -
  obtain r w0 where e: "ensure_reg k w = (r, w0)" by (cases "ensure_reg k w")
  have w0: "wt s w0" and gr: "FailSafeGracePeriod (ttlOpts (regs_heap w0 ! r)) \<le> 0"
    using assms(1,2) e
    by (auto simp: ensure_reg_def no_grace_def add_reg_def default_registration_def zero_ttl_options_def nth_append
        split: option.splits)
  let ?w1 = "strat_Record E clk k (regs_heap w0 ! r) w0"
  have w1: "wt s ?w1" using w0 by simp
  obtain q w2 where g: "cache_Get E ctx (tick 1 clk) k ?w1 = (q, w2)" by (cases "cache_Get E ctx (tick 1 clk) k ?w1")
  note c = wt_cache_Get [OF w1 g]
  have rh: "regs_heap w2 = regs_heap w0"
    using g by (auto simp: cache_Get_def split: prod.splits)
  show ?thesis
  proof (cases q)
    case (Inl err)
    with assms(3) e g c(1) show ?thesis by (auto simp: GetOrSet_def Let_def)
  next
    case (Inr old)
    show ?thesis
    proof (cases old)
      case (Some v)
      have "\<not> is_stale (regs_heap w2 ! r) (Timestamp v) (clk 4)" using gr rh by (simp add: is_stale_def)
      moreover have "wt s (slide E ctx (tick 5 clk) k r v (clk 4) w2)"
        using c Inr Some by (intro wt_slide) auto
      ultimately show ?thesis using assms(3) e g Inr Some by (auto simp: GetOrSet_def Let_def)
    next
      case None
      obtain p w3 where l: "gos_load E ctx (tick 4 clk) k r (loader ctx) (miss_inc w2) = (p, w3)"
        by (cases "gos_load E ctx (tick 4 clk) k r (loader ctx) (miss_inc w2)")
      from wt_gos_load [OF _ l, of s] c(1) have "\<exists>s'. wt s' w3" by simp
      with assms(3) e g Inr None l show ?thesis by (auto simp: GetOrSet_def Let_def split: sum.splits)
    qed
  qed
qed

lemma wt_GetAt: "vgetat E = None \<Longrightarrow> wt s w \<Longrightarrow> wt s (snd (GetAt E ctx clk k ts w))"
  by (auto simp: GetAt_def Let_def split: option.splits)

end

end
