(* ===== verification/Warp_Txn.thy ===== *)
theory Warp_Txn
  imports Warp_Registry
begin

text \<open>
  Transactions (src/core/core.go, \<^verbatim>\<open>Txn\<close>). A transaction queues writes, deletions and
  compare-and-swaps; \<^verbatim>\<open>Commit\<close> goes through the queued writes and then the deletions,
  applies the local and eventual ones as it meets them, publishes the strong ones and
  applies them at the end, and commits the store's batch last.

  \<^verbatim>\<open>Commit\<close> ranges over two Go maps; \<open>ss\<close> and \<open>ds\<close> are the orders in which it does. The
  closures it queues for strong keys are values of \<open>pending_set\<close>, and keys.
  \<^verbatim>\<open>reflect.DeepEqual\<close> is equality of values.
\<close>

record 'v txn =
  t_sets :: "'v gomap"
  t_deletes :: "unit gomap"
  t_cas :: "'v gomap"

definition warp_Txn :: "'v txn" where
  "warp_Txn = \<lparr>t_sets = [], t_deletes = [], t_cas = []\<rparr>"

definition txn_Set :: "key \<Rightarrow> 'v \<Rightarrow> 'v txn \<Rightarrow> 'v txn" where
  "txn_Set k v t =
     t\<lparr>t_sets := gm_put (t_sets t) k v, t_deletes := gm_del (t_deletes t) k, t_cas := gm_del (t_cas t) k\<rparr>"

definition txn_Delete :: "key \<Rightarrow> 'v txn \<Rightarrow> 'v txn" where
  "txn_Delete k t =
     t\<lparr>t_deletes := gm_put (t_deletes t) k (), t_sets := gm_del (t_sets t) k, t_cas := gm_del (t_cas t) k\<rparr>"

definition txn_CompareAndSwap :: "key \<Rightarrow> 'v \<Rightarrow> 'v \<Rightarrow> 'v txn \<Rightarrow> 'v txn" where
  "txn_CompareAndSwap k old v t =
     t\<lparr>t_sets := gm_put (t_sets t) k v, t_cas := gm_put (t_cas t) k old, t_deletes := gm_del (t_deletes t) k\<rparr>"

section \<open>Commit\<close>

record 'v pending_set =
  pKey :: key
  pReg :: reg_id
  pVal :: "'v mval"
  pTTL :: duration
  pNow :: time

text \<open>The closure \<^verbatim>\<open>applyLocal\<close> of a queued write: cache, then batch or store, then registration.\<close>

definition apply_set ::
    "('c, 's, 'b, 'bt, 'st, 'v) env \<Rightarrow> ctx \<Rightarrow> clock \<Rightarrow> 'v pending_set \<Rightarrow> 'bt option \<Rightarrow> ('c, 's, 'b, 'st, 'v) warp
     \<Rightarrow> go_error option \<times> 'bt option \<times> ('c, 's, 'b, 'st, 'v) warp" where
  "apply_set E ctx clk p batch w =
     (case cache_Set E ctx clk (pKey p) (pVal p) (pTTL p) w of
        (Some e, w1) \<Rightarrow> (Some e, batch, w1)
      | (None, w1) \<Rightarrow>
          (let (e, batch1, w2) =
             (case batch of
                Some b \<Rightarrow> (case bSet (sops E) ctx (tick 3 clk) (pKey p) (Data (pVal p)) b of (e, b1) \<Rightarrow> (e, Some b1, w1))
              | None \<Rightarrow> (case store_Set E ctx (tick 3 clk) (pKey p) (Data (pVal p)) w1 of (e, w2) \<Rightarrow> (e, None, w2)))
           in case e of
                Some err \<Rightarrow> (Some err, batch1, w2)
              | None \<Rightarrow> (None, batch1, reg_touch (pReg p) (pTTL p) (pNow p) w2)))"

text \<open>The closure \<^verbatim>\<open>applyLocal\<close> of a queued deletion.\<close>

definition apply_delete ::
    "('c, 's, 'b, 'bt, 'st, 'v) env \<Rightarrow> ctx \<Rightarrow> clock \<Rightarrow> key \<Rightarrow> 'bt option \<Rightarrow> ('c, 's, 'b, 'st, 'v) warp
     \<Rightarrow> go_error option \<times> 'bt option \<times> ('c, 's, 'b, 'st, 'v) warp" where
  "apply_delete E ctx clk k batch w =
     (case cache_Invalidate E ctx clk k w of
        (Some e, w1) \<Rightarrow> (Some e, batch, w1)
      | (None, w1) \<Rightarrow>
          (let w2 = w1\<lparr>w_evictionCounter := map_option Suc (w_evictionCounter w1)\<rparr>
           in case batch of
                None \<Rightarrow> (None, None, w2)
              | Some b \<Rightarrow> (case bDelete (sops E) ctx (tick 3 clk) k b of (e, b1) \<Rightarrow> (e, Some b1, w2))))"

text \<open>The switch on the mode: whether the update is applied now, or is pending (\<open>True\<close>).\<close>

definition commit_mode ::
    "('c, 's, 'b, 'bt, 'st, 'v) env \<Rightarrow> ctx \<Rightarrow> clock \<Rightarrow> key \<Rightarrow> reg_id
     \<Rightarrow> (clock \<Rightarrow> 'bt option \<Rightarrow> ('c, 's, 'b, 'st, 'v) warp \<Rightarrow> go_error option \<times> 'bt option \<times> ('c, 's, 'b, 'st, 'v) warp)
     \<Rightarrow> 'bt option \<Rightarrow> ('c, 's, 'b, 'st, 'v) warp
     \<Rightarrow> (go_error + bool) \<times> 'bt option \<times> ('c, 's, 'b, 'st, 'v) warp" where
  "commit_mode E ctx clk k r applyL batch w =
     (case rmode (regs_heap w ! r) of
        ModeEventualDistributed \<Rightarrow>
          (case applyL clk batch w of
             (Some e, b1, w1) \<Rightarrow> (Inl e, b1, w1)
           | (None, b1, w1) \<Rightarrow>
               (case w_bus w1 of
                  None \<Rightarrow> (Inr False, b1, w1)
                | Some bus \<Rightarrow>
                    (case bPublish (bops E) ctx (tick 6 clk) k [] bus of
                       (Some e, bus1) \<Rightarrow> (Inl e, b1, w1\<lparr>w_bus := Some bus1\<rparr>)
                     | (None, bus1) \<Rightarrow> (Inr False, b1, w1\<lparr>w_bus := Some bus1\<rparr>))))
      | ModeStrongDistributed \<Rightarrow>
          (case w_bus w of
             None \<Rightarrow> (Inl ErrBusRequired, batch, w)
           | Some bus \<Rightarrow>
               (case publish_await E ctx clk k r bus w of
                  (Some e, w1) \<Rightarrow> (Inl e, batch, w1)
                | (None, w1) \<Rightarrow> (Inr True, batch, w1)))
      | ModeStrongLocal \<Rightarrow>
          (case applyL clk batch w of
             (Some e, b1, w1) \<Rightarrow> (Inl e, b1, w1)
           | (None, b1, w1) \<Rightarrow> (Inr False, b1, w1)))"

text \<open>The checks and the merge of a queued write with the cached value, if there is one.\<close>

definition cas_merge ::
    "'v engine \<Rightarrow> 'v gomap \<Rightarrow> key \<Rightarrow> 'v mval option \<Rightarrow> 'v mval \<Rightarrow> go_error + 'v mval" where
  "cas_merge m casm k old newVal =
     (case old of
        Some o1 \<Rightarrow>
          if (case gm_get casm k of Some expected \<Rightarrow> Data o1 \<noteq> expected | None \<Rightarrow> False) then Inl ErrCASMismatch
          else (case engine_Merge m k o1 newVal of Inl e \<Rightarrow> Inr newVal | Inr v \<Rightarrow> Inr v)
      | None \<Rightarrow> if gm_get casm k \<noteq> None then Inl ErrCASMismatch else Inr newVal)"

text \<open>One iteration of the loop over the queued writes up to the switch: the update to make.\<close>

definition prepare_set ::
    "('c, 's, 'b, 'bt, 'st, 'v) env \<Rightarrow> ctx \<Rightarrow> clock \<Rightarrow> 'v gomap \<Rightarrow> key \<Rightarrow> 'v \<Rightarrow> ('c, 's, 'b, 'st, 'v) warp
     \<Rightarrow> (go_error + 'v pending_set) \<times> ('c, 's, 'b, 'st, 'v) warp" where
  "prepare_set E ctx clk casm k v w =
     (case getReg k w of
        None \<Rightarrow> (Inl ErrUnregistered, w)
      | Some r \<Rightarrow>
          (let g = regs_heap w ! r;
               w1 = strat_Record E clk k g w;
               now = clk 1
           in case cache_Get E ctx (tick 2 clk) k w1 of
                (Inl e, w2) \<Rightarrow> (Inl e, w2)
              | (Inr old, w2) \<Rightarrow>
                  (case cas_merge (merges w2) casm k old (fresh_value v now) of
                     Inl e \<Rightarrow> (Inl e, w2)
                   | Inr newVal \<Rightarrow>
                       (let (ttl, w3) = strat_TTL E (tick 5 clk) k g (rttl g) w2
                        in (Inr \<lparr>pKey = k, pReg = r, pVal = newVal, pTTL = effective_ttl g ttl, pNow = now\<rparr>, w3)))))"

fun commit_sets ::
    "('c, 's, 'b, 'bt, 'st, 'v) env \<Rightarrow> ctx \<Rightarrow> clock \<Rightarrow> 'v gomap \<Rightarrow> (key \<times> 'v) list \<Rightarrow> 'v pending_set list
     \<Rightarrow> 'bt option \<Rightarrow> ('c, 's, 'b, 'st, 'v) warp
     \<Rightarrow> (go_error + 'v pending_set list) \<times> 'bt option \<times> ('c, 's, 'b, 'st, 'v) warp" where
  "commit_sets E ctx clk casm [] ps batch w = (Inr ps, batch, w)"
| "commit_sets E ctx clk casm ((k, v) # ss) ps batch w =
     (case prepare_set E ctx clk casm k v w of
        (Inl e, w1) \<Rightarrow> (Inl e, batch, w1)
      | (Inr p, w1) \<Rightarrow>
          (case commit_mode E ctx (tick 6 clk) k (pReg p) (\<lambda>clk batch w. apply_set E ctx clk p batch w) batch w1 of
             (Inl e, b1, w2) \<Rightarrow> (Inl e, b1, w2)
           | (Inr strong, b1, w2) \<Rightarrow>
               commit_sets E ctx (tick 20 clk) casm ss (if strong then ps @ [p] else ps) b1 w2))"

fun commit_deletes ::
    "('c, 's, 'b, 'bt, 'st, 'v) env \<Rightarrow> ctx \<Rightarrow> clock \<Rightarrow> key list \<Rightarrow> key list \<Rightarrow> 'bt option \<Rightarrow> ('c, 's, 'b, 'st, 'v) warp
     \<Rightarrow> (go_error + key list) \<times> 'bt option \<times> ('c, 's, 'b, 'st, 'v) warp" where
  "commit_deletes E ctx clk [] ps batch w = (Inr ps, batch, w)"
| "commit_deletes E ctx clk (k # ds) ps batch w =
     (case getReg k w of
        None \<Rightarrow> (Inl ErrUnregistered, batch, w)
      | Some r \<Rightarrow>
          (case commit_mode E ctx clk k r (\<lambda>clk batch w. apply_delete E ctx clk k batch w) batch w of
             (Inl e, b1, w2) \<Rightarrow> (Inl e, b1, w2)
           | (Inr strong, b1, w2) \<Rightarrow>
               commit_deletes E ctx (tick 14 clk) ds (if strong then ps @ [k] else ps) b1 w2))"

text \<open>The loops over \<^verbatim>\<open>strongSetOps\<close> and \<^verbatim>\<open>strongDeleteOps\<close>.\<close>

fun run_ops ::
    "(clock \<Rightarrow> 'p \<Rightarrow> 'bt option \<Rightarrow> 'w \<Rightarrow> go_error option \<times> 'bt option \<times> 'w) \<Rightarrow> clock \<Rightarrow> 'p list \<Rightarrow> 'bt option \<Rightarrow> 'w
     \<Rightarrow> go_error option \<times> 'bt option \<times> 'w" where
  "run_ops f clk [] batch w = (None, batch, w)"
| "run_ops f clk (p # ps) batch w =
     (case f clk p batch w of
        (Some e, b1, w1) \<Rightarrow> (Some e, b1, w1)
      | (None, b1, w1) \<Rightarrow> run_ops f (tick 6 clk) ps b1 w1)"

text \<open>\<^verbatim>\<open>b.Batch(ctx)\<close>, for a store that is a \<^verbatim>\<open>Batcher\<close>.\<close>

definition open_batch ::
    "('c, 's, 'b, 'bt, 'st, 'v) env \<Rightarrow> ctx \<Rightarrow> clock \<Rightarrow> ('c, 's, 'b, 'st, 'v) warp \<Rightarrow> go_error + 'bt option" where
  "open_batch E ctx clk w =
     (if w_store w = None then Inr None
      else case stBatch (sops E) of
             None \<Rightarrow> Inr None
           | Some mk \<Rightarrow> (case mk ctx clk of Inl e \<Rightarrow> Inl e | Inr b \<Rightarrow> Inr (Some b)))"

definition close_batch ::
    "('c, 's, 'b, 'bt, 'st, 'v) env \<Rightarrow> ctx \<Rightarrow> clock \<Rightarrow> 'bt option \<Rightarrow> ('c, 's, 'b, 'st, 'v) warp
     \<Rightarrow> go_error option \<times> ('c, 's, 'b, 'st, 'v) warp" where
  "close_batch E ctx clk batch w =
     (case (batch, w_store w) of
        (Some b, Some s) \<Rightarrow> (case bCommit (sops E) ctx clk b s of (e, s1) \<Rightarrow> (e, w\<lparr>w_store := Some s1\<rparr>))
      | _ \<Rightarrow> (None, w))"

text \<open>\<open>clks i\<close> is the clock of the i-th phase.\<close>

definition Commit ::
    "('c, 's, 'b, 'bt, 'st, 'v) env \<Rightarrow> (key \<times> 'v) list \<Rightarrow> key list \<Rightarrow> ctx \<Rightarrow> (nat \<Rightarrow> clock) \<Rightarrow> 'v txn
     \<Rightarrow> ('c, 's, 'b, 'st, 'v) warp \<Rightarrow> go_error option \<times> ('c, 's, 'b, 'st, 'v) warp" where
  "Commit E ss ds ctx clks t w =
     (case open_batch E ctx (clks 0) w of
        Inl e \<Rightarrow> (Some e, w)
      | Inr batch \<Rightarrow>
          (case commit_sets E ctx (clks 1) (t_cas t) ss [] batch w of
             (Inl e, b1, w1) \<Rightarrow> (Some e, w1)
           | (Inr sps, b1, w1) \<Rightarrow>
               (case commit_deletes E ctx (clks 2) ds [] b1 w1 of
                  (Inl e, b2, w2) \<Rightarrow> (Some e, w2)
                | (Inr dps, b2, w2) \<Rightarrow>
                    (case run_ops (\<lambda>clk. apply_set E ctx clk) (clks 3) sps b2 w2 of
                       (Some e, b3, w3) \<Rightarrow> (Some e, w3)
                     | (None, b3, w3) \<Rightarrow>
                         (case run_ops (\<lambda>clk. apply_delete E ctx clk) (clks 4) dps b3 w3 of
                            (Some e, b4, w4) \<Rightarrow> (Some e, w4)
                          | (None, b4, w4) \<Rightarrow> close_batch E ctx (clks 5) b4 w4)))))"

text \<open>\<open>ranges t ss ds\<close>: the two lists are possible iteration orders of the maps of \<open>t\<close>.\<close>

definition ranges :: "'v txn \<Rightarrow> (key \<times> 'v) list \<Rightarrow> key list \<Rightarrow> bool" where
  "ranges t ss ds \<longleftrightarrow> gm_ok ss \<and> map_of ss = map_of (t_sets t) \<and> distinct ds \<and> set ds = set (gm_keys (t_deletes t))"

text \<open>\<open>d\<close> is a value that committing the write of \<open>v\<close> to \<open>k\<close> may leave, when the cache answers at
  most what \<open>m\<close> holds: the outcome of the checks and the merge with what the cache had.\<close>

definition committed_value ::
    "'v engine \<Rightarrow> 'v gomap \<Rightarrow> (key \<Rightarrow> 'v option) \<Rightarrow> key \<Rightarrow> 'v \<Rightarrow> 'v \<Rightarrow> bool" where
  "committed_value eng casm m k v d \<longleftrightarrow>
     (\<exists>old now nv. (\<forall>o1. old = Some o1 \<longrightarrow> m k = Some (Data o1)) \<and>
        cas_merge eng casm k old (fresh_value v now) = Inr nv \<and> d = Data nv)"

lemma committed_cas: "committed_value eng casm m k v d \<Longrightarrow> gm_get casm k = Some x \<Longrightarrow> m k = Some x"
  by (auto simp: committed_value_def cas_merge_def split: option.splits if_splits)

lemma committed_cong: "m k = m' k \<Longrightarrow> committed_value eng casm m k v d \<Longrightarrow> committed_value eng casm m' k v d"
  by (simp add: committed_value_def)

section \<open>Queueing\<close>

datatype 'v txn_op = TSet key 'v | TDelete key | TCas key 'v 'v

fun txn_queue :: "'v txn \<Rightarrow> 'v txn_op \<Rightarrow> 'v txn" where
  "txn_queue t (TSet k v) = txn_Set k v t"
| "txn_queue t (TDelete k) = txn_Delete k t"
| "txn_queue t (TCas k old v) = txn_CompareAndSwap k old v t"

fun txn_key :: "'v txn_op \<Rightarrow> key" where
  "txn_key (TSet k v) = k"
| "txn_key (TDelete k) = k"
| "txn_key (TCas k old v) = k"

text \<open>What a transaction will do to a key.\<close>

definition queued :: "'v txn \<Rightarrow> key \<Rightarrow> 'v option \<times> 'v option \<times> bool" where
  "queued t k = (gm_get (t_sets t) k, gm_get (t_cas t) k, gm_get (t_deletes t) k \<noteq> None)"

fun txn_effect :: "'v txn_op \<Rightarrow> 'v option \<times> 'v option \<times> bool" where
  "txn_effect (TSet k v) = (Some v, None, False)"
| "txn_effect (TDelete k) = (None, None, True)"
| "txn_effect (TCas k old v) = (Some v, Some old, False)"

lemma queued_txn_queue: "queued (txn_queue t x) k = (if txn_key x = k then txn_effect x else queued t k)"
  by (cases x) (simp_all add: queued_def txn_Set_def txn_Delete_def txn_CompareAndSwap_def)

lemma queued_empty: "queued warp_Txn k = (None, None, False)"
  by (simp add: queued_def warp_Txn_def)

lemma queued_all:
  "queued (foldl txn_queue warp_Txn ops) k =
     (case filter (\<lambda>x. txn_key x = k) ops of [] \<Rightarrow> (None, None, False) | xs \<Rightarrow> txn_effect (last xs))"
proof (induct ops rule: rev_induct)
  case Nil
  then show ?case by (simp add: queued_empty)
next
  case (snoc x ops)
  then show ?case
    by (cases "filter (\<lambda>x. txn_key x = k) ops") (auto simp: queued_txn_queue)
qed

lemma txn_exclusive:
  assumes "t = foldl txn_queue warp_Txn ops"
  shows "gm_get (t_sets t) k = None \<or> gm_get (t_deletes t) k = None"
proof -
  have "queued t k \<in> {(None, None, False)} \<union> range txn_effect"
    unfolding assms queued_all by (simp split: list.split)
  moreover have no: "\<not> b" if "(Some v, c, b) = txn_effect x" for x :: "'a txn_op" and v c b using that by (cases x) auto
  ultimately show ?thesis by (cases "gm_get (t_sets t) k"; cases "gm_get (t_deletes t) k") (auto simp: queued_def dest: no)
qed

lemma txn_cas_has_set:
  assumes "t = foldl txn_queue warp_Txn ops" and "gm_get (t_cas t) k = Some x"
  shows "\<exists>v. gm_get (t_sets t) k = Some v"
proof -
  have "queued t k \<in> {(None, None, False)} \<union> range txn_effect"
    unfolding assms(1) queued_all by (simp split: list.split)
  moreover have cas: "\<exists>v. a = Some v" if "(a, Some c, b) = txn_effect y" for a c b and y :: "'a txn_op"
    using that by (cases y) auto
  ultimately show ?thesis using assms(2) by (auto simp: queued_def dest: cas)
qed

section \<open>Properties\<close>

text \<open>
  What a transaction will do to a key is the effect of the last operation queued for
  it, whatever was queued before and for other keys: a set or a deletion cancels a
  pending compare-and-swap, and a key is never both set and deleted.
\<close>

theorem txn_last_op_wins:
  "queued (foldl txn_queue warp_Txn ops) k =
     (case filter (\<lambda>x. txn_key x = k) ops of [] \<Rightarrow> (None, None, False) | xs \<Rightarrow> txn_effect (last xs))"
  by (rule queued_all)

end
