(* ===== verification/Warp_Commit.thy ===== *)
theory Warp_Commit
  imports Warp_Coherence Warp_Txn
begin

text \<open>
  Transactions and coherence. The locale \<open>write_through_batch\<close> adds the batches of the store
  to \<open>write_through\<close>; inside it, a commit that succeeds is shown to have put every queued
  write into the store and to leave the cache coherent with it.
\<close>

locale write_through_batch = write_through E coh sview sinv
  for E :: "('c, 's, 'b, 'bt, 'st, 'v) env" and coh and sview :: "'s \<Rightarrow> key \<Rightarrow> 'v option" and sinv +
  fixes bsets :: "'bt \<Rightarrow> key \<Rightarrow> 'v option"
    and bdels :: "'bt \<Rightarrow> key set"
    and binv :: "'bt \<Rightarrow> bool"
  assumes batch: "batch_store (sops E) sview sinv bsets bdels binv"

context write_through_batch
begin

definition eff :: "'bt \<Rightarrow> 's \<Rightarrow> key \<Rightarrow> 'v option" where
  "eff b s = (\<lambda>k. if k \<in> bdels b then None else sview s k) ++ bsets b"

text \<open>A state in the middle of a commit: the cache is coherent with \<open>m\<close>, what the store will
  hold once the batch is committed; \<open>S\<close> and \<open>D\<close> are the keys to set and to delete.\<close>

definition tx :: "key set \<Rightarrow> key set \<Rightarrow> (key \<Rightarrow> 'v option) \<Rightarrow> 'bt option \<Rightarrow> ('c, 's, 'b, 'st, 'v) warp \<Rightarrow> bool" where
  "tx S D m batch w \<longleftrightarrow> \<not> resilient w \<and> (\<forall>t \<in> set (tasks w). \<not> is_load t) \<and>
     coh (w_cache w) (\<lambda>k. {v. m k = Some (Data v)}) \<and>
     (\<exists>s. w_store w = Some s \<and> sinv s \<and>
        (case batch of None \<Rightarrow> m = sview s
         | Some b \<Rightarrow> binv b \<and> dom (bsets b) \<subseteq> S \<and> bdels b \<subseteq> D \<and> m = eff b s))"

lemma tx_frame [simp]:
  "tx S D m bt (w\<lparr>w_bus := b\<rparr>) = tx S D m bt w" "tx S D m bt (w\<lparr>strats := st\<rparr>) = tx S D m bt w"
  "tx S D m bt (w\<lparr>regs_heap := h\<rparr>) = tx S D m bt w" "tx S D m bt (w\<lparr>w_evictionCounter := n\<rparr>) = tx S D m bt w"
  by (simp_all add: tx_def)

lemma tx_helpers [simp]:
  "tx S D m bt (reg_touch r ttl t w) = tx S D m bt w"
  "tx S D m bt (strat_Record E clk k g w) = tx S D m bt w" "tx S D m bt (snd (strat_TTL E clk k g d w)) = tx S D m bt w"
  by (simp_all add: reg_touch_def reg_upd_def strat_Record_def strat_TTL_def split: option.splits prod.splits)

lemma tx_cops: "tx S D m bt w \<Longrightarrow> w_cops E w = cops E"
  by (simp add: tx_def w_cops_def)

lemma tx_start:
  assumes "wt s w" and "open_batch E ctx clk w = Inr batch"
  shows "tx S D (sview s) batch w"
proof -
  have w: "w_store w = Some s" "sinv s" "coh (w_cache w) (adm s)" "\<not> resilient w" "\<forall>t \<in> set (tasks w). \<not> is_load t"
    using assms(1) by (auto simp: wt_def)
  show ?thesis
  proof (cases batch)
    case None
    with w show ?thesis by (simp add: tx_def adm_def)
  next
    case (Some b)
    then obtain mk where "stBatch (sops E) = Some mk" "mk ctx clk = Inr b"
      using assms(2) w(1) by (auto simp: open_batch_def split: option.splits sum.splits)
    from batch_store.batch_new [OF batch this] have "bsets b = Map.empty" "bdels b = {}" "binv b" by auto
    with w Some show ?thesis by (simp add: tx_def adm_def eff_def)
  qed
qed

lemma tx_cache_Get:
  assumes "tx S D m bt w" and "cache_Get E ctx clk k w = (q, w')"
  shows "tx S D m bt w'" and "q = Inr (Some v) \<Longrightarrow> m k = Some (Data v)" and "merges w' = merges w"
proof -
  have B: "cache_base (cops E) coh" using cache by (rule cache_contract.axioms)
  obtain c where g: "cGet (cops E) ctx clk k (w_cache w) = (q, c)" and w': "w' = w\<lparr>w_cache := c\<rparr>"
    using assms tx_cops [OF assms(1)] by (auto simp: cache_Get_def split: prod.splits)
  have c: "coh (w_cache w) (\<lambda>k. {v. m k = Some (Data v)})" using assms(1) by (simp add: tx_def)
  show "tx S D m bt w'" using assms(1) cache_base.get_coh [OF B c g] by (simp add: tx_def w')
  show "q = Inr (Some v) \<Longrightarrow> m k = Some (Data v)" using cache_base.get_sound [OF B c] g by auto
  show "merges w' = merges w" by (simp add: w')
qed

lemma tx_apply_set:
  assumes "tx S D m bt w" and "pKey p \<in> S" and "S \<inter> D = {}" and "apply_set E ctx clk p bt w = (None, bt', w')"
  shows "tx S D (m(pKey p \<mapsto> Data (pVal p))) bt' w'" and "(bt' = None) = (bt = None)"
proof -
  let ?m = "m(pKey p \<mapsto> Data (pVal p))"
  obtain s where s: "w_store w = Some s" "sinv s" using assms(1) by (auto simp: tx_def)
  obtain e c where g: "cSet (cops E) ctx clk (pKey p) (pVal p) (pTTL p) (w_cache w) = (e, c)"
    by (cases "cSet (cops E) ctx clk (pKey p) (pVal p) (pTTL p) (w_cache w)")
  then have cs: "cache_Set E ctx clk (pKey p) (pVal p) (pTTL p) w = (e, w\<lparr>w_cache := c\<rparr>)"
    by (simp add: cache_Set_def tx_cops [OF assms(1)])
  with assms(4) have e: "e = None" by (cases e) (auto simp: apply_set_def)
  have c0: "coh (w_cache w) (\<lambda>k. {v. m k = Some (Data v)})" using assms(1) by (simp add: tx_def)
  have "coh c ((\<lambda>k. {v. m k = Some (Data v)})(pKey p := {pVal p}))"
    by (rule cache_contract.set_ok [OF cache c0 g [unfolded e]])
  then have c: "coh c (\<lambda>k. {v. ?m k = Some (Data v)})"
    by (rule cache_base.coh_mono [OF cache_contract.axioms(1) [OF cache]]) auto
  have "tx S D ?m bt' w' \<and> (bt' = None) = (bt = None)"
  proof (cases bt)
    case None
    obtain e2 s' where st: "stSet (sops E) ctx (tick 3 clk) (pKey p) (Data (pVal p)) s = (e2, s')"
      by (cases "stSet (sops E) ctx (tick 3 clk) (pKey p) (Data (pVal p)) s")
    with store_set_total [OF s(2), of ctx "tick 3 clk" "pKey p" "Data (pVal p)"] have e2: "e2 = None" by simp
    note s' = store_contract.set_view [OF store s(2) st [unfolded e2]] store_contract.set_invar [OF store s(2) st]
    have "m = sview s" using assms(1) s None by (auto simp: tx_def)
    with assms(1) c s' None have "tx S D ?m None (w\<lparr>w_cache := c, w_store := Some s'\<rparr>)" by (simp add: tx_def)
    with assms(4) None cs e s st e2 show ?thesis by (auto simp: apply_set_def store_Set_def)
  next
    case (Some b)
    obtain e2 b' where st: "bSet (sops E) ctx (tick 3 clk) (pKey p) (Data (pVal p)) b = (e2, b')"
      by (cases "bSet (sops E) ctx (tick 3 clk) (pKey p) (Data (pVal p)) b")
    have e2: "e2 = None" using assms(4) Some cs e st by (cases e2) (auto simp: apply_set_def)
    have b: "binv b" "dom (bsets b) \<subseteq> S" "bdels b \<subseteq> D" "m = eff b s" using assms(1) s Some by (auto simp: tx_def)
    note b' = batch_store.batch_set [OF batch b(1) st [unfolded e2]]
    have m': "?m = eff b' s" using b b' by (simp add: eff_def map_add_upd)
    from assms(1,2) c b(2,3) b' s have "tx S D ?m (Some b') (w\<lparr>w_cache := c\<rparr>)" unfolding m' by (auto simp: tx_def)
    with assms(4) Some cs e st e2 show ?thesis by (auto simp: apply_set_def)
  qed
  then show "tx S D ?m bt' w'" and "(bt' = None) = (bt = None)" by blast+
qed

lemma tx_apply_delete:
  assumes "tx S D m bt w" and "k \<in> D" and "S \<inter> D = {}" and "apply_delete E ctx clk k bt w = (None, bt', w')"
  shows "tx S D (if bt = None then m else m(k := None)) bt' w'" and "(bt' = None) = (bt = None)"
proof -
  let ?m = "if bt = None then m else m(k := None)"
  obtain s where s: "w_store w = Some s" "sinv s" using assms(1) by (auto simp: tx_def)
  obtain e c where g: "cInvalidate (cops E) ctx clk k (w_cache w) = (e, c)"
    by (cases "cInvalidate (cops E) ctx clk k (w_cache w)")
  then have cs: "cache_Invalidate E ctx clk k w = (e, w\<lparr>w_cache := c\<rparr>)"
    by (simp add: cache_Invalidate_def tx_cops [OF assms(1)])
  with assms(4) have e: "e = None" by (cases e) (auto simp: apply_delete_def)
  have c0: "coh (w_cache w) (\<lambda>k. {v. m k = Some (Data v)})" using assms(1) by (simp add: tx_def)
  have "coh c ((\<lambda>k. {v. m k = Some (Data v)})(k := {}))"
    by (rule cache_contract.invalidate_ok [OF cache c0 g [unfolded e]])
  then have c: "coh c (\<lambda>k. {v. ?m k = Some (Data v)})"
    by (rule cache_base.coh_mono [OF cache_contract.axioms(1) [OF cache]]) auto
  have "tx S D ?m bt' w' \<and> (bt' = None) = (bt = None)"
  proof (cases bt)
    case None
    with assms(1) c s have "tx S D ?m None (w\<lparr>w_cache := c\<rparr>)" by (auto simp: tx_def)
    with assms(4) None cs e show ?thesis by (auto simp: apply_delete_def)
  next
    case (Some b)
    obtain e2 b' where st: "bDelete (sops E) ctx (tick 3 clk) k b = (e2, b')"
      by (cases "bDelete (sops E) ctx (tick 3 clk) k b")
    have e2: "e2 = None" using assms(4) Some cs e st by (cases e2) (auto simp: apply_delete_def)
    have b: "binv b" "dom (bsets b) \<subseteq> S" "bdels b \<subseteq> D" "m = eff b s" using assms(1) s Some by (auto simp: tx_def)
    note b' = batch_store.batch_delete [OF batch b(1) st [unfolded e2]]
    have "bsets b k = None" using b(2) assms(2,3) by blast
    then have m': "?m = eff b' s" using b b' Some by (auto simp: eff_def fun_eq_iff map_add_def)
    from assms(1,2) c b(2,3) b' s have "tx S D ?m (Some b') (w\<lparr>w_cache := c\<rparr>)" unfolding m' by (auto simp: tx_def)
    with assms(4) Some cs e st e2 show ?thesis by (auto simp: apply_delete_def)
  qed
  then show "tx S D ?m bt' w'" and "(bt' = None) = (bt = None)" by blast+
qed

text \<open>The switch on the mode: an update is either done or pending.\<close>

lemma tx_commit_mode:
  assumes "commit_mode E ctx clk k r f bt w = (Inr strong, bt', w')" and "tx S D m bt w"
    and f: "\<And>clk bt' w'. f clk bt w = (None, bt', w') \<Longrightarrow>
      tx S D m' bt' w' \<and> (bt' = None) = (bt = None) \<and> merges w' = merges w"
  shows "tx S D (if strong then m else m') bt' w' \<and> (bt' = None) = (bt = None) \<and> merges w' = merges w"
proof (cases "rmode (regs_heap w ! r)")
  case ModeStrongLocal
  with assms(1) f show ?thesis by (fastforce simp: commit_mode_def split: option.splits prod.splits)
next
  case ModeEventualDistributed
  with assms(1) f show ?thesis
    by (fastforce simp: commit_mode_def split: option.splits prod.splits)
next
  case ModeStrongDistributed
  with assms(1,2) show ?thesis
    by (auto simp: commit_mode_def publish_await_def split: option.splits prod.splits)
qed

lemma merges_frame [simp]:
  "merges (reg_touch r ttl t w) = merges w" "merges (strat_Record E clk k g w) = merges w"
  "merges (snd (strat_TTL E clk k g d w)) = merges w" "merges (snd (cache_Set E ctx clk k v ttl w)) = merges w"
  "merges (snd (cache_Invalidate E ctx clk k w)) = merges w" "merges (snd (store_Set E ctx clk k x w)) = merges w"
  by (simp_all add: reg_touch_def reg_upd_def strat_Record_def strat_TTL_def cache_Set_def cache_Invalidate_def
      store_Set_def split: option.splits prod.splits)

lemma merges_apply_set: "apply_set E ctx clk p bt w = (e, bt', w') \<Longrightarrow> merges w' = merges w"
proof -
  assume a: "apply_set E ctx clk p bt w = (e, bt', w')"
  obtain e1 w1 where c: "cache_Set E ctx clk (pKey p) (pVal p) (pTTL p) w = (e1, w1)"
    by (cases "cache_Set E ctx clk (pKey p) (pVal p) (pTTL p) w")
  have "merges w1 = merges w" using merges_frame(4) [of ctx clk "pKey p" "pVal p" "pTTL p" w] by (simp add: c)
  moreover have "merges w2 = merges w1" if "store_Set E ctx (tick 3 clk) (pKey p) (Data (pVal p)) w1 = (e2, w2)" for e2 w2
    using merges_frame(6) [of ctx "tick 3 clk" "pKey p" "Data (pVal p)" w1] by (simp add: that)
  ultimately show ?thesis using a c by (auto simp: apply_set_def split: option.splits prod.splits)
qed

lemma merges_apply_delete: "apply_delete E ctx clk k bt w = (e, bt', w') \<Longrightarrow> merges w' = merges w"
proof -
  assume a: "apply_delete E ctx clk k bt w = (e, bt', w')"
  obtain e1 w1 where c: "cache_Invalidate E ctx clk k w = (e1, w1)" by (cases "cache_Invalidate E ctx clk k w")
  have "merges w1 = merges w" using merges_frame(5) [of ctx clk k w] by (simp add: c)
  with a c show ?thesis by (auto simp: apply_delete_def Let_def split: option.splits prod.splits)
qed

lemma tx_prepare_set:
  assumes "tx S D m bt w" and "prepare_set E ctx clk casm k v w = (Inr p, w')"
  shows "tx S D m bt w'" and "pKey p = k" and "merges w' = merges w"
    and "committed_value (merges w) casm m k v (Data (pVal p))"
proof -
  obtain r where r: "getReg k w = Some r" using assms(2) by (cases "getReg k w") (auto simp: prepare_set_def)
  let ?g = "regs_heap w ! r" and ?w1 = "strat_Record E clk k (regs_heap w ! r) w"
  obtain q w2 where g: "cache_Get E ctx (tick 2 clk) k ?w1 = (q, w2)" by (cases "cache_Get E ctx (tick 2 clk) k ?w1")
  have "tx S D m bt ?w1" using assms(1) by simp
  note w2 = tx_cache_Get [OF this g]
  obtain old where q: "q = Inr old" using assms(2) r g by (cases q) (auto simp: prepare_set_def Let_def)
  obtain nv where nv: "cas_merge (merges w2) casm k old (fresh_value v (clk 1)) = Inr nv"
    using assms(2) r g q by (auto simp: prepare_set_def Let_def split: sum.splits)
  obtain ttl w3 where t: "strat_TTL E (tick 5 clk) k ?g (rttl ?g) w2 = (ttl, w3)"
    by (cases "strat_TTL E (tick 5 clk) k ?g (rttl ?g) w2")
  have p: "w' = w3" "pKey p = k" "pVal p = nv" using assms(2) r g q nv t by (auto simp: prepare_set_def Let_def)
  show "tx S D m bt w'" using tx_helpers(3) [of S D m bt "tick 5 clk" k ?g "rttl ?g" w2] w2(1) by (simp add: t p)
  show "pKey p = k" by (rule p)
  show "merges w' = merges w" using merges_frame(3) [of "tick 5 clk" k ?g "rttl ?g" w2] w2(3) by (simp add: t p)
  have "merges w2 = merges w" using w2(3) by simp
  with w2(2) q nv p show "committed_value (merges w) casm m k v (Data (pVal p))"
    unfolding committed_value_def by (intro exI [of _ old] exI [of _ "clk 1"] exI [of _ nv]) auto
qed

lemma tx_commit_sets:
  assumes "commit_sets E ctx clk casm ss ps bt w = (Inr ps', bt', w')" and "tx S D m bt w" and "gm_ok ss"
    and "fst ` set ss \<subseteq> S" and "S \<inter> D = {}"
  shows "\<exists>m' qs. ps' = ps @ qs \<and> tx S D m' bt' w' \<and> (bt' = None) = (bt = None) \<and> pKey ` set qs \<subseteq> fst ` set ss \<and>
    (\<forall>k. k \<notin> fst ` set ss \<longrightarrow> m' k = m k) \<and>
    (\<forall>(k, v) \<in> set ss. \<exists>d. committed_value (merges w) casm m k v d \<and>
        (m' ++ map_of (map (\<lambda>p. (pKey p, Data (pVal p))) qs)) k = Some d)"
  using assms
proof (induct ss arbitrary: clk ps bt w m)
  case (Cons kv ss)
  obtain k v where kv: "kv = (k, v)" by (cases kv)
  obtain p w1 where p: "prepare_set E ctx clk casm k v w = (Inr p, w1)"
    using Cons.prems(1) kv by (cases "prepare_set E ctx clk casm k v w") (auto split: sum.splits)
  note w1 = tx_prepare_set [OF Cons.prems(2) p]
  let ?f = "\<lambda>clk bt w. apply_set E ctx clk p bt w"
  obtain strong b2 w2 where c: "commit_mode E ctx (tick 6 clk) k (pReg p) ?f bt w1 = (Inr strong, b2, w2)"
    using Cons.prems(1) kv p
    by (cases "commit_mode E ctx (tick 6 clk) k (pReg p) ?f bt w1") (auto split: sum.splits)
  have k: "k \<in> S" using Cons.prems(4) kv by simp
  let ?m = "if strong then m else m(k \<mapsto> Data (pVal p))"
  have ap: "tx S D (m(k \<mapsto> Data (pVal p))) bt'' w'' \<and> (bt'' = None) = (bt = None) \<and> merges w'' = merges w1"
    if "apply_set E ctx clk' p bt w1 = (None, bt'', w'')" for clk' bt'' w''
    using tx_apply_set [OF w1(1) _ Cons.prems(5) that] merges_apply_set [OF that] w1(2) k by simp
  have w2: "tx S D ?m b2 w2" "(b2 = None) = (bt = None)" "merges w2 = merges w1"
    using tx_commit_mode [OF c w1(1) ap] by auto
  have ss: "commit_sets E ctx (tick 20 clk) casm ss (if strong then ps @ [p] else ps) b2 w2 = (Inr ps', bt', w')"
    using Cons.prems(1) kv p c by simp
  have nk: "k \<notin> fst ` set ss" and ok: "gm_ok ss" "fst ` set ss \<subseteq> S" using Cons.prems(3,4) kv by auto
  from Cons.hyps [OF ss w2(1) ok Cons.prems(5)] obtain m' qs where
    h: "ps' = (if strong then ps @ [p] else ps) @ qs" "tx S D m' bt' w'" "(bt' = None) = (b2 = None)"
       "pKey ` set qs \<subseteq> fst ` set ss" "\<forall>j. j \<notin> fst ` set ss \<longrightarrow> m' j = ?m j"
       "\<forall>(j, v) \<in> set ss. \<exists>d. committed_value (merges w2) casm ?m j v d \<and>
          (m' ++ map_of (map (\<lambda>p. (pKey p, Data (pVal p))) qs)) j = Some d" by auto
  let ?qs = "if strong then p # qs else qs"
  have no: "map_of (map (\<lambda>p. (pKey p, Data (pVal p))) qs) k = None"
  proof -
    have "k \<notin> pKey ` set qs" using h(4) nk by blast
    then show ?thesis by (simp add: map_of_eq_None_iff image_image)
  qed
  define Q where "Q = (\<lambda>j u. \<exists>d. committed_value (merges w) casm m j u d \<and>
    (m' ++ map_of (map (\<lambda>p. (pKey p, Data (pVal p))) ?qs)) j = Some d)"
  have Qk: "Q k v" unfolding Q_def
    using w1(2,4) no h(5) nk by (intro exI [of _ "Data (pVal p)"]) (auto simp: map_add_def)
  have Qs: "Q j u" if "(j, u) \<in> set ss" for j u
  proof -
    have "j \<noteq> k" using that nk by (auto intro: fst_in_image)
    moreover from bspec [OF h(6) that] obtain d where d: "committed_value (merges w2) casm ?m j u d"
      "(m' ++ map_of (map (\<lambda>p. (pKey p, Data (pVal p))) qs)) j = Some d" unfolding prod.case by (elim exE conjE) (rule that)
    ultimately have "?m j = m j" by simp
    from committed_cong [of ?m j m, OF this d(1)] have "committed_value (merges w) casm m j u d" using w1(3) w2(3) by simp
    moreover have "(m' ++ map_of (map (\<lambda>p. (pKey p, Data (pVal p))) ?qs)) j = Some d"
      using d(2) \<open>j \<noteq> k\<close> w1(2) by (auto simp: map_add_def)
    ultimately show ?thesis unfolding Q_def by (intro exI conjI)
  qed
  have "\<forall>(j, u) \<in> set (kv # ss). Q j u" using Qk Qs kv by auto
  moreover have "\<forall>j. j \<notin> fst ` set (kv # ss) \<longrightarrow> m' j = m j" using h(5) kv by simp
  moreover have "ps' = ps @ ?qs" "pKey ` set ?qs \<subseteq> fst ` set (kv # ss)" using h(1,4) w1(2) kv by auto
  moreover have "(bt' = None) = (bt = None)" using h(3) w2(2) by simp
  ultimately show ?case using h(2) unfolding Q_def by (intro exI [of _ m'] exI [of _ ?qs] conjI)
next
  case Nil
  then show ?case by (intro exI [of _ m] exI [of _ "[]"]) simp
qed

lemma commit_sets_distinct:
  "commit_sets E ctx clk casm ss ps bt w = (Inr ps', bt', w') \<Longrightarrow> gm_ok ss \<Longrightarrow>
     \<exists>qs. ps' = ps @ qs \<and> pKey ` set qs \<subseteq> fst ` set ss \<and> distinct (map pKey qs)"
proof (induct ss arbitrary: clk ps bt w)
  case (Cons kv ss)
  obtain k v where kv: "kv = (k, v)" by (cases kv)
  obtain p w1 where p: "prepare_set E ctx clk casm k v w = (Inr p, w1)"
    using Cons.prems(1) kv by (cases "prepare_set E ctx clk casm k v w") (auto split: sum.splits)
  let ?f = "\<lambda>clk bt w. apply_set E ctx clk p bt w"
  obtain strong b2 w2 where c: "commit_mode E ctx (tick 6 clk) k (pReg p) ?f bt w1 = (Inr strong, b2, w2)"
    using Cons.prems(1) kv p
    by (cases "commit_mode E ctx (tick 6 clk) k (pReg p) ?f bt w1") (auto split: sum.splits)
  have pk: "pKey p = k"
    using p by (auto simp: prepare_set_def Let_def split: option.splits prod.splits sum.splits)
  have "commit_sets E ctx (tick 20 clk) casm ss (if strong then ps @ [p] else ps) b2 w2 = (Inr ps', bt', w')"
    using Cons.prems(1) kv p c by simp
  from Cons.hyps [OF this] Cons.prems(2) kv obtain qs where
    "ps' = (if strong then ps @ [p] else ps) @ qs" "pKey ` set qs \<subseteq> fst ` set ss" "distinct (map pKey qs)" by auto
  then show ?case
    using pk kv Cons.prems(2) by (intro exI [of _ "if strong then p # qs else qs"]) auto
qed simp

lemma tx_commit_deletes:
  assumes "commit_deletes E ctx clk ds ps bt w = (Inr ps', bt', w')" and "tx S D m bt w" and "set ds \<subseteq> D" and "S \<inter> D = {}"
  shows "\<exists>m' qs. ps' = ps @ qs \<and> tx S D m' bt' w' \<and> (bt' = None) = (bt = None) \<and> set qs \<subseteq> set ds \<and>
    (\<forall>k. k \<notin> set ds \<longrightarrow> m' k = m k) \<and> (bt \<noteq> None \<longrightarrow> (\<forall>k \<in> set ds. k \<in> set qs \<or> m' k = None))"
  using assms
proof (induct ds arbitrary: clk ps bt w m)
  case (Cons k ds)
  obtain r where r: "getReg k w = Some r" using Cons.prems(1) by (cases "getReg k w") auto
  let ?f = "\<lambda>clk bt w. apply_delete E ctx clk k bt w"
  obtain strong b2 w2 where c: "commit_mode E ctx clk k r ?f bt w = (Inr strong, b2, w2)"
    using Cons.prems(1) r by (cases "commit_mode E ctx clk k r ?f bt w") (auto split: sum.splits)
  let ?m = "if bt = None then m else m(k := None)"
  have ap: "tx S D ?m bt'' w'' \<and> (bt'' = None) = (bt = None) \<and> merges w'' = merges w"
    if "apply_delete E ctx clk' k bt w = (None, bt'', w'')" for clk' bt'' w''
    using tx_apply_delete [OF Cons.prems(2) _ Cons.prems(4) that] merges_apply_delete [OF that] Cons.prems(3) by simp
  have w2: "tx S D (if strong then m else ?m) b2 w2" "(b2 = None) = (bt = None)"
    using tx_commit_mode [OF c Cons.prems(2) ap] by auto
  have "commit_deletes E ctx (tick 14 clk) ds (if strong then ps @ [k] else ps) b2 w2 = (Inr ps', bt', w')"
    using Cons.prems(1) r c by simp
  from Cons.hyps [OF this w2(1) _ Cons.prems(4)] Cons.prems(3) obtain m' qs where
    h: "ps' = (if strong then ps @ [k] else ps) @ qs" "tx S D m' bt' w'" "(bt' = None) = (b2 = None)" "set qs \<subseteq> set ds"
       "\<forall>j. j \<notin> set ds \<longrightarrow> m' j = (if strong then m else ?m) j" "b2 \<noteq> None \<longrightarrow> (\<forall>k \<in> set ds. k \<in> set qs \<or> m' k = None)"
    by auto
  have "k \<in> set (if strong then k # qs else qs) \<or> m' k = None" if "bt \<noteq> None"
  proof (cases "strong \<or> k \<in> set ds")
    case True
    with that h(6) w2(2) show ?thesis by auto
  next
    case False
    with that h(5) have "m' k = (m(k := None)) k" by (cases bt) auto
    then have "m' k = None" by simp
    then show ?thesis ..
  qed
  moreover have "\<forall>j. j \<notin> set (k # ds) \<longrightarrow> m' j = m j" using h(5) by simp
  ultimately show ?case
    by (intro exI [of _ m'] exI [of _ "if strong then k # qs else qs"]) (use h(1-4,6) w2(2) in auto)
qed auto

lemma tx_run_sets:
  assumes "run_ops (\<lambda>clk. apply_set E ctx clk) clk ps bt w = (None, bt', w')" and "tx S D m bt w"
    and "pKey ` set ps \<subseteq> S" and "S \<inter> D = {}" and "distinct (map pKey ps)"
  shows "tx S D (m ++ map_of (map (\<lambda>p. (pKey p, Data (pVal p))) ps)) bt' w' \<and> (bt' = None) = (bt = None)"
  using assms
proof (induct ps arbitrary: clk bt w m)
  case (Cons p ps)
  obtain b1 w1 where a: "apply_set E ctx clk p bt w = (None, b1, w1)"
    using Cons.prems(1) by (cases "apply_set E ctx clk p bt w") (auto split: option.splits)
  have w1: "tx S D (m(pKey p \<mapsto> Data (pVal p))) b1 w1" "(b1 = None) = (bt = None)"
    using tx_apply_set [OF Cons.prems(2) _ Cons.prems(4) a] Cons.prems(3) by simp_all
  let ?q = "map_of (map (\<lambda>p. (pKey p, Data (pVal p))) ps)"
  have "pKey p \<notin> dom ?q" using Cons.prems(5) by (auto simp: dom_map_of_conv_image_fst)
  then have "m(pKey p \<mapsto> Data (pVal p)) ++ ?q = m ++ ?q(pKey p \<mapsto> Data (pVal p))"
    by (simp add: map_add_upd_left)
  then have eq: "m ++ map_of (map (\<lambda>p. (pKey p, Data (pVal p))) (p # ps)) = m(pKey p \<mapsto> Data (pVal p)) ++ ?q" by simp
  have r: "run_ops (\<lambda>clk. apply_set E ctx clk) (tick 6 clk) ps b1 w1 = (None, bt', w')"
    using Cons.prems(1) a by simp
  have "pKey ` set ps \<subseteq> S" "distinct (map pKey ps)" using Cons.prems(3,5) by simp_all
  from Cons.hyps [OF r w1(1) this(1) Cons.prems(4) this(2)] w1(2) show ?case unfolding eq by metis
qed simp

lemma tx_run_deletes:
  assumes "run_ops (\<lambda>clk. apply_delete E ctx clk) clk ps bt w = (None, bt', w')" and "tx S D m bt w"
    and "set ps \<subseteq> D" and "S \<inter> D = {}"
  shows "tx S D (if bt = None then m else (\<lambda>k. if k \<in> set ps then None else m k)) bt' w' \<and> (bt' = None) = (bt = None)"
  using assms
proof (induct ps arbitrary: clk bt w m)
  case (Cons k ps)
  obtain b1 w1 where a: "apply_delete E ctx clk k bt w = (None, b1, w1)"
    using Cons.prems(1) by (cases "apply_delete E ctx clk k bt w") (auto split: option.splits)
  have w1: "tx S D (if bt = None then m else m(k := None)) b1 w1" "(b1 = None) = (bt = None)"
    using tx_apply_delete [OF Cons.prems(2) _ Cons.prems(4) a] Cons.prems(3) by simp_all
  have r: "run_ops (\<lambda>clk. apply_delete E ctx clk) (tick 6 clk) ps b1 w1 = (None, bt', w')"
    using Cons.prems(1) a by simp
  have ps: "set ps \<subseteq> D" using Cons.prems(3) by simp
  let ?m = "if bt = None then m else m(k := None)"
  have IH: "tx S D (if b1 = None then ?m else (\<lambda>j. if j \<in> set ps then None else ?m j)) bt' w'" "(bt' = None) = (b1 = None)"
    using Cons.hyps [OF r w1(1) ps Cons.prems(4)] by blast+
  have "(\<lambda>j. if j \<in> set ps then None else (m(k := None)) j) = (\<lambda>j. if j \<in> set (k # ps) then None else m j)"
    by (simp add: fun_eq_iff)
  then have eq: "(if b1 = None then ?m else (\<lambda>j. if j \<in> set ps then None else ?m j)) =
      (if bt = None then m else (\<lambda>j. if j \<in> set (k # ps) then None else m j))"
    using w1(2) by (cases bt; cases b1) (simp_all del: fun_upd_apply)
  show ?case using IH(1) unfolding eq by (intro conjI) (assumption, simp only: IH(2) w1(2))
qed auto

lemma tx_close_batch:
  assumes "close_batch E ctx clk bt w = (None, w')" and "tx S D m bt w" and "S \<inter> D = {}"
  shows "\<exists>s'. wt s' w' \<and> sview s' = m"
proof -
  obtain s where s: "w_store w = Some s" "sinv s" using assms(2) by (auto simp: tx_def)
  show ?thesis
  proof (cases bt)
    case None
    with assms s show ?thesis by (auto simp: close_batch_def tx_def wt_def adm_def)
  next
    case (Some b)
    have b: "binv b" "dom (bsets b) \<subseteq> S" "bdels b \<subseteq> D" "m = eff b s" using assms(2) s Some by (auto simp: tx_def)
    obtain s' where c: "bCommit (sops E) ctx clk b s = (None, s')" and w': "w' = w\<lparr>w_store := Some s'\<rparr>"
      using assms(1) Some s by (auto simp: close_batch_def split: prod.splits)
    have "dom (bsets b) \<inter> bdels b = {}" using b(2,3) assms(3) by blast
    from batch_store.batch_commit [OF batch s(2) b(1) this c] have "sinv s'" "sview s' = m"
      by (auto simp: b(4) eff_def)
    with assms(2) show ?thesis by (auto simp: w' tx_def wt_def adm_def)
  qed
qed

text \<open>A commit that succeeds: every queued write is in the store, every deletion took effect if
  the store has batches, everything else is unchanged, and the cache is coherent again.\<close>

lemma wt_Commit:
  assumes "wt s w" and "Commit E ss ds ctx clks t w = (None, w')" and "gm_ok ss" and "fst ` set ss \<inter> set ds = {}"
  shows "\<exists>s'. wt s' w' \<and>
    (\<forall>(k, v) \<in> set ss. \<exists>d. committed_value (merges w) (t_cas t) (sview s) k v d \<and> sview s' k = Some d) \<and>
    (stBatch (sops E) \<noteq> None \<longrightarrow> (\<forall>k \<in> set ds. sview s' k = None)) \<and>
    (\<forall>k. k \<notin> fst ` set ss \<longrightarrow> k \<notin> set ds \<longrightarrow> sview s' k = sview s k)"
proof -
  let ?S = "fst ` set ss" and ?D = "set ds"
  obtain bt where o: "open_batch E ctx (clks 0) w = Inr bt"
    using assms(2) by (cases "open_batch E ctx (clks 0) w") (auto simp: Commit_def)
  have bt: "bt \<noteq> None" if "stBatch (sops E) \<noteq> None"
    using o that assms(1) by (auto simp: open_batch_def wt_def split: option.splits sum.splits)
  note t0 = tx_start [OF assms(1) o, of ?S ?D]
  obtain sps b1 w1 where c1: "commit_sets E ctx (clks 1) (t_cas t) ss [] bt w = (Inr sps, b1, w1)"
    using assms(2) o
    by (cases "commit_sets E ctx (clks 1) (t_cas t) ss [] bt w") (auto simp: Commit_def split: sum.splits)
  from tx_commit_sets [OF c1 t0 assms(3) order_refl assms(4)] obtain m1 where
    h1: "tx ?S ?D m1 b1 w1" "(b1 = None) = (bt = None)" "pKey ` set sps \<subseteq> ?S" "\<forall>k. k \<notin> ?S \<longrightarrow> m1 k = sview s k"
      "\<forall>(k, v) \<in> set ss. \<exists>d. committed_value (merges w) (t_cas t) (sview s) k v d \<and>
         (m1 ++ map_of (map (\<lambda>p. (pKey p, Data (pVal p))) sps)) k = Some d" by auto
  have dist: "distinct (map pKey sps)" using commit_sets_distinct [OF c1] assms(3) by simp
  obtain dps b2 w2 where c2: "commit_deletes E ctx (clks 2) ds [] b1 w1 = (Inr dps, b2, w2)"
    using assms(2) o c1
    by (cases "commit_deletes E ctx (clks 2) ds [] b1 w1") (auto simp: Commit_def split: sum.splits)
  from tx_commit_deletes [OF c2 h1(1) order_refl assms(4)] obtain m2 where
    h2: "tx ?S ?D m2 b2 w2" "(b2 = None) = (b1 = None)" "set dps \<subseteq> ?D" "\<forall>k. k \<notin> ?D \<longrightarrow> m2 k = m1 k"
      "b1 \<noteq> None \<longrightarrow> (\<forall>k \<in> ?D. k \<in> set dps \<or> m2 k = None)" by auto
  obtain b3 w3 where c3: "run_ops (\<lambda>clk. apply_set E ctx clk) (clks 3) sps b2 w2 = (None, b3, w3)"
    using assms(2) o c1 c2
    by (cases "run_ops (\<lambda>clk. apply_set E ctx clk) (clks 3) sps b2 w2") (auto simp: Commit_def split: option.splits)
  let ?q = "map_of (map (\<lambda>p. (pKey p, Data (pVal p))) sps)"
  have h3: "tx ?S ?D (m2 ++ ?q) b3 w3" "(b3 = None) = (b2 = None)"
    using tx_run_sets [OF c3 h2(1) h1(3) assms(4) dist] by auto
  obtain b4 w4 where c4: "run_ops (\<lambda>clk. apply_delete E ctx clk) (clks 4) dps b3 w3 = (None, b4, w4)"
    using assms(2) o c1 c2 c3
    by (cases "run_ops (\<lambda>clk. apply_delete E ctx clk) (clks 4) dps b3 w3") (auto simp: Commit_def split: option.splits)
  let ?m = "if b3 = None then m2 ++ ?q else (\<lambda>k. if k \<in> set dps then None else (m2 ++ ?q) k)"
  have h4: "tx ?S ?D ?m b4 w4" using tx_run_deletes [OF c4 h3(1) h2(3) assms(4)] by auto
  have "close_batch E ctx (clks 5) b4 w4 = (None, w')" using assms(2) o c1 c2 c3 c4 by (simp add: Commit_def)
  from tx_close_batch [OF this h4 assms(4)] obtain s' where s': "wt s' w'" "sview s' = ?m" by blast
  have q: "?q k = None" if "k \<notin> ?S" for k using that h1(3) by (auto simp: map_of_eq_None_iff image_image)
  have S: "?m k = (m1 ++ ?q) k" if "k \<in> ?S" for k
    using that h2(3,4) assms(4) by (auto simp: map_add_def split: option.splits)
  have D: "?m k = None" if "k \<in> ?D" "b3 \<noteq> None" for k
  proof -
    have "k \<notin> ?S" using that assms(4) by blast
    with that q [of k] h2(2,5) h3(2) show ?thesis by (auto simp: map_add_def)
  qed
  have F: "?m k = sview s k" if "k \<notin> ?S" "k \<notin> ?D" for k
    using that q [of k] h1(4) h2(3,4) by (auto simp: map_add_def)
  have W: "\<exists>d. committed_value (merges w) (t_cas t) (sview s) k v d \<and> ?m k = Some d" if "(k, v) \<in> set ss" for k v
    using bspec [OF h1(5) that] S [OF fst_in_image [OF that]] by auto
  have B: "b3 \<noteq> None" if "stBatch (sops E) \<noteq> None" using bt [OF that] h1(2) h2(2) h3(2) by simp
  show ?thesis
  proof (intro exI [of _ s'] conjI, unfold s'(2))
    show "\<forall>(k, v) \<in> set ss. \<exists>d. committed_value (merges w) (t_cas t) (sview s) k v d \<and> ?m k = Some d"
      by (intro ballI) (clarify, rule W)
    show "stBatch (sops E) \<noteq> None \<longrightarrow> (\<forall>k \<in> ?D. ?m k = None)" by (intro impI ballI D B)
    show "\<forall>k. k \<notin> ?S \<longrightarrow> k \<notin> ?D \<longrightarrow> ?m k = sview s k" by (intro allI impI F)
  qed (rule s'(1))
qed

end

section \<open>The in-memory deployment\<close>

interpretation warp_lru: write_through_batch "lru_env est lib pick" lru_coh "\<lambda>s k. gm_get s k" "\<lambda>s. gm_ok s"
  "\<lambda>b k. gm_get (sets b) k" "\<lambda>b. set (deletes b)" "\<lambda>b. gm_ok (sets b)"
  for est :: "'v mval \<Rightarrow> int" and lib :: "('sm, 'im) bus_lib" and pick
proof (intro write_through_batch.intro write_through.intro write_through_batch_axioms.intro)
  show "cache_contract (cops (lru_env est lib pick)) lru_coh"
    using lru.entries.cache_contract_axioms by (simp add: lru_env_def)
  show "store_contract (sops (lru_env est lib pick)) (\<lambda>s k. gm_get s k) (\<lambda>s. gm_ok s)"
    using mem.store_contract_axioms by (simp add: lru_env_def)
  show "batch_store (sops (lru_env est lib pick)) (\<lambda>s k. gm_get s k) (\<lambda>s. gm_ok s)
      (\<lambda>b k. gm_get (sets b) k) (\<lambda>b. set (deletes b)) (\<lambda>b. gm_ok (sets b))"
    using membatch.batch_store_axioms by (simp add: lru_env_def)
  show "gm_ok s \<Longrightarrow> fst (stSet (sops (lru_env est lib pick)) ctx clk k d s) = None" for s ctx clk k d
    by (simp add: lru_env_def mem_ops_def mem_Set_def)
  show "lru_coh c' M" if "lru_coh c M" and "cSet (cops (lru_env est lib pick)) ctx clk k v ttl c = (Some e, c')"
    for c M ctx clk k v ttl e c'
    using that by (auto simp: lru_env_def lru_ops_def lru_Set_def split: option.splits)
qed

text \<open>
  The steps of a warp: every operation of the program, the goroutines it queued, in any
  order, the events the bus delivers, and the goroutines of its leases. A step of
  \<^verbatim>\<open>GetOrSet\<close> is for a key without a grace period and a step of \<^verbatim>\<open>Commit\<close> is one that
  succeeds.
\<close>

inductive warp_step ::
    "('c, 's, 'b, 'bt, 'st, 'v) env \<Rightarrow> ('c, 's, 'b, 'st, 'v) warp \<Rightarrow> ('c, 's, 'b, 'st, 'v) warp \<Rightarrow> bool" for E where
  step_Get: "warp_step E w (snd (warp_Get E None late ctx clk k w))"
| step_GetOrSet: "no_grace k w \<Longrightarrow> warp_step E w (snd (GetOrSet E None late ctx clk k loader w))"
| step_GetAt: "warp_step E w (snd (GetAt E ctx clk k ts w))"
| step_Set: "warp_step E w (snd (warp_Set E ctx clk k v w))"
| step_Invalidate: "warp_step E w (snd (warp_Invalidate E ctx clk k w))"
| step_InvalidateLocal: "warp_step E w (snd (InvalidateLocal E ctx clk k w))"
| step_Register: "warp_step E w (snd (Register k m ttl opts w))"
| step_RegisterDynamicTTL: "warp_step E w (snd (RegisterDynamicTTL k m st opts w))"
| step_Unregister: "warp_step E w (Unregister k w)"
| step_SetQuorum: "warp_step E w (snd (SetQuorum k n w))"
| step_Merge: "warp_step E w (warp_Merge k fn w)"
| step_Subscribe: "warp_step E w (snd (core_Subscribe E ctx clk k w))"
| step_Unsubscribe: "warp_step E w (snd (core_Unsubscribe E ctx clk k ch w))"
| step_Warmup: "warp_step E w (Warmup E gctx skip ks ctx fclk clk w)"
| step_task: "t \<in> set (tasks w) \<Longrightarrow> warp_step E w (run_task E None clk t (w\<lparr>tasks := remove1 t (tasks w)\<rparr>))"
| step_event: "warp_step E w (listen_event E clk ev w)"
| step_GrantLease: "warp_step E w (snd (GrantLease E uuid ctx clk ttl w))"
| step_AttachKey: "warp_step E w (AttachKey E clk lid k w)"
| step_RevokeLease: "warp_step E w (RevokeLease E ctx clk lid w)"
| step_lease_tick: "warp_step E w (lease_tick now lid w)"
| step_lease_expire: "warp_step E w (lease_expire E clk lid w)"
| step_lease_notice: "warp_step E w (lease_notice E clk lid w)"
| step_Commit:
    "t = foldl txn_queue warp_Txn ops \<Longrightarrow> ranges t ss ds \<Longrightarrow> Commit E ss ds ctx clks t w = (None, w') \<Longrightarrow> warp_step E w w'"

text \<open>The states a warp can reach from its construction, the cache not being wrapped for resiliency.\<close>

inductive warp_reach ::
    "('v mval lru, 's, 'b, 'bt, 'st, 'v) env \<Rightarrow> 's \<Rightarrow> ('v mval lru, 's, 'b, 'st, 'v) warp \<Rightarrow> bool" for E s0 where
  reach_New:
    "set copts \<subseteq> lru_options \<Longrightarrow> set opts \<subseteq> {core_WithMetrics, core_WithTracing} \<union> range WithPublishTimeout \<Longrightarrow>
       warp_reach E s0 (warp_New (NewInMemory copts) (Some s0) bus eng sts opts)"
| reach_step: "warp_reach E s0 w \<Longrightarrow> warp_step E w w' \<Longrightarrow> warp_reach E s0 w'"

lemma ranges_disjoint:
  assumes "t = foldl txn_queue warp_Txn ops" and "ranges t ss ds"
  shows "fst ` set ss \<inter> set ds = {}"
proof -
  have "gm_get (t_sets t) k \<noteq> None" if "k \<in> fst ` set ss" for k
    using that assms(2) by (metis gm_get_None_iff list.set_map ranges_def)
  moreover have "gm_get (t_deletes t) k \<noteq> None" if "k \<in> set ds" for k
    using that assms(2) by (simp add: ranges_def gm_get_None_iff)
  ultimately show ?thesis using txn_exclusive [OF assms(1)] by blast
qed

context write_through_batch
begin

lemma wt_step:
  assumes "warp_step E w w'" and "wt s w" and "vgetat E = None"
  shows "\<exists>s'. wt s' w'"
  using assms(1)
proof cases
  case (step_Get late ctx clk k)
  obtain d e w1 where g: "warp_Get E None late ctx clk k w = ((d, e), w1)"
    by (cases "warp_Get E None late ctx clk k w") (auto simp: prod_eq_iff)
  from wt_Get(1) [OF assms(2) g] step_Get g show ?thesis by auto
next
  case (step_GetOrSet k late ctx clk loader)
  then show ?thesis using wt_GetOrSet [OF assms(2) _ prod.collapse [symmetric], where k = k and late = late] by blast
next
  case (step_Set ctx clk k v)
  then show ?thesis
    using wt_Set [OF assms(2) prod.collapse [symmetric], where k = k and d = v] by (auto simp: wrote_def)
next
  case (step_Invalidate ctx clk k)
  then show ?thesis using wt_Invalidate [OF assms(2) prod.collapse [symmetric], where k = k] by blast
next
  case (step_InvalidateLocal ctx clk k)
  then show ?thesis using wt_cache_Invalidate [OF assms(2), of ctx clk k] by (auto simp: InvalidateLocal_def)
next
  case (step_Warmup gctx skip ks ctx fclk clk)
  then show ?thesis using wt_Warmup [OF assms(2), of gctx skip ks ctx fclk clk] by blast
next
  case (step_task t clk)
  moreover have "\<not> is_load t" using assms(2) step_task(2) by (simp add: wt_def)
  ultimately show ?thesis using wt_run_task [OF wt_drop_task [OF assms(2)]] by blast
next
  case (step_Commit t ops ss ds ctx clks)
  have "gm_ok ss" using step_Commit(2) by (simp add: ranges_def)
  from wt_Commit [OF assms(2) step_Commit(3) this ranges_disjoint [OF step_Commit(1,2)]] show ?thesis by blast
qed (use assms(2,3) in \<open>auto intro: wt_GetAt wt_registry wt_bus wt_lease\<close>)

lemma wt_New:
  assumes "set opts \<subseteq> {core_WithMetrics, core_WithTracing} \<union> range WithPublishTimeout"
    and "coh c (\<lambda>_. {})" and "sinv s"
  shows "wt s (warp_New c (Some s) b m sts opts)"
proof -
  have "coh c (adm s)" by (rule cache_base.coh_mono [OF cache_contract.axioms(1) [OF cache] assms(2)]) simp
  then have i: "wt s (w\<lparr>w_cache := c, w_store := Some s, tasks := [], resilient := False\<rparr>)" for w
    using assms(3) by (simp add: wt_def)
  have step: "wt s (opt w)" if "wt s w" "opt \<in> {core_WithMetrics, core_WithTracing} \<union> range WithPublishTimeout" for opt w
    using that by (auto simp: core_WithMetrics_def core_WithTracing_def WithPublishTimeout_def wt_def)
  have "wt s (fold (\<lambda>opt w. opt w) opts w)" if "wt s w" for w
    using that assms(1) by (induct opts arbitrary: w) (auto intro: step)
  from this [OF i [of "warp_New c (Some s) b m sts []"]] show ?thesis by (simp add: warp_New_def)
qed

end

text \<open>Every reachable state is coherent.\<close>

lemma reach_coherent:
  assumes "warp_reach (lru_env est lib pick) s0 w" and "gm_ok s0"
  shows "\<exists>s. warp_lru.wt s w"
  using assms
proof (induct rule: warp_reach.induct)
  case (reach_New copts opts bus eng sts)
  then show ?case using warp_lru.wt_New [OF reach_New(2) lru_coh_New [OF reach_New(1)]] by blast
next
  case (reach_step w w')
  then obtain s where "warp_lru.wt s w" by blast
  from warp_lru.wt_step [OF reach_step(3) this] show ?case by (simp add: lru_env_def)
qed

lemma reach_store:
  assumes "warp_reach (lru_env est lib pick) s0 w" and "gm_ok s0" and "w_store w = Some s"
  shows "warp_lru.wt s w"
  using reach_coherent [OF assms(1,2)] assms(3) by (auto simp: warp_lru.wt_def)

text \<open>A concrete reachable state, a key registered and set.\<close>

definition local_a where
  "local_a = snd (Register ''a'' ModeStrongLocal 100 [] local_warp)"

definition local_a5 where
  "local_a5 = snd (warp_Set local_env background (\<lambda>_. 7) ''a'' 5 local_a)"

lemma reach_local_a: "warp_reach local_env [] local_a"
  unfolding local_a_def local_warp_def NewInMemoryStore_def
  by (rule reach_step [OF reach_New step_Register]) simp_all

lemma reach_local_a5: "warp_reach local_env [] local_a5"
  unfolding local_a5_def by (rule reach_step [OF reach_local_a step_Set])

lemmas commit_eval = warp_eval Commit_def open_batch_def mem_Batch_def prepare_set_def cas_merge_def commit_mode_def
  apply_set_def apply_delete_def batch_Set_def batch_Delete_def close_batch_def mem_Commit_def cache_Invalidate_def
  lru_Invalidate_def drop_item_def eviction_inc_def txn_Set_def txn_Delete_def txn_CompareAndSwap_def warp_Txn_def
  ranges_def local_a_def local_a5_def

section \<open>Properties\<close>








end
