(* ===== verification/Warp_Lock.thy ===== *)
theory Warp_Lock
  imports Warp_Syncbus
begin

text \<open>
  The in-memory locker (src/lock/memory.go). A node keeps the set of held keys and
  announces its own locks and unlocks on the bus; the two goroutines of a subscribed key
  apply the announcements of other nodes, and skip as many events as the node itself has
  published (\<^verbatim>\<open>pending\<close>). Several nodes share one bus, so the operations thread the state
  of the node and that of the bus separately.

  \<^verbatim>\<open>lockState.notify\<close> is closed and never received from; it is not part of the model. The
  timer of a lock is the instant at which it fires.
\<close>

record lock_state =
  lk_timer :: "time option"

record locker =
  lk_locks :: "key \<Rightarrow> lock_state option"
  lk_subs :: "key \<Rightarrow> bool"
  lk_pending :: "key \<Rightarrow> int"
  lk_listening :: "(key \<times> chan_id \<times> chan_id) list"

definition NewLocker :: locker where
  "NewLocker = \<lparr>lk_locks = Map.empty, lk_subs = (\<lambda>_. False), lk_pending = (\<lambda>_. 0), lk_listening = []\<rparr>"

definition lock_topic :: "key \<Rightarrow> key" where
  "lock_topic k = ''lock:'' @ k"

definition unlock_topic :: "key \<Rightarrow> key" where
  "unlock_topic k = ''unlock:'' @ k"

text \<open>\<^verbatim>\<open>ensureSubscriptions\<close>; the goroutines it starts are recorded in \<open>lk_listening\<close>.\<close>

definition ensureSubscriptions ::
    "'b bus_ops \<Rightarrow> clock \<Rightarrow> key \<Rightarrow> locker \<times> 'b \<Rightarrow> go_error option \<times> locker \<times> 'b" where
  "ensureSubscriptions bo clk k lb =
     (let (l, b) = lb
      in if lk_subs l k then (None, l, b)
         else let l1 = l\<lparr>lk_subs := (lk_subs l)(k := True)\<rparr>;
                  cleanup = l1\<lparr>lk_subs := (lk_subs l1)(k := False)\<rparr>
              in case bSubscribe bo background clk (lock_topic k) b of
                   (Inl e, b1) \<Rightarrow> (Some e, cleanup, b1)
                 | (Inr lockCh, b1) \<Rightarrow>
                     (case bSubscribe bo background (tick 1 clk) (unlock_topic k) b1 of
                        (Inl e, b2) \<Rightarrow>
                          (Some e, cleanup, snd (bUnsubscribe bo background (tick 2 clk) (lock_topic k) lockCh b2))
                      | (Inr unlockCh, b2) \<Rightarrow>
                          (None, l1\<lparr>lk_listening := lk_listening l1 @ [(k, lockCh, unlockCh)]\<rparr>, b2)))"

definition TryLock ::
    "'b bus_ops \<Rightarrow> ctx \<Rightarrow> clock \<Rightarrow> key \<Rightarrow> duration \<Rightarrow> locker \<times> 'b \<Rightarrow> (go_error + bool) \<times> locker \<times> 'b" where
  "TryLock bo ctx clk k ttl lb =
     (case ensureSubscriptions bo clk k lb of
        (Some e, l1, b1) \<Rightarrow> (Inl e, l1, b1)
      | (None, l1, b1) \<Rightarrow>
          (case lk_locks l1 k of
             Some _ \<Rightarrow> (Inr False, l1, b1)
           | None \<Rightarrow>
               (let st = \<lparr>lk_timer = (if ttl > 0 then Some (time_Add (clk 3) ttl) else None)\<rparr>;
                    l2 = l1\<lparr>lk_locks := (lk_locks l1)(k \<mapsto> st),
                            lk_pending := (lk_pending l1)(lock_topic k := lk_pending l1 (lock_topic k) + 1)\<rparr>
                in (Inr True, l2, snd (bPublish bo ctx (tick 4 clk) (lock_topic k) [] b1)))))"

definition Release :: "'b bus_ops \<Rightarrow> ctx \<Rightarrow> clock \<Rightarrow> key \<Rightarrow> locker \<times> 'b \<Rightarrow> go_error option \<times> locker \<times> 'b" where
  "Release bo ctx clk k lb =
     (let (l, b) = lb
      in case lk_locks l k of
           None \<Rightarrow> (None, l, b)
         | Some _ \<Rightarrow>
             (None,
              l\<lparr>lk_locks := (lk_locks l)(k := None),
                lk_pending := (lk_pending l)(unlock_topic k := lk_pending l (unlock_topic k) + 1)\<rparr>,
              snd (bPublish bo ctx clk (unlock_topic k) [] b)))"

text \<open>The bodies of the two listening goroutines, for one event.\<close>

definition on_lock_event :: "key \<Rightarrow> locker \<Rightarrow> locker" where
  "on_lock_event k l =
     (if lk_pending l (lock_topic k) > 0
      then l\<lparr>lk_pending := (lk_pending l)(lock_topic k := lk_pending l (lock_topic k) - 1)\<rparr>
      else if lk_locks l k = None then l\<lparr>lk_locks := (lk_locks l)(k \<mapsto> \<lparr>lk_timer = None\<rparr>)\<rparr>
      else l)"

definition on_unlock_event :: "key \<Rightarrow> locker \<Rightarrow> locker" where
  "on_unlock_event k l =
     (if lk_pending l (unlock_topic k) > 0
      then l\<lparr>lk_pending := (lk_pending l)(unlock_topic k := lk_pending l (unlock_topic k) - 1)\<rparr>
      else if lk_locks l k \<noteq> None then l\<lparr>lk_locks := (lk_locks l)(k := None)\<rparr>
      else l)"

text \<open>The timer of a lock, run at \<open>clk 0\<close> if due.\<close>

definition lock_expire :: "'b bus_ops \<Rightarrow> clock \<Rightarrow> key \<Rightarrow> locker \<times> 'b \<Rightarrow> locker \<times> 'b" where
  "lock_expire bo clk k lb =
     (case lk_locks (fst lb) k of
        None \<Rightarrow> lb
      | Some st \<Rightarrow>
          (case lk_timer st of
             None \<Rightarrow> lb
           | Some due \<Rightarrow> if due \<le> clk 0 then snd (Release bo background (tick 1 clk) k lb) else lb))"

text \<open>
  One turn of the loop of \<^verbatim>\<open>Acquire\<close>: subscribe, try, and either return or wait on the
  channel. \<open>Acquire\<close> runs the loop; an element of \<open>waits\<close> says what other goroutines do
  while it waits and whether the wait ends with an event (\<open>True\<close>) or the context. The
  result \<open>None\<close> means that it still waits after all of \<open>waits\<close>.
\<close>

datatype attempt = Returned "go_error option" | Waiting chan_id

definition acquire_attempt ::
    "'b bus_ops \<Rightarrow> ctx \<Rightarrow> clock \<Rightarrow> key \<Rightarrow> duration \<Rightarrow> locker \<times> 'b \<Rightarrow> attempt \<times> locker \<times> 'b" where
  "acquire_attempt bo ctx clk k ttl lb =
     (let (l, b) = lb
      in case bSubscribe bo ctx clk (unlock_topic k) b of
           (Inl e, b1) \<Rightarrow> (Returned (Some e), l, b1)
         | (Inr ch, b1) \<Rightarrow>
             (case TryLock bo ctx (tick 1 clk) k ttl (l, b1) of
                (Inl e, l2, b2) \<Rightarrow>
                  (Returned (Some e), l2, snd (bUnsubscribe bo background (tick 9 clk) (unlock_topic k) ch b2))
              | (Inr True, l2, b2) \<Rightarrow>
                  (Returned None, l2, snd (bUnsubscribe bo background (tick 9 clk) (unlock_topic k) ch b2))
              | (Inr False, l2, b2) \<Rightarrow> (Waiting ch, l2, b2)))"

fun Acquire ::
    "'b bus_ops \<Rightarrow> ctx \<Rightarrow> clock \<Rightarrow> key \<Rightarrow> duration \<Rightarrow> ((locker \<times> 'b \<Rightarrow> locker \<times> 'b) \<times> bool) list \<Rightarrow> locker \<times> 'b
     \<Rightarrow> go_error option option \<times> locker \<times> 'b" where
  "Acquire bo ctx clk k ttl [] lb =
     (case acquire_attempt bo ctx clk k ttl lb of
        (Returned e, lb1) \<Rightarrow> (Some e, lb1)
      | (Waiting ch, lb1) \<Rightarrow> (None, lb1))"
| "Acquire bo ctx clk k ttl ((others, woken) # waits) lb =
     (case acquire_attempt bo ctx clk k ttl lb of
        (Returned e, lb1) \<Rightarrow> (Some e, lb1)
      | (Waiting ch, lb1) \<Rightarrow>
          (let (l2, b2) = others lb1;
               b3 = snd (bUnsubscribe bo background (tick 11 clk) (unlock_topic k) ch b2)
           in if woken then Acquire bo ctx (tick 12 clk) k ttl waits (l2, b3)
              else (Some (ctx (clk 10)), l2, b3)))"

section \<open>Mutual exclusion on a node\<close>

datatype lock_op =
    OTryLock ctx clock key duration
  | ORelease ctx clock key
  | OExpire clock key
  | OLockEvent key
  | OUnlockEvent key

fun lock_exec :: "'b bus_ops \<Rightarrow> locker \<times> 'b \<Rightarrow> lock_op \<Rightarrow> locker \<times> 'b" where
  "lock_exec bo lb (OTryLock ctx clk k ttl) = snd (TryLock bo ctx clk k ttl lb)"
| "lock_exec bo lb (ORelease ctx clk k) = snd (Release bo ctx clk k lb)"
| "lock_exec bo lb (OExpire clk k) = lock_expire bo clk k lb"
| "lock_exec bo lb (OLockEvent k) = (on_lock_event k (fst lb), snd lb)"
| "lock_exec bo lb (OUnlockEvent k) = (on_unlock_event k (fst lb), snd lb)"

text \<open>The operations that may free a key.\<close>

fun frees :: "key \<Rightarrow> lock_op \<Rightarrow> bool" where
  "frees k (ORelease ctx clk k') = (k' = k)"
| "frees k (OExpire clk k') = (k' = k)"
| "frees k (OUnlockEvent k') = (k' = k)"
| "frees k _ = False"

definition held :: "key \<Rightarrow> locker \<times> 'b \<Rightarrow> bool" where
  "held k lb \<longleftrightarrow> lk_locks (fst lb) k \<noteq> None"

lemma ensureSubscriptions_locks:
  "ensureSubscriptions bo clk k lb = (e, l, b) \<Longrightarrow> lk_locks l = lk_locks (fst lb) \<and> lk_pending l = lk_pending (fst lb)"
  by (auto simp: ensureSubscriptions_def Let_def split: prod.splits if_splits sum.splits)

lemma TryLock_locks:
  assumes "TryLock bo ctx clk k ttl lb = (r, lb')"
  shows "r = Inr True \<Longrightarrow> \<not> held k lb \<and> held k lb'"
    and "r \<noteq> Inr True \<Longrightarrow> lk_locks (fst lb') = lk_locks (fst lb)"
    and "k' \<noteq> k \<Longrightarrow> lk_locks (fst lb') k' = lk_locks (fst lb) k'"
proof -
  obtain e l1 b1 where s: "ensureSubscriptions bo clk k lb = (e, l1, b1)" by (cases "ensureSubscriptions bo clk k lb")
  note f = ensureSubscriptions_locks [OF s]
  show "r = Inr True \<Longrightarrow> \<not> held k lb \<and> held k lb'" "r \<noteq> Inr True \<Longrightarrow> lk_locks (fst lb') = lk_locks (fst lb)"
    "k' \<noteq> k \<Longrightarrow> lk_locks (fst lb') k' = lk_locks (fst lb) k'"
    using assms s f by (auto simp: TryLock_def held_def Let_def split: option.splits)
qed

lemma Release_locks:
  "lk_locks (fst (snd (Release bo ctx clk k lb))) = (lk_locks (fst lb))(k := None)"
  by (auto simp: Release_def Let_def fun_eq_iff split: prod.splits option.splits)

lemma held_exec: "held k lb \<Longrightarrow> \<not> frees k op \<Longrightarrow> held k (lock_exec bo lb op)"
proof (cases op)
  case (OTryLock ctx clk k' ttl)
  assume h: "held k lb"
  obtain r lb' where t: "TryLock bo ctx clk k' ttl lb = (r, lb')" by (cases "TryLock bo ctx clk k' ttl lb")
  note f = TryLock_locks [OF t]
  from h f(1) f(2) f(3) [of k] show ?thesis
    by (cases "r = Inr True"; cases "k = k'") (auto simp: OTryLock t held_def)
next
  case (OExpire clk k')
  assume "held k lb" "\<not> frees k op"
  then show ?thesis using Release_locks [of bo background "tick 1 clk" k' lb]
    by (auto simp: OExpire held_def lock_expire_def split: option.splits)
next
  case (ORelease ctx clk k')
  assume "held k lb" "\<not> frees k op"
  then show ?thesis using Release_locks [of bo ctx clk k' lb] by (auto simp: ORelease held_def)
qed (auto simp: held_def on_lock_event_def on_unlock_event_def)

lemma held_execs: "held k lb \<Longrightarrow> \<forall>op \<in> set ops. \<not> frees k op \<Longrightarrow> held k (foldl (lock_exec bo) lb ops)"
proof (induct ops arbitrary: lb)
  case (Cons op ops)
  from Cons.prems have "held k (lock_exec bo lb op)" by (intro held_exec) simp_all
  from Cons.hyps [OF this] Cons.prems(2) show ?case by simp
qed simp

section \<open>Waiting on the in-memory bus\<close>

lemma membus_Subscribe_effect:
  assumes "bus_lib_ok lib" and "membus_Subscribe lib ctx clk k b = (Inr c, b')"
  shows "c = length (chans b)" and "chans b' = chans b @ [make_chan 1]"
    and "subscribers lib k' b' = (if k' = k then subscribers lib k b @ [c] else subscribers lib k' b)"
    and "in_flight lib b' = in_flight lib b"
  using assms
  by (auto simp: membus_Subscribe_def subscribers_def bus_lib_ok_def in_flight_def Let_def split: option.splits)

lemma ensureSubscriptions_membus:
  assumes "bus_lib_ok lib" and "ensureSubscriptions (membus_ops lib pick) clk k (l, b) = (e, l', b')"
  shows "e = None" and "\<exists>cs. chans b' = chans b @ cs" and "set (subscribers lib k' b) \<subseteq> set (subscribers lib k' b')"
    and "in_flight lib b' = in_flight lib b" and "bus_wf lib b \<Longrightarrow> bus_wf lib b'"
proof -
  obtain c1 b1 where s1: "membus_Subscribe lib background clk (lock_topic k) b = (Inr c1, b1)"
    by (simp add: membus_Subscribe_def Let_def)
  obtain c2 b2 where s2: "membus_Subscribe lib background (tick 1 clk) (unlock_topic k) b1 = (Inr c2, b2)"
    by (simp add: membus_Subscribe_def Let_def)
  note f1 = membus_Subscribe_effect [OF assms(1) s1] and f2 = membus_Subscribe_effect [OF assms(1) s2]
  have w: "bus_wf lib b \<Longrightarrow> bus_wf lib b2"
    using bus_wf_Subscribe [OF assms(1), of b background clk "lock_topic k"]
      bus_wf_Subscribe [OF assms(1), of b1 background "tick 1 clk" "unlock_topic k"] by (simp add: s1 s2 [unfolded One_nat_def])
  have b': "e = None" "b' = b \<or> b' = b2"
    using assms(2) s1 s2 by (auto simp: ensureSubscriptions_def membus_ops_def Let_def split: if_splits)
  then show "e = None" by simp
  show "\<exists>cs. chans b' = chans b @ cs" using b' f1(2) f2(2) by auto
  show "set (subscribers lib k' b) \<subseteq> set (subscribers lib k' b')" using b'(2) f1(3) [of k'] f2(3) [of k'] by auto
  show "in_flight lib b' = in_flight lib b" using b'(2) f1(4) f2(4) by auto
  show "bus_wf lib b \<Longrightarrow> bus_wf lib b'" using b'(2) w by auto
qed

lemma waiting_subscribed:
  assumes "bus_lib_ok lib" and "bus_wf lib b"
    and "acquire_attempt (membus_ops lib pick) ctx clk k ttl (l, b) = (Waiting ch, l1, b1)"
  shows "bus_wf lib b1" and "ch \<in> set (subscribers lib (unlock_topic k) b1)" and "chans b1 ! ch = make_chan 1"
    and "ch < length (chans b1)" and "in_flight lib b1 = in_flight lib b" and "held k (l, b)"
proof -
  obtain q b0 where s: "membus_Subscribe lib ctx clk (unlock_topic k) b = (q, b0)"
    by (cases "membus_Subscribe lib ctx clk (unlock_topic k) b")
  then have q: "q = Inr ch" using assms(3)
    by (cases q) (auto simp: acquire_attempt_def membus_ops_def split: prod.splits sum.splits bool.splits)
  note f = membus_Subscribe_effect [OF assms(1) s [unfolded q]]
  have w: "bus_wf lib b0" using bus_wf_Subscribe [OF assms(1,2), of ctx clk "unlock_topic k"] by (simp add: s)
  have t: "TryLock (membus_ops lib pick) ctx (tick 1 clk) k ttl (l, b0) = (Inr False, l1, b1)"
    using assms(3) s q by (auto simp: acquire_attempt_def membus_ops_def split: prod.splits sum.splits bool.splits)
  obtain e l2 b2 where en: "ensureSubscriptions (membus_ops lib pick) (tick 1 clk) k (l, b0) = (e, l2, b2)"
    by (cases "ensureSubscriptions (membus_ops lib pick) (tick 1 clk) k (l, b0)")
  note g = ensureSubscriptions_membus [OF assms(1) en]
  have b1: "b1 = b2" "lk_locks l2 k \<noteq> None"
    using t en g(1) by (auto simp: TryLock_def Let_def split: option.splits)
  show "bus_wf lib b1" using g(5) [OF w] b1 by simp
  show "ch \<in> set (subscribers lib (unlock_topic k) b1)" using g(3) [of "unlock_topic k"] f(3) b1 by auto
  obtain cs where cs: "chans b2 = chans b0 @ cs" using g(2) by blast
  show "chans b1 ! ch = make_chan 1" "ch < length (chans b1)" using cs f(1,2) b1 by (simp_all add: nth_append)
  show "in_flight lib b1 = in_flight lib b" using g(4) f(4) b1 by simp
  show "held k (l, b)" using ensureSubscriptions_locks [OF en] b1 by (simp add: held_def)
qed

section \<open>Properties\<close>

text \<open>
  C33. Mutual exclusion on a node, for every bus: after a successful \<^verbatim>\<open>TryLock\<close> no other
  one of the key succeeds, whatever else happens, until the lock is released, expires
  or is announced as unlocked by another node.
\<close>

theorem lock_exclusive:
  assumes "TryLock bo ctx clk k ttl lb = (Inr True, lb1)" and "\<forall>op \<in> set ops. \<not> frees k op"
  shows "fst (TryLock bo ctx' clk' k ttl' (foldl (lock_exec bo) lb1 ops)) \<noteq> Inr True"
proof -
  have "held k (foldl (lock_exec bo) lb1 ops)"
    using TryLock_locks(1) [OF assms(1)] assms(2) by (intro held_execs) simp_all
  then show ?thesis
    using TryLock_locks(1) [OF prod.collapse [symmetric], of bo ctx' clk' k ttl' "foldl (lock_exec bo) lb1 ops"] by blast
qed

theorem lock_exclusive_witness:
  "fst (TryLock (membus_ops map_lib (\<lambda>_. True)) background (\<lambda>_. 5) ''k'' 0
     (foldl (lock_exec (membus_ops map_lib (\<lambda>_. True)))
        (snd (TryLock (membus_ops map_lib (\<lambda>_. True)) background (\<lambda>_. 0) ''k'' 0 (NewLocker, NewInMemoryBus map_lib)))
        [OLockEvent ''k'', ORelease background (\<lambda>_. 2) ''other''])) \<noteq> Inr True"
  by (rule lock_exclusive [of _ background "\<lambda>_. 0" _ 0 "(NewLocker, NewInMemoryBus map_lib)"])
    (simp_all add: TryLock_def ensureSubscriptions_def membus_ops_def membus_Subscribe_def NewLocker_def Let_def)

text \<open>
  A waiter on the in-memory bus misses no release: when \<^verbatim>\<open>Acquire\<close> starts to wait for
  a key and the holder, on any node, then releases it, the channel the waiter listens on
  holds an event, so that the wait ends and it tries again.
\<close>

theorem acquire_misses_no_release:
  assumes "bus_lib_ok lib" and "bus_wf lib b" and "unlock_topic k \<notin> in_flight lib b"
    and "acquire_attempt (membus_ops lib pick) ctx clk k ttl (l, b) = (Waiting ch, l1, b1)"
    and "held k (h, b1)" and "Release (membus_ops lib pick) background clk' k (h, b1) = (e, h2, b2)"
  shows "buf (chans b2 ! ch) \<noteq> [] \<and> \<not> held k (h2, b2)"
proof -
  note w = waiting_subscribed [OF assms(1,2,4)]
  obtain b' where p: "membus_Publish lib pick background clk' (unlock_topic k) [] b1 = (None, b')"
    "chans b' ! ch = push (make_event (unlock_topic k) (publish_opts [])) (chans b1 ! ch)"
    using membus_Publish_effect [OF assms(1) w(1), of "unlock_topic k" pick clk' "[]"] assms(3) w(2-5)
    by (auto simp: make_chan_def chan_ready_def)
  have "b2 = b'" "lk_locks h2 k = None"
    using assms(5,6) p(1) by (auto simp: Release_def held_def membus_ops_def)
  with p(2) show ?thesis by (simp add: held_def)
qed

theorem acquire_misses_no_release_witness:
  "let bo = membus_ops map_lib (\<lambda>_. True);
       l = on_lock_event ''k'' NewLocker;
       (_, l1, b1) = acquire_attempt bo background (\<lambda>_. 0) ''k'' 0 (l, NewInMemoryBus map_lib);
       (_, l2, b2) = Release bo background (\<lambda>_. 3) ''k'' (l, b1)
   in buf (chans b2 ! 0) \<noteq> []"
proof -
  let ?bo = "membus_ops map_lib (\<lambda>_. True)" and ?l = "on_lock_event ''k'' NewLocker" and ?b = "NewInMemoryBus map_lib"
  obtain l1 b1 where a: "acquire_attempt ?bo background (\<lambda>_. 0) ''k'' 0 (?l, ?b) = (Waiting 0, l1, b1)"
    by (simp add: acquire_attempt_def TryLock_def ensureSubscriptions_def membus_ops_def membus_Subscribe_def
        NewLocker_def on_lock_event_def NewInMemoryBus_def Let_def)
  obtain e l2 b2 where r: "Release ?bo background (\<lambda>_. 3) ''k'' (?l, b1) = (e, l2, b2)"
    by (cases "Release ?bo background (\<lambda>_. 3) ''k'' (?l, b1)")
  have "unlock_topic ''k'' \<notin> in_flight map_lib ?b" "held ''k'' (?l, b1)"
    by (simp_all add: in_flight_def NewInMemoryBus_def map_safemap_def held_def on_lock_event_def NewLocker_def)
  from acquire_misses_no_release [OF map_lib_ok bus_wf_New [OF map_lib_ok] this(1) a this(2) r] a r
  show ?thesis by simp
qed

text \<open>
  The locker does not exclude other nodes: two nodes on one in-memory bus that try
  to lock the same key before either has handled the other's announcement both succeed.
\<close>

theorem lock_not_exclusive_across_nodes:
  "let bo = membus_ops map_lib (\<lambda>_. True);
       (_, n1, b0) = ensureSubscriptions bo (\<lambda>_. 0) ''k'' (NewLocker, NewInMemoryBus map_lib);
       (_, n2, b1) = ensureSubscriptions bo (\<lambda>_. 0) ''k'' (NewLocker, b0);
       (r1, n1', b2) = TryLock bo background (\<lambda>_. 1) ''k'' 0 (n1, b1);
       (r2, n2', b3) = TryLock bo background (\<lambda>_. 2) ''k'' 0 (n2, b2)
   in r1 = Inr True \<and> r2 = Inr True \<and> held ''k'' (n1', b3) \<and> held ''k'' (n2', b3)"
  by (simp add: TryLock_def ensureSubscriptions_def membus_ops_def membus_Subscribe_def NewLocker_def held_def
      Let_def split: prod.splits)

end
