(* ===== verification/Warp_Validator.thy ===== *)
theory Warp_Validator
  imports Warp_Registry
begin

text \<open>
  The validator (src/validator/validator.go) and its binding to a warp
  (\<^verbatim>\<open>Warp.Validator\<close> in src/core/core.go): it walks over the keys of the store, compares
  the digest of the cached value with that of the stored one, counts the mismatches and,
  in auto-heal mode, overwrites the cached value.

  The digester is the parameter \<open>dg\<close>; \<^verbatim>\<open>JSONDigester\<close>, the default, is JSON followed by
  SHA-256 and is not modelled. The state threaded through a scan is that of the cache
  and that of the store.
\<close>

datatype validator_mode = ModeNoop | ModeAlert | ModeAutoHeal

type_synonym 'v digester = "'v \<Rightarrow> go_error + string"

record 'v validator =
  v_mode :: validator_mode
  v_interval :: duration
  mismatches :: u64
  v_digester :: "'v digester"

definition NewValidator :: "'v digester \<Rightarrow> validator_mode \<Rightarrow> duration \<Rightarrow> 'v validator" where
  "NewValidator json m d = \<lparr>v_mode = m, v_interval = d, mismatches = 0, v_digester = json\<rparr>"

definition SetDigester :: "'v digester option \<Rightarrow> 'v validator \<Rightarrow> 'v validator" where
  "SetDigester d vd = (case d of None \<Rightarrow> vd | Some dg \<Rightarrow> vd\<lparr>v_digester := dg\<rparr>)"

text \<open>The body of the loop for one key.\<close>

definition scan_key ::
    "('c, 'v) cache_ops \<Rightarrow> ('s, 'v, 'bt) store_ops \<Rightarrow> ctx \<Rightarrow> clock \<Rightarrow> key
     \<Rightarrow> 'v validator \<times> 'c \<times> 's \<Rightarrow> 'v validator \<times> 'c \<times> 's" where
  "scan_key co so ctx clk k vcs =
     (let (vd, c, s) = vcs
      in case cGet co ctx clk k c of
           (Inr (Some cv), c1) \<Rightarrow>
             (case stGet so ctx (tick 3 clk) k s of
                (Inr (Some sv), s1) \<Rightarrow>
                  (case (v_digester vd cv, v_digester vd sv) of
                     (Inr cd, Inr sd) \<Rightarrow>
                       if cd \<noteq> sd
                       then (vd\<lparr>mismatches := mismatches vd + 1\<rparr>,
                             (if v_mode vd = ModeAutoHeal then snd (cSet co ctx (tick 6 clk) k sv 0 c1) else c1), s1)
                       else (vd, c1, s1)
                   | _ \<Rightarrow> (vd, c1, s1))
              | (_, s1) \<Rightarrow> (vd, c1, s1))
         | (_, c1) \<Rightarrow> (vd, c1, s))"

fun scan_keys ::
    "('c, 'v) cache_ops \<Rightarrow> ('s, 'v, 'bt) store_ops \<Rightarrow> ctx \<Rightarrow> clock \<Rightarrow> key list
     \<Rightarrow> 'v validator \<times> 'c \<times> 's \<Rightarrow> 'v validator \<times> 'c \<times> 's" where
  "scan_keys co so ctx clk [] vcs = vcs"
| "scan_keys co so ctx clk (k # ks) vcs =
     (if ctx (clk 0) \<noteq> None then vcs
      else scan_keys co so ctx (tick 10 clk) ks (scan_key co so ctx (tick 1 clk) k vcs))"

definition scan ::
    "('c, 'v) cache_ops \<Rightarrow> ('s, 'v, 'bt) store_ops \<Rightarrow> ctx \<Rightarrow> clock
     \<Rightarrow> 'v validator \<times> 'c \<times> 's \<Rightarrow> 'v validator \<times> 'c \<times> 's" where
  "scan co so ctx clk vcs =
     (let (vd, c, s) = vcs
      in case stKeys so ctx clk s of
           (Inl e, s1) \<Rightarrow> (vd, c, s1)
         | (Inr ks, s1) \<Rightarrow> scan_keys co so ctx (tick 1 clk) ks (vd, c, s1))"

text \<open>\<^verbatim>\<open>Run\<close>: a scan per tick until the context is done; \<open>ticks\<close> gives the clock of each.\<close>

fun validator_Run ::
    "('c, 'v) cache_ops \<Rightarrow> ('s, 'v, 'bt) store_ops \<Rightarrow> ctx \<Rightarrow> clock list
     \<Rightarrow> 'v validator \<times> 'c \<times> 's \<Rightarrow> 'v validator \<times> 'c \<times> 's" where
  "validator_Run co so ctx [] vcs = vcs"
| "validator_Run co so ctx (clk # ticks) vcs =
     (if ctx (clk 0) \<noteq> None then vcs
      else validator_Run co so ctx ticks (scan co so ctx (tick 1 clk) vcs))"

definition validator_Metrics :: "'v validator \<Rightarrow> u64" where
  "validator_Metrics vd = mismatches vd"

text \<open>
  \<^verbatim>\<open>Warp.Validator\<close>: the cache is the warp's own, seen through \<open>validator_cache\<close>, and the
  store is the warp's. Without a store \<^verbatim>\<open>Run\<close> returns at once.
\<close>

definition warp_Validator :: "'v digester \<Rightarrow> validator_mode \<Rightarrow> duration \<Rightarrow> 'v validator" where
  "warp_Validator json m d = NewValidator json m d"

definition warp_Validator_Run ::
    "('c, 's, 'b, 'bt, 'st, 'v) env \<Rightarrow> ctx \<Rightarrow> clock list \<Rightarrow> 'v validator \<Rightarrow> ('c, 's, 'b, 'st, 'v) warp
     \<Rightarrow> 'v validator \<times> ('c, 's, 'b, 'st, 'v) warp" where
  "warp_Validator_Run E ctx ticks vd w =
     (case w_store w of
        None \<Rightarrow> (vd, w)
      | Some s \<Rightarrow>
          (case validator_Run (validator_cache E) (sops E) ctx ticks (vd, w, s) of
             (vd', w', s') \<Rightarrow> (vd', w'\<lparr>w_store := Some s'\<rparr>)))"

section \<open>Healing\<close>

text \<open>What healing relies on: a cache with a view, a store, and no failures of either when the
  context is not done; a lookup that misses leaves nothing for the key.\<close>

locale validation = cache_view ops view invar
  for ops :: "('c, 'v) cache_ops" and view :: "'c \<Rightarrow> key \<Rightarrow> 'v option" and invar :: "'c \<Rightarrow> bool" +
  fixes so :: "('s, 'v, 'bt) store_ops"
    and sview :: "'s \<Rightarrow> key \<Rightarrow> 'v option"
    and sinv :: "'s \<Rightarrow> bool"
  assumes store: "store_contract so sview sinv"
    and store_gets: "sinv s \<Longrightarrow> stGet so background clk k s \<noteq> (Inl e, s')"
    and store_keys: "sinv s \<Longrightarrow> stKeys so background clk s \<noteq> (Inl e, s')"
    and cache_sets: "invar c \<Longrightarrow> fst (cSet ops background clk k v 0 c) = None"
    and miss: "invar c \<Longrightarrow> cGet ops background clk k c = (r, c') \<Longrightarrow> (\<And>v. r \<noteq> Inr (Some v)) \<Longrightarrow> view c' k = None"
begin

definition agrees :: "'v digester \<Rightarrow> (key \<Rightarrow> 'v option) \<Rightarrow> 'c \<Rightarrow> key \<Rightarrow> bool" where
  "agrees dg m c k \<longleftrightarrow> (\<forall>cv sv. view c k = Some cv \<longrightarrow> m k = Some sv \<longrightarrow> dg cv = dg sv)"

definition healing :: "'v digester \<Rightarrow> 'v validator \<Rightarrow> bool" where
  "healing dg vd \<longleftrightarrow> v_mode vd = ModeAutoHeal \<and> v_digester vd = dg \<and> (\<forall>v. \<exists>d. dg v = Inr d)"

lemma agrees_le: "agrees dg m c k \<Longrightarrow> view c' k = None \<or> view c' k = view c k \<Longrightarrow> agrees dg m c' k"
  by (auto simp: agrees_def)

lemma map_le_at: "f \<subseteq>\<^sub>m g \<Longrightarrow> f k = None \<or> f k = g k"
  by (cases "f k") (auto simp: map_le_def dom_def)

lemma scan_key_heals:
  assumes i: "invar c" "sinv s" "healing dg vd"
    and s: "scan_key ops so background clk k (vd, c, s) = (vd', c', s')"
  shows "invar c'" and "sinv s'" and "sview s' = sview s" and "healing dg vd'"
    and "agrees dg (sview s) c' k" and "j \<noteq> k \<Longrightarrow> agrees dg (sview s) c j \<Longrightarrow> agrees dg (sview s) c' j"
proof -
  obtain r c1 where g: "cGet ops background clk k c = (r, c1)" by (cases "cGet ops background clk k c")
  have i1: "invar c1" using invar_get [OF i(1), of background clk k] by (simp add: g)
  have le: "view c1 j = None \<or> view c1 j = view c j" for j by (rule map_le_at [OF get_forgets [OF i(1) g]])
  obtain q s1 where sg: "stGet so background (tick 3 clk) k s = (q, s1)" by (cases "stGet so background (tick 3 clk) k s")
  have s1: "sview s1 = sview s" "sinv s1" using store_contract.get_keeps [OF store i(2) sg] by auto
  obtain q' where q': "q = Inr q'" using store_gets [OF i(2)] sg by (cases q) auto
  have q: "q = Inr (sview s k)" using store_contract.get_view [OF store i(2) sg [unfolded q']] q' by simp
  have "invar c' \<and> sinv s' \<and> sview s' = sview s \<and> healing dg vd' \<and> agrees dg (sview s) c' k \<and>
    (j \<noteq> k \<longrightarrow> view c' j = None \<or> view c' j = view c j)"
  proof (cases "\<exists>cv. r = Inr (Some cv)")
    case False
    then have "vd' = vd" "c' = c1" "s' = s" using s g by (auto simp: scan_key_def healing_def split: sum.splits option.splits)
    moreover have "view c1 k = None" using False by (intro miss [OF i(1) g]) auto
    ultimately show ?thesis using i i1 le by (simp add: agrees_def)
  next
    case True
    then obtain cv where r: "r = Inr (Some cv)" by blast
    have cv: "view c k = Some cv" using get_sound [OF i(1)] g r by blast
    show ?thesis
    proof (cases "sview s k")
      case None
      then have "vd' = vd" "c' = c1" "s' = s1" using s g r sg q by (auto simp: scan_key_def healing_def)
      with None i i1 s1 le show ?thesis by (simp add: agrees_def)
    next
      case (Some sv)
      obtain cd sd where d: "dg cv = Inr cd" "dg sv = Inr sd" using i(3) unfolding healing_def by blast
      show ?thesis
      proof (cases "cd = sd")
        case True
        then have "vd' = vd" "c' = c1" "s' = s1" using s g r sg q Some d i(3) by (auto simp: scan_key_def healing_def)
        moreover have "agrees dg (sview s) c k" using cv Some d True by (simp add: agrees_def)
        ultimately show ?thesis using i i1 s1 le agrees_le [of dg "sview s" c k c1] by simp
      next
        case False
        obtain e c2 where cs: "cSet ops background (tick 6 clk) k sv 0 c1 = (e, c2)"
          by (cases "cSet ops background (tick 6 clk) k sv 0 c1")
        have e: "e = None" using cache_sets [OF i1, of "tick 6 clk" k sv] by (simp add: cs)
        have eq: "c' = c2" "s' = s1" "healing dg vd'"
          using s g r sg q Some d False cs i(3) by (auto simp: scan_key_def healing_def)
        have i2: "invar c2" using invar_set [OF i1, of background "tick 6 clk" k sv 0] by (simp add: cs)
        have le2: "view c2 j = None \<or> view c2 j = ((view c1)(k \<mapsto> sv)) j" for j
          by (rule map_le_at [OF set_forgets [OF i1 cs [unfolded e]]])
        have "agrees dg (sview s) c2 k" using Some le2 [of k] by (auto simp: agrees_def)
        moreover have "j \<noteq> k \<longrightarrow> view c2 j = None \<or> view c2 j = view c j" using le2 [of j] le [of j] by auto
        ultimately show ?thesis using eq i2 s1 by simp
      qed
    qed
  qed
  then show "invar c'" "sinv s'" "sview s' = sview s" "healing dg vd'" "agrees dg (sview s) c' k"
    "j \<noteq> k \<Longrightarrow> agrees dg (sview s) c j \<Longrightarrow> agrees dg (sview s) c' j"
    by (auto intro: agrees_le)
qed

lemma scan_keys_heals:
  assumes i: "invar c" "sinv s" "healing dg vd"
    and s: "scan_keys ops so background clk ks (vd, c, s) = (vd', c', s')"
  shows "invar c' \<and> sinv s' \<and> healing dg vd' \<and> sview s' = sview s \<and> (\<forall>k. k \<in> set ks \<or> agrees dg (sview s) c k \<longrightarrow> agrees dg (sview s) c' k)"
  using i s
proof (induct ks arbitrary: clk vd c s)
  case (Cons k ks)
  obtain vd1 c1 s1 where k: "scan_key ops so background (tick 1 clk) k (vd, c, s) = (vd1, c1, s1)"
    by (metis surj_pair)
  note h = scan_key_heals [OF Cons.prems(1-3) k]
  have "scan_keys ops so background (tick 10 clk) ks (vd1, c1, s1) = (vd', c', s')"
    using Cons.prems(4) k by (simp add: background_def)
  from Cons.hyps [OF h(1,2,4) this] h(3) have
    IH: "invar c'" "sinv s'" "healing dg vd'" "sview s' = sview s" "\<And>j. j \<in> set ks \<or> agrees dg (sview s) c1 j \<Longrightarrow> agrees dg (sview s) c' j"
    by auto
  have "agrees dg (sview s) c' j" if "j \<in> set (k # ks) \<or> agrees dg (sview s) c j" for j
    using that h(5) h(6) [of j] IH(5) [of j] by auto
  with IH(1-4) show ?case by blast
qed simp

lemma scan_heals:
  assumes i: "invar c" "sinv s" "healing dg vd"
    and s: "scan ops so background clk (vd, c, s) = (vd', c', s')"
  shows "invar c'" and "sinv s'" and "sview s' = sview s" and "healing dg vd'" and "agrees dg (sview s) c' k"
proof -
  obtain q s1 where k: "stKeys so background clk s = (q, s1)" by (cases "stKeys so background clk s")
  obtain ks where q: "q = Inr ks" using store_keys [OF i(2)] k by (cases q) auto
  have s1: "sview s1 = sview s" "sinv s1" using store_contract.keys_keeps [OF store i(2) k] by auto
  have ks: "set ks = dom (sview s)" using store_contract.keys_view [OF store i(2) k [unfolded q]] .
  have "scan_keys ops so background (tick 1 clk) ks (vd, c, s1) = (vd', c', s')" using s k q by (simp add: scan_def)
  note h = scan_keys_heals [OF i(1) s1(2) i(3) this, unfolded s1(1)]
  then show "invar c'" "sinv s'" "sview s' = sview s" "healing dg vd'" by blast+
  show "agrees dg (sview s) c' k"
  proof (cases "sview s k")
    case None then show ?thesis by (simp add: agrees_def)
  next
    case (Some v)
    then have "k \<in> set ks" using ks by auto
    then show ?thesis using h by blast
  qed
qed

lemma run_heals:
  assumes i: "invar c" "sinv s" "healing dg vd"
    and s: "validator_Run ops so background ticks (vd, c, s) = (vd', c', s')"
  shows "sview s' = sview s \<and> (ticks \<noteq> [] \<or> agrees dg (sview s) c k \<longrightarrow> agrees dg (sview s) c' k)"
  using i s
proof (induct ticks arbitrary: vd c s)
  case (Cons clk ticks)
  obtain vd1 c1 s1 where k: "scan ops so background (tick 1 clk) (vd, c, s) = (vd1, c1, s1)"
    by (metis surj_pair)
  note h = scan_heals [OF Cons.prems(1-3) k]
  have "validator_Run ops so background ticks (vd1, c1, s1) = (vd', c', s')"
    using Cons.prems(4) k by (simp add: background_def)
  from Cons.hyps [OF h(1,2,4) this] h(3) h(5) [of k] show ?case by simp
qed simp

end

section \<open>The validator of a warp\<close>

abbreviation vc_view :: "('v mval lru, 's, 'b, 'st, 'v) warp \<Rightarrow> key \<Rightarrow> 'v option" where
  "vc_view w \<equiv> \<lambda>k. map_option Data (lru_view (w_cache w) k)"

abbreviation vc_inv :: "('v mval lru, 's, 'b, 'st, 'v) warp \<Rightarrow> bool" where
  "vc_inv w \<equiv> \<not> resilient w \<and> lru_inv (w_cache w)"

lemma map_le_Data: "f \<subseteq>\<^sub>m g \<Longrightarrow> (\<lambda>k. map_option h (f k)) \<subseteq>\<^sub>m (\<lambda>k. map_option h (g k))"
  by (auto simp: map_le_def dom_def)

lemma map_le_Data_upd:
  "f \<subseteq>\<^sub>m g(k \<mapsto> v) \<Longrightarrow> (\<lambda>k. map_option h (f k)) \<subseteq>\<^sub>m (\<lambda>k. map_option h (g k))(k \<mapsto> h v)"
  by (drule map_le_Data [of _ _ h]) (simp add: map_le_def)

lemma map_le_Data_del:
  "f \<subseteq>\<^sub>m g(k := None) \<Longrightarrow> (\<lambda>k. map_option h (f k)) \<subseteq>\<^sub>m (\<lambda>k. map_option h (g k))(k := None)"
  by (drule map_le_Data [of _ _ h]) (simp add: map_le_def)

lemma vc_Get_lru:
  assumes "\<not> resilient w" and "vc_Get (lru_env est lib pick) ctx clk k w = (r, w')"
  obtains r0 c where "cGet (lru_ops est) ctx clk k (w_cache w) = (r0, c)" and "w' = w\<lparr>w_cache := c\<rparr>"
    and "r = map_sum (\<lambda>e. e) (map_option Data) r0"
  using assms by (auto simp: vc_Get_def cache_Get_def w_cops_def lru_env_def split: prod.splits sum.splits option.splits)

lemma vc_Set_lru:
  assumes "\<not> resilient w" and "vc_Set (lru_env est lib pick) ctx clk k v d w = (e, w')"
  obtains clk' mv ttl c where "cSet (lru_ops est) ctx clk' k mv ttl (w_cache w) = (e, c)" and "w_cache w' = c"
    and "\<not> resilient w'" and "Data mv = v"
  using assms
  by (fastforce simp: vc_Set_def cache_Set_def w_cops_def lru_env_def Let_def strat_Record_def strat_TTL_def
      reg_touch_def reg_upd_def fresh_value_def split: prod.splits option.splits)

lemma vc_Invalidate_lru:
  assumes "\<not> resilient w" and "vc_Invalidate (lru_env est lib pick) ctx clk k w = (e, w')"
  obtains c where "cInvalidate (lru_ops est) ctx clk k (w_cache w) = (e, c)" and "w' = w\<lparr>w_cache := c\<rparr>"
  using assms by (auto simp: vc_Invalidate_def cache_Invalidate_def w_cops_def lru_env_def split: prod.splits)

text \<open>Healing on the in-memory deployment.\<close>

interpretation vc_lru: validation "validator_cache (lru_env est lib pick)" vc_view vc_inv
    "sops (lru_env est lib pick)" "\<lambda>s k. gm_get s k" "\<lambda>s. gm_ok s"
  for est :: "'v mval \<Rightarrow> int" and lib :: "('sm, 'im) bus_lib" and pick
proof (intro validation.intro validation_axioms.intro)
  let ?E = "lru_env est lib pick"
  note vc = validator_cache_def
  show "cache_view (validator_cache (lru_env est lib pick)) vc_view vc_inv"
  proof (standard, goal_cases)
    case (1 w ctx clk k v w')
    then have w: "\<not> resilient w" "lru_inv (w_cache w)" and g: "vc_Get ?E ctx clk k w = (Inr (Some v), w')" by (simp_all add: vc)
    from w(1) g obtain r0 c where r: "cGet (lru_ops est) ctx clk k (w_cache w) = (r0, c)" "Inr (Some v) = map_sum (\<lambda>e. e) (map_option Data) r0"
      by (rule vc_Get_lru)
    from r(2) obtain mv where "r0 = Inr (Some mv)" "v = Data mv" by (cases r0) (auto simp: eq_commute [of "Some v"])
    with lru.get_sound [OF w(2), of est ctx clk k mv c] r(1) show ?case by simp
  next
    case (2 w ctx clk k r w')
    then have w: "\<not> resilient w" "lru_inv (w_cache w)" and g: "vc_Get ?E ctx clk k w = (r, w')" by (simp_all add: vc)
    from w(1) g obtain r0 c where r: "cGet (lru_ops est) ctx clk k (w_cache w) = (r0, c)" "w' = w\<lparr>w_cache := c\<rparr>"
      by (rule vc_Get_lru)
    show ?case unfolding r(2) using map_le_Data [OF lru.get_forgets [OF w(2) r(1)]] by simp
  next
    case (3 w ctx clk k v ttl w')
    then have w: "\<not> resilient w" "lru_inv (w_cache w)" and g: "vc_Set ?E ctx clk k v ttl w = (None, w')" by (simp_all add: vc)
    from w(1) g obtain clk' mv d c where r: "cSet (lru_ops est) ctx clk' k mv d (w_cache w) = (None, c)" "w_cache w' = c" "Data mv = v"
      by (rule vc_Set_lru)
    show ?case using map_le_Data_upd [OF lru.set_forgets [OF w(2) r(1)], of Data] r(2,3) by simp
  next
    case (4 w ctx clk k v ttl e w')
    then have w: "\<not> resilient w" "lru_inv (w_cache w)" and g: "vc_Set ?E ctx clk k v ttl w = (Some e, w')" by (simp_all add: vc)
    from w(1) g obtain clk' mv d c where r: "cSet (lru_ops est) ctx clk' k mv d (w_cache w) = (Some e, c)" "w_cache w' = c" "Data mv = v"
      by (rule vc_Set_lru)
    show ?case
      using lru.set_error [OF w(2) r(1)] map_le_Data_upd [of "lru_view c" "lru_view (w_cache w)" k mv Data]
        map_le_Data [of "lru_view c" "lru_view (w_cache w)" Data] r(2,3) by auto
  next
    case (5 w ctx clk k w')
    then have w: "\<not> resilient w" "lru_inv (w_cache w)" and g: "vc_Invalidate ?E ctx clk k w = (None, w')" by (simp_all add: vc)
    from w(1) g obtain c where r: "cInvalidate (lru_ops est) ctx clk k (w_cache w) = (None, c)" "w' = w\<lparr>w_cache := c\<rparr>"
      by (rule vc_Invalidate_lru)
    show ?case unfolding r(2) using map_le_Data_del [OF lru.invalidate_removes [OF w(2) r(1)], of Data] by simp
  next
    case (6 w ctx clk k e w')
    then have w: "\<not> resilient w" "lru_inv (w_cache w)" and g: "vc_Invalidate ?E ctx clk k w = (Some e, w')" by (simp_all add: vc)
    from w(1) g obtain c where r: "cInvalidate (lru_ops est) ctx clk k (w_cache w) = (Some e, c)" "w' = w\<lparr>w_cache := c\<rparr>"
      by (rule vc_Invalidate_lru)
    show ?case unfolding r(2) using map_le_Data [OF lru.invalidate_error [OF w(2) r(1)], of Data] by simp
  next
    case (7 w ctx clk k)
    then have w: "\<not> resilient w" "lru_inv (w_cache w)" by simp_all
    from w(1) prod.collapse [symmetric] obtain r0 c where r: "cGet (lru_ops est) ctx clk k (w_cache w) = (r0, c)"
      "snd (vc_Get ?E ctx clk k w) = w\<lparr>w_cache := c\<rparr>" by (rule vc_Get_lru)
    show ?case using w lru.invar_get [OF w(2), of est ctx clk k] by (simp add: vc r)
  next
    case (8 w ctx clk k v ttl)
    then have w: "\<not> resilient w" "lru_inv (w_cache w)" by simp_all
    from w(1) prod.collapse [symmetric] obtain clk' mv d c where r:
      "cSet (lru_ops est) ctx clk' k mv d (w_cache w) = (fst (vc_Set ?E ctx clk k v ttl w), c)"
      "w_cache (snd (vc_Set ?E ctx clk k v ttl w)) = c" "\<not> resilient (snd (vc_Set ?E ctx clk k v ttl w))" by (rule vc_Set_lru)
    show ?case using r(2,3) lru.invar_set [OF w(2), of est ctx clk' k mv d] by (simp add: vc r(1))
  next
    case (9 w ctx clk k)
    then have w: "\<not> resilient w" "lru_inv (w_cache w)" by simp_all
    from w(1) prod.collapse [symmetric] obtain c where r:
      "cInvalidate (lru_ops est) ctx clk k (w_cache w) = (fst (vc_Invalidate ?E ctx clk k w), c)"
      "snd (vc_Invalidate ?E ctx clk k w) = w\<lparr>w_cache := c\<rparr>" by (rule vc_Invalidate_lru)
    show ?case using w lru.invar_invalidate [OF w(2), of est ctx clk k] by (simp add: vc r)
  qed
  show "store_contract (sops (lru_env est lib pick)) (\<lambda>s k. gm_get s k) (\<lambda>s. gm_ok s)"
    using mem.store_contract_axioms by (simp add: lru_env_def)
  show "gm_ok s \<Longrightarrow> stGet (sops (lru_env est lib pick)) background clk k s \<noteq> (Inl e, s')" for s clk k e s'
    by (simp add: lru_env_def mem_ops_def mem_Get_def background_def split: option.splits)
  show "gm_ok s \<Longrightarrow> stKeys (sops (lru_env est lib pick)) background clk s \<noteq> (Inl e, s')" for s clk e s'
    by (simp add: lru_env_def mem_ops_def mem_Keys_def background_def)
  show "fst (cSet (validator_cache ?E) background clk k v 0 w) = None" if "vc_inv w" for w clk k v
  proof -
    obtain e w' where g: "vc_Set ?E background clk k v 0 w = (e, w')" by (cases "vc_Set ?E background clk k v 0 w")
    from that have "\<not> resilient w" by simp
    from this g obtain clk' mv d c where "cSet (lru_ops est) background clk' k mv d (w_cache w) = (e, c)" by (rule vc_Set_lru)
    then have "e = None" by (simp add: lru_ops_def lru_Set_def background_def)
    then show ?thesis by (simp add: vc g)
  qed
  show "vc_view w' k = None"
    if i: "vc_inv w" and g: "cGet (validator_cache ?E) background clk k w = (r, w')" and n: "\<And>v. r \<noteq> Inr (Some v)" for w clk k r w'
  proof -
    from i have "\<not> resilient w" by simp
    moreover from g have "vc_Get ?E background clk k w = (r, w')" by (simp add: vc)
    ultimately obtain r0 c where r: "cGet (lru_ops est) background clk k (w_cache w) = (r0, c)" "w' = w\<lparr>w_cache := c\<rparr>"
      "r = map_sum (\<lambda>e. e) (map_option Data) r0" by (rule vc_Get_lru)
    from n r(3) have "r0 \<noteq> Inr (Some v)" for v by (metis map_sum.simps(2) option.map(2))
    with r(1) have "lru_view c k = None"
      by (auto simp: lru_ops_def lru_Get_def background_def lru_view_def Let_def drop_item_def eviction_inc_def
          split: option.splits if_splits)
    then show ?thesis by (simp add: r(2))
  qed
qed

text \<open>A warp whose cache has drifted from its store, and a digester, for the example below.\<close>

definition unary :: "int digester" where
  "unary v = Inr (replicate (nat v) CHR ''i'')"

definition drifted where
  "drifted = local_warp\<lparr>w_store := Some [(''k'', 5)],
     w_cache := snd (lru_Set (\<lambda>_. 1) background (\<lambda>_. 1) ''k'' (fresh_value 4 0) 0 (NewInMemory []))\<rparr>"

lemmas validator_eval = warp_eval warp_Validator_Run_def warp_Validator_def NewValidator_def validator_cache_def vc_Get_def
  vc_Set_def scan_def scan_key_def mem_Keys_def drifted_def unary_def lru_view_def background_def

text \<open>
  C24. Auto-healing: a validator of a warp over the in-memory cache and store, in
  auto-heal mode and with a digester that does not fail, leaves the store as it is, and
  after its first scan (and every later one) no key has a cached value whose digest
  differs from that of the stored value.
\<close>

theorem validator_autoheals:
  assumes "\<not> resilient w" and "lru_inv (w_cache w)" and "w_store w = Some s" and "gm_ok s"
    and "v_mode vd = ModeAutoHeal" and "\<forall>v. \<exists>d. v_digester vd v = Inr d" and "ticks \<noteq> []"
    and "warp_Validator_Run (lru_env est lib pick) background ticks vd w = (vd', w')"
  shows "\<exists>s'. w_store w' = Some s' \<and> (\<forall>k. gm_get s' k = gm_get s k) \<and>
    (\<forall>k mv sv. lru_view (w_cache w') k = Some mv \<longrightarrow> gm_get s k = Some sv \<longrightarrow>
       v_digester vd (Data mv) = v_digester vd sv)"
proof -
  let ?E = "lru_env est lib pick"
  obtain w1 s1 where r: "validator_Run (validator_cache ?E) (sops ?E) background ticks (vd, w, s) = (vd', w1, s1)"
    and w': "w' = w1\<lparr>w_store := Some s1\<rparr>"
    using assms(3,8) by (auto simp: warp_Validator_Run_def split: prod.splits)
  have "vc_inv w" using assms(1,2) by simp
  note h = vc_lru.run_heals [OF this assms(4) _ r, of "v_digester vd"]
  have "vc_lru.healing (v_digester vd) vd" using assms(5,6) by (simp add: vc_lru.healing_def)
  from h [OF this] assms(7) show ?thesis
    by (auto simp: vc_lru.agrees_def w' fun_eq_iff simp del: map_of_eq_Some_iff)
qed

theorem validator_autoheals_witness:
  "\<exists>mv. lru_view (w_cache (snd (warp_Validator_Run local_env background [\<lambda>_. 10] (warp_Validator unary ModeAutoHeal 60) drifted)))
      ''k'' = Some mv \<and> unary (Data mv) = unary 5"
proof -
  let ?vd = "warp_Validator unary ModeAutoHeal 60"
  obtain vd' w' where r: "warp_Validator_Run local_env background [\<lambda>_. 10] ?vd drifted = (vd', w')" by (metis surj_pair)
  have "lru_view (w_cache (snd (warp_Validator_Run local_env background [\<lambda>_. 10] ?vd drifted))) ''k'' \<noteq> None"
    by (simp add: validator_eval)
  then obtain mv where mv: "lru_view (w_cache w') ''k'' = Some mv" using r by auto
  have i: "lru_inv (w_cache drifted)" by (simp add: drifted_def lru_inv_Set lru_inv_NewInMemory)
  have "v_digester ?vd (Data mv) = v_digester ?vd 5"
    using validator_autoheals [OF _ i _ _ _ _ _ r [unfolded local_env_def], of "[(''k'', 5)]"] mv
    by (simp add: drifted_def local_warp_def warp_New_def warp_Validator_def NewValidator_def unary_def)
      fastforce
  then show ?thesis using r mv by (simp add: warp_Validator_def NewValidator_def)
qed

end
