(* ===== verification/Stream_Types.thy ===== *)
theory Stream_Types
  imports Warp_Prelude
begin

text \<open>
  The types of package streambus (src/streambus/types.go). An enumeration over
  \<^verbatim>\<open>uint8\<close> is a byte, because the code accepts and checks values out of its range.
  A Go string is a \<^typ>\<open>string\<close> of bytes and a \<^verbatim>\<open>[]byte\<close> a list of bytes; a nil slice
  is the empty one.
\<close>

datatype stream_error =
    ErrClosed | ErrSubscriptionDone | ErrInvalidTopic | ErrPayloadTooLarge | ErrInvalidBuffer | ErrReplayUnavailable
  | ErrInvalidWireVersion | ErrInvalidWireMessage | FrameLength u64 int
  | EOF | ErrUnexpectedEOF | VarintOverflow | ErrShortWrite
  | CtxErr go_error | IOErr string

abbreviation Reliable :: byte where "Reliable \<equiv> 0"
abbreviation Unreliable :: byte where "Unreliable \<equiv> 1"

abbreviation PriorityBulk :: byte where "PriorityBulk \<equiv> 0"
abbreviation PriorityNormal :: byte where "PriorityNormal \<equiv> 1"
abbreviation PriorityInteractive :: byte where "PriorityInteractive \<equiv> 2"
abbreviation PriorityCritical :: byte where "PriorityCritical \<equiv> 3"

abbreviation Block :: byte where "Block \<equiv> 0"
abbreviation DropNewest :: byte where "DropNewest \<equiv> 1"
abbreviation DropOldest :: byte where "DropOldest \<equiv> 2"
abbreviation LatestOnly :: byte where "LatestOnly \<equiv> 3"

record frame =
  fr_sequence :: u64
  fr_timestamp :: time
  fr_topic :: string
  fr_payload :: "byte list"
  fr_reliability :: byte
  fr_priority :: byte

definition zero_frame :: frame where
  "zero_frame = \<lparr>fr_sequence = 0, fr_timestamp = 0, fr_topic = [], fr_payload = [], fr_reliability = 0, fr_priority = 0\<rparr>"

record sub_options =
  o_topic :: string
  o_prefix :: bool
  o_buffer :: int
  o_overflow :: byte
  o_replay :: int
  o_since :: u64

definition zero_options :: sub_options where
  "zero_options = \<lparr>o_topic = [], o_prefix = False, o_buffer = 0, o_overflow = 0, o_replay = 0, o_since = 0\<rparr>"

record stream_config =
  DefaultBuffer :: int
  MaxBuffer :: int
  ReplayCapacity :: int
  MaxPayloadBytes :: int
  CopyPayload :: bool

definition normalized :: "stream_config \<Rightarrow> stream_config" where
  "normalized c =
     (let c1 = (if DefaultBuffer c \<le> 0 then c\<lparr>DefaultBuffer := 64\<rparr> else c);
          c2 = (if MaxBuffer c1 \<le> 0 then c1\<lparr>MaxBuffer := 4096\<rparr> else c1);
          c3 = (if DefaultBuffer c2 > MaxBuffer c2 then c2\<lparr>DefaultBuffer := MaxBuffer c2\<rparr> else c2)
      in if MaxPayloadBytes c3 \<le> 0 then c3\<lparr>MaxPayloadBytes := 16 * 2 ^ 20\<rparr> else c3)"

record sub_stats =
  st_enqueued :: u64
  st_delivered :: u64
  st_dropped :: u64
  st_queued :: nat

text \<open>After normalisation the limits are positive and the default buffer is within the maximum.\<close>

lemma normalized_limits:
  "0 < DefaultBuffer (normalized c)" "DefaultBuffer (normalized c) \<le> MaxBuffer (normalized c)"
  "0 < MaxPayloadBytes (normalized c)"
  by (simp_all add: normalized_def Let_def)

end
