(* ===== verification/Stream_Wire.thy ===== *)
theory Stream_Wire
  imports Stream_Types
begin

unbundle bit_operations_syntax

text \<open>
  The binary protocol of package streambus (src/streambus/wire.go): \<^verbatim>\<open>EncodeMessage\<close>,
  \<^verbatim>\<open>DecodeMessage\<close>, and the length-delimited \<^verbatim>\<open>WriteMessage\<close> and \<^verbatim>\<open>ReadMessage\<close>, over
  the variable-length integers of the standard library's encoding/binary.

  A \<^verbatim>\<open>bytes.Reader\<close> is the list of bytes not yet read. Reads return the error
  (\<open>Inl\<close>) or the value with the rest.
\<close>

section \<open>Variable-length integers (encoding/binary)\<close>

function PutUvarint :: "u64 \<Rightarrow> byte list" where
  "PutUvarint x = (if x \<ge> 0x80 then (ucast x OR 0x80) # PutUvarint (drop_bit 7 x) else [ucast x])"
  by auto
termination
proof (relation "measure unat")
  fix x :: u64
  assume "0x80 \<le> x"
  then have "0x80 \<le> unat x" by (simp add: word_le_nat_alt)
  then show "(drop_bit 7 x, x) \<in> measure unat" by (simp add: drop_bit_eq_div unat_div)
qed simp

declare PutUvarint.simps [simp del]

definition PutVarint :: "int \<Rightarrow> byte list" where
  "PutVarint x = (let ux = push_bit 1 (word_of_int x :: u64) in PutUvarint (if x < 0 then NOT ux else ux))"

definition ReadByte :: "byte list \<Rightarrow> stream_error + byte \<times> byte list" where
  "ReadByte r = (case r of [] \<Rightarrow> Inl EOF | b # r1 \<Rightarrow> Inr (b, r1))"

fun ReadUvarint_loop :: "nat \<Rightarrow> u64 \<Rightarrow> byte list \<Rightarrow> stream_error + u64 \<times> byte list" where
  "ReadUvarint_loop i x [] = (if i \<ge> 10 then Inl VarintOverflow else Inl (if i > 0 then ErrUnexpectedEOF else EOF))"
| "ReadUvarint_loop i x (b # r) =
     (if i \<ge> 10 then Inl VarintOverflow
      else if b < 0x80 then
        if i = 9 \<and> b > 1 then Inl VarintOverflow else Inr (x OR push_bit (7 * i) (ucast b), r)
      else ReadUvarint_loop (i + 1) (x OR push_bit (7 * i) (ucast (b AND 0x7f))) r)"

definition ReadUvarint :: "byte list \<Rightarrow> stream_error + u64 \<times> byte list" where
  "ReadUvarint r = ReadUvarint_loop 0 0 r"

definition ReadVarint :: "byte list \<Rightarrow> stream_error + int \<times> byte list" where
  "ReadVarint r =
     (case ReadUvarint r of
        Inl e \<Rightarrow> Inl e
      | Inr (ux, r1) \<Rightarrow> (let x = drop_bit 1 ux in Inr (sint (if bit ux 0 then NOT x else x), r1)))"

text \<open>\<^verbatim>\<open>io.ReadFull\<close> of \<open>n\<close> bytes.\<close>

definition ReadFull :: "nat \<Rightarrow> byte list \<Rightarrow> stream_error + byte list \<times> byte list" where
  "ReadFull n r =
     (if n \<le> length r then Inr (take n r, drop n r) else if r = [] then Inl EOF else Inl ErrUnexpectedEOF)"

section \<open>Messages\<close>

definition WireVersion :: byte where
  "WireVersion = 1"

abbreviation MessageData :: byte where "MessageData \<equiv> 1"
abbreviation MessagePublish :: byte where "MessagePublish \<equiv> 2"
abbreviation MessageSubscribe :: byte where "MessageSubscribe \<equiv> 3"
abbreviation MessageUnsubscribe :: byte where "MessageUnsubscribe \<equiv> 4"
abbreviation MessageAck :: byte where "MessageAck \<equiv> 5"
abbreviation MessageError :: byte where "MessageError \<equiv> 6"
abbreviation MessageStreamOpen :: byte where "MessageStreamOpen \<equiv> 7"
abbreviation MessagePing :: byte where "MessagePing \<equiv> 8"
abbreviation MessagePong :: byte where "MessagePong \<equiv> 9"

record message =
  m_kind :: byte
  m_id :: u64
  m_subscription :: u64
  m_ack :: u64
  m_frame :: frame
  m_options :: sub_options
  m_error :: string

definition zero_message :: message where
  "zero_message = \<lparr>m_kind = 0, m_id = 0, m_subscription = 0, m_ack = 0, m_frame = zero_frame,
     m_options = zero_options, m_error = []\<rparr>"

text \<open>The Unix epoch as an instant, \<^verbatim>\<open>Time.UnixNano\<close> and \<^verbatim>\<open>time.Unix(0, n)\<close>.\<close>

definition unix_epoch :: time where
  "unix_epoch = 62135596800 * 10 ^ 9"

definition UnixNano :: "time \<Rightarrow> int" where
  "UnixNano t = wrap64 (t - unix_epoch)"

definition time_Unix :: "int \<Rightarrow> time" where
  "time_Unix n = unix_epoch + n"

section \<open>Encoding\<close>

definition putBytes :: "byte list \<Rightarrow> byte list" where
  "putBytes d = PutUvarint (of_nat (length d)) @ d"

definition wire_topic :: "message \<Rightarrow> string" where
  "wire_topic m =
     (if m_kind m = MessageSubscribe \<and> fr_topic (m_frame m) = [] then o_topic (m_options m) else fr_topic (m_frame m))"

definition EncodeMessage :: "message \<Rightarrow> stream_error + byte list" where
  "EncodeMessage m =
     (let topic = wire_topic m; f = m_frame m; opt = m_options m
      in if length topic > 2 ^ 20 \<or> length (fr_payload f) > 64 * 2 ^ 20 \<or> length (m_error m) > 2 ^ 20
         then Inl ErrInvalidWireMessage
         else let timestamp = (if time_IsZero (fr_timestamp f) then 0 else UnixNano (fr_timestamp f))
              in Inr ([WireVersion] @ [m_kind m] @ PutUvarint (m_id m) @ PutUvarint (m_subscription m) @ PutUvarint (m_ack m)
                   @ PutUvarint (fr_sequence f) @ PutVarint timestamp @ [fr_reliability f] @ [fr_priority f]
                   @ putBytes (bytes_of topic) @ putBytes (fr_payload f) @ [if o_prefix opt then 1 else 0]
                   @ PutUvarint (word_of_int (o_buffer opt)) @ [o_overflow opt] @ PutUvarint (word_of_int (o_replay opt))
                   @ PutUvarint (o_since opt) @ putBytes (bytes_of (m_error m))))"

section \<open>Decoding\<close>

text \<open>Every failed read of the decoder is reported as \<^verbatim>\<open>ErrInvalidWireMessage\<close>.\<close>

fun wire_then :: "stream_error + 'a \<times> byte list \<Rightarrow> ('a \<Rightarrow> byte list \<Rightarrow> stream_error + 'b) \<Rightarrow> stream_error + 'b" where
  "wire_then (Inl e) k = Inl ErrInvalidWireMessage"
| "wire_then (Inr (x, r)) k = k x r"

definition wire_check :: "bool \<Rightarrow> stream_error + 'b \<Rightarrow> stream_error + 'b" where
  "wire_check bad k = (if bad then Inl ErrInvalidWireMessage else k)"

definition readBytes :: "nat \<Rightarrow> byte list \<Rightarrow> stream_error + byte list \<times> byte list" where
  "readBytes maximum r =
     wire_then (ReadUvarint r) (\<lambda>size r1.
       wire_check (unat size > maximum \<or> unat size > length r1)
         (if size = 0 then Inr ([], r1) else wire_then (ReadFull (unat size) r1) (\<lambda>d r2. Inr (d, r2))))"

definition DecodeMessage :: "byte list \<Rightarrow> stream_error + message" where
  "DecodeMessage data =
     wire_then (ReadByte data) (\<lambda>version r. if version \<noteq> WireVersion then Inl ErrInvalidWireVersion else
     wire_then (ReadByte r) (\<lambda>kind r. wire_check (kind < MessageData \<or> kind > MessagePong) (
     wire_then (ReadUvarint r) (\<lambda>mid r.
     wire_then (ReadUvarint r) (\<lambda>sid r.
     wire_then (ReadUvarint r) (\<lambda>ack r.
     wire_then (ReadUvarint r) (\<lambda>sequence r.
     wire_then (ReadVarint r) (\<lambda>timestamp r.
     wire_then (ReadByte r) (\<lambda>reliability r. wire_check (reliability > Unreliable) (
     wire_then (ReadByte r) (\<lambda>priority r. wire_check (priority > PriorityCritical) (
     wire_then (readBytes (2 ^ 20) r) (\<lambda>topic r.
     wire_then (readBytes (64 * 2 ^ 20) r) (\<lambda>payload r.
     wire_then (ReadByte r) (\<lambda>prefix r.
     wire_then (ReadUvarint r) (\<lambda>buffer r. wire_check (buffer > 0x7fffffffffffffff) (
     wire_then (ReadByte r) (\<lambda>overflow r. wire_check (overflow > LatestOnly) (
     wire_then (ReadUvarint r) (\<lambda>replay r. wire_check (replay > 0x7fffffffffffffff) (
     wire_then (ReadUvarint r) (\<lambda>since r.
     wire_then (readBytes (2 ^ 20) r) (\<lambda>errorText r. wire_check (r \<noteq> [])
       (Inr \<lparr>m_kind = kind, m_id = mid, m_subscription = sid, m_ack = ack,
             m_frame = \<lparr>fr_sequence = sequence,
                        fr_timestamp = (if timestamp \<noteq> 0 then time_Unix timestamp else 0),
                        fr_topic = string_of topic, fr_payload = payload, fr_reliability = reliability, fr_priority = priority\<rparr>,
             m_options = \<lparr>o_topic = (if kind = MessageSubscribe then string_of topic else []), o_prefix = (prefix = 1),
                          o_buffer = uint buffer, o_overflow = overflow, o_replay = uint replay, o_since = since\<rparr>,
             m_error = string_of errorText\<rparr>))))))))))))))))))))))))"

section \<open>Length-delimited streams\<close>

text \<open>
  An \<^verbatim>\<open>io.Writer\<close>: the number of bytes it took and an error, and its new state. The
  \<^verbatim>\<open>bufio.Reader\<close> of a \<^verbatim>\<open>Reader\<close> is the list of bytes its stream still delivers before it
  ends; a failed read has consumed what the library reads before it fails.
\<close>

type_synonym 'w writer = "byte list \<Rightarrow> 'w \<Rightarrow> (int \<times> stream_error option) \<times> 'w"

function writeAll :: "'w writer \<Rightarrow> byte list \<Rightarrow> 'w \<Rightarrow> stream_error option \<times> 'w" where
  "writeAll wr d w =
     (if d = [] then (None, w)
      else case wr d w of
             ((n, Some e), w1) \<Rightarrow> (Some e, w1)
           | ((n, None), w1) \<Rightarrow> if n \<le> 0 then (Some ErrShortWrite, w1) else writeAll wr (drop (nat n) d) w1)"
  by auto
termination by (relation "measure (\<lambda>(wr, d, w). length d)") auto

declare writeAll.simps [simp del]

definition WriteMessage :: "'w writer \<Rightarrow> message \<Rightarrow> 'w \<Rightarrow> stream_error option \<times> 'w" where
  "WriteMessage wr m w =
     (case EncodeMessage m of
        Inl e \<Rightarrow> (Some e, w)
      | Inr d \<Rightarrow>
          (case writeAll wr (PutUvarint (of_nat (length d))) w of
             (Some e, w1) \<Rightarrow> (Some e, w1)
           | (None, w1) \<Rightarrow> writeAll wr d w1))"

record wire_reader =
  rd_data :: "byte list"
  rd_max :: int

definition NewReader :: "byte list \<Rightarrow> int \<Rightarrow> wire_reader" where
  "NewReader d maximum = \<lparr>rd_data = d, rd_max = (if maximum \<le> 0 then 64 * 2 ^ 20 else maximum)\<rparr>"

definition ReadMessage :: "wire_reader \<Rightarrow> (stream_error + message) \<times> wire_reader" where
  "ReadMessage r =
     (case ReadUvarint (rd_data r) of
        Inl e \<Rightarrow> (Inl e, r\<lparr>rd_data := (if e = VarintOverflow then drop 10 (rd_data r) else [])\<rparr>)
      | Inr (sz, d) \<Rightarrow>
          if uint sz > rd_max r then (Inl (FrameLength sz (rd_max r)), r\<lparr>rd_data := d\<rparr>)
          else (case ReadFull (unat sz) d of
                  Inl e \<Rightarrow> (Inl e, r\<lparr>rd_data := []\<rparr>)
                | Inr (m, d1) \<Rightarrow> (DecodeMessage m, r\<lparr>rd_data := d1\<rparr>)))"

section \<open>Integers survive the wire\<close>

lemma low7: "(0x7f :: 'a::len word) = mask 7"
  by (simp add: mask_eq_exp_minus_1)

lemma uvarint_byte: "(ucast ((ucast y OR 0x80 :: byte) AND 0x7f) :: u64) = take_bit 7 y"
proof (rule bit_word_eqI)
  fix n
  have "(0x80 :: byte) = push_bit 7 1" by (simp add: push_bit_of_1)
  then have "\<not> bit (0x80 :: byte) n" if "n < 7" using that by (simp only: bit_push_bit_iff) simp
  then show "bit (ucast ((ucast y OR 0x80 :: byte) AND 0x7f) :: u64) n = bit (take_bit 7 y) n"
    unfolding low7 by (auto simp: bit_simps)
qed

lemma uvarint_split: "push_bit (7 * i) (take_bit 7 y) OR push_bit (7 * (i + 1)) (drop_bit 7 y) = push_bit (7 * i) (y :: u64)"
proof (rule bit_word_eqI)
  fix n
  show "bit (push_bit (7 * i) (take_bit 7 y) OR push_bit (7 * (i + 1)) (drop_bit 7 y)) n = bit (push_bit (7 * i) y) n"
    by (cases "n < 7 * i + 7") (auto simp: bit_simps)
qed

lemma uvarint_last:
  assumes "\<not> 0x80 \<le> (y :: u64)"
  shows "unat (ucast y :: byte) = unat y" and "(ucast (ucast y :: byte) :: u64) = y"
proof -
  have "unat y < 128" using assms by (simp add: word_le_nat_alt)
  then show u: "unat (ucast y :: byte) = unat y" by (simp add: unsigned_ucast_eq take_bit_nat_eq_self)
  then show "(ucast (ucast y :: byte) :: u64) = y"
    using \<open>unat y < 128\<close> by (intro word_unat_eq_iff [THEN iffD2]) (simp add: unsigned_ucast_eq unsigned_take_bit_eq take_bit_nat_eq_self)
qed

lemma uvarint_next:
  assumes "0x80 \<le> (y :: u64)" and "i < 10" and "unat y < 2 ^ (64 - 7 * i)"
  shows "i < 9" and "unat (drop_bit 7 y) < 2 ^ (64 - 7 * (i + 1))"
proof -
  have y: "128 \<le> unat y" using assms(1) by (simp add: word_le_nat_alt)
  show i: "i < 9"
  proof (rule ccontr)
    assume "\<not> i < 9"
    with assms(2) have "i = 9" by simp
    with assms(3) y show False by simp
  qed
  have "(2::nat) ^ (64 - 7 * i) = 128 * 2 ^ (64 - 7 * (i + 1))"
    using i by (subst power_add [of "2::nat" 7, simplified, symmetric]) simp
  then show "unat (drop_bit 7 y) < 2 ^ (64 - 7 * (i + 1))" using assms(3)
    by (simp add: drop_bit_eq_div unat_div less_mult_imp_div_less mult.commute)
qed

lemma ReadUvarint_loop_Put:
  "i < 10 \<Longrightarrow> unat y < 2 ^ (64 - 7 * i) \<Longrightarrow>
     ReadUvarint_loop i x (PutUvarint y @ r) = Inr (x OR push_bit (7 * i) y, r)"
proof (induction y arbitrary: i x rule: PutUvarint.induct)
  case (1 y)
  show ?case
  proof (cases "y \<ge> 0x80")
    case True
    let ?b = "ucast y OR 0x80 :: byte"
    have "0x80 \<le> ?b" using le_word_or2 [of "0x80 :: byte" "ucast y"] by (simp add: or.commute)
    then have b: "\<not> ?b < 0x80" by simp
    note n = uvarint_next [OF True "1.prems"]
    then have "ReadUvarint_loop (i + 1) (x OR push_bit (7 * i) (take_bit 7 y)) (PutUvarint (drop_bit 7 y) @ r) =
        Inr ((x OR push_bit (7 * i) (take_bit 7 y)) OR push_bit (7 * (i + 1)) (drop_bit 7 y), r)"
      using n by (intro "1.IH" [OF True]) simp_all
    then show ?thesis using True b n(1) "1.prems"(1)
      by (subst PutUvarint.simps) (simp only: append_Cons ReadUvarint_loop.simps uvarint_byte or.assoc uvarint_split if_True if_False, simp)
  next
    case False
    note u = uvarint_last [OF False]
    have "(ucast y :: byte) < 0x80" using False u(1) by (simp add: word_less_nat_alt word_le_nat_alt)
    moreover have "\<not> (ucast y :: byte) > 1" if "i = 9" using "1.prems"(2) that u(1) by (simp add: word_less_nat_alt)
    ultimately show ?thesis using False "1.prems"(1) by (subst PutUvarint.simps) (auto simp: u(2))
  qed
qed

lemma ReadUvarint_Put [simp]: "ReadUvarint (PutUvarint y @ r) = Inr (y, r)"
  using ReadUvarint_loop_Put [of 0 y 0 r] unsigned_less [of y] by (simp add: ReadUvarint_def)

lemma length_PutUvarint_le: "i < 10 \<Longrightarrow> unat y < 2 ^ (64 - 7 * i) \<Longrightarrow> length (PutUvarint y) \<le> 10 - i"
proof (induction y arbitrary: i rule: PutUvarint.induct)
  case (1 y)
  show ?case
  proof (cases "y \<ge> 0x80")
    case True
    note n = uvarint_next [OF True "1.prems"]
    then have "length (PutUvarint (drop_bit 7 y)) \<le> 10 - (i + 1)" by (intro "1.IH" [OF True]) simp_all
    with True n(1) show ?thesis by (subst PutUvarint.simps) simp
  next
    case False
    with "1.prems"(1) show ?thesis by (subst PutUvarint.simps) simp
  qed
qed

lemma length_PutUvarint: "length (PutUvarint y) \<le> 10"
  using length_PutUvarint_le [of 0 y] unsigned_less [of y] by simp

lemma zigzag_bit: "n < 64 \<Longrightarrow> bit (push_bit 1 w) (1 + n) \<longleftrightarrow> n < 63 \<and> bit (w :: u64) n"
  by (simp only: bit_push_bit_iff) auto

lemma zigzag_pos: "\<not> bit (w :: u64) 63 \<Longrightarrow> drop_bit 1 (push_bit 1 w) = w"
  by (rule bit_word_eqI) (auto simp: bit_drop_bit_eq zigzag_bit o_def less_Suc_eq numeral_eq_Suc simp del: One_nat_def)

lemma zigzag_neg: "bit (w :: u64) 63 \<Longrightarrow> NOT (drop_bit 1 (NOT (push_bit 1 w))) = w"
proof (rule bit_word_eqI)
  fix n
  assume w: "bit w 63" and "n < LENGTH(64)"
  then have n: "n < 64" by simp
  have "bit (NOT (drop_bit 1 (NOT (push_bit 1 w)))) n \<longleftrightarrow> \<not> (1 + n < 64 \<and> \<not> bit (push_bit 1 w) (1 + n))"
    using n by (simp only: bit_not_iff bit_drop_bit_eq o_def) simp
  also have "\<dots> \<longleftrightarrow> (n < 63 \<longrightarrow> bit w n)" using n by (simp only: zigzag_bit) auto
  also have "\<dots> \<longleftrightarrow> bit w n" using n w by (cases "n = 63") auto
  finally show "bit (NOT (drop_bit 1 (NOT (push_bit 1 w)))) n = bit w n" .
qed

lemma ReadVarint_Put:
  assumes "int64 x"
  shows "ReadVarint (PutVarint x @ r) = Inr (x, r)"
proof -
  let ?w = "word_of_int x :: u64"
  have s: "sint ?w = x" using assms by (simp add: sint_sbintrunc' signed_take_bit_int_eq_self int64_def)
  have neg: "bit ?w 63 \<longleftrightarrow> x < 0" using bit_last_iff [of ?w] s by simp
  show ?thesis
  proof (cases "x < 0")
    case True
    have "bit (NOT (push_bit 1 ?w)) 0" by (simp only: bit_not_iff bit_push_bit_iff) simp
    then show ?thesis using True s zigzag_neg [of ?w] neg by (simp only: ReadVarint_def PutVarint_def Let_def ReadUvarint_Put if_True) simp
  next
    case False
    have "\<not> bit (push_bit 1 ?w) 0" by (simp only: bit_push_bit_iff) simp
    then show ?thesis using False s zigzag_pos [of ?w] neg by (simp only: ReadVarint_def PutVarint_def Let_def ReadUvarint_Put if_False) simp
  qed
qed

section \<open>Messages survive the wire\<close>

lemma ReadByte_Cons [simp]: "ReadByte (b # r) = Inr (b, r)"
  by (simp add: ReadByte_def)

lemma length_putBytes: "length (putBytes d) \<le> length d + 10"
  using length_PutUvarint by (simp add: putBytes_def)

lemma length_PutVarint: "length (PutVarint x) \<le> 10"
  using length_PutUvarint by (simp add: PutVarint_def Let_def)

lemma readBytes_put:
  assumes "length d \<le> n" and "n < 2 ^ 64"
  shows "readBytes n (putBytes d @ r) = Inr (d, r)"
proof -
  have u: "unat (of_nat (length d) :: u64) = length d" using assms by (simp add: unat_of_nat)
  then have "(of_nat (length d) :: u64) = 0 \<longleftrightarrow> d = []" by (metis length_0_conv unat_eq_zero)
  with u assms show ?thesis by (simp add: readBytes_def putBytes_def wire_check_def ReadFull_def)
qed

definition wire_time :: "time \<Rightarrow> bool" where
  "wire_time t \<longleftrightarrow> time_IsZero t \<or> t \<noteq> unix_epoch \<and> int64 (t - unix_epoch)"

definition wire_valid :: "message \<Rightarrow> bool" where
  "wire_valid m \<longleftrightarrow>
     MessageData \<le> m_kind m \<and> m_kind m \<le> MessagePong \<and>
     fr_reliability (m_frame m) \<le> Unreliable \<and> fr_priority (m_frame m) \<le> PriorityCritical \<and>
     wire_time (fr_timestamp (m_frame m)) \<and> length (fr_topic (m_frame m)) \<le> 2 ^ 20 \<and>
     length (fr_payload (m_frame m)) \<le> 64 * 2 ^ 20 \<and> length (m_error m) \<le> 2 ^ 20 \<and>
     o_overflow (m_options m) \<le> LatestOnly \<and>
     0 \<le> o_buffer (m_options m) \<and> o_buffer (m_options m) < 2 ^ 63 \<and>
     0 \<le> o_replay (m_options m) \<and> o_replay (m_options m) < 2 ^ 63 \<and>
     o_topic (m_options m) = (if m_kind m = MessageSubscribe then fr_topic (m_frame m) else [])"

lemma wire_time_back:
  assumes "wire_time t"
  defines "n \<equiv> if time_IsZero t then 0 else UnixNano t"
  shows "int64 n" and "(if n \<noteq> 0 then time_Unix n else 0) = t"
  using assms by (auto simp: wire_time_def UnixNano_def time_Unix_def wrap64_id time_IsZero_def int64_def)

lemma wire_count:
  assumes "0 \<le> n" and "n < 2 ^ 63"
  shows "\<not> (word_of_int n :: u64) > 0x7fffffffffffffff" and "uint (word_of_int n :: u64) = n"
proof -
  show u: "uint (word_of_int n :: u64) = n" using assms by (simp add: take_bit_int_eq_self unsigned_of_int)
  show "\<not> (word_of_int n :: u64) > 0x7fffffffffffffff" using assms by (simp add: word_less_def u)
qed

lemma length_encode:
  assumes "EncodeMessage m = Inr bs"
  shows "length bs \<le> length (wire_topic m) + length (fr_payload (m_frame m)) + length (m_error m) + 116"
  using assms length_PutUvarint [of "m_id m"] length_PutUvarint [of "m_subscription m"] length_PutUvarint [of "m_ack m"]
    length_PutUvarint [of "fr_sequence (m_frame m)"] length_PutUvarint [of "o_since (m_options m)"]
    length_PutUvarint [of "word_of_int (o_buffer (m_options m))"] length_PutUvarint [of "word_of_int (o_replay (m_options m))"]
    length_PutVarint [of 0] length_PutVarint [of "UnixNano (fr_timestamp (m_frame m))"]
    length_putBytes [of "bytes_of (wire_topic m)"] length_putBytes [of "fr_payload (m_frame m)"]
    length_putBytes [of "bytes_of (m_error m)"]
  by (auto simp: EncodeMessage_def Let_def split: if_splits)

lemma decode_encode:
  assumes "wire_valid m"
  shows "\<exists>bs. EncodeMessage m = Inr bs \<and> DecodeMessage bs = Inr m"
proof -
  have topic: "wire_topic m = fr_topic (m_frame m)" using assms by (auto simp: wire_topic_def wire_valid_def)
  obtain bs where bs: "EncodeMessage m = Inr bs" using assms by (simp add: EncodeMessage_def topic wire_valid_def Let_def)
  have "DecodeMessage bs = Inr m"
    using assms bs wire_time_back [of "fr_timestamp (m_frame m)"] wire_count [of "o_buffer (m_options m)"]
      wire_count [of "o_replay (m_options m)"]
    by (auto simp: EncodeMessage_def DecodeMessage_def topic wire_valid_def Let_def wire_check_def ReadVarint_Put
        readBytes_put readBytes_put [where r = "[]", simplified] split: if_splits)
  with bs show ?thesis by blast
qed

section \<open>The decoder accepts only valid messages\<close>

lemma wire_thenE:
  assumes "wire_then p k = Inr y"
  obtains x r where "p = Inr (x, r)" and "k x r = Inr y"
  using assms by (cases "(p, k)" rule: wire_then.cases) auto

lemma wire_checkE:
  assumes "wire_check bad k = Inr y"
  obtains "\<not> bad" and "k = Inr y"
  using assms by (simp add: wire_check_def split: if_splits)

lemma readBytes_length: "readBytes n r = Inr (d, r1) \<Longrightarrow> length d \<le> n"
  by (auto simp: readBytes_def ReadFull_def split: if_splits elim!: wire_thenE wire_checkE)

lemma ReadVarint_int64: "ReadVarint r = Inr (x, r1) \<Longrightarrow> int64 x"
  using sint_ge [where 'a = 64] sint_lt [where 'a = 64]
  by (auto simp: ReadVarint_def int64_def Let_def split: sum.splits)

lemma wire_time_Unix: "wire_time 0" "int64 n \<Longrightarrow> n \<noteq> 0 \<Longrightarrow> wire_time (time_Unix n)"
  by (simp_all add: wire_time_def time_Unix_def time_IsZero_def)

lemma uint_count: "\<not> (w :: u64) > 0x7fffffffffffffff \<Longrightarrow> uint w < 0x8000000000000000"
  by (simp add: word_less_def)

lemma byte_ge_1: "(b :: byte) \<noteq> 0 \<Longrightarrow> 1 \<le> b"
  by (metis linorder_not_le word_less_1)

lemma decode_valid:
  assumes "DecodeMessage bs = Inr m"
  shows "wire_valid m"
  using assms unfolding DecodeMessage_def
  apply (elim wire_thenE wire_checkE)
  apply (simp split: if_splits)
  apply (elim wire_thenE wire_checkE)
  apply (auto simp: wire_valid_def dest: readBytes_length dest!: ReadVarint_int64 intro: wire_time_Unix uint_count byte_ge_1)
  done

section \<open>Streams of messages\<close>

text \<open>What package io documents of a writer that does not fail: it takes at least one byte
  of a non-empty slice, possibly not all, and what it takes is appended.\<close>

definition writer_ok :: "'w writer \<Rightarrow> ('w \<Rightarrow> byte list) \<Rightarrow> bool" where
  "writer_ok wr written \<longleftrightarrow>
     (\<forall>d w. d \<noteq> [] \<longrightarrow>
        (\<exists>n w1. wr d w = ((int n, None), w1) \<and> 0 < n \<and> n \<le> length d \<and> written w1 = written w @ take n d))"

fun WriteMessages :: "'w writer \<Rightarrow> message list \<Rightarrow> 'w \<Rightarrow> stream_error option \<times> 'w" where
  "WriteMessages wr [] w = (None, w)"
| "WriteMessages wr (m # ms) w =
     (case WriteMessage wr m w of (Some e, w1) \<Rightarrow> (Some e, w1) | (None, w1) \<Rightarrow> WriteMessages wr ms w1)"

fun ReadMessages :: "nat \<Rightarrow> wire_reader \<Rightarrow> (stream_error + message) list" where
  "ReadMessages 0 r = []"
| "ReadMessages (Suc n) r = (case ReadMessage r of (x, r1) \<Rightarrow> x # ReadMessages n r1)"

lemma writeAll_ok:
  assumes "writer_ok wr written"
  shows "\<exists>w1. writeAll wr d w = (None, w1) \<and> written w1 = written w @ d"
  using assms
proof (induction wr d w rule: writeAll.induct)
  case (1 wr d w)
  show ?case
  proof (cases "d = []")
    case False
    then obtain n w1 where n: "wr d w = ((int n, None), w1)" "0 < n" "n \<le> length d" "written w1 = written w @ take n d"
      using "1.prems" unfolding writer_ok_def by blast
    obtain w2 where "writeAll wr (drop n d) w1 = (None, w2)" "written w2 = written w1 @ drop n d"
      using "1.IH" [OF False n(1) [symmetric]] n(2) "1.prems" by auto
    with False n show ?thesis by (simp add: writeAll.simps [of wr d])
  qed (simp add: writeAll.simps)
qed

lemma WriteMessage_ok:
  assumes "writer_ok wr written" and "EncodeMessage m = Inr d"
  shows "\<exists>w1. WriteMessage wr m w = (None, w1) \<and> written w1 = written w @ PutUvarint (of_nat (length d)) @ d"
proof -
  obtain w1 where 1: "writeAll wr (PutUvarint (of_nat (length d))) w = (None, w1)"
    "written w1 = written w @ PutUvarint (of_nat (length d))" using writeAll_ok [OF assms(1)] by blast
  obtain w2 where "writeAll wr d w1 = (None, w2)" "written w2 = written w1 @ d" using writeAll_ok [OF assms(1)] by blast
  with 1 show ?thesis by (simp add: WriteMessage_def assms(2))
qed

lemma ReadMessage_ok:
  assumes "wire_valid m" and "EncodeMessage m = Inr d" and "int (length d) \<le> n" and "n < 2 ^ 63"
  shows "ReadMessage \<lparr>rd_data = PutUvarint (of_nat (length d)) @ d @ r, rd_max = n\<rparr> = (Inr m, \<lparr>rd_data = r, rd_max = n\<rparr>)"
proof -
  have "length d < 2 ^ 64" using assms(3,4) by simp
  then have u: "unat (of_nat (length d) :: u64) = length d" by (simp add: unat_of_nat)
  then have i: "uint (of_nat (length d) :: u64) = int (length d)" by (metis uint_nat)
  have "DecodeMessage d = Inr m" using decode_encode [OF assms(1)] assms(2) by auto
  with assms(3) show ?thesis by (simp add: ReadMessage_def u i ReadFull_def)
qed

lemma stream_roundtrip:
  assumes "writer_ok wr written" and "n < 2 ^ 63"
    and "\<forall>m \<in> set ms. wire_valid m \<and> (\<forall>d. EncodeMessage m = Inr d \<longrightarrow> int (length d) \<le> n)"
  shows "\<exists>w1 d. WriteMessages wr ms w = (None, w1) \<and> written w1 = written w @ d \<and>
    ReadMessages (length ms + 1) \<lparr>rd_data = d, rd_max = n\<rparr> = map Inr ms @ [Inl EOF]"
  using assms(3)
proof (induct ms arbitrary: w)
  case Nil
  show ?case by (simp add: ReadMessage_def ReadUvarint_def)
next
  case (Cons m ms)
  obtain d where d: "EncodeMessage m = Inr d" using decode_encode [of m] Cons.prems by auto
  obtain w1 where 1: "WriteMessage wr m w = (None, w1)" "written w1 = written w @ PutUvarint (of_nat (length d)) @ d"
    using WriteMessage_ok [OF assms(1) d] by blast
  obtain w2 ds where 2: "WriteMessages wr ms w1 = (None, w2)" "written w2 = written w1 @ ds"
    "ReadMessages (length ms + 1) \<lparr>rd_data = ds, rd_max = n\<rparr> = map Inr ms @ [Inl EOF]"
    using Cons.hyps [of w1] Cons.prems by auto
  have "ReadMessage \<lparr>rd_data = PutUvarint (of_nat (length d)) @ d @ ds, rd_max = n\<rparr> = (Inr m, \<lparr>rd_data = ds, rd_max = n\<rparr>)"
    using Cons.prems d assms(2) by (intro ReadMessage_ok) auto
  then show ?case using 1 2 by (intro exI [of _ w2] exI [of _ "PutUvarint (of_nat (length d)) @ d @ ds"]) simp
qed

section \<open>Properties\<close>

text \<open>
  C22. The wire format round-trips: a valid message encodes, and decoding the bytes gives the
  message back. Valid are the kinds, reliabilities, priorities and policies the package
  declares, non-negative counts, lengths within the limits, and a timestamp that is
  zero or that nanoseconds since the Unix epoch can express other than as 0; a
  subscription carries its topic also in the frame.
\<close>

theorem wire_roundtrip:
  assumes "wire_valid m"
  shows "\<exists>bs. EncodeMessage m = Inr bs \<and> DecodeMessage bs = Inr m"
  using assms by (rule decode_encode)

text \<open>A message for the examples: a subscription that resumes a stream.\<close>

definition resume_msg :: message where
  "resume_msg = \<lparr>m_kind = MessageSubscribe, m_id = 7, m_subscription = 0, m_ack = 300,
     m_frame = zero_frame\<lparr>fr_topic := ''a'', fr_timestamp := unix_epoch - 5, fr_payload := [200]\<rparr>,
     m_options = zero_options\<lparr>o_topic := ''a'', o_buffer := 128, o_overflow := DropOldest, o_since := 42\<rparr>,
     m_error = []\<rparr>"

lemma resume_msg_valid: "wire_valid resume_msg"
  by (simp add: resume_msg_def wire_valid_def zero_frame_def zero_options_def wire_time_def time_IsZero_def
      unix_epoch_def int64_def)

theorem wire_roundtrip_witness: "\<exists>bs. EncodeMessage resume_msg = Inr bs \<and> DecodeMessage bs = Inr resume_msg"
  by (rule wire_roundtrip [OF resume_msg_valid])

text \<open>
  C35. The decoder checks everything: from any bytes whatever it accepts only valid
  messages, which therefore encode again, with the same meaning.
\<close>

theorem wire_decoded_valid:
  assumes "DecodeMessage bs = Inr m"
  shows "wire_valid m \<and> (\<exists>bs'. EncodeMessage m = Inr bs' \<and> DecodeMessage bs' = Inr m)"
  using decode_valid [OF assms] decode_encode by blast

lemma resume_msg_decodes: "\<exists>bs. DecodeMessage bs = Inr resume_msg"
  using decode_encode [OF resume_msg_valid] by blast

theorem wire_decoded_valid_witness: "wire_valid resume_msg \<and> (\<exists>bs. EncodeMessage resume_msg = Inr bs)"
  using resume_msg_decodes wire_decoded_valid by blast

text \<open>
  Messages written to a stream come back, in order and with nothing in between or
  after: the writer may take any part of what it is given, and the limit of the reader
  must admit the messages.
\<close>

theorem wire_stream_roundtrip:
  assumes "writer_ok wr written" and "written w = []" and "0 < n" and "n < 2 ^ 63"
    and "\<forall>m \<in> set ms. wire_valid m \<and> (\<forall>d. EncodeMessage m = Inr d \<longrightarrow> int (length d) \<le> n)"
  shows "\<exists>w1. WriteMessages wr ms w = (None, w1) \<and>
    ReadMessages (length ms + 1) (NewReader (written w1) n) = map Inr ms @ [Inl EOF]"
  using stream_roundtrip [OF assms(1,4,5), of w] assms(2,3) by (auto simp: NewReader_def)

text \<open>A writer that takes one byte at a time.\<close>

definition trickle :: "byte list writer" where
  "trickle d w = ((1, None), w @ take 1 d)"

theorem wire_stream_roundtrip_witness:
  "\<exists>w1. WriteMessages trickle [resume_msg, resume_msg] [] = (None, w1) \<and>
    ReadMessages 3 (NewReader w1 4096) = [Inr resume_msg, Inr resume_msg, Inl EOF]"
proof -
  have "writer_ok trickle (\<lambda>w. w)"
    unfolding writer_ok_def
  proof (intro allI impI)
    fix d w :: "byte list"
    assume "d \<noteq> []"
    then show "\<exists>n w1. trickle d w = ((int n, None), w1) \<and> 0 < n \<and> n \<le> length d \<and> w1 = w @ take n d"
      by (intro exI [of _ 1] exI [of _ "w @ take 1 d"]) (simp add: trickle_def Suc_le_eq)
  qed
  moreover have "int (length d) \<le> 4096" if "EncodeMessage resume_msg = Inr d" for d
    using length_encode [OF that] by (simp add: resume_msg_def wire_topic_def zero_frame_def)
  ultimately show ?thesis
    using wire_stream_roundtrip [of trickle "\<lambda>w. w" "[]" 4096 "[resume_msg, resume_msg]"] resume_msg_valid
    by (simp add: numeral_3_eq_3)
qed

end
