(* ===== verification/Stream_Queue.thy ===== *)
theory Stream_Queue
  imports Stream_Types
begin

text \<open>
  The bounded priority queue of a subscription (src/streambus/queue.go): a ring buffer per
  priority class, each as large as the whole queue. Capacities and positions are non-negative
  \<^verbatim>\<open>int\<close>s far below the width of the type and are naturals here; a capacity is at
  least 1, as \<^verbatim>\<open>Subscribe\<close> checks.

  The queue refines one list of frames in the order of their arrival: \<^verbatim>\<open>pop\<close> takes the
  first of the most urgent frames, \<^verbatim>\<open>popOldest\<close> the first frame.
\<close>

section \<open>Ring buffers\<close>

record ring =
  rq_items :: "frame list"
  rq_head :: nat
  rq_len :: nat

definition newRingQueue :: "nat \<Rightarrow> ring" where
  "newRingQueue n = \<lparr>rq_items = replicate n zero_frame, rq_head = 0, rq_len = 0\<rparr>"

definition ring_push :: "frame \<Rightarrow> ring \<Rightarrow> ring" where
  "ring_push f q =
     (let idx = (rq_head q + rq_len q) mod length (rq_items q)
      in q\<lparr>rq_items := (rq_items q)[idx := f], rq_len := rq_len q + 1\<rparr>)"

definition ring_peek :: "ring \<Rightarrow> frame option" where
  "ring_peek q = (if rq_len q = 0 then None else Some (rq_items q ! rq_head q))"

definition ring_pop :: "ring \<Rightarrow> frame option \<times> ring" where
  "ring_pop q =
     (if rq_len q = 0 then (None, q)
      else (Some (rq_items q ! rq_head q),
            q\<lparr>rq_items := (rq_items q)[rq_head q := zero_frame], rq_head := (rq_head q + 1) mod length (rq_items q),
              rq_len := rq_len q - 1\<rparr>))"

section \<open>The priority queue\<close>

record frame_queue =
  fq_queues :: "ring list"
  fq_capacity :: nat
  fq_len :: nat

definition newFrameQueue :: "nat \<Rightarrow> frame_queue" where
  "newFrameQueue n = \<lparr>fq_queues = replicate 4 (newRingQueue n), fq_capacity = n, fq_len = 0\<rparr>"

definition prio_class :: "frame \<Rightarrow> nat" where
  "prio_class f = (if fr_priority f > PriorityCritical then unat PriorityNormal else unat (fr_priority f))"

definition fq_push :: "frame \<Rightarrow> frame_queue \<Rightarrow> bool \<times> frame_queue" where
  "fq_push f q =
     (if fq_len q = fq_capacity q then (False, q)
      else let p = prio_class f
           in (True, q\<lparr>fq_queues := (fq_queues q)[p := ring_push f (fq_queues q ! p)], fq_len := fq_len q + 1\<rparr>))"

text \<open>The loop of \<^verbatim>\<open>pop\<close> over the classes.\<close>

fun fq_pop_from :: "nat list \<Rightarrow> frame_queue \<Rightarrow> frame option \<times> frame_queue" where
  "fq_pop_from [] q = (None, q)"
| "fq_pop_from (p # ps) q =
     (case ring_pop (fq_queues q ! p) of
        (Some f, r) \<Rightarrow> (Some f, q\<lparr>fq_queues := (fq_queues q)[p := r], fq_len := fq_len q - 1\<rparr>)
      | (None, r) \<Rightarrow> fq_pop_from ps (q\<lparr>fq_queues := (fq_queues q)[p := r]\<rparr>))"

definition fq_pop :: "frame_queue \<Rightarrow> frame option \<times> frame_queue" where
  "fq_pop q = fq_pop_from [3, 2, 1, 0] q"

text \<open>The loop of \<^verbatim>\<open>popOldest\<close>: the class selected so far with its frame.\<close>

fun oldest_of :: "ring list \<Rightarrow> nat list \<Rightarrow> (nat \<times> frame) option \<Rightarrow> (nat \<times> frame) option" where
  "oldest_of qs [] sel = sel"
| "oldest_of qs (p # ps) sel =
     (case ring_peek (qs ! p) of
        None \<Rightarrow> oldest_of qs ps sel
      | Some f \<Rightarrow>
          oldest_of qs ps
            (case sel of
               None \<Rightarrow> Some (p, f)
             | Some (s, g) \<Rightarrow> if fr_sequence f < fr_sequence g then Some (p, f) else sel))"

definition fq_popOldest :: "frame_queue \<Rightarrow> frame option \<times> frame_queue" where
  "fq_popOldest q =
     (case oldest_of (fq_queues q) [0, 1, 2, 3] None of
        None \<Rightarrow> (None, q)
      | Some (p, _) \<Rightarrow>
          (case ring_pop (fq_queues q ! p) of
             (fo, r) \<Rightarrow> (fo, q\<lparr>fq_queues := (fq_queues q)[p := r], fq_len := fq_len q - 1\<rparr>)))"

function ring_drain :: "ring \<Rightarrow> ring" where
  "ring_drain q = (if rq_len q > 0 then ring_drain (snd (ring_pop q)) else q)"
  by auto
termination by (relation "measure rq_len") (auto simp: ring_pop_def)

declare ring_drain.simps [simp del]

definition fq_clear :: "frame_queue \<Rightarrow> nat \<times> frame_queue" where
  "fq_clear q = (fq_len q, q\<lparr>fq_queues := map ring_drain (fq_queues q), fq_len := 0\<rparr>)"

section \<open>A ring buffer is a list\<close>

definition ring_list :: "ring \<Rightarrow> frame list" where
  "ring_list q = map (\<lambda>i. rq_items q ! ((rq_head q + i) mod length (rq_items q))) [0..<rq_len q]"

definition ring_inv :: "nat \<Rightarrow> ring \<Rightarrow> bool" where
  "ring_inv n q \<longleftrightarrow> 0 < n \<and> length (rq_items q) = n \<and> rq_head q < n \<and> rq_len q \<le> n"

lemma length_ring_list [simp]: "length (ring_list q) = rq_len q"
  by (simp add: ring_list_def)

lemma ring_new: "0 < n \<Longrightarrow> ring_inv n (newRingQueue n)" "ring_list (newRingQueue n) = []"
  by (simp_all add: ring_inv_def newRingQueue_def ring_list_def)

lemma mod_distinct:
  assumes "i < j" and "j < (n::nat)"
  shows "(h + i) mod n \<noteq> (h + j) mod n"
proof
  assume "(h + i) mod n = (h + j) mod n"
  then have "n dvd (h + j) - (h + i)" using assms by (intro mod_eq_dvd_iff_nat [THEN iffD1]) simp_all
  then have "n dvd j - i" by simp
  with assms show False by (auto dest!: dvd_imp_le)
qed

lemma ring_push_list:
  assumes "ring_inv n q" and "rq_len q < n"
  shows "ring_inv n (ring_push f q)" and "ring_list (ring_push f q) = ring_list q @ [f]"
proof -
  show "ring_inv n (ring_push f q)" using assms by (simp add: ring_inv_def ring_push_def Let_def)
  have l: "length (rq_items q) = n" "0 < n" using assms by (simp_all add: ring_inv_def)
  have "(rq_items q)[(rq_head q + rq_len q) mod n := f] ! ((rq_head q + i) mod n) = rq_items q ! ((rq_head q + i) mod n)"
    if "i < rq_len q" for i
    using mod_distinct [OF that assms(2), of "rq_head q"] by (metis nth_list_update_neq)
  then show "ring_list (ring_push f q) = ring_list q @ [f]"
    using l by (simp add: ring_list_def ring_push_def Let_def)
qed

lemma ring_pop_list:
  assumes "ring_inv n q" and "ring_list q = f # fs"
  shows "fst (ring_pop q) = Some f" and "ring_inv n (snd (ring_pop q))" and "ring_list (snd (ring_pop q)) = fs"
proof -
  have l: "length (rq_items q) = n" "0 < n" "rq_head q < n" "rq_len q \<le> n" using assms by (simp_all add: ring_inv_def)
  have len: "rq_len q = Suc (length fs)" using assms(2) by (metis length_Cons length_ring_list)
  have f: "rq_items q ! rq_head q = f"
    using assms(2) l by (simp add: ring_list_def len upt_conv_Cons del: upt_Suc)
  show "fst (ring_pop q) = Some f" by (simp add: ring_pop_def len f)
  show "ring_inv n (snd (ring_pop q))" using l len by (simp add: ring_inv_def ring_pop_def)
  have fs: "fs = map (\<lambda>i. rq_items q ! ((rq_head q + Suc i) mod n)) [0..<length fs]"
    using assms(2) l by (simp add: ring_list_def len upt_conv_Cons map_Suc_upt [symmetric] o_def del: upt_Suc)
  have "(rq_items q)[rq_head q := zero_frame] ! ((rq_head q + Suc i) mod n) = rq_items q ! ((rq_head q + Suc i) mod n)"
    if "i < length fs" for i
    using mod_distinct [of 0 "Suc i" n "rq_head q"] that len l by (metis add_0_right le_less_trans less_Suc_eq_le mod_less not_less_eq nth_list_update_neq zero_less_Suc)
  then show "ring_list (snd (ring_pop q)) = fs"
    by (subst fs) (simp add: ring_list_def ring_pop_def len l mod_simps)
qed

lemma ring_pop_empty: "ring_list q = [] \<Longrightarrow> ring_pop q = (None, q)"
  by (simp add: ring_list_def ring_pop_def)

lemma ring_peek_list: "ring_inv n q \<Longrightarrow> ring_peek q = (case ring_list q of [] \<Rightarrow> None | f # _ \<Rightarrow> Some f)"
  by (cases "rq_len q") (simp_all add: ring_peek_def ring_list_def ring_inv_def upt_conv_Cons del: upt_Suc)

lemma ring_drain_list: "ring_inv n q \<Longrightarrow> ring_inv n (ring_drain q) \<and> ring_list (ring_drain q) = []"
proof (induction q rule: ring_drain.induct)
  case (1 q)
  show ?case
  proof (cases "ring_list q")
    case Nil
    then have "rq_len q = 0" by (metis length_ring_list list.size(3))
    with Nil "1.prems" show ?thesis by (subst (1 2) ring_drain.simps) simp
  next
    case (Cons f fs)
    then have "rq_len q > 0" by (metis length_ring_list length_Cons zero_less_Suc)
    with "1.IH" ring_pop_list [OF "1.prems" Cons] show ?thesis by (subst (1 2) ring_drain.simps) simp
  qed
qed

section \<open>The queue as one list in order of arrival\<close>

definition spec_push :: "nat \<Rightarrow> frame \<Rightarrow> frame list \<Rightarrow> bool \<times> frame list" where
  "spec_push n f xs = (if length xs = n then (False, xs) else (True, xs @ [f]))"

definition spec_pop :: "frame list \<Rightarrow> frame option \<times> frame list" where
  "spec_pop xs =
     (case filter (\<lambda>f. \<forall>g \<in> set xs. prio_class g \<le> prio_class f) xs of
        [] \<Rightarrow> (None, xs)
      | f # _ \<Rightarrow> (Some f, remove1 f xs))"

definition spec_popOldest :: "frame list \<Rightarrow> frame option \<times> frame list" where
  "spec_popOldest xs = (case xs of [] \<Rightarrow> (None, xs) | f # ys \<Rightarrow> (Some f, ys))"

definition fq_refines :: "frame_queue \<Rightarrow> frame list \<Rightarrow> bool" where
  "fq_refines q xs \<longleftrightarrow>
     length (fq_queues q) = 4 \<and> fq_len q = length xs \<and> length xs \<le> fq_capacity q \<and>
     (\<forall>c < 4. ring_inv (fq_capacity q) (fq_queues q ! c) \<and>
        ring_list (fq_queues q ! c) = filter (\<lambda>f. prio_class f = c) xs)"

lemma prio_class_less [simp]: "prio_class f < 4"
  by (auto simp: prio_class_def word_less_nat_alt)

lemma fq_refines_new: "0 < n \<Longrightarrow> fq_refines (newFrameQueue n) []"
  by (simp add: fq_refines_def newFrameQueue_def ring_new)

lemma fq_refines_push:
  assumes "fq_refines q xs"
  shows "fst (fq_push f q) = fst (spec_push (fq_capacity q) f xs)"
    and "fq_refines (snd (fq_push f q)) (snd (spec_push (fq_capacity q) f xs))"
    and "fq_capacity (snd (fq_push f q)) = fq_capacity q"
proof -
  let ?c = "prio_class f" and ?n = "fq_capacity q"
  have "fq_refines (snd (fq_push f q)) (xs @ [f])" if n: "length xs \<noteq> ?n"
  proof -
    have r: "ring_inv ?n (fq_queues q ! ?c)" "ring_list (fq_queues q ! ?c) = filter (\<lambda>g. prio_class g = ?c) xs"
      using assms by (simp_all add: fq_refines_def)
    have "rq_len (fq_queues q ! ?c) = length (filter (\<lambda>g. prio_class g = ?c) xs)" using r(2) by (metis length_ring_list)
    also have "\<dots> \<le> length xs" by simp
    also have "\<dots> < ?n" using n assms by (simp add: fq_refines_def)
    finally have "rq_len (fq_queues q ! ?c) < ?n" .
    note push = ring_push_list [OF r(1) this, of f]
    from n assms show ?thesis
      by (auto simp: fq_refines_def fq_push_def Let_def nth_list_update push r(2))
  qed
  then show "fq_refines (snd (fq_push f q)) (snd (spec_push ?n f xs))"
    using assms by (auto simp: spec_push_def fq_push_def fq_refines_def)
  show "fst (fq_push f q) = fst (spec_push ?n f xs)" "fq_capacity (snd (fq_push f q)) = ?n"
    using assms by (simp_all add: spec_push_def fq_push_def fq_refines_def Let_def)
qed

text \<open>Taking the first frame of a class.\<close>

lemma fq_refines_take:
  assumes q: "fq_refines q xs" and c: "c < 4" and l: "ring_list (fq_queues q ! c) = f # fs"
  shows "ring_pop (fq_queues q ! c) = (Some f, snd (ring_pop (fq_queues q ! c)))"
    and "fq_refines (q\<lparr>fq_queues := (fq_queues q)[c := snd (ring_pop (fq_queues q ! c))], fq_len := fq_len q - 1\<rparr>) (remove1 f xs)"
proof -
  have i: "ring_inv (fq_capacity q) (fq_queues q ! c)" and f: "filter (\<lambda>f. prio_class f = c) xs = f # fs"
    using q c l by (simp_all add: fq_refines_def)
  note pop = ring_pop_list [OF i l]
  show "ring_pop (fq_queues q ! c) = (Some f, snd (ring_pop (fq_queues q ! c)))" using pop(1) by (metis prod.collapse)
  have "f \<in> set (filter (\<lambda>f. prio_class f = c) xs)" using f by simp
  then have fx: "f \<in> set xs" "prio_class f = c" by auto
  have "filter (\<lambda>f. prio_class f = d) (remove1 f xs) = (if d = c then fs else filter (\<lambda>f. prio_class f = d) xs)" for d
    using f fx by (simp add: filter_remove1 remove1_idem)
  then show "fq_refines (q\<lparr>fq_queues := (fq_queues q)[c := snd (ring_pop (fq_queues q ! c))], fq_len := fq_len q - 1\<rparr>) (remove1 f xs)"
    using q c pop fx by (auto simp: fq_refines_def nth_list_update length_remove1)
qed

lemma fq_refines_pop_from:
  "n \<le> 4 \<Longrightarrow> fq_refines q xs \<Longrightarrow> \<forall>f \<in> set xs. prio_class f < n \<Longrightarrow>
     fst (fq_pop_from (rev [0..<n]) q) = fst (spec_pop xs) \<and> fq_refines (snd (fq_pop_from (rev [0..<n]) q)) (snd (spec_pop xs)) \<and>
     fq_capacity (snd (fq_pop_from (rev [0..<n]) q)) = fq_capacity q"
proof (induct n)
  case 0
  then show ?case by (auto simp: spec_pop_def)
next
  case (Suc n)
  have n: "n < 4" using Suc.prems(1) by simp
  have l: "ring_list (fq_queues q ! n) = filter (\<lambda>f. prio_class f = n) xs" using Suc.prems(2) n by (simp add: fq_refines_def)
  show ?case
  proof (cases "ring_list (fq_queues q ! n)")
    case Nil
    then have "\<forall>f \<in> set xs. prio_class f \<noteq> n" using l by (simp add: filter_empty_conv)
    then have "\<forall>f \<in> set xs. prio_class f < n" using Suc.prems(3) by (simp add: less_Suc_eq)
    then show ?thesis using Suc.hyps Suc.prems(2) n ring_pop_empty [OF Nil] by simp
  next
    case (Cons f fs)
    note t = fq_refines_take [OF Suc.prems(2) n Cons]
    have "n \<in> prio_class ` set xs" using l Cons by (metis (mono_tags, lifting) filter_empty_conv image_eqI list.distinct(1))
    then have "(\<lambda>f. \<forall>g \<in> set xs. prio_class g \<le> prio_class f) x \<longleftrightarrow> prio_class x = n" if "x \<in> set xs" for x
      using Suc.prems(3) that by (force simp: less_Suc_eq_le intro: antisym)
    then have "filter (\<lambda>f. \<forall>g \<in> set xs. prio_class g \<le> prio_class f) xs = f # fs"
      using l Cons by (simp cong: filter_cong)
    then have "spec_pop xs = (Some f, remove1 f xs)" by (simp add: spec_pop_def)
    moreover have "fq_pop_from (rev [0..<Suc n]) q =
        (Some f, q\<lparr>fq_queues := (fq_queues q)[n := snd (ring_pop (fq_queues q ! n))], fq_len := fq_len q - 1\<rparr>)"
      by (simp, subst t(1)) simp
    ultimately show ?thesis using t(2) by simp
  qed
qed

lemma fq_refines_pop:
  assumes "fq_refines q xs"
  shows "fst (fq_pop q) = fst (spec_pop xs)" and "fq_refines (snd (fq_pop q)) (snd (spec_pop xs))"
    and "fq_capacity (snd (fq_pop q)) = fq_capacity q"
proof -
  have e: "[3, 2, 1, 0] = rev [0..<4]" by (simp add: upt_rec)
  show "fst (fq_pop q) = fst (spec_pop xs)" and "fq_refines (snd (fq_pop q)) (snd (spec_pop xs))"
    and "fq_capacity (snd (fq_pop q)) = fq_capacity q"
    using fq_refines_pop_from [OF _ assms, of 4] unfolding fq_pop_def e by simp_all
qed

text \<open>With frames queued in the order of their sequence numbers the oldest one is the first.\<close>

abbreviation in_order :: "frame list \<Rightarrow> bool" where
  "in_order xs \<equiv> sorted_wrt (\<lambda>f g. fr_sequence f < fr_sequence g) xs"

lemma oldest_of_stays:
  assumes "\<And>p g. p \<in> set ps \<Longrightarrow> ring_peek (qs ! p) = Some g \<Longrightarrow> \<not> fr_sequence g < fr_sequence f"
  shows "oldest_of qs ps (Some (c, f)) = Some (c, f)"
  using assms by (induct ps) (auto split: option.splits)

lemma oldest_of_finds:
  assumes "c \<in> set ps" and "distinct ps" and "ring_peek (qs ! c) = Some f"
    and "\<And>p g. p \<in> set ps \<Longrightarrow> p \<noteq> c \<Longrightarrow> ring_peek (qs ! p) = Some g \<Longrightarrow> fr_sequence f < fr_sequence g"
    and "\<And>s g. sel = Some (s, g) \<Longrightarrow> fr_sequence f < fr_sequence g"
  shows "oldest_of qs ps sel = Some (c, f)"
  using assms
proof (induct ps arbitrary: sel)
  case (Cons p ps)
  show ?case
  proof (cases "p = c")
    case True
    have "oldest_of qs ps (Some (c, f)) = Some (c, f)"
      using Cons.prems(2,4) True by (intro oldest_of_stays) (metis distinct.simps(2) list.set_intros(2) not_less_iff_gr_or_eq)
    then show ?thesis using True Cons.prems(3,5) by (cases sel) auto
  next
    case False
    then have "oldest_of qs ps sel' = Some (c, f)" if "\<And>s g. sel' = Some (s, g) \<Longrightarrow> fr_sequence f < fr_sequence g" for sel'
      using Cons.prems that by (intro Cons.hyps) auto
    note IH = this
    have "ring_peek (qs ! p) = Some g \<Longrightarrow> fr_sequence f < fr_sequence g" for g
      using False Cons.prems(4) [of p g] by simp
    then show ?thesis using Cons.prems(5) by (simp split: option.split) (intro conjI impI allI; rule IH; auto)
  qed
qed simp

lemma fq_refines_popOldest:
  assumes "fq_refines q xs" and "in_order xs"
  shows "fst (fq_popOldest q) = fst (spec_popOldest xs)" and "fq_refines (snd (fq_popOldest q)) (snd (spec_popOldest xs))"
    and "fq_capacity (snd (fq_popOldest q)) = fq_capacity q"
proof -
  have pk: "ring_peek (fq_queues q ! c) = (case filter (\<lambda>f. prio_class f = c) xs of [] \<Rightarrow> None | f # _ \<Rightarrow> Some f)"
    if "c < 4" for c
    using assms(1) that ring_peek_list [of "fq_capacity q" "fq_queues q ! c"] by (simp add: fq_refines_def)
  have "fst (fq_popOldest q) = fst (spec_popOldest xs) \<and> fq_refines (snd (fq_popOldest q)) (snd (spec_popOldest xs)) \<and>
    fq_capacity (snd (fq_popOldest q)) = fq_capacity q"
  proof (cases xs)
    case Nil
    then have "oldest_of (fq_queues q) [0, 1, 2, 3] None = None" by (simp add: pk)
    then show ?thesis using assms(1) Nil by (simp add: fq_popOldest_def spec_popOldest_def)
  next
    case (Cons f ys)
    let ?c = "prio_class f"
    have "oldest_of (fq_queues q) [0, 1, 2, 3] None = Some (?c, f)"
    proof (rule oldest_of_finds)
      have "?c < 4" by simp
      then have "?c = 0 \<or> ?c = 1 \<or> ?c = 2 \<or> ?c = 3" by linarith
      then show "?c \<in> set [0, 1, 2, 3]" by simp
      show "ring_peek (fq_queues q ! ?c) = Some f" by (simp add: pk Cons)
      fix p g
      assume p: "p \<in> set [0, 1, 2, 3]" "p \<noteq> ?c" "ring_peek (fq_queues q ! p) = Some g"
      have "g \<in> set (filter (\<lambda>f. prio_class f = p) xs)"
        using p(1,3) pk [of p] by (cases "filter (\<lambda>f. prio_class f = p) xs") (auto simp del: set_filter)
      then show "fr_sequence f < fr_sequence g" using p assms(2) Cons by auto
    qed simp_all
    moreover have l: "ring_list (fq_queues q ! ?c) = f # filter (\<lambda>g. prio_class g = ?c) ys"
      using assms(1) Cons by (simp add: fq_refines_def)
    ultimately show ?thesis
      using fq_refines_take [OF assms(1) prio_class_less l] Cons
      by (simp add: fq_popOldest_def spec_popOldest_def split: prod.splits) (metis prod.inject)
  qed
  then show "fst (fq_popOldest q) = fst (spec_popOldest xs)" "fq_refines (snd (fq_popOldest q)) (snd (spec_popOldest xs))"
    "fq_capacity (snd (fq_popOldest q)) = fq_capacity q" by blast+
qed

text \<open>In any order it removes some frame.\<close>

lemma oldest_of_some:
  "oldest_of qs ps sel = Some (c, f) \<Longrightarrow> sel = Some (c, f) \<or> c \<in> set ps \<and> ring_peek (qs ! c) = Some f"
proof (induct ps arbitrary: sel)
  case (Cons p ps)
  then show ?case
    by (cases "ring_peek (qs ! p)"; cases sel) (auto split: if_splits dest!: Cons.hyps)
qed simp

lemma oldest_of_none: "oldest_of qs ps sel = None \<Longrightarrow> sel = None \<and> (\<forall>p \<in> set ps. ring_peek (qs ! p) = None)"
proof (induct ps arbitrary: sel)
  case (Cons p ps)
  then show ?case
    by (cases "ring_peek (qs ! p)"; cases sel) (auto split: if_splits dest!: Cons.hyps)
qed simp

lemma fq_refines_popOldest_some:
  assumes "fq_refines q xs" and "xs \<noteq> []"
  obtains f where "f \<in> set xs" and "fst (fq_popOldest q) = Some f" and "fq_refines (snd (fq_popOldest q)) (remove1 f xs)"
    and "fq_capacity (snd (fq_popOldest q)) = fq_capacity q"
proof -
  have pk: "ring_peek (fq_queues q ! c) = (case filter (\<lambda>f. prio_class f = c) xs of [] \<Rightarrow> None | f # _ \<Rightarrow> Some f)"
    if "c < 4" for c
    using assms(1) that ring_peek_list [of "fq_capacity q" "fq_queues q ! c"] by (simp add: fq_refines_def)
  obtain g ys where g: "xs = g # ys" using assms(2) by (cases xs) auto
  have "oldest_of (fq_queues q) [0, 1, 2, 3] None \<noteq> None"
  proof
    assume n: "oldest_of (fq_queues q) [0, 1, 2, 3] None = None"
    have "prio_class g < 4" by simp
    then have "prio_class g = 0 \<or> prio_class g = 1 \<or> prio_class g = 2 \<or> prio_class g = 3" by linarith
    then have "prio_class g \<in> set [0, 1, 2, 3]" by simp
    with oldest_of_none [OF n] have "ring_peek (fq_queues q ! prio_class g) = None" by blast
    with pk [of "prio_class g"] g show False by simp
  qed
  then obtain c f where o: "oldest_of (fq_queues q) [0, 1, 2, 3] None = Some (c, f)" by auto
  with oldest_of_some have c: "c \<in> set [0, 1, 2, 3]" "ring_peek (fq_queues q ! c) = Some f" by fastforce+
  then have c4: "c < 4" by auto
  obtain fs where fs: "filter (\<lambda>f. prio_class f = c) xs = f # fs"
    using pk [OF c4] c(2) by (cases "filter (\<lambda>f. prio_class f = c) xs") auto
  then have f: "f \<in> set xs" by (metis filter_is_subset list.set_intros(1) subsetD)
  have "ring_list (fq_queues q ! c) = f # fs" using assms(1) c4 fs by (simp add: fq_refines_def)
  note t = fq_refines_take [OF assms(1) c4 this]
  show thesis
  proof (rule that [OF f])
    have "fst (ring_pop (fq_queues q ! c)) = Some f" using t(1) by (metis fst_conv)
    then show "fst (fq_popOldest q) = Some f" by (simp add: fq_popOldest_def o case_prod_beta del: oldest_of.simps One_nat_def)
    show "fq_refines (snd (fq_popOldest q)) (remove1 f xs)" using t(2) by (simp add: fq_popOldest_def o case_prod_beta del: oldest_of.simps One_nat_def)
    show "fq_capacity (snd (fq_popOldest q)) = fq_capacity q" by (simp add: fq_popOldest_def o case_prod_beta del: oldest_of.simps One_nat_def)
  qed
qed

lemma fq_refines_clear:
  assumes "fq_refines q xs"
  shows "fst (fq_clear q) = length xs" and "fq_refines (snd (fq_clear q)) []" and "fq_capacity (snd (fq_clear q)) = fq_capacity q"
  using assms ring_drain_list by (auto simp: fq_refines_def fq_clear_def)

section \<open>Properties\<close>

datatype fq_op = FPush frame | FPop | FPopOldest | FClear

datatype fq_out = Pushed bool | Popped "frame option" | Cleared nat

fun fq_exec :: "fq_op \<Rightarrow> frame_queue \<Rightarrow> fq_out \<times> frame_queue" where
  "fq_exec (FPush f) q = (case fq_push f q of (b, q1) \<Rightarrow> (Pushed b, q1))"
| "fq_exec FPop q = (case fq_pop q of (fo, q1) \<Rightarrow> (Popped fo, q1))"
| "fq_exec FPopOldest q = (case fq_popOldest q of (fo, q1) \<Rightarrow> (Popped fo, q1))"
| "fq_exec FClear q = (case fq_clear q of (n, q1) \<Rightarrow> (Cleared n, q1))"

fun spec_exec :: "nat \<Rightarrow> fq_op \<Rightarrow> frame list \<Rightarrow> fq_out \<times> frame list" where
  "spec_exec n (FPush f) xs = (case spec_push n f xs of (b, ys) \<Rightarrow> (Pushed b, ys))"
| "spec_exec n FPop xs = (case spec_pop xs of (fo, ys) \<Rightarrow> (Popped fo, ys))"
| "spec_exec n FPopOldest xs = (case spec_popOldest xs of (fo, ys) \<Rightarrow> (Popped fo, ys))"
| "spec_exec n FClear xs = (Cleared (length xs), [])"

fun fq_run :: "fq_op list \<Rightarrow> frame_queue \<Rightarrow> fq_out list" where
  "fq_run [] q = []"
| "fq_run (x # ops) q = (case fq_exec x q of (r, q1) \<Rightarrow> r # fq_run ops q1)"

fun spec_run :: "nat \<Rightarrow> fq_op list \<Rightarrow> frame list \<Rightarrow> fq_out list" where
  "spec_run n [] xs = []"
| "spec_run n (x # ops) xs = (case spec_exec n x xs of (r, ys) \<Rightarrow> r # spec_run n ops ys)"

fun fq_pushes :: "fq_op list \<Rightarrow> frame list" where
  "fq_pushes [] = []"
| "fq_pushes (FPush f # ops) = f # fq_pushes ops"
| "fq_pushes (_ # ops) = fq_pushes ops"

lemma fq_exec_refines:
  assumes "fq_refines q xs" and "in_order xs"
  shows "fst (fq_exec x q) = fst (spec_exec (fq_capacity q) x xs) \<and>
    fq_refines (snd (fq_exec x q)) (snd (spec_exec (fq_capacity q) x xs)) \<and> fq_capacity (snd (fq_exec x q)) = fq_capacity q"
proof (cases x)
  case (FPush f)
  with fq_refines_push [OF assms(1), of f] show ?thesis by (simp add: case_prod_beta)
next
  case FPop
  with fq_refines_pop [OF assms(1)] show ?thesis by (simp add: case_prod_beta)
next
  case FPopOldest
  with fq_refines_popOldest [OF assms] show ?thesis by (simp add: case_prod_beta)
next
  case FClear
  with fq_refines_clear [OF assms(1)] show ?thesis by (simp add: case_prod_beta)
qed

lemma in_order_remove1: "in_order xs \<Longrightarrow> in_order (remove1 f xs)"
  by (induct xs) (auto dest: notin_set_remove1)

lemma spec_exec_in_order:
  assumes "in_order (xs @ fq_pushes (x # ops))"
  shows "in_order (snd (spec_exec n x xs) @ fq_pushes ops)"
proof (cases x)
  case FPop
  then show ?thesis using assms
    by (auto simp: spec_pop_def sorted_wrt_append in_order_remove1 dest!: notin_set_remove1 split: list.splits)
qed (use assms in \<open>auto simp: spec_push_def spec_popOldest_def sorted_wrt_append split: list.splits\<close>)

lemma fq_run_refines:
  "fq_refines q xs \<Longrightarrow> in_order (xs @ fq_pushes ops) \<Longrightarrow> fq_run ops q = spec_run (fq_capacity q) ops xs"
proof (induct ops arbitrary: q xs)
  case (Cons x ops)
  have "in_order xs" using Cons.prems(2) by (simp add: sorted_wrt_append)
  note h = fq_exec_refines [OF Cons.prems(1) this, of x]
  obtain r q1 where e: "fq_exec x q = (r, q1)" by (cases "fq_exec x q")
  obtain r' ys where s: "spec_exec (fq_capacity q) x xs = (r', ys)" by (cases "spec_exec (fq_capacity q) x xs")
  have "in_order (ys @ fq_pushes ops)" using spec_exec_in_order [OF Cons.prems(2), of "fq_capacity q"] s by simp
  with Cons.hyps [of q1 ys] h e s show ?case by simp
qed simp

text \<open>
  C16. The priority queue of a subscription behaves as one bounded list in order of arrival:
  for every sequence of operations in which the frames arrive by increasing sequence
  number, \<^verbatim>\<open>push\<close> refuses exactly when the capacity is reached, \<^verbatim>\<open>pop\<close> gives the first of the
  most urgent frames, \<^verbatim>\<open>popOldest\<close> the first of all and \<^verbatim>\<open>clear\<close> the number of frames
  dropped.
\<close>

theorem frame_queue_refines_list:
  assumes "0 < n" and "in_order (fq_pushes ops)"
  shows "fq_run ops (newFrameQueue n) = spec_run n ops []"
  using fq_run_refines [OF fq_refines_new [OF assms(1)], of ops] assms(2) by (simp add: newFrameQueue_def)

abbreviation q_frame :: "u64 \<Rightarrow> byte \<Rightarrow> frame" where
  "q_frame s p \<equiv> zero_frame\<lparr>fr_sequence := s, fr_priority := p\<rparr>"

theorem frame_queue_refines_list_witness:
  "fq_run [FPush (q_frame 1 0), FPush (q_frame 2 3), FPush (q_frame 3 1), FPop, FPopOldest, FClear] (newFrameQueue 2)
     = [Pushed True, Pushed True, Pushed False, Popped (Some (q_frame 2 3)), Popped (Some (q_frame 1 0)), Cleared 0]"
  by (subst frame_queue_refines_list)
    (simp_all add: spec_push_def spec_pop_def spec_popOldest_def prio_class_def)

end
