(* ===== verification/Stream_Sub.thy ===== *)
theory Stream_Sub
  imports Stream_Queue
begin

text \<open>
  A subscription (src/streambus/subscription.go): a bounded queue that publishers fill and
  the goroutine \<^verbatim>\<open>run\<close> empties into the delivery channel. The channels \<^verbatim>\<open>notify\<close> and
  \<^verbatim>\<open>space\<close> hold at most one token each and are booleans.

  \<open>enqueue_turn\<close> is one turn of the loop of \<^verbatim>\<open>enqueue\<close>, under the mutex; \<open>sub_step\<close> interleaves
  any number of publishers, the goroutine \<^verbatim>\<open>run\<close>, the receiver of the frames and
  \<^verbatim>\<open>Close\<close>, with the signals and the waits as steps of their own.
\<close>

section \<open>State and operations\<close>

text \<open>Where \<^verbatim>\<open>run\<close> is: waiting for a token, about to pop, with a popped frame before it signals
  space, sending the frame, or returned.\<close>

datatype runner = RWait | RDrain | RPopped frame | RSend frame | RStopped

record subscription =
  sb_id :: u64
  sb_options :: sub_options
  sb_notify :: bool
  sb_space :: bool
  sb_queue :: frame_queue
  sb_closed :: bool
  sb_done :: bool
  sb_enqueued :: u64
  sb_delivered :: u64
  sb_dropped :: u64
  sb_runner :: runner

definition newSubscription :: "u64 \<Rightarrow> sub_options \<Rightarrow> subscription" where
  "newSubscription sid opts =
     \<lparr>sb_id = sid, sb_options = opts, sb_notify = False, sb_space = False, sb_queue = newFrameQueue (nat (o_buffer opts)),
      sb_closed = False, sb_done = False, sb_enqueued = 0, sb_delivered = 0, sb_dropped = 0, sb_runner = RWait\<rparr>"

definition sub_Stats :: "subscription \<Rightarrow> sub_stats" where
  "sub_Stats s = \<lparr>st_enqueued = sb_enqueued s, st_delivered = sb_delivered s, st_dropped = sb_dropped s,
     st_queued = fq_len (sb_queue s)\<rparr>"

text \<open>\<^verbatim>\<open>Close\<close>, up to the call of \<^verbatim>\<open>unregister\<close>.\<close>

definition sub_Close :: "subscription \<Rightarrow> subscription" where
  "sub_Close s = (if sb_closed s then s else s\<lparr>sb_closed := True, sb_done := True\<rparr>)"

fun preload_loop :: "frame list \<Rightarrow> subscription \<Rightarrow> subscription" where
  "preload_loop [] s = s"
| "preload_loop (f # fs) s =
     (case fq_push f (sb_queue s) of
        (True, q) \<Rightarrow> preload_loop fs (s\<lparr>sb_queue := q, sb_enqueued := sb_enqueued s + 1\<rparr>)
      | (False, q) \<Rightarrow>
          preload_loop fs (s\<lparr>sb_queue := snd (fq_push f (snd (fq_popOldest q))), sb_dropped := sb_dropped s + 1,
                             sb_enqueued := sb_enqueued s + 1\<rparr>))"

definition preload :: "frame list \<Rightarrow> subscription \<Rightarrow> subscription" where
  "preload fs s = (let s1 = preload_loop fs s in if fq_len (sb_queue s1) > 0 then s1\<lparr>sb_notify := True\<rparr> else s1)"

text \<open>A turn of \<^verbatim>\<open>enqueue\<close> ends with a signal to \<^verbatim>\<open>run\<close> and success, with a result, or in the wait
  for space.\<close>

datatype turn = TSignal | TReturn "stream_error option" | TWait

definition enqueue_turn :: "frame \<Rightarrow> subscription \<Rightarrow> turn \<times> subscription" where
  "enqueue_turn f s =
     (if sb_closed s then (TReturn (Some ErrSubscriptionDone), s)
      else case fq_push f (sb_queue s) of
             (True, q) \<Rightarrow> (TSignal, s\<lparr>sb_queue := q, sb_enqueued := sb_enqueued s + 1\<rparr>)
           | (False, q) \<Rightarrow>
               if o_overflow (sb_options s) = DropNewest then
                 (TReturn None, s\<lparr>sb_dropped := sb_dropped s + 1\<rparr>)
               else if o_overflow (sb_options s) = DropOldest then
                 (TSignal, s\<lparr>sb_queue := snd (fq_push f (snd (fq_popOldest q))), sb_dropped := sb_dropped s + 1,
                             sb_enqueued := sb_enqueued s + 1\<rparr>)
               else if o_overflow (sb_options s) = LatestOnly then
                 (case fq_clear q of
                    (n, q1) \<Rightarrow>
                      (TSignal, s\<lparr>sb_queue := snd (fq_push f q1), sb_dropped := sb_dropped s + of_nat n,
                                  sb_enqueued := sb_enqueued s + 1\<rparr>))
               else (TWait, s))"

text \<open>
  \<^verbatim>\<open>enqueue\<close> as one call: for each wait, what the other goroutines do to the subscription
  meanwhile and which case of the \<^verbatim>\<open>select\<close> is taken. The result \<^const>\<open>None\<close> means that it
  still waits after all of them.
\<close>

datatype wakeup = WCtx go_error | WDone | WSpace

fun enqueue :: "((subscription \<Rightarrow> subscription) \<times> wakeup) list \<Rightarrow> frame \<Rightarrow> subscription
    \<Rightarrow> stream_error option option \<times> subscription" where
  "enqueue ws f s =
     (case enqueue_turn f s of
        (TSignal, s1) \<Rightarrow> (Some None, s1\<lparr>sb_notify := True\<rparr>)
      | (TReturn e, s1) \<Rightarrow> (Some e, s1)
      | (TWait, s1) \<Rightarrow>
          (case ws of
             [] \<Rightarrow> (None, s1)
           | (others, WCtx e) # _ \<Rightarrow> (Some (Some (CtxErr e)), others s1)
           | (others, WDone) # _ \<Rightarrow> (Some (Some ErrSubscriptionDone), others s1)
           | (others, WSpace) # ws' \<Rightarrow> enqueue ws' f ((others s1)\<lparr>sb_space := False\<rparr>)))"

declare enqueue.simps [simp del]

section \<open>Interleavings\<close>

text \<open>A publisher: in a turn of the loop, before its signal, in the wait, or returned.\<close>

datatype publisher = PTrying frame | PSignal | PWaiting frame | PReturned "stream_error option"

record sub_state =
  sub :: subscription
  pubs :: "publisher list"
  received :: "frame list"

fun after_turn :: "frame \<Rightarrow> turn \<Rightarrow> publisher" where
  "after_turn f TSignal = PSignal"
| "after_turn f (TReturn e) = PReturned e"
| "after_turn f TWait = PWaiting f"

text \<open>The steps that carry frames from the publishers to the receiver.\<close>

inductive sub_move :: "sub_state \<Rightarrow> sub_state \<Rightarrow> bool" where
  m_turn: "p < length (pubs st) \<Longrightarrow> pubs st ! p = PTrying f \<Longrightarrow> enqueue_turn f (sub st) = (t, s) \<Longrightarrow>
     sub_move st (st\<lparr>sub := s, pubs := (pubs st)[p := after_turn f t]\<rparr>)"
| m_signal: "p < length (pubs st) \<Longrightarrow> pubs st ! p = PSignal \<Longrightarrow>
     sub_move st (st\<lparr>sub := (sub st)\<lparr>sb_notify := True\<rparr>, pubs := (pubs st)[p := PReturned None]\<rparr>)"
| m_space: "p < length (pubs st) \<Longrightarrow> pubs st ! p = PWaiting f \<Longrightarrow> sb_space (sub st) \<Longrightarrow>
     sub_move st (st\<lparr>sub := (sub st)\<lparr>sb_space := False\<rparr>, pubs := (pubs st)[p := PTrying f]\<rparr>)"
| m_notified: "sb_runner (sub st) = RWait \<Longrightarrow> sb_notify (sub st) \<Longrightarrow>
     sub_move st (st\<lparr>sub := (sub st)\<lparr>sb_notify := False, sb_runner := RDrain\<rparr>\<rparr>)"
| m_pop: "sb_runner (sub st) = RDrain \<Longrightarrow> fq_pop (sb_queue (sub st)) = (Some f, q) \<Longrightarrow>
     sub_move st (st\<lparr>sub := (sub st)\<lparr>sb_queue := q, sb_runner := RPopped f\<rparr>\<rparr>)"
| m_empty: "sb_runner (sub st) = RDrain \<Longrightarrow> fq_pop (sb_queue (sub st)) = (None, q) \<Longrightarrow>
     sub_move st (st\<lparr>sub := (sub st)\<lparr>sb_queue := q, sb_runner := RWait\<rparr>\<rparr>)"
| m_free: "sb_runner (sub st) = RPopped f \<Longrightarrow>
     sub_move st (st\<lparr>sub := (sub st)\<lparr>sb_space := True, sb_runner := RSend f\<rparr>\<rparr>)"
| m_deliver: "sb_runner (sub st) = RSend f \<Longrightarrow>
     sub_move st (st\<lparr>sub := (sub st)\<lparr>sb_delivered := sb_delivered (sub st) + 1, sb_runner := RDrain\<rparr>,
                     received := received st @ [f]\<rparr>)"

text \<open>The other steps: calls of \<^verbatim>\<open>enqueue\<close>, contexts that end, replayed frames, and closing.\<close>

inductive sub_step :: "sub_state \<Rightarrow> sub_state \<Rightarrow> bool" where
  s_move: "sub_move st st' \<Longrightarrow> sub_step st st'"
| s_enqueue: "sub_step st (st\<lparr>pubs := pubs st @ [PTrying f]\<rparr>)"
| s_cancel: "p < length (pubs st) \<Longrightarrow> pubs st ! p = PWaiting f \<Longrightarrow>
     sub_step st (st\<lparr>pubs := (pubs st)[p := PReturned (Some (CtxErr e))]\<rparr>)"
| s_preload: "sub_step st (st\<lparr>sub := preload fs (sub st)\<rparr>)"
| s_close: "sub_step st (st\<lparr>sub := (sub st)\<lparr>sb_closed := True\<rparr>\<rparr>)"
| s_done: "sb_closed (sub st) \<Longrightarrow> sub_step st (st\<lparr>sub := (sub st)\<lparr>sb_done := True\<rparr>\<rparr>)"
| s_pub_done: "p < length (pubs st) \<Longrightarrow> pubs st ! p = PWaiting f \<Longrightarrow> sb_done (sub st) \<Longrightarrow>
     sub_step st (st\<lparr>pubs := (pubs st)[p := PReturned (Some ErrSubscriptionDone)]\<rparr>)"
| s_stop: "sb_runner (sub st) = RWait \<or> sb_runner (sub st) = RSend f \<Longrightarrow> sb_done (sub st) \<Longrightarrow>
     sub_step st (st\<lparr>sub := (sub st)\<lparr>sb_runner := RStopped\<rparr>\<rparr>)"

inductive sub_reach :: "u64 \<Rightarrow> sub_options \<Rightarrow> sub_state \<Rightarrow> bool" for sid opts where
  reach_new: "sub_reach sid opts \<lparr>sub = newSubscription sid opts, pubs = [], received = []\<rparr>"
| reach_step: "sub_reach sid opts st \<Longrightarrow> sub_step st st' \<Longrightarrow> sub_reach sid opts st'"

section \<open>Lengths of the queue\<close>

definition fq_wf :: "nat \<Rightarrow> frame_queue \<Rightarrow> bool" where
  "fq_wf n q \<longleftrightarrow> fq_capacity q = n \<and> (\<exists>xs. fq_refines q xs)"

lemma fq_wf_len: "fq_wf n q \<Longrightarrow> fq_len q \<le> n"
  by (auto simp: fq_wf_def fq_refines_def)

lemma fq_wf_new: "0 < n \<Longrightarrow> fq_wf n (newFrameQueue n)" "fq_len (newFrameQueue n) = 0"
  using fq_refines_new [of n] by (auto simp: fq_wf_def newFrameQueue_def)

lemma fq_wf_push:
  assumes "fq_wf n q" and "fq_push f q = (b, q1)"
  shows "fq_wf n q1" and "b \<longleftrightarrow> fq_len q < n" and "fq_len q1 = fq_len q + (if b then 1 else 0)"
proof -
  obtain xs where xs: "fq_refines q xs" and n: "fq_capacity q = n" using assms(1) by (auto simp: fq_wf_def)
  note h = fq_refines_push [OF xs, of f, unfolded assms(2), simplified]
  show "fq_wf n q1" using h(2,3) n by (auto simp: fq_wf_def)
  show "b \<longleftrightarrow> fq_len q < n" "fq_len q1 = fq_len q + (if b then 1 else 0)"
    using assms fq_wf_len [OF assms(1)] n by (auto simp: fq_push_def Let_def split: if_splits)
qed

lemma fq_wf_pop:
  assumes "fq_wf n q" and "fq_pop q = (fo, q1)"
  shows "fq_wf n q1" and "fo = None \<longleftrightarrow> fq_len q = 0" and "fq_len q1 = fq_len q - 1"
proof -
  obtain xs where xs: "fq_refines q xs" and n: "fq_capacity q = n" using assms(1) by (auto simp: fq_wf_def)
  note h = fq_refines_pop [OF xs, unfolded assms(2), simplified]
  show "fq_wf n q1" using h(2,3) n by (auto simp: fq_wf_def)
  have ne: "filter (\<lambda>f. \<forall>g \<in> set xs. prio_class g \<le> prio_class f) xs \<noteq> []" if "xs \<noteq> []"
  proof -
    have "Max (prio_class ` set xs) \<in> prio_class ` set xs" using that by (intro Max_in) auto
    then obtain f where "f \<in> set xs" "prio_class f = Max (prio_class ` set xs)" by auto
    then show ?thesis by (auto simp: filter_empty_conv intro!: bexI [of _ f])
  qed
  have l: "fq_len q = length xs" "fq_len q1 = length (snd (spec_pop xs))" using xs h(2) by (simp_all add: fq_refines_def)
  show "fo = None \<longleftrightarrow> fq_len q = 0" using h(1) ne l by (auto simp: spec_pop_def split: list.splits)
  have "length (snd (spec_pop xs)) = length xs - 1"
  proof (cases "filter (\<lambda>f. \<forall>g \<in> set xs. prio_class g \<le> prio_class f) xs")
    case Nil
    with ne have "xs = []" by blast
    then show ?thesis by (simp add: spec_pop_def)
  next
    case (Cons f fs)
    then have "f \<in> set xs" by (metis filter_is_subset list.set_intros(1) subsetD)
    with Cons show ?thesis by (simp add: spec_pop_def length_remove1)
  qed
  then show "fq_len q1 = fq_len q - 1" by (simp add: l)
qed

lemma fq_wf_popOldest:
  assumes "fq_wf n q" and "0 < fq_len q"
  shows "fq_wf n (snd (fq_popOldest q))" and "fq_len (snd (fq_popOldest q)) = fq_len q - 1"
proof -
  obtain xs where xs: "fq_refines q xs" and n: "fq_capacity q = n" using assms(1) by (auto simp: fq_wf_def)
  have l: "fq_len q = length xs" using xs by (simp add: fq_refines_def)
  then have "xs \<noteq> []" using assms(2) by auto
  from fq_refines_popOldest_some [OF xs this] obtain f where f: "f \<in> set xs"
    "fq_refines (snd (fq_popOldest q)) (remove1 f xs)" "fq_capacity (snd (fq_popOldest q)) = fq_capacity q" .
  then show "fq_wf n (snd (fq_popOldest q))" using n by (auto simp: fq_wf_def)
  show "fq_len (snd (fq_popOldest q)) = fq_len q - 1" using f l by (simp add: fq_refines_def length_remove1)
qed

lemma fq_wf_clear:
  assumes "fq_wf n q" and "fq_clear q = (k, q1)"
  shows "fq_wf n q1" and "k = fq_len q" and "fq_len q1 = 0"
proof -
  obtain xs where xs: "fq_refines q xs" and n: "fq_capacity q = n" using assms(1) by (auto simp: fq_wf_def)
  show "fq_wf n q1" using fq_refines_clear [OF xs, unfolded assms(2)] n by (auto simp: fq_wf_def)
  show "k = fq_len q" "fq_len q1 = 0" using assms(2) by (auto simp: fq_clear_def)
qed

text \<open>What a turn of \<^verbatim>\<open>enqueue\<close> and the loading of replayed frames do.\<close>

definition balance :: "subscription \<Rightarrow> u64" where
  "balance s = sb_enqueued s - sb_dropped s - of_nat (fq_len (sb_queue s))"

lemma replace_oldest:
  assumes "fq_wf n q" and "0 < n" and "fq_push f q = (False, q1)"
  shows "fq_wf n (snd (fq_push f (snd (fq_popOldest q1))))" and "fq_len (snd (fq_push f (snd (fq_popOldest q1)))) = fq_len q"
    and "0 < fq_len q"
proof -
  note p = fq_wf_push [OF assms(1,3)]
  show len: "0 < fq_len q" using p(2) assms(2) by simp
  then have "0 < fq_len q1" using p(3) by simp
  note o = fq_wf_popOldest [OF p(1) this]
  obtain b q2 where q2: "fq_push f (snd (fq_popOldest q1)) = (b, q2)" by (cases "fq_push f (snd (fq_popOldest q1))")
  note p2 = fq_wf_push [OF o(1) q2]
  show "fq_wf n (snd (fq_push f (snd (fq_popOldest q1))))" using p2(1) q2 by simp
  show "fq_len (snd (fq_push f (snd (fq_popOldest q1)))) = fq_len q"
    using p p2(2,3) o(2) q2 len fq_wf_len [OF assms(1)] by simp
qed

lemma enqueue_turn_facts:
  assumes wf: "fq_wf n (sb_queue s)" and n: "0 < n" and t: "enqueue_turn f s = (t, s1)"
  shows "fq_wf n (sb_queue s1)" and "sb_options s1 = sb_options s" and "sb_closed s1 = sb_closed s" and "sb_done s1 = sb_done s"
    and "sb_notify s1 = sb_notify s" and "sb_space s1 = sb_space s" and "sb_runner s1 = sb_runner s"
    and "sb_delivered s1 = sb_delivered s"
    and "sb_closed s \<or> 0 < fq_len (sb_queue s1)" and "t \<noteq> TSignal \<Longrightarrow> sb_queue s1 = sb_queue s"
    and "fq_len (sb_queue s1) \<le> fq_len (sb_queue s) + 1"
    and "o_overflow (sb_options s) \<noteq> DropNewest \<Longrightarrow> balance s1 = balance s"
proof -
  obtain b q where q: "fq_push f (sb_queue s) = (b, q)" by (cases "fq_push f (sb_queue s)")
  note p = fq_wf_push [OF wf q]
  have "fq_wf n (sb_queue s1) \<and> sb_options s1 = sb_options s \<and> sb_closed s1 = sb_closed s \<and> sb_done s1 = sb_done s \<and>
    sb_notify s1 = sb_notify s \<and> sb_space s1 = sb_space s \<and> sb_runner s1 = sb_runner s \<and> sb_delivered s1 = sb_delivered s \<and>
    (sb_closed s \<or> 0 < fq_len (sb_queue s1)) \<and> (t \<noteq> TSignal \<longrightarrow> sb_queue s1 = sb_queue s) \<and> fq_len (sb_queue s1) \<le> fq_len (sb_queue s) + 1 \<and>
    (o_overflow (sb_options s) \<noteq> DropNewest \<longrightarrow> balance s1 = balance s)"
  proof (cases "sb_closed s")
    case True
    then show ?thesis using wf t by (auto simp: enqueue_turn_def)
  next
    case opn: False
    show ?thesis
    proof (cases b)
      case True
      then show ?thesis using opn t q p by (auto simp: enqueue_turn_def balance_def)
    next
      case False
      then have full: "fq_push f (sb_queue s) = (False, q)" using q by simp
      note r = replace_oldest [OF wf n full]
      obtain k q1 where c: "fq_clear q = (k, q1)" by (cases "fq_clear q")
      note cl = fq_wf_clear [OF p(1) c]
      obtain b2 q2 where q2: "fq_push f q1 = (b2, q2)" by (cases "fq_push f q1")
      note p2 = fq_wf_push [OF cl(1) q2]
      show ?thesis
        using opn t full r c cl q2 p2 p n wf False
        by (auto simp: enqueue_turn_def balance_def split: if_splits)
    qed
  qed
  then show "fq_wf n (sb_queue s1)" and "sb_options s1 = sb_options s" and "sb_closed s1 = sb_closed s" and "sb_done s1 = sb_done s"
    and "sb_notify s1 = sb_notify s" and "sb_space s1 = sb_space s" and "sb_runner s1 = sb_runner s"
    and "sb_delivered s1 = sb_delivered s"
    and "sb_closed s \<or> 0 < fq_len (sb_queue s1)" and "t \<noteq> TSignal \<Longrightarrow> sb_queue s1 = sb_queue s"
    and "fq_len (sb_queue s1) \<le> fq_len (sb_queue s) + 1"
    and "o_overflow (sb_options s) \<noteq> DropNewest \<Longrightarrow> balance s1 = balance s" by simp_all
qed

lemma preload_loop_facts:
  fixes fs :: "frame list"
  assumes "fq_wf n (sb_queue s)" and "0 < n"
  defines "s1 \<equiv> preload_loop fs s"
  shows "fq_wf n (sb_queue s1) \<and> sb_options s1 = sb_options s \<and> sb_closed s1 = sb_closed s \<and> sb_done s1 = sb_done s \<and>
    sb_notify s1 = sb_notify s \<and> sb_space s1 = sb_space s \<and> sb_runner s1 = sb_runner s \<and> sb_delivered s1 = sb_delivered s \<and>
    fq_len (sb_queue s) \<le> fq_len (sb_queue s1) \<and> balance s1 = balance s"
  unfolding s1_def using assms(1)
proof (induct fs arbitrary: s)
  case (Cons f fs)
  obtain b q where q: "fq_push f (sb_queue s) = (b, q)" by (cases "fq_push f (sb_queue s)")
  note p = fq_wf_push [OF Cons.prems q]
  show ?case
  proof (cases b)
    case True
    with Cons.hyps [of "s\<lparr>sb_queue := q, sb_enqueued := sb_enqueued s + 1\<rparr>"] p q show ?thesis by (simp add: balance_def)
  next
    case False
    then have full: "fq_push f (sb_queue s) = (False, q)" using q by simp
    note r = replace_oldest [OF Cons.prems assms(2) full]
    show ?thesis
      using Cons.hyps [of "s\<lparr>sb_queue := snd (fq_push f (snd (fq_popOldest q))), sb_dropped := sb_dropped s + 1,
                             sb_enqueued := sb_enqueued s + 1\<rparr>"] r full by (simp add: balance_def)
  qed
qed simp

section \<open>The invariant\<close>

definition signalling :: "publisher list \<Rightarrow> bool" where
  "signalling ps \<longleftrightarrow> PSignal \<in> set ps"

definition trying :: "publisher list \<Rightarrow> bool" where
  "trying ps \<longleftrightarrow> (\<exists>f. PTrying f \<in> set ps)"

definition waiting :: "publisher list \<Rightarrow> bool" where
  "waiting ps \<longleftrightarrow> (\<exists>f. PWaiting f \<in> set ps)"

text \<open>Frames in the queue have a token, or a publisher about to leave one, or a running \<^verbatim>\<open>run\<close>.\<close>

definition waking :: "sub_state \<Rightarrow> bool" where
  "waking st \<longleftrightarrow>
     (0 < fq_len (sb_queue (sub st)) \<and> sb_runner (sub st) = RWait \<longrightarrow> sb_notify (sub st) \<or> signalling (pubs st))"

text \<open>A waiting publisher has a frame to wait for, a token, or a publisher that will retry.\<close>

definition unstuck :: "sub_state \<Rightarrow> bool" where
  "unstuck st \<longleftrightarrow>
     (waiting (pubs st) \<longrightarrow>
        sb_closed (sub st) \<or> 0 < fq_len (sb_queue (sub st)) \<or> sb_space (sub st) \<or> (\<exists>f. sb_runner (sub st) = RPopped f) \<or>
        trying (pubs st))"

fun in_flight :: "runner \<Rightarrow> u64" where
  "in_flight (RPopped f) = 1"
| "in_flight (RSend f) = 1"
| "in_flight _ = 0"

definition conserved :: "sub_state \<Rightarrow> bool" where
  "conserved st \<longleftrightarrow>
     (o_overflow (sb_options (sub st)) \<noteq> DropNewest \<and> sb_runner (sub st) \<noteq> RStopped \<longrightarrow>
        balance (sub st) = sb_delivered (sub st) + in_flight (sb_runner (sub st)))"

definition sub_ok :: "sub_options \<Rightarrow> sub_state \<Rightarrow> bool" where
  "sub_ok opts st \<longleftrightarrow>
     sb_options (sub st) = opts \<and> fq_wf (nat (o_buffer opts)) (sb_queue (sub st)) \<and> (sb_done (sub st) \<longrightarrow> sb_closed (sub st)) \<and>
     (sb_runner (sub st) = RStopped \<longrightarrow> sb_done (sub st)) \<and> sb_delivered (sub st) = of_nat (length (received st))"

definition sub_inv :: "sub_options \<Rightarrow> sub_state \<Rightarrow> bool" where
  "sub_inv opts st \<longleftrightarrow> sub_ok opts st \<and> waking st \<and> unstuck st \<and> conserved st"

lemma upd_old: "y \<in> set (xs[p := x]) \<Longrightarrow> y = x \<or> y \<in> set xs"
  using set_update_subset_insert by fastforce

lemma upd_keep: "y \<in> set xs \<Longrightarrow> y \<noteq> xs ! p \<Longrightarrow> y \<in> set (xs[p := x])"
  by (metis in_set_conv_nth length_list_update nth_list_update_neq)

lemma signalling_keep: "ps ! p \<noteq> PSignal \<Longrightarrow> signalling ps \<Longrightarrow> signalling (ps[p := x])"
  unfolding signalling_def by (rule upd_keep) auto

lemma trying_keep: "(\<And>f. ps ! p \<noteq> PTrying f) \<Longrightarrow> trying ps \<Longrightarrow> trying (ps[p := x])"
  unfolding trying_def using upd_keep by metis

lemma waiting_old: "waiting (ps[p := x]) \<Longrightarrow> (\<And>f. x \<noteq> PWaiting f) \<Longrightarrow> waiting ps"
  unfolding waiting_def using upd_old by metis

lemma pubs_append [simp]: "signalling (ps @ [PTrying f]) = signalling ps" "trying (ps @ [PTrying f])"
  by (auto simp: signalling_def trying_def)

lemma pubs_new: "p < length ps \<Longrightarrow> signalling (ps[p := PSignal])" "p < length ps \<Longrightarrow> trying (ps[p := PTrying f])"
  by (auto simp: signalling_def trying_def intro: set_update_memI)

lemmas sub_inv_defs = sub_inv_def sub_ok_def waking_def unstuck_def conserved_def balance_def

lemma sub_inv_turn:
  assumes i: "sub_inv opts st" and n: "0 < o_buffer opts"
    and p: "p < length (pubs st)" "pubs st ! p = PTrying f" and t: "enqueue_turn f (sub st) = (t, s)"
  shows "sub_inv opts (st\<lparr>sub := s, pubs := (pubs st)[p := after_turn f t]\<rparr>)"
proof -
  have wf: "fq_wf (nat (o_buffer opts)) (sb_queue (sub st))" using i by (simp add: sub_inv_def sub_ok_def)
  have n': "0 < nat (o_buffer opts)" using n by simp
  note h = enqueue_turn_facts [OF wf n' t]
  have "waking (st\<lparr>sub := s, pubs := (pubs st)[p := after_turn f t]\<rparr>)"
  proof (cases "t = TSignal")
    case True
    then show ?thesis using p by (simp add: waking_def pubs_new)
  next
    case False
    then show ?thesis using i h(5,7) h(10) signalling_keep [of "pubs st" p] p(2) by (auto simp: sub_inv_def waking_def)
  qed
  moreover have "unstuck (st\<lparr>sub := s, pubs := (pubs st)[p := after_turn f t]\<rparr>)" using h(3,9) by (auto simp: unstuck_def)
  ultimately show ?thesis using i h by (simp add: sub_inv_def sub_ok_def conserved_def)
qed

lemma sub_inv_move:
  assumes "sub_move st st'" and "sub_inv opts st" and "0 < o_buffer opts"
  shows "sub_inv opts st'"
  using assms
proof (induct rule: sub_move.induct)
  case (m_turn p st f t s)
  then show ?case by (intro sub_inv_turn) auto
next
  case (m_signal p st)
  then show ?case using waiting_old [of "pubs st" p "PReturned None"] trying_keep [of "pubs st" p "PReturned None"]
    by (auto simp: sub_inv_defs)
next
  case (m_space p st f)
  then show ?case using signalling_keep [of "pubs st" p "PTrying f"] by (auto simp: sub_inv_defs pubs_new)
next
  case (m_notified st)
  then show ?case by (auto simp: sub_inv_defs)
next
  case (m_pop st f q)
  have "fq_wf (nat (o_buffer opts)) (sb_queue (sub st))" using m_pop.prems by (simp add: sub_inv_def sub_ok_def)
  note h = fq_wf_pop [OF this m_pop.hyps(2)]
  have "of_nat (fq_len (sb_queue (sub st))) = (of_nat (fq_len q) + 1 :: u64)"
    using h(2,3) by (cases "fq_len (sb_queue (sub st))") simp_all
  then show ?case using m_pop h
    by (auto simp: sub_inv_defs algebra_simps)
next
  case (m_empty st q)
  have "fq_wf (nat (o_buffer opts)) (sb_queue (sub st))" using m_empty.prems by (simp add: sub_inv_def sub_ok_def)
  note h = fq_wf_pop [OF this m_empty.hyps(2)]
  show ?case using m_empty h
    by (auto simp: sub_inv_defs)
next
  case (m_free st f)
  then show ?case by (auto simp: sub_inv_defs)
next
  case (m_deliver st f)
  then show ?case by (auto simp: sub_inv_defs)
qed

lemma sub_inv_step:
  assumes "sub_step st st'" and "sub_inv opts st" and "0 < o_buffer opts"
  shows "sub_inv opts st'"
  using assms
proof (induct rule: sub_step.induct)
  case (s_move st st')
  then show ?case by (rule sub_inv_move)
next
  case (s_enqueue st f)
  then show ?case by (auto simp: sub_inv_defs)
next
  case (s_cancel p st f e)
  then show ?case
    using waiting_old [of "pubs st" p "PReturned (Some (CtxErr e))"] trying_keep [of "pubs st" p "PReturned (Some (CtxErr e))"] signalling_keep [of "pubs st" p "PReturned (Some (CtxErr e))"]
    by (auto simp: sub_inv_defs)
next
  case (s_preload st fs)
  have "fq_wf (nat (o_buffer opts)) (sb_queue (sub st))" using s_preload.prems by (simp add: sub_inv_def sub_ok_def)
  note h = preload_loop_facts [OF this, of fs]
  define s1 where "s1 = preload_loop fs (sub st)"
  have "balance (s1\<lparr>sb_notify := True\<rparr>) = balance s1" by (simp add: balance_def)
  then show ?case using s_preload.prems h unfolding preload_def Let_def s1_def [symmetric]
    by (auto simp: sub_inv_def sub_ok_def waking_def unstuck_def conserved_def)
next
  case (s_close st)
  then show ?case by (auto simp: sub_inv_defs)
next
  case (s_done st)
  then show ?case by (auto simp: sub_inv_defs)
next
  case (s_pub_done p st f)
  then show ?case
    using waiting_old [of "pubs st" p "PReturned (Some ErrSubscriptionDone)"] trying_keep [of "pubs st" p "PReturned (Some ErrSubscriptionDone)"] signalling_keep [of "pubs st" p "PReturned (Some ErrSubscriptionDone)"]
    by (auto simp: sub_inv_defs)
next
  case (s_stop st f)
  then show ?case by (auto simp: sub_inv_defs)
qed

lemma sub_reach_inv:
  assumes "sub_reach sid opts st" and "0 < o_buffer opts"
  shows "sub_inv opts st"
  using assms
proof (induct rule: sub_reach.induct)
  case reach_new
  then show ?case
    by (simp add: sub_inv_defs waiting_def newSubscription_def fq_wf_new)
next
  case (reach_step st st')
  then show ?case by (blast intro: sub_inv_step)
qed

section \<open>Progress\<close>

fun pub_weight :: "publisher \<Rightarrow> nat" where
  "pub_weight (PTrying f) = 9"
| "pub_weight PSignal = 3"
| "pub_weight (PWaiting f) = 8"
| "pub_weight (PReturned e) = 0"

fun run_weight :: "runner \<Rightarrow> nat" where
  "run_weight (RPopped f) = 5"
| "run_weight (RSend f) = 2"
| "run_weight RDrain = 1"
| "run_weight _ = 0"

definition work :: "sub_state \<Rightarrow> nat" where
  "work st = sum_list (map pub_weight (pubs st)) + run_weight (sb_runner (sub st)) + 5 * fq_len (sb_queue (sub st)) +
     (if sb_notify (sub st) then 2 else 0) + (if sb_space (sub st) then 2 else 0)"

lemma weight_upd:
  "p < length ps \<Longrightarrow> sum_list (map pub_weight (ps[p := x])) + pub_weight (ps ! p) = sum_list (map pub_weight ps) + pub_weight x"
proof (induct ps arbitrary: p)
  case (Cons y ps)
  then show ?case by (cases p) auto
qed simp

lemma sub_move_work:
  assumes "sub_move st st'" and "sub_inv opts st" and "0 < o_buffer opts"
  shows "work st' < work st"
  using assms
proof (induct rule: sub_move.induct)
  case (m_turn p st f t s)
  have wf: "fq_wf (nat (o_buffer opts)) (sb_queue (sub st))" using m_turn.prems by (simp add: sub_inv_def sub_ok_def)
  have "0 < nat (o_buffer opts)" using m_turn.prems by simp
  note h = enqueue_turn_facts [OF wf this m_turn.hyps(3)]
  show ?case
    using h(5,6,7,10,11) weight_upd [OF m_turn.hyps(1), of "after_turn f t"] m_turn.hyps(2)
    by (cases t) (simp_all add: work_def)
next
  case (m_signal p st)
  then show ?case using weight_upd [of p "pubs st" "PReturned None"] by (simp add: work_def)
next
  case (m_space p st f)
  then show ?case using weight_upd [of p "pubs st" "PTrying f"] by (simp add: work_def)
next
  case (m_notified st)
  then show ?case by (simp add: work_def)
next
  case (m_pop st f q)
  have "fq_wf (nat (o_buffer opts)) (sb_queue (sub st))" using m_pop.prems by (simp add: sub_inv_def sub_ok_def)
  note h = fq_wf_pop [OF this m_pop.hyps(2)]
  then show ?case using m_pop by (auto simp: work_def)
next
  case (m_empty st q)
  have "fq_wf (nat (o_buffer opts)) (sb_queue (sub st))" using m_empty.prems by (simp add: sub_inv_def sub_ok_def)
  note h = fq_wf_pop [OF this m_empty.hyps(2)]
  then show ?case using m_empty by (auto simp: work_def)
next
  case (m_free st f)
  then show ?case by (simp add: work_def)
next
  case (m_deliver st f)
  then show ?case by (simp add: work_def)
qed

lemma sub_moves_inv:
  assumes "sub_move\<^sup>*\<^sup>* st st'" and "sub_inv opts st" and "0 < o_buffer opts"
  shows "sub_inv opts st' \<and> sb_closed (sub st') = sb_closed (sub st)"
  using assms
proof (induct rule: rtranclp_induct)
  case (step st1 st2)
  then have i: "sub_inv opts st1" "sb_closed (sub st1) = sb_closed (sub st)" by auto
  have "sb_closed (sub st2) = sb_closed (sub st1)"
    using step(2)
  proof cases
    case (m_turn p f t s)
    then show ?thesis by (auto simp: enqueue_turn_def split: if_splits prod.splits bool.splits)
  qed auto
  with i sub_inv_move [OF step(2) i(1) assms(3)] show ?case by simp
qed simp

definition drained :: "sub_state \<Rightarrow> bool" where
  "drained st \<longleftrightarrow> fq_len (sb_queue (sub st)) = 0 \<and> sb_runner (sub st) = RWait \<and> (\<forall>p \<in> set (pubs st). \<exists>e. p = PReturned e)"

lemma sub_stuck_drained:
  assumes i: "sub_inv opts st" and c: "\<not> sb_closed (sub st)" and no: "\<And>st'. \<not> sub_move st st'"
  shows "drained st"
proof -
  have t: "\<not> trying (pubs st)"
  proof
    assume "trying (pubs st)"
    then obtain p f where p: "p < length (pubs st)" "pubs st ! p = PTrying f" unfolding trying_def by (metis in_set_conv_nth)
    obtain t s where "enqueue_turn f (sub st) = (t, s)" by (cases "enqueue_turn f (sub st)")
    from m_turn [OF p this] no show False by blast
  qed
  have sg: "\<not> signalling (pubs st)"
  proof
    assume "signalling (pubs st)"
    then obtain p where p: "p < length (pubs st)" "pubs st ! p = PSignal" unfolding signalling_def by (metis in_set_conv_nth)
    from m_signal [OF p] no show False by blast
  qed
  have "sb_runner (sub st) \<noteq> RStopped" using i c by (auto simp: sub_inv_def sub_ok_def)
  moreover have "sb_runner (sub st) \<noteq> RPopped f" "sb_runner (sub st) \<noteq> RSend f" for f
    using m_free [of st f] m_deliver [of st f] no by blast+
  moreover have "sb_runner (sub st) \<noteq> RDrain"
  proof
    assume d: "sb_runner (sub st) = RDrain"
    obtain fo q where "fq_pop (sb_queue (sub st)) = (fo, q)" by (cases "fq_pop (sb_queue (sub st))")
    then show False using m_pop [OF d] m_empty [OF d] no by (cases fo) blast+
  qed
  ultimately have r: "sb_runner (sub st) = RWait" by (cases "sb_runner (sub st)") auto
  have "\<not> sb_notify (sub st)" using m_notified [OF r] no by blast
  then have len: "fq_len (sb_queue (sub st)) = 0" using i r sg by (simp add: sub_inv_def waking_def)
  have w: "\<not> waiting (pubs st)"
  proof
    assume w: "waiting (pubs st)"
    then have "sb_space (sub st)" using i c t r len by (simp add: sub_inv_def unstuck_def)
    moreover obtain p f where p: "p < length (pubs st)" "pubs st ! p = PWaiting f"
      using w unfolding waiting_def by (metis in_set_conv_nth)
    ultimately show False using m_space [OF p] no by blast
  qed
  have "\<exists>e. p = PReturned e" if "p \<in> set (pubs st)" for p
    by (rule publisher.exhaust [of p]) (use that t sg w in \<open>auto simp: trying_def signalling_def waiting_def\<close>)
  with r len show ?thesis by (simp add: drained_def)
qed

text \<open>A subscription with a publisher that has just been called, and after its first turn.\<close>

definition sub_opts1 :: sub_options where
  "sub_opts1 = zero_options\<lparr>o_buffer := 1\<rparr>"

definition sub_called :: sub_state where
  "sub_called = \<lparr>sub = newSubscription 1 sub_opts1, pubs = [PTrying zero_frame], received = []\<rparr>"

definition sub_queued :: sub_state where
  "sub_queued = sub_called\<lparr>sub := snd (enqueue_turn zero_frame (sub sub_called)), pubs := [PSignal]\<rparr>"

lemma reach_called: "sub_reach 1 sub_opts1 sub_called"
  using reach_step [OF reach_new s_enqueue, of 1 sub_opts1 zero_frame] by (simp add: sub_called_def)

lemmas sub_eval = sub_queued_def sub_called_def sub_opts1_def enqueue_turn_def newSubscription_def fq_push_def newFrameQueue_def
  zero_options_def Let_def

lemma reach_queued: "sub_reach 1 sub_opts1 sub_queued"
proof -
  have "sub_move sub_called sub_queued"
    using m_turn [of 0 sub_called zero_frame TSignal "snd (enqueue_turn zero_frame (sub sub_called))"] by (simp add: sub_eval)
  then show ?thesis by (rule reach_step [OF reach_called s_move])
qed

section \<open>Properties\<close>

text \<open>
  C15. No subscriber and no publisher is left stranded. Whatever publishers, receivers and
  replays have done to an open subscription, and whatever its overflow policy, the steps
  that carry frames onward cannot go on for ever, and where they end the queue is
  empty and every call of \<^verbatim>\<open>enqueue\<close> has returned: no token is lost by which \<^verbatim>\<open>run\<close> or a
  publisher blocked for space would have to be woken.
\<close>

theorem subscription_live:
  assumes "sub_reach sid opts st" and "0 < o_buffer opts" and "\<not> sb_closed (sub st)"
  shows "(\<nexists>run. run 0 = st \<and> (\<forall>i. sub_move (run i) (run (Suc i)))) \<and>
    (\<forall>st'. sub_move\<^sup>*\<^sup>* st st' \<and> (\<nexists>st''. sub_move st' st'') \<longrightarrow> drained st')"
proof (intro conjI notI allI impI)
  note i = sub_reach_inv [OF assms(1,2)]
  assume "\<exists>run. run 0 = st \<and> (\<forall>i. sub_move (run i) (run (Suc i)))"
  then obtain run where run: "run 0 = st" "\<And>i. sub_move (run i) (run (Suc i))" by blast
  have "sub_inv opts (run n)" for n by (induct n) (use run i sub_inv_move assms(2) in auto)
  then have "(run (Suc n), run n) \<in> measure work" for n using sub_move_work [OF run(2) _ assms(2)] by simp
  then show False using wf_measure [of work] unfolding wf_iff_no_infinite_down_chain by blast
next
  fix st'
  assume "sub_move\<^sup>*\<^sup>* st st' \<and> (\<nexists>st''. sub_move st' st'')"
  with sub_moves_inv [OF _ sub_reach_inv [OF assms(1,2)] assms(2)] assms(3) show "drained st'"
    by (blast intro: sub_stuck_drained)
qed

theorem subscription_live_witness: "\<nexists>run. run 0 = sub_called \<and> (\<forall>i. sub_move (run i) (run (Suc i)))"
  using subscription_live [OF reach_called] by (simp add: sub_called_def newSubscription_def sub_opts1_def)

text \<open>
  The counters of a subscription are exact: as long as \<^verbatim>\<open>run\<close> has not stopped, and
  unless the policy is to drop the newest frame, the frames enqueued are those
  delivered, those dropped, those queued and the one being sent; the delivered ones
  are those the receiver got and the queue is within its bound. (Numbers are modulo 2 to the 64.)
\<close>

theorem subscription_counts:
  assumes "sub_reach sid opts st" and "0 < o_buffer opts"
    and "o_overflow opts \<noteq> DropNewest" and "sb_runner (sub st) \<noteq> RStopped"
  shows "let c = sub_Stats (sub st)
    in st_enqueued c = st_delivered c + st_dropped c + of_nat (st_queued c) + in_flight (sb_runner (sub st)) \<and>
       st_delivered c = of_nat (length (received st)) \<and> int (st_queued c) \<le> o_buffer opts"
proof -
  note i = sub_reach_inv [OF assms(1,2)]
  then have b: "balance (sub st) = sb_delivered (sub st) + in_flight (sb_runner (sub st))"
    using assms(3,4) by (simp add: sub_inv_def conserved_def sub_ok_def)
  have "fq_wf (nat (o_buffer opts)) (sb_queue (sub st))" using i by (simp add: sub_inv_def sub_ok_def)
  from fq_wf_len [OF this] have "int (fq_len (sb_queue (sub st))) \<le> o_buffer opts" using assms(2) by linarith
  with i b show ?thesis
    by (auto simp: sub_Stats_def balance_def sub_inv_def sub_ok_def algebra_simps)
qed

theorem subscription_counts_witness:
  "st_enqueued (sub_Stats (sub sub_queued)) = st_delivered (sub_Stats (sub sub_queued)) + st_dropped (sub_Stats (sub sub_queued)) + 1"
  using subscription_counts [OF reach_queued] by (simp add: sub_eval sub_Stats_def)

end
