(* ===== verification/Stream_Bus.thy ===== *)
theory Stream_Bus
  imports Stream_Sub
begin

text \<open>
  The in-memory stream bus (src/streambus/inmemory.go): topics with exact and prefix
  subscriptions, the latter in a trie, and a bounded journal per topic from which a
  subscriber can resume.

  A pointer to a subscription is its id, and \<open>bs_heap\<close> holds the subscriptions made so
  far. A map of subscriptions by id is the list of the ids; the order in which
  \<^verbatim>\<open>Publish\<close> visits its targets is a parameter.
\<close>

section \<open>The trie of prefixes\<close>

datatype prefix_node = PNode (pn_subs: "u64 list") (pn_children: "(char \<times> prefix_node) list")

definition newPrefixNode :: prefix_node where
  "newPrefixNode = PNode [] []"

text \<open>The loop of \<^verbatim>\<open>Publish\<close> down the trie.\<close>

fun prefix_targets :: "prefix_node \<Rightarrow> string \<Rightarrow> u64 list" where
  "prefix_targets node [] = []"
| "prefix_targets node (c # t) =
     (case gm_get (pn_children node) c of None \<Rightarrow> [] | Some next \<Rightarrow> pn_subs next @ prefix_targets next t)"

fun prefix_add :: "u64 \<Rightarrow> string \<Rightarrow> prefix_node \<Rightarrow> prefix_node" where
  "prefix_add sid [] node = PNode (List.insert sid (pn_subs node)) (pn_children node)"
| "prefix_add sid (c # t) node =
     (let child = (case gm_get (pn_children node) c of None \<Rightarrow> newPrefixNode | Some n \<Rightarrow> n)
      in PNode (pn_subs node) (gm_put (pn_children node) c (prefix_add sid t child)))"

fun prefix_remove :: "u64 \<Rightarrow> string \<Rightarrow> prefix_node \<Rightarrow> prefix_node" where
  "prefix_remove sid [] node = PNode (removeAll sid (pn_subs node)) (pn_children node)"
| "prefix_remove sid (c # t) node =
     (case gm_get (pn_children node) c of
        None \<Rightarrow> node
      | Some n \<Rightarrow> PNode (pn_subs node) (gm_put (pn_children node) c (prefix_remove sid t n)))"

fun collectPrefixSubscriptions :: "prefix_node \<Rightarrow> u64 list" where
  "collectPrefixSubscriptions (PNode ss cs) = ss @ concat (map (\<lambda>(c, n). collectPrefixSubscriptions n) cs)"

section \<open>Journals\<close>

record replay_buffer =
  rb_frames :: "frame list"
  rb_next :: nat
  rb_len :: nat

definition newReplayBuffer :: "nat \<Rightarrow> replay_buffer" where
  "newReplayBuffer n = \<lparr>rb_frames = replicate n zero_frame, rb_next = 0, rb_len = 0\<rparr>"

definition rb_add :: "frame \<Rightarrow> replay_buffer \<Rightarrow> replay_buffer" where
  "rb_add f r =
     (if rb_frames r = [] then r
      else r\<lparr>rb_frames := (rb_frames r)[rb_next r := f], rb_next := (rb_next r + 1) mod length (rb_frames r),
             rb_len := (if rb_len r < length (rb_frames r) then rb_len r + 1 else rb_len r)\<rparr>)"

text \<open>The frames from a position on, as the loops of \<^verbatim>\<open>last\<close> and \<^verbatim>\<open>after\<close> read them.\<close>

definition rb_read :: "replay_buffer \<Rightarrow> nat \<Rightarrow> nat \<Rightarrow> frame list" where
  "rb_read r start n = map (\<lambda>i. rb_frames r ! ((start + i) mod length (rb_frames r))) [0..<n]"

definition rb_last :: "nat \<Rightarrow> replay_buffer \<Rightarrow> frame list" where
  "rb_last count r =
     (let count = (if count > rb_len r then rb_len r else count);
          start = (rb_next r + length (rb_frames r) - count) mod length (rb_frames r)
      in rb_read r start count)"

definition rb_after :: "u64 \<Rightarrow> replay_buffer \<Rightarrow> frame list \<times> bool" where
  "rb_after sequence r =
     (if rb_len r = 0 then ([], False)
      else let start = (rb_next r + length (rb_frames r) - rb_len r) mod length (rb_frames r);
               oldest = fr_sequence (rb_frames r ! start)
           in if rb_len r = length (rb_frames r) \<and> sequence \<noteq> 0 \<and> sequence < oldest then ([], True)
              else (filter (\<lambda>f. fr_sequence f > sequence) (rb_read r start (rb_len r)), False))"

section \<open>The bus\<close>

record stream_bus =
  bs_config :: stream_config
  bs_exact :: "(string \<times> u64 list) list"
  bs_prefix :: prefix_node
  bs_replay :: "string \<Rightarrow> replay_buffer option"
  bs_seq :: u64
  bs_subSeq :: u64
  bs_closed :: bool
  bs_heap :: "u64 \<Rightarrow> subscription option"

definition NewStreamBus :: "stream_config \<Rightarrow> stream_bus" where
  "NewStreamBus c = \<lparr>bs_config = normalized c, bs_exact = [], bs_prefix = newPrefixNode, bs_replay = Map.empty, bs_seq = 0,
     bs_subSeq = 0, bs_closed = False, bs_heap = Map.empty\<rparr>"

definition exact_subs :: "string \<Rightarrow> stream_bus \<Rightarrow> u64 list" where
  "exact_subs t b = (case gm_get (bs_exact b) t of None \<Rightarrow> [] | Some ss \<Rightarrow> ss)"

definition stream_targets :: "string \<Rightarrow> stream_bus \<Rightarrow> u64 list" where
  "stream_targets t b = remdups (exact_subs t b @ prefix_targets (bs_prefix b) t)"

text \<open>Delivery to the targets. The result is \<^const>\<open>None\<close> when a target blocks for good.\<close>

type_synonym waits = "u64 \<Rightarrow> ((subscription \<Rightarrow> subscription) \<times> wakeup) list"

fun publish_to :: "waits \<Rightarrow> frame \<Rightarrow> u64 list \<Rightarrow> stream_bus \<Rightarrow> stream_error option option \<times> stream_bus" where
  "publish_to ws f [] b = (Some None, b)"
| "publish_to ws f (sid # ids) b =
     (case bs_heap b sid of
        None \<Rightarrow> publish_to ws f ids b
      | Some s \<Rightarrow>
          (case enqueue (ws sid) f s of
             (r, s1) \<Rightarrow>
               (let b1 = b\<lparr>bs_heap := (bs_heap b)(sid \<mapsto> s1)\<rparr>
                in case r of
                     None \<Rightarrow> (None, b1)
                   | Some None \<Rightarrow> publish_to ws f ids b1
                   | Some (Some e) \<Rightarrow>
                       if e \<noteq> ErrSubscriptionDone then (Some (Some e), b1) else publish_to ws f ids b1)))"

definition journal_add :: "frame \<Rightarrow> stream_bus \<Rightarrow> stream_bus" where
  "journal_add f b =
     (if ReplayCapacity (bs_config b) > 0
      then let j = (case bs_replay b (fr_topic f) of
                      None \<Rightarrow> newReplayBuffer (nat (ReplayCapacity (bs_config b)))
                    | Some j \<Rightarrow> j)
           in b\<lparr>bs_replay := (bs_replay b)(fr_topic f \<mapsto> rb_add f j)\<rparr>
      else b)"

definition stamped :: "u64 \<Rightarrow> time \<Rightarrow> frame \<Rightarrow> frame" where
  "stamped seq now frm =
     frm\<lparr>fr_sequence := seq, fr_timestamp := (if time_IsZero (fr_timestamp frm) then now else fr_timestamp frm)\<rparr>"

text \<open>A result is the sequence number with the error, if any.\<close>

definition stream_Publish ::
    "(u64 list \<Rightarrow> u64 list) \<Rightarrow> waits \<Rightarrow> ctx \<Rightarrow> clock \<Rightarrow> frame \<Rightarrow> stream_bus \<Rightarrow> (u64 \<times> stream_error option) option \<times> stream_bus" where
  "stream_Publish ord ws ctx clk frm b =
     (if fr_topic frm = [] then (Some (0, Some ErrInvalidTopic), b)
      else if int (length (fr_payload frm)) > MaxPayloadBytes (bs_config b) then (Some (0, Some ErrPayloadTooLarge), b)
      else case ctx (clk 0) of
             Some e \<Rightarrow> (Some (0, Some (CtxErr e)), b)
           | None \<Rightarrow>
               (let b1 = b\<lparr>bs_seq := bs_seq b + 1\<rparr>; f = stamped (bs_seq b1) (clk 1) frm
                in if bs_closed b1 then (Some (0, Some ErrClosed), b1)
                   else let ts = stream_targets (fr_topic f) b1; b2 = journal_add f b1
                        in case publish_to ws f (ord ts) b2 of
                             (r, b3) \<Rightarrow> (map_option (\<lambda>e. (fr_sequence f, e)) r, b3)))"

text \<open>\<^verbatim>\<open>remove\<close>, and the \<^verbatim>\<open>Close\<close> of a subscription of the bus, which calls it.\<close>

definition bus_remove :: "subscription \<Rightarrow> stream_bus \<Rightarrow> stream_bus" where
  "bus_remove s b =
     (let t = o_topic (sb_options s)
      in if o_prefix (sb_options s) then b\<lparr>bs_prefix := prefix_remove (sb_id s) t (bs_prefix b)\<rparr>
         else let subs = removeAll (sb_id s) (exact_subs t b)
              in b\<lparr>bs_exact := (if subs = [] then gm_del (bs_exact b) t else gm_put (bs_exact b) t subs)\<rparr>)"

definition bus_close_sub :: "u64 \<Rightarrow> stream_bus \<Rightarrow> stream_bus" where
  "bus_close_sub sid b =
     (case bs_heap b sid of
        None \<Rightarrow> b
      | Some s \<Rightarrow>
          if sb_closed s then b else bus_remove s (b\<lparr>bs_heap := (bs_heap b)(sid \<mapsto> sub_Close s)\<rparr>))"

text \<open>What \<^verbatim>\<open>Subscribe\<close> replays: \<^const>\<open>None\<close> if the journal has a gap.\<close>

definition stream_replay :: "sub_options \<Rightarrow> stream_bus \<Rightarrow> frame list option" where
  "stream_replay opts b =
     (case bs_replay b (o_topic opts) of
        Some j \<Rightarrow>
          if o_since opts > 0 then
            (case rb_after (o_since opts) j of
               (fs, gap) \<Rightarrow> if gap \<or> int (length fs) > o_buffer opts then None else Some fs)
          else if o_replay opts > 0 then Some (rb_last (nat (o_replay opts)) j)
          else Some []
      | None \<Rightarrow> if o_since opts > 0 \<and> ReplayCapacity (bs_config b) = 0 then None else Some [])"

definition sub_defaults :: "stream_config \<Rightarrow> sub_options \<Rightarrow> sub_options" where
  "sub_defaults c opts =
     (let o1 = (if o_buffer opts = 0 then opts\<lparr>o_buffer := DefaultBuffer c\<rparr> else opts);
          o2 = (if o_replay o1 < 0 then o1\<lparr>o_replay := 0\<rparr> else o1)
      in if o_prefix o2 then o2\<lparr>o_replay := 0, o_since := 0\<rparr> else o2)"

definition stream_Subscribe ::
    "ctx \<Rightarrow> clock \<Rightarrow> sub_options \<Rightarrow> stream_bus \<Rightarrow> (stream_error + u64) \<times> stream_bus" where
  "stream_Subscribe ctx clk options b =
     (let opts = sub_defaults (bs_config b) options
      in if o_topic options = [] then (Inl ErrInvalidTopic, b)
         else if o_buffer opts < 1 \<or> o_buffer opts > MaxBuffer (bs_config b) then (Inl ErrInvalidBuffer, b)
         else case ctx (clk 0) of
                Some e \<Rightarrow> (Inl (CtxErr e), b)
              | None \<Rightarrow>
                  (let sid = bs_subSeq b + 1;
                       s = newSubscription sid opts;
                       b1 = b\<lparr>bs_subSeq := sid, bs_heap := (bs_heap b)(sid \<mapsto> s)\<rparr>
                   in if bs_closed b1 then (Inl ErrClosed, bus_close_sub sid b1)
                      else case stream_replay opts b1 of
                             None \<Rightarrow> (Inl ErrReplayUnavailable, bus_close_sub sid b1)
                           | Some fs \<Rightarrow>
                               (let s1 = (if fs = [] then s else preload fs s);
                                    b2 = b1\<lparr>bs_heap := (bs_heap b1)(sid \<mapsto> s1)\<rparr>
                                in if o_prefix opts
                                   then (Inr sid, b2\<lparr>bs_prefix := prefix_add sid (o_topic opts) (bs_prefix b2)\<rparr>)
                                   else (Inr sid, b2\<lparr>bs_exact := gm_put (bs_exact b2) (o_topic opts)
                                                       (List.insert sid (exact_subs (o_topic opts) b2))\<rparr>))))"

definition stream_Close :: "stream_bus \<Rightarrow> stream_bus" where
  "stream_Close b =
     (if bs_closed b then b
      else let unique = remdups (concat (map snd (bs_exact b)) @ collectPrefixSubscriptions (bs_prefix b))
           in foldl (\<lambda>b sid. bus_close_sub sid b) (b\<lparr>bs_closed := True, bs_exact := [], bs_prefix := newPrefixNode\<rparr>) unique)"

section \<open>The trie is a map from prefixes\<close>

fun subs_at :: "string \<Rightarrow> prefix_node \<Rightarrow> u64 set" where
  "subs_at [] n = set (pn_subs n)"
| "subs_at (c # t) n = (case gm_get (pn_children n) c of None \<Rightarrow> {} | Some m \<Rightarrow> subs_at t m)"

lemma subs_at_new [simp]: "subs_at t newPrefixNode = {}"
  by (cases t) (simp_all add: newPrefixNode_def)

lemma subs_at_add: "subs_at p (prefix_add sid q n) = subs_at p n \<union> (if p = q then {sid} else {})"
proof (induct q arbitrary: n p)
  case Nil
  then show ?case by (cases p) auto
next
  case (Cons c q)
  then show ?case by (cases p) (auto simp: Let_def split: option.splits)
qed

lemma subs_at_remove: "subs_at p (prefix_remove sid q n) = subs_at p n - (if p = q then {sid} else {})"
proof (induct q arbitrary: n p)
  case Nil
  then show ?case by (cases p) auto
next
  case (Cons c q)
  then show ?case by (cases p) (auto split: option.splits)
qed

lemma set_prefix_targets: "sid \<in> set (prefix_targets n t) \<longleftrightarrow> (\<exists>p q. t = p @ q \<and> p \<noteq> [] \<and> sid \<in> subs_at p n)"
proof (induct t arbitrary: n)
  case (Cons c t)
  have split: "(\<exists>p q. c # t = p @ q \<and> p \<noteq> [] \<and> P p) \<longleftrightarrow> P [c] \<or> (\<exists>p q. t = p @ q \<and> p \<noteq> [] \<and> P (c # p))" for P
  proof
    assume "\<exists>p q. c # t = p @ q \<and> p \<noteq> [] \<and> P p"
    then obtain p q where "c # t = (c # p) @ q" "P (c # p)" by (metis append_Cons list.exhaust list.inject)
    then show "P [c] \<or> (\<exists>p q. t = p @ q \<and> p \<noteq> [] \<and> P (c # p))" by (cases "p = []") (simp, force)
  next
    assume "P [c] \<or> (\<exists>p q. t = p @ q \<and> p \<noteq> [] \<and> P (c # p))"
    then show "\<exists>p q. c # t = p @ q \<and> p \<noteq> [] \<and> P p"
    proof
      assume "P [c]"
      then show ?thesis by (intro exI [of _ "[c]"] exI [of _ t]) simp
    next
      assume "\<exists>p q. t = p @ q \<and> p \<noteq> [] \<and> P (c # p)"
      then obtain p q where "t = p @ q" "P (c # p)" by blast
      then show ?thesis by (intro exI [of _ "c # p"] exI [of _ q]) simp
    qed
  qed
  show ?case
    unfolding split by (cases "gm_get (pn_children n) c") (simp_all add: Cons.hyps)
qed simp

lemma subs_at_collected: "subs_at p n \<subseteq> set (collectPrefixSubscriptions n)"
proof (induct p arbitrary: n)
  case Nil
  then show ?case by (cases n) simp
next
  case (Cons c p)
  then show ?case by (cases n) (fastforce split: option.splits dest: map_of_SomeD)
qed

section \<open>A journal holds the latest frames\<close>

definition rb_inv :: "nat \<Rightarrow> replay_buffer \<Rightarrow> bool" where
  "rb_inv n r \<longleftrightarrow> 0 < n \<and> length (rb_frames r) = n \<and> rb_next r < n \<and> rb_len r \<le> n"

definition rb_list :: "replay_buffer \<Rightarrow> frame list" where
  "rb_list r = rb_read r ((rb_next r + length (rb_frames r) - rb_len r) mod length (rb_frames r)) (rb_len r)"

definition latest :: "nat \<Rightarrow> 'a list \<Rightarrow> 'a list" where
  "latest n xs = drop (length xs - n) xs"

lemma length_rb_list [simp]: "length (rb_list r) = rb_len r"
  by (simp add: rb_list_def rb_read_def)

lemma rb_new: "0 < n \<Longrightarrow> rb_inv n (newReplayBuffer n)" "rb_list (newReplayBuffer n) = []"
  by (simp_all add: rb_inv_def newReplayBuffer_def rb_list_def rb_read_def)

lemma rb_add_list:
  assumes "rb_inv n r"
  shows "rb_inv n (rb_add f r)" and "rb_list (rb_add f r) = latest n (rb_list r @ [f])"
proof -
  have n: "length (rb_frames r) = n" "0 < n" "rb_next r < n" "rb_len r \<le> n" "rb_frames r \<noteq> []"
    using assms by (auto simp: rb_inv_def)
  show "rb_inv n (rb_add f r)" using n by (simp add: rb_inv_def rb_add_def)
  let ?h = "(rb_next r + n - rb_len r) mod n" and ?fs = "(rb_frames r)[rb_next r := f]"
  show "rb_list (rb_add f r) = latest n (rb_list r @ [f])"
  proof (cases "rb_len r < n")
    case True
    have "((rb_next r + 1) mod n + n - (rb_len r + 1)) mod n = ((rb_next r + 1) mod n + (n - (rb_len r + 1))) mod n"
      using True by simp
    also have "\<dots> = (rb_next r + 1 + (n - (rb_len r + 1))) mod n" by (simp only: mod_add_left_eq)
    also have "rb_next r + 1 + (n - (rb_len r + 1)) = rb_next r + n - rb_len r" using True by linarith
    finally have start: "((rb_next r + 1) mod n + n - (rb_len r + 1)) mod n = ?h" .
    have next_h: "(?h + rb_len r) mod n = rb_next r" using n by (simp add: mod_simps)
    then have "?fs ! ((?h + i) mod n) = rb_frames r ! ((?h + i) mod n)" if "i < rb_len r" for i
      using mod_distinct [OF that True, of ?h] by (metis nth_list_update_neq)
    then show ?thesis
      using True n start next_h by (simp add: rb_list_def rb_read_def rb_add_def latest_def)
  next
    case False
    then have len: "rb_len r = n" using n by simp
    have l: "rb_list r = map (\<lambda>i. rb_frames r ! ((rb_next r + i) mod n)) [0..<n]"
      using n by (simp add: rb_list_def rb_read_def len mod_simps)
    show ?thesis
    proof (rule nth_equalityI)
      show "length (rb_list (rb_add f r)) = length (latest n (rb_list r @ [f]))"
        using n by (simp add: rb_add_def latest_def len)
      fix i
      assume "i < length (rb_list (rb_add f r))"
      then have i: "i < n" using n by (simp add: rb_add_def len)
      have a: "rb_list (rb_add f r) ! i = ?fs ! ((rb_next r + Suc i) mod n)"
        using n i by (simp add: rb_list_def rb_read_def rb_add_def len mod_simps)
      show "rb_list (rb_add f r) ! i = latest n (rb_list r @ [f]) ! i"
      proof (cases "Suc i < n")
        case True
        then have "(rb_next r + Suc i) mod n \<noteq> rb_next r" using mod_distinct [of 0 "Suc i" n "rb_next r"] n by simp
        then show ?thesis using a l True n by (simp add: latest_def len nth_append)
      next
        case False
        then have "Suc i = n" using i by simp
        then show ?thesis using a l n by (simp add: latest_def len nth_append)
      qed
    qed
  qed
qed

lemma rb_last_list:
  assumes "rb_inv n r"
  shows "rb_last k r = latest k (rb_list r)"
proof -
  have n: "length (rb_frames r) = n" "0 < n" "rb_len r \<le> n" using assms by (auto simp: rb_inv_def)
  define c where "c = min k (rb_len r)"
  have c: "c \<le> rb_len r" by (simp add: c_def)
  have l: "rb_last k r = rb_read r ((rb_next r + n - c) mod n) c"
    using n by (simp add: rb_last_def Let_def c_def min_def)
  have d: "latest k (rb_list r) = drop (rb_len r - c) (rb_list r)" by (simp add: latest_def c_def min_def)
  show ?thesis unfolding l d
  proof (rule nth_equalityI)
    fix i
    assume "i < length (rb_read r ((rb_next r + n - c) mod n) c)"
    then have i: "i < c" by (simp add: rb_read_def)
    have "((rb_next r + n - rb_len r) mod n + (rb_len r - c + i)) mod n = ((rb_next r + n - c) mod n + i) mod n"
      unfolding mod_add_left_eq using c n by (simp add: add.assoc)
    then show "rb_read r ((rb_next r + n - c) mod n) c ! i = drop (rb_len r - c) (rb_list r) ! i"
      using i c n by (simp add: rb_read_def rb_list_def)
  qed (use c in \<open>simp add: rb_read_def\<close>)
qed

lemma rb_after_list:
  assumes "rb_inv n r"
  shows "rb_after s r =
    (if rb_len r = n \<and> s \<noteq> 0 \<and> s < fr_sequence (hd (rb_list r)) then ([], True)
     else (filter (\<lambda>f. fr_sequence f > s) (rb_list r), False))"
proof (cases "rb_len r")
  case 0
  then have "rb_list r = []" by (metis length_0_conv length_rb_list)
  with 0 show ?thesis using assms by (simp add: rb_after_def rb_inv_def)
next
  case (Suc m)
  have n: "length (rb_frames r) = n" "0 < n" using assms by (auto simp: rb_inv_def)
  have "hd (rb_list r) = rb_frames r ! ((rb_next r + n - rb_len r) mod n)"
    by (simp add: rb_list_def rb_read_def Suc n upt_conv_Cons del: upt_Suc)
  with Suc n show ?thesis by (simp add: rb_after_def rb_list_def Let_def)
qed

section \<open>Reachable buses\<close>

text \<open>What a subscription is to the bus: its id and options and whether it is closed. The
  waits of a publisher do not change it.\<close>

definition sub_reg :: "subscription \<Rightarrow> u64 \<times> sub_options \<times> bool" where
  "sub_reg s = (sb_id s, sb_options s, sb_closed s)"

definition reg :: "stream_bus \<Rightarrow> u64 \<Rightarrow> (u64 \<times> sub_options \<times> bool) option" where
  "reg b sid = map_option sub_reg (bs_heap b sid)"

definition waits_ok :: "waits \<Rightarrow> bool" where
  "waits_ok ws \<longleftrightarrow> (\<forall>sid. \<forall>(g, w) \<in> set (ws sid). \<forall>s. sub_reg (g s) = sub_reg s)"

definition visits :: "(u64 list \<Rightarrow> u64 list) \<Rightarrow> bool" where
  "visits ord \<longleftrightarrow> (\<forall>xs. set (ord xs) = set xs \<and> (distinct xs \<longrightarrow> distinct (ord xs)))"

text \<open>The frames a call of \<^verbatim>\<open>Publish\<close> accepts.\<close>

definition accepted :: "ctx \<Rightarrow> clock \<Rightarrow> frame \<Rightarrow> stream_bus \<Rightarrow> frame list" where
  "accepted ctx clk frm b =
     (if fr_topic frm = [] \<or> int (length (fr_payload frm)) > MaxPayloadBytes (bs_config b) \<or> ctx (clk 0) \<noteq> None \<or> bs_closed b
      then [] else [stamped (bs_seq b + 1) (clk 1) frm])"

text \<open>
  A bus reached by any operations, with the frames it has accepted so far. The sequence
  numbers and ids are not exhausted. Between operations a subscription may change in
  any way that is its own (\<open>sub_step\<close> without closing).
\<close>

inductive bus_reach :: "stream_config \<Rightarrow> frame list \<Rightarrow> stream_bus \<Rightarrow> bool" for cfg where
  b_new: "bus_reach cfg [] (NewStreamBus cfg)"
| b_publish: "bus_reach cfg h b \<Longrightarrow> bs_seq b \<noteq> - 1 \<Longrightarrow> waits_ok ws \<Longrightarrow> visits ord \<Longrightarrow>
     bus_reach cfg (h @ accepted ctx clk frm b) (snd (stream_Publish ord ws ctx clk frm b))"
| b_subscribe: "bus_reach cfg h b \<Longrightarrow> bs_subSeq b \<noteq> - 1 \<Longrightarrow> bus_reach cfg h (snd (stream_Subscribe ctx clk opts b))"
| b_close_sub: "bus_reach cfg h b \<Longrightarrow> bus_reach cfg h (bus_close_sub sid b)"
| b_close: "bus_reach cfg h b \<Longrightarrow> bus_reach cfg h (stream_Close b)"
| b_local: "bus_reach cfg h b \<Longrightarrow> bs_heap b sid = Some s \<Longrightarrow> sub_reg s' = sub_reg s \<Longrightarrow>
     bus_reach cfg h (b\<lparr>bs_heap := (bs_heap b)(sid \<mapsto> s')\<rparr>)"

definition live :: "stream_bus \<Rightarrow> bool \<Rightarrow> string \<Rightarrow> u64 \<Rightarrow> bool" where
  "live b pre t sid \<longleftrightarrow> (\<exists>opts. reg b sid = Some (sid, opts, False) \<and> o_prefix opts = pre \<and> o_topic opts = t)"

definition routes_ok :: "stream_bus \<Rightarrow> bool" where
  "routes_ok b \<longleftrightarrow>
     (\<forall>t. set (exact_subs t b) = {sid. live b False t sid}) \<and> (\<forall>t. subs_at t (bs_prefix b) = {sid. live b True t sid}) \<and>
     (\<forall>sid i opts c. reg b sid = Some (i, opts, c) \<longrightarrow> i = sid \<and> sid \<le> bs_subSeq b \<and> o_topic opts \<noteq> [])"

text \<open>A bus differs from another in nothing the routes or the journals depend on.\<close>

definition same_routes :: "stream_bus \<Rightarrow> stream_bus \<Rightarrow> bool" where
  "same_routes b b' \<longleftrightarrow>
     bs_config b' = bs_config b \<and> bs_exact b' = bs_exact b \<and> bs_prefix b' = bs_prefix b \<and> reg b' = reg b \<and> bs_subSeq b' = bs_subSeq b \<and>
     bs_closed b' = bs_closed b"

lemma routes_ok_same: "same_routes b b' \<Longrightarrow> routes_ok b \<Longrightarrow> routes_ok b'"
  by (simp add: routes_ok_def same_routes_def live_def exact_subs_def)

lemma sub_reg_queue: "sub_reg (s\<lparr>sb_queue := q, sb_enqueued := n\<rparr>) = sub_reg s" "sub_reg (s\<lparr>sb_notify := x\<rparr>) = sub_reg s"
  "sub_reg (s\<lparr>sb_space := x\<rparr>) = sub_reg s" "sub_reg (s\<lparr>sb_dropped := d\<rparr>) = sub_reg s"
  "sub_reg (s\<lparr>sb_queue := q, sb_dropped := d, sb_enqueued := n\<rparr>) = sub_reg s"
  by (simp_all add: sub_reg_def)

lemma sub_reg_turn: "enqueue_turn f s = (t, s1) \<Longrightarrow> sub_reg s1 = sub_reg s"
  by (auto simp: enqueue_turn_def sub_reg_def split: if_splits prod.splits bool.splits)

lemma sub_reg_enqueue:
  assumes "\<forall>(g, w) \<in> set ws. \<forall>s. sub_reg (g s) = sub_reg s"
  shows "sub_reg (snd (enqueue ws f s)) = sub_reg s"
  using assms
proof (induct ws f s rule: enqueue.induct)
  case (1 ws f s)
  obtain t s1 where t: "enqueue_turn f s = (t, s1)" by (cases "enqueue_turn f s")
  note r = sub_reg_turn [OF t]
  show ?case
  proof (cases t)
    case TWait
    show ?thesis
    proof (cases ws)
      case (Cons x ws')
      obtain g w where x: "x = (g, w)" by (cases x)
      have g: "sub_reg (g s) = sub_reg s" for s using "1.prems" Cons x by auto
      have "sub_reg (snd (enqueue ws' f ((g s1)\<lparr>sb_space := False\<rparr>))) = sub_reg ((g s1)\<lparr>sb_space := False\<rparr>)" if "w = WSpace"
        using "1.hyps" [OF t [symmetric], of x ws' g w] TWait Cons x that "1.prems" by auto
      then show ?thesis using g r by (cases w) (simp_all add: enqueue.simps [of "(g, w) # ws'" for w] t TWait Cons x sub_reg_queue)
    qed (simp add: enqueue.simps t TWait r)
  qed (simp_all add: enqueue.simps t r sub_reg_queue)
qed

lemma reg_upd: "bs_heap b sid = Some s \<Longrightarrow> sub_reg s1 = sub_reg s \<Longrightarrow> reg (b\<lparr>bs_heap := (bs_heap b)(sid \<mapsto> s1)\<rparr>) = reg b"
  by (auto simp: reg_def fun_eq_iff)

lemma publish_to_same:
  assumes "waits_ok ws"
  shows "same_routes b (snd (publish_to ws f ids b)) \<and> bs_replay (snd (publish_to ws f ids b)) = bs_replay b \<and>
    bs_seq (snd (publish_to ws f ids b)) = bs_seq b"
proof (induct ids arbitrary: b)
  case Nil
  then show ?case by (simp add: same_routes_def)
next
  case (Cons sid ids)
  show ?case
  proof (cases "bs_heap b sid")
    case None
    then show ?thesis using Cons.hyps by simp
  next
    case (Some s)
    obtain r s1 where e: "enqueue (ws sid) f s = (r, s1)" by (cases "enqueue (ws sid) f s")
    have "sub_reg s1 = sub_reg s" using sub_reg_enqueue [of "ws sid" f s] assms e by (auto simp: waits_ok_def)
    note u = reg_upd [OF Some this]
    have h: "same_routes b (b\<lparr>bs_heap := (bs_heap b)(sid \<mapsto> s1)\<rparr>)" using u by (simp add: same_routes_def)
    have t: "same_routes b b'" if "same_routes (b\<lparr>bs_heap := (bs_heap b)(sid \<mapsto> s1)\<rparr>) b'" for b'
      using that h by (simp add: same_routes_def)
    show ?thesis using Some e h t Cons.hyps [of "b\<lparr>bs_heap := (bs_heap b)(sid \<mapsto> s1)\<rparr>"]
      by (auto simp: Let_def split: option.splits)
  qed
qed

lemma same_routes_trans: "same_routes b b1 \<Longrightarrow> same_routes b1 b2 \<Longrightarrow> same_routes b b2"
  by (simp add: same_routes_def)

lemma routes_ok_reg: "routes_ok b \<Longrightarrow> reg b sid = Some (i, opts, c) \<Longrightarrow> i = sid \<and> sid \<le> bs_subSeq b \<and> o_topic opts \<noteq> []"
  unfolding routes_ok_def by blast

lemma publish_same:
  assumes "waits_ok ws"
  shows "same_routes b (snd (stream_Publish ord ws ctx clk frm b))"
proof -
  let ?b = "b\<lparr>bs_seq := bs_seq b + 1\<rparr>"
  have j: "same_routes b (journal_add f ?b)" for f
    by (simp add: journal_add_def Let_def same_routes_def reg_def fun_eq_iff)
  have s: "same_routes b ?b" "same_routes b b" by (simp_all add: same_routes_def reg_def fun_eq_iff)
  have p: "same_routes b (snd (publish_to ws f ids (journal_add f ?b)))" for f ids
    using same_routes_trans [OF j] publish_to_same [OF assms] by blast
  show ?thesis using s p by (auto simp: stream_Publish_def Let_def case_prod_beta split: option.split)
qed

lemma exact_subs_put [simp]: "exact_subs t (b\<lparr>bs_exact := gm_put (bs_exact b) t' ss\<rparr>) = (if t = t' then ss else exact_subs t b)"
  by (simp add: exact_subs_def)

lemma exact_subs_del [simp]: "exact_subs t (b\<lparr>bs_exact := gm_del (bs_exact b) t'\<rparr>) = (if t = t' then [] else exact_subs t b)"
  by (simp add: exact_subs_def)

lemma exact_subs_heap [simp]: "exact_subs t (b\<lparr>bs_heap := h\<rparr>) = exact_subs t b" "exact_subs t (b\<lparr>bs_subSeq := n\<rparr>) = exact_subs t b"
  "exact_subs t (b\<lparr>bs_prefix := p\<rparr>) = exact_subs t b"
  by (simp_all add: exact_subs_def)

lemma close_sub_effect:
  assumes s: "bs_heap b sid = Some s" and i: "sb_id s = sid" and c: "\<not> sb_closed s"
  defines "b' \<equiv> bus_close_sub sid b"
  shows "reg b' = (reg b)(sid \<mapsto> (sid, sb_options s, True))"
    and "set (exact_subs t b') = set (exact_subs t b) - (if \<not> o_prefix (sb_options s) \<and> t = o_topic (sb_options s) then {sid} else {})"
    and "subs_at t (bs_prefix b') = subs_at t (bs_prefix b) - (if o_prefix (sb_options s) \<and> t = o_topic (sb_options s) then {sid} else {})"
    and "bs_subSeq b' = bs_subSeq b" and "bs_config b' = bs_config b" and "bs_closed b' = bs_closed b"
    and "bs_replay b' = bs_replay b" and "bs_seq b' = bs_seq b"
proof -
  let ?b = "b\<lparr>bs_heap := (bs_heap b)(sid \<mapsto> sub_Close s)\<rparr>" and ?t = "o_topic (sb_options s)"
  have b': "b' = bus_remove s ?b" using s c by (simp add: b'_def bus_close_sub_def)
  have "reg ?b = (reg b)(sid \<mapsto> (sid, sb_options s, True))"
    using i c by (auto simp: reg_def fun_eq_iff sub_reg_def sub_Close_def)
  then show "reg b' = (reg b)(sid \<mapsto> (sid, sb_options s, True))" unfolding b' by (simp add: bus_remove_def Let_def reg_def fun_eq_iff)
  show "subs_at t (bs_prefix b') = subs_at t (bs_prefix b) - (if o_prefix (sb_options s) \<and> t = ?t then {sid} else {})"
    unfolding b' using i by (simp add: bus_remove_def Let_def subs_at_remove)
  show "set (exact_subs t b') = set (exact_subs t b) - (if \<not> o_prefix (sb_options s) \<and> t = ?t then {sid} else {})"
  proof (cases "o_prefix (sb_options s)")
    case True
    then show ?thesis unfolding b' by (simp add: bus_remove_def Let_def)
  next
    case False
    let ?ss = "removeAll sid (exact_subs ?t b)"
    have "exact_subs t b' = (if t = ?t then ?ss else exact_subs t b)"
    proof (cases "?ss = []")
      case True
      then have "exact_subs t b' = exact_subs t (?b\<lparr>bs_exact := gm_del (bs_exact ?b) ?t\<rparr>)"
        unfolding b' using False i by (simp add: bus_remove_def Let_def del: exact_subs_del)
      also have "\<dots> = (if t = ?t then ?ss else exact_subs t b)" using True by (subst exact_subs_del) simp
      finally show ?thesis .
    next
      case ne: False
      then have "exact_subs t b' = exact_subs t (?b\<lparr>bs_exact := gm_put (bs_exact ?b) ?t ?ss\<rparr>)"
        unfolding b' using False i by (simp add: bus_remove_def Let_def del: exact_subs_put)
      also have "\<dots> = (if t = ?t then ?ss else exact_subs t b)" by (subst exact_subs_put) simp
      finally show ?thesis .
    qed
    then show ?thesis using False by auto
  qed
  show "bs_subSeq b' = bs_subSeq b" "bs_config b' = bs_config b" "bs_closed b' = bs_closed b"
    "bs_replay b' = bs_replay b" "bs_seq b' = bs_seq b"
    unfolding b' by (simp_all add: bus_remove_def Let_def)
qed

lemma routes_ok_close_sub:
  assumes "routes_ok b"
  shows "routes_ok (bus_close_sub sid b)"
proof (cases "\<exists>s. bs_heap b sid = Some s \<and> \<not> sb_closed s")
  case False
  then have "bus_close_sub sid b = b" by (auto simp: bus_close_sub_def split: option.splits)
  then show ?thesis using assms by simp
next
  case True
  then obtain s where s: "bs_heap b sid = Some s" "\<not> sb_closed s" by blast
  then have r: "reg b sid = Some (sb_id s, sb_options s, False)" by (simp add: reg_def sub_reg_def)
  then have i: "sb_id s = sid" using routes_ok_reg [OF assms] by blast
  note e = close_sub_effect [OF s(1) i s(2)]
  have L: "live (bus_close_sub sid b) pre t x \<longleftrightarrow> live b pre t x \<and> x \<noteq> sid" for pre t x by (auto simp: live_def e(1))
  have Ls: "live b pre t sid \<longleftrightarrow> o_prefix (sb_options s) = pre \<and> o_topic (sb_options s) = t" for pre t
    using r i by (auto simp: live_def)
  have R: "i' = x \<and> x \<le> bs_subSeq b \<and> o_topic opts \<noteq> []" if "((reg b)(sid \<mapsto> (sid, sb_options s, True))) x = Some (i', opts, c)" for x i' opts c
    using that routes_ok_reg [OF assms, of x] routes_ok_reg [OF assms r] by (cases "x = sid") auto
  have ex: "set (exact_subs t b) = {x. live b False t x}" and pr: "subs_at t (bs_prefix b) = {x. live b True t x}" for t
    using assms by (simp_all add: routes_ok_def)
  show ?thesis
    unfolding routes_ok_def
  proof (intro conjI allI)
    show "set (exact_subs t (bus_close_sub sid b)) = {x. live (bus_close_sub sid b) False t x}" for t
      unfolding e ex by (auto simp: L Ls)
    show "subs_at t (bs_prefix (bus_close_sub sid b)) = {x. live (bus_close_sub sid b) True t x}" for t
      unfolding e pr by (auto simp: L Ls)
    show "reg (bus_close_sub sid b) x = Some (i', opts, c) \<longrightarrow> i' = x \<and> x \<le> bs_subSeq (bus_close_sub sid b) \<and> o_topic opts \<noteq> []"
      for x i' opts c
      unfolding e using R by blast
  qed
qed

text \<open>A new subscription that is not registered, or is registered under its topic.\<close>

lemma routes_ok_new:
  assumes r: "routes_ok b" and fresh: "reg b sid = None" and t: "o_topic opts \<noteq> []" and n: "\<forall>x. x \<le> bs_subSeq b \<longrightarrow> x \<le> bs_subSeq b'"
    and sid: "sid \<le> bs_subSeq b'" and reg: "reg b' = (reg b)(sid \<mapsto> (sid, opts, c))"
    and ex: "\<And>t. set (exact_subs t b') = set (exact_subs t b) \<union> (if \<not> c \<and> \<not> o_prefix opts \<and> t = o_topic opts then {sid} else {})"
    and pr: "\<And>t. subs_at t (bs_prefix b') = subs_at t (bs_prefix b) \<union> (if \<not> c \<and> o_prefix opts \<and> t = o_topic opts then {sid} else {})"
  shows "routes_ok b'"
proof -
  have L: "live b' pre t x \<longleftrightarrow> live b pre t x \<or> x = sid \<and> \<not> c \<and> o_prefix opts = pre \<and> o_topic opts = t" for pre t x
    using fresh by (auto simp: live_def reg)
  have o: "set (exact_subs t b) = {x. live b False t x}" "subs_at t (bs_prefix b) = {x. live b True t x}" for t
    using r by (simp_all add: routes_ok_def)
  show ?thesis
    unfolding routes_ok_def
  proof (intro conjI allI)
    show "set (exact_subs t b') = {x. live b' False t x}" for t unfolding ex o by (auto simp: L)
    show "subs_at t (bs_prefix b') = {x. live b' True t x}" for t unfolding pr o by (auto simp: L)
    show "reg b' x = Some (i, op, cl) \<longrightarrow> i = x \<and> x \<le> bs_subSeq b' \<and> o_topic op \<noteq> []" for x i op cl
      unfolding reg using routes_ok_reg [OF r, of x i op cl] n sid t by (cases "x = sid") auto
  qed
qed

lemma sub_reg_preload: "sub_reg (preload fs s) = sub_reg s"
proof -
  have "sub_reg (preload_loop fs s) = sub_reg s"
    by (induct fs arbitrary: s) (auto simp: sub_reg_def split: prod.splits bool.splits)
  then show ?thesis by (simp add: preload_def Let_def sub_reg_queue)
qed

lemma word_less_succ: "(x :: 'a::len word) \<noteq> - 1 \<Longrightarrow> x < x + 1"
proof -
  assume "x \<noteq> - 1"
  then have "1 + x \<noteq> 0" by (metis add.commute add_eq_0_iff minus_equation_iff)
  from unatSuc [OF this] show ?thesis by (simp add: word_less_nat_alt add.commute)
qed

lemma routes_ok_subscribe:
  assumes r: "routes_ok b" and m: "bs_subSeq b \<noteq> - 1"
  shows "routes_ok (snd (stream_Subscribe ctx clk options b))"
proof -
  let ?opts = "sub_defaults (bs_config b) options"
  let ?sid = "bs_subSeq b + 1"
  let ?s = "newSubscription ?sid ?opts"
  let ?b1 = "b\<lparr>bs_subSeq := ?sid, bs_heap := (bs_heap b)(?sid \<mapsto> ?s)\<rparr>"
  have less: "bs_subSeq b < ?sid" using m by (rule word_less_succ)
  have fresh: "reg b ?sid = None"
  proof (rule ccontr)
    assume "reg b ?sid \<noteq> None"
    then obtain i op c where "reg b ?sid = Some (i, op, c)" by (metis option.exhaust prod_cases3)
    with routes_ok_reg [OF r] less show False by (metis linorder_not_le)
  qed
  have topic: "o_topic ?opts = o_topic options" by (simp add: sub_defaults_def Let_def)
  have le: "\<forall>x. x \<le> bs_subSeq b \<longrightarrow> x \<le> ?sid" using less by auto
  have new: "bs_heap ?b1 ?sid = Some ?s" "sb_id ?s = ?sid" "\<not> sb_closed ?s" "sb_options ?s = ?opts" by (simp_all add: newSubscription_def)
  have reg1: "reg ?b1 = (reg b)(?sid \<mapsto> (?sid, ?opts, False))" by (auto simp: reg_def sub_reg_def newSubscription_def)
  have notin: "?sid \<notin> set (exact_subs t b)" "?sid \<notin> subs_at t (bs_prefix b)" for t
    using r fresh by (auto simp: routes_ok_def live_def)
  note e = close_sub_effect [OF new(1-3)]
  have fail: "routes_ok (bus_close_sub ?sid ?b1)" if "o_topic options \<noteq> []"
  proof (rule routes_ok_new [OF r fresh, of ?opts _ True])
    show "reg (bus_close_sub ?sid ?b1) = (reg b)(?sid \<mapsto> (?sid, ?opts, True))" by (simp add: e(1) new(4) reg1)
    show "set (exact_subs t (bus_close_sub ?sid ?b1)) = set (exact_subs t b) \<union>
        (if \<not> True \<and> \<not> o_prefix ?opts \<and> t = o_topic ?opts then {?sid} else {})" for t
      unfolding e(2) using notin by simp
    show "subs_at t (bs_prefix (bus_close_sub ?sid ?b1)) = subs_at t (bs_prefix b) \<union>
        (if \<not> True \<and> o_prefix ?opts \<and> t = o_topic ?opts then {?sid} else {})" for t
      unfolding e(3) using notin by simp
  qed (use that topic le e(4) in auto)
  have ok: "routes_ok (b2\<lparr>bs_prefix := prefix_add ?sid (o_topic ?opts) (bs_prefix b2)\<rparr>)" (is ?P)
    if "o_topic options \<noteq> []" "o_prefix ?opts" and b2: "b2 = ?b1\<lparr>bs_heap := (bs_heap ?b1)(?sid \<mapsto> s1)\<rparr>" and "sub_reg s1 = sub_reg ?s"
    for b2 s1
  proof (rule routes_ok_new [OF r fresh, of ?opts _ False])
    have "reg b2 = reg ?b1" unfolding b2 using reg_upd [OF new(1)] that(4) by blast
    then show "reg (b2\<lparr>bs_prefix := prefix_add ?sid (o_topic ?opts) (bs_prefix b2)\<rparr>) = (reg b)(?sid \<mapsto> (?sid, ?opts, False))"
      using reg1 by (simp add: reg_def fun_eq_iff)
  qed (use that topic le in \<open>auto simp: subs_at_add b2 exact_subs_def\<close>)
  have ok': "routes_ok (b2\<lparr>bs_exact := gm_put (bs_exact b2) (o_topic ?opts) (List.insert ?sid (exact_subs (o_topic ?opts) b2))\<rparr>)"
    if "o_topic options \<noteq> []" "\<not> o_prefix ?opts" and b2: "b2 = ?b1\<lparr>bs_heap := (bs_heap ?b1)(?sid \<mapsto> s1)\<rparr>" and "sub_reg s1 = sub_reg ?s"
    for b2 s1
  proof (rule routes_ok_new [OF r fresh, of ?opts _ False])
    have "reg b2 = reg ?b1" unfolding b2 using reg_upd [OF new(1)] that(4) by blast
    then show "reg (b2\<lparr>bs_exact := gm_put (bs_exact b2) (o_topic ?opts) (List.insert ?sid (exact_subs (o_topic ?opts) b2))\<rparr>)
        = (reg b)(?sid \<mapsto> (?sid, ?opts, False))"
      using reg1 by (simp add: reg_def fun_eq_iff)
  qed (use that topic le in \<open>auto simp: b2 exact_subs_def\<close>)
  have pre: "sub_reg (if fs = [] then ?s else preload fs ?s) = sub_reg ?s" for fs by (simp add: sub_reg_preload)
  show ?thesis
    using r fail ok [OF _ _ refl pre] ok' [OF _ _ refl pre] unfolding stream_Subscribe_def Let_def
    by (simp split: option.split)
qed

text \<open>\<^verbatim>\<open>Close\<close> closes whatever is registered.\<close>

lemma bus_close_sub_cases:
  obtains "bus_close_sub sid b = b" and "\<nexists>s. bs_heap b sid = Some s \<and> \<not> sb_closed s"
    | s where "bs_heap b sid = Some s" and "\<not> sb_closed s"
  by (cases "\<exists>s. bs_heap b sid = Some s \<and> \<not> sb_closed s") (auto simp: bus_close_sub_def split: option.splits)

lemma bus_close_sub_frame:
  "bs_replay (bus_close_sub sid b) = bs_replay b" "bs_seq (bus_close_sub sid b) = bs_seq b"
  "bs_config (bus_close_sub sid b) = bs_config b" "bs_closed (bus_close_sub sid b) = bs_closed b"
  "bs_subSeq (bus_close_sub sid b) = bs_subSeq b"
  by (auto simp: bus_close_sub_def bus_remove_def Let_def split: option.splits)

definition ids_ok :: "stream_bus \<Rightarrow> bool" where
  "ids_ok b \<longleftrightarrow> (\<forall>sid i opts c. reg b sid = Some (i, opts, c) \<longrightarrow> i = sid \<and> sid \<le> bs_subSeq b \<and> o_topic opts \<noteq> [])"

definition unrouted :: "stream_bus \<Rightarrow> bool" where
  "unrouted b \<longleftrightarrow> ids_ok b \<and> (\<forall>t. exact_subs t b = []) \<and> (\<forall>t. subs_at t (bs_prefix b) = {})"

lemma unrouted_close_sub:
  assumes "unrouted b"
  shows "unrouted (bus_close_sub sid b)" and "live (bus_close_sub sid b) pre t x \<longleftrightarrow> live b pre t x \<and> x \<noteq> sid"
proof -
  have "unrouted (bus_close_sub sid b) \<and> (live (bus_close_sub sid b) pre t x \<longleftrightarrow> live b pre t x \<and> x \<noteq> sid)"
  proof (cases rule: bus_close_sub_cases [of sid b])
    case 1
    then show ?thesis using assms by (auto simp: live_def reg_def sub_reg_def)
  next
    case (2 s)
    then have r: "reg b sid = Some (sb_id s, sb_options s, False)" by (simp add: reg_def sub_reg_def)
    then have i: "sb_id s = sid" "sid \<le> bs_subSeq b" "o_topic (sb_options s) \<noteq> []"
      using assms unfolding unrouted_def ids_ok_def by blast+
    note e = close_sub_effect [OF 2(1) i(1) 2(2)]
    have "ids_ok (bus_close_sub sid b)"
      using assms i unfolding unrouted_def ids_ok_def e by (auto split: if_splits)
    moreover have "set (exact_subs u (bus_close_sub sid b)) = {}" "subs_at u (bs_prefix (bus_close_sub sid b)) = {}" for u
      unfolding e using assms by (simp_all add: unrouted_def)
    moreover have "live (bus_close_sub sid b) pre t x \<longleftrightarrow> live b pre t x \<and> x \<noteq> sid" by (auto simp: live_def e(1))
    ultimately show ?thesis by (simp add: unrouted_def)
  qed
  then show "unrouted (bus_close_sub sid b)" "live (bus_close_sub sid b) pre t x \<longleftrightarrow> live b pre t x \<and> x \<noteq> sid" by simp_all
qed

lemma unrouted_close_subs:
  "unrouted b \<Longrightarrow> unrouted (foldl (\<lambda>b sid. bus_close_sub sid b) b ids) \<and>
     (live (foldl (\<lambda>b sid. bus_close_sub sid b) b ids) pre t x \<longleftrightarrow> live b pre t x \<and> x \<notin> set ids)"
proof (induct ids arbitrary: b)
  case (Cons sid ids)
  then show ?case using Cons.hyps [OF unrouted_close_sub(1) [OF Cons.prems, of sid]] unrouted_close_sub(2) [OF Cons.prems, of sid pre t x]
    by auto
qed simp

lemma close_frame:
  "bs_replay (stream_Close b) = bs_replay b" "bs_seq (stream_Close b) = bs_seq b" "bs_config (stream_Close b) = bs_config b"
proof -
  have "bs_replay (foldl (\<lambda>b sid. bus_close_sub sid b) b ids) = bs_replay b \<and> bs_seq (foldl (\<lambda>b sid. bus_close_sub sid b) b ids) = bs_seq b \<and>
      bs_config (foldl (\<lambda>b sid. bus_close_sub sid b) b ids) = bs_config b" for b ids
    by (induct ids arbitrary: b) (simp_all add: bus_close_sub_frame)
  then show "bs_replay (stream_Close b) = bs_replay b" "bs_seq (stream_Close b) = bs_seq b" "bs_config (stream_Close b) = bs_config b"
    by (simp_all add: stream_Close_def Let_def)
qed

lemma routes_ok_close:
  assumes "routes_ok b"
  shows "routes_ok (stream_Close b)"
proof (cases "bs_closed b")
  case True
  then show ?thesis using assms by (simp add: stream_Close_def)
next
  case False
  let ?b = "b\<lparr>bs_closed := True, bs_exact := [], bs_prefix := newPrefixNode\<rparr>"
  let ?u = "remdups (concat (map snd (bs_exact b)) @ collectPrefixSubscriptions (bs_prefix b))"
  let ?b' = "foldl (\<lambda>b sid. bus_close_sub sid b) ?b ?u"
  have reg: "reg ?b = reg b" by (simp add: reg_def fun_eq_iff)
  have ids: "ids_ok ?b" unfolding ids_ok_def reg using routes_ok_reg [OF assms] by simp
  then have u: "unrouted ?b" by (simp add: unrouted_def exact_subs_def)
  have lb: "live ?b pre t x = live b pre t x" for pre t x by (simp add: live_def reg)
  have "x \<in> set ?u" if "live b pre t x" for pre t x
  proof (cases pre)
    case True
    then have "x \<in> subs_at t (bs_prefix b)" using assms that by (simp add: routes_ok_def)
    then show ?thesis using subs_at_collected by auto
  next
    case False
    then have "x \<in> set (exact_subs t b)" using assms that by (simp add: routes_ok_def)
    then obtain ss where "gm_get (bs_exact b) t = Some ss" "x \<in> set ss"
      by (cases "gm_get (bs_exact b) t") (auto simp: exact_subs_def)
    then show ?thesis by (force dest!: map_of_SomeD)
  qed
  then have dead: "\<not> live ?b' pre t x" for pre t x using unrouted_close_subs [OF u, of ?u pre t x] lb by blast
  have "unrouted ?b'" using unrouted_close_subs [OF u] by blast
  then have "routes_ok ?b'" using dead unfolding routes_ok_def unrouted_def ids_ok_def by simp
  then show ?thesis using False by (simp add: stream_Close_def Let_def)
qed

lemma bus_reach_routes: "bus_reach cfg h b \<Longrightarrow> routes_ok b"
proof (induct rule: bus_reach.induct)
  case b_new
  show ?case by (simp add: routes_ok_def NewStreamBus_def exact_subs_def live_def reg_def)
next
  case (b_publish h b ws ord ctx clk frm)
  then show ?case by (blast intro: routes_ok_same publish_same)
next
  case (b_subscribe h b ctx clk opts)
  then show ?case by (blast intro: routes_ok_subscribe)
next
  case (b_close_sub h b sid)
  then show ?case by (blast intro: routes_ok_close_sub)
next
  case (b_close h b)
  then show ?case by (blast intro: routes_ok_close)
next
  case (b_local h b sid s s')
  then have "same_routes b (b\<lparr>bs_heap := (bs_heap b)(sid \<mapsto> s')\<rparr>)" by (simp add: same_routes_def reg_upd)
  with b_local show ?case by (blast intro: routes_ok_same)
qed

section \<open>The journals of a reachable bus\<close>

definition topic_frames :: "string \<Rightarrow> frame list \<Rightarrow> frame list" where
  "topic_frames t h = filter (\<lambda>f. fr_topic f = t) h"

definition journals_ok :: "frame list \<Rightarrow> stream_bus \<Rightarrow> bool" where
  "journals_ok h b \<longleftrightarrow>
     (\<forall>t. if ReplayCapacity (bs_config b) \<le> 0 \<or> topic_frames t h = [] then bs_replay b t = None
          else \<exists>r. bs_replay b t = Some r \<and> rb_inv (nat (ReplayCapacity (bs_config b))) r \<and>
                 rb_list r = latest (nat (ReplayCapacity (bs_config b))) (topic_frames t h)) \<and>
     in_order h \<and> (\<forall>f \<in> set h. fr_sequence f \<le> bs_seq b)"

lemma latest_step: "latest n (latest n xs @ [x]) = latest n (xs @ [x])"
  by (cases "length xs \<le> n") (simp_all add: latest_def Suc_diff_le)

lemma journal_add_ok:
  assumes j: "journals_ok h b" and f: "fr_sequence f = bs_seq b + 1" and m: "bs_seq b \<noteq> - 1"
    and b': "bs_config b' = bs_config b" "bs_seq b' = bs_seq b + 1" "bs_replay b' = bs_replay (journal_add f b)"
  shows "journals_ok (h @ [f]) b'"
proof -
  have less: "bs_seq b < bs_seq b + 1" using m by (rule word_less_succ)
  have le: "fr_sequence g < bs_seq b + 1" if "g \<in> set h" for g
    using j that less by (auto simp: journals_ok_def)
  then have o: "in_order (h @ [f])" "\<forall>g \<in> set (h @ [f]). fr_sequence g \<le> bs_seq b'"
    using j f b'(2) by (auto simp: journals_ok_def sorted_wrt_append less_imp_le)
  let ?n = "nat (ReplayCapacity (bs_config b))"
  have "if ReplayCapacity (bs_config b) \<le> 0 \<or> topic_frames t (h @ [f]) = [] then bs_replay b' t = None
      else \<exists>r. bs_replay b' t = Some r \<and> rb_inv ?n r \<and> rb_list r = latest ?n (topic_frames t (h @ [f]))" for t
  proof -
    have old: "if ReplayCapacity (bs_config b) \<le> 0 \<or> topic_frames t h = [] then bs_replay b t = None
      else \<exists>r. bs_replay b t = Some r \<and> rb_inv ?n r \<and> rb_list r = latest ?n (topic_frames t h)"
      using j unfolding journals_ok_def by blast
    show ?thesis
    proof (cases "ReplayCapacity (bs_config b) > 0 \<and> t = fr_topic f")
      case False
      then show ?thesis using old by (auto simp: b'(3) journal_add_def Let_def topic_frames_def)
    next
      case True
      then have n: "0 < ?n" by simp
      obtain r where r: "bs_replay b' t = Some (rb_add f r)" "rb_inv ?n r" "rb_list r = latest ?n (topic_frames t h)"
      proof (cases "topic_frames t h = []")
        case True': True
        show ?thesis using that [of "newReplayBuffer ?n"] True True' old rb_new(1) [OF n] rb_new(2)
          by (simp add: b'(3) journal_add_def latest_def)
      next
        case False
        then show ?thesis using that old True by (auto simp: b'(3) journal_add_def)
      qed
      then show ?thesis using True rb_add_list [OF r(2), of f] by (simp add: topic_frames_def latest_step)
    qed
  qed
  with o show ?thesis using b'(1) by (simp add: journals_ok_def)
qed

lemma journals_ok_frame:
  assumes "journals_ok h b" and "bs_config b' = bs_config b" and "bs_replay b' = bs_replay b" and "bs_seq b \<le> bs_seq b'"
  shows "journals_ok h b'"
  using assms unfolding journals_ok_def by (auto intro: order_trans)

lemma subscribe_frame:
  "bs_replay (snd (stream_Subscribe ctx clk opts b)) = bs_replay b" "bs_seq (snd (stream_Subscribe ctx clk opts b)) = bs_seq b"
  "bs_config (snd (stream_Subscribe ctx clk opts b)) = bs_config b"
  by (simp_all add: stream_Subscribe_def Let_def bus_close_sub_frame split: option.splits)

lemma stamped_simps [simp]: "fr_topic (stamped n t f) = fr_topic f" "fr_sequence (stamped n t f) = n"
  by (simp_all add: stamped_def)

lemma journals_ok_publish:
  assumes j: "journals_ok h b" and m: "bs_seq b \<noteq> - 1" and w: "waits_ok ws"
  shows "journals_ok (h @ accepted ctx clk frm b) (snd (stream_Publish ord ws ctx clk frm b))"
proof (cases "fr_topic frm = [] \<or> int (length (fr_payload frm)) > MaxPayloadBytes (bs_config b) \<or> ctx (clk 0) \<noteq> None")
  case True
  then have "snd (stream_Publish ord ws ctx clk frm b) = b" "accepted ctx clk frm b = []"
    by (auto simp: stream_Publish_def accepted_def)
  then show ?thesis using j by simp
next
  case go: False
  let ?b = "b\<lparr>bs_seq := bs_seq b + 1\<rparr>" and ?f = "stamped (bs_seq b + 1) (clk 1) frm"
  show ?thesis
  proof (cases "bs_closed b")
    case True
    then have "snd (stream_Publish ord ws ctx clk frm b) = ?b" "accepted ctx clk frm b = []"
      using go by (auto simp: stream_Publish_def accepted_def)
    then show ?thesis using journals_ok_frame [OF j, of ?b] word_less_succ [OF m] by simp
  next
    case False
    let ?b' = "snd (publish_to ws ?f (ord (stream_targets (fr_topic frm) ?b)) (journal_add ?f ?b))"
    have "snd (stream_Publish ord ws ctx clk frm b) = ?b'" "accepted ctx clk frm b = [?f]"
      using go False by (auto simp: stream_Publish_def accepted_def Let_def case_prod_beta)
    moreover have ja: "bs_config (journal_add ?f ?b) = bs_config b" "bs_seq (journal_add ?f ?b) = bs_seq b + 1"
      "bs_replay (journal_add ?f ?b) = bs_replay (journal_add ?f b)" by (simp_all add: journal_add_def Let_def split: option.split)
    have "bs_config ?b' = bs_config b" "bs_seq ?b' = bs_seq b + 1" "bs_replay ?b' = bs_replay (journal_add ?f b)"
      using publish_to_same [OF w, of "journal_add ?f ?b" ?f "ord (stream_targets (fr_topic frm) ?b)"]
      by (simp_all only: same_routes_def ja)
    ultimately show ?thesis using journal_add_ok [OF j _ m, of ?f ?b'] by simp
  qed
qed

lemma bus_reach_journals: "bus_reach cfg h b \<Longrightarrow> journals_ok h b"
proof (induct rule: bus_reach.induct)
  case b_new
  show ?case by (simp add: journals_ok_def NewStreamBus_def topic_frames_def)
next
  case (b_publish h b ws ord ctx clk frm)
  then show ?case by (blast intro: journals_ok_publish)
qed (auto intro: journals_ok_frame simp: subscribe_frame bus_close_sub_frame close_frame)

lemma publish_to_heap:
  "publish_to ws f ids b = (Some None, b') \<Longrightarrow> distinct ids \<Longrightarrow>
     bs_heap b' x = (if x \<in> set ids then map_option (\<lambda>s. snd (enqueue (ws x) f s)) (bs_heap b x) else bs_heap b x)"
proof (induct ids arbitrary: b)
  case (Cons sid ids)
  show ?case
  proof (cases "bs_heap b sid")
    case None
    then show ?thesis using Cons.hyps [of b] Cons.prems by auto
  next
    case (Some s)
    obtain r s1 where e: "enqueue (ws sid) f s = (r, s1)" by (cases "enqueue (ws sid) f s")
    have "publish_to ws f ids (b\<lparr>bs_heap := (bs_heap b)(sid \<mapsto> s1)\<rparr>) = (Some None, b')"
      using Cons.prems(1) Some e by (auto simp: Let_def split: option.splits if_splits)
    from Cons.hyps [OF this] Cons.prems(2) Some e show ?thesis by auto
  qed
qed simp

definition topic_matches :: "sub_options \<Rightarrow> string \<Rightarrow> bool" where
  "topic_matches opts t \<longleftrightarrow> (if o_prefix opts then take (length (o_topic opts)) t = o_topic opts else t = o_topic opts)"

lemma routes_targets:
  assumes "routes_ok b"
  shows "sid \<in> set (stream_targets t b) \<longleftrightarrow> (\<exists>s. bs_heap b sid = Some s \<and> \<not> sb_closed s \<and> topic_matches (sb_options s) t)"
proof -
  have pre: "(\<exists>q. t = p @ q) \<longleftrightarrow> take (length p) t = p" for p by (metis append_eq_conv_conj append_take_drop_id)
  have "sid \<in> set (stream_targets t b) \<longleftrightarrow> live b False t sid \<or> (\<exists>p q. t = p @ q \<and> p \<noteq> [] \<and> live b True p sid)"
    using assms by (simp add: stream_targets_def set_prefix_targets routes_ok_def)
  also have "\<dots> \<longleftrightarrow> (\<exists>s. bs_heap b sid = Some s \<and> \<not> sb_closed s \<and> topic_matches (sb_options s) t)"
  proof (cases "bs_heap b sid")
    case None
    then show ?thesis by (simp add: live_def reg_def)
  next
    case (Some s)
    then have r: "reg b sid = Some (sb_id s, sb_options s, sb_closed s)" by (simp add: reg_def sub_reg_def)
    then have "sb_id s = sid" "o_topic (sb_options s) \<noteq> []" using routes_ok_reg [OF assms] by blast+
    then show ?thesis using Some r by (auto simp: live_def topic_matches_def pre [symmetric])
  qed
  finally show ?thesis .
qed

lemma preload_loop_refines:
  "fq_refines (sb_queue s) xs \<Longrightarrow> length xs + length fs \<le> fq_capacity (sb_queue s) \<Longrightarrow> fq_refines (sb_queue (preload_loop fs s)) (xs @ fs)"
proof (induct fs arbitrary: s xs)
  case (Cons f fs)
  obtain ok q where q: "fq_push f (sb_queue s) = (ok, q)" by (cases "fq_push f (sb_queue s)")
  have sp: "spec_push (fq_capacity (sb_queue s)) f xs = (True, xs @ [f])" using Cons.prems(2) by (simp add: spec_push_def)
  note p = fq_refines_push [OF Cons.prems(1), of f, unfolded q sp, simplified]
  then have "fq_refines (sb_queue (s\<lparr>sb_queue := q, sb_enqueued := sb_enqueued s + 1\<rparr>)) (xs @ [f])" by simp
  from Cons.hyps [OF this] Cons.prems(2) p q show ?case by simp
qed simp

lemma preload_refines:
  "0 < o_buffer opts \<Longrightarrow> int (length fs) \<le> o_buffer opts \<Longrightarrow> fq_refines (sb_queue (preload fs (newSubscription sid opts))) fs"
  using preload_loop_refines [of "newSubscription sid opts" "[]" fs] fq_refines_new [of "nat (o_buffer opts)"]
  by (simp add: preload_def Let_def newSubscription_def) (simp add: newFrameQueue_def)

lemma journal_complete:
  assumes j: "journals_ok h b" and a: "rb_after n r = (fs, False)" and r: "bs_replay b t = Some r" and n: "n \<noteq> 0"
  shows "fs = filter (\<lambda>f. n < fr_sequence f) (topic_frames t h)"
proof -
  let ?n = "nat (ReplayCapacity (bs_config b))" and ?h = "topic_frames t h"
  have "if ReplayCapacity (bs_config b) \<le> 0 \<or> ?h = [] then bs_replay b t = None
      else \<exists>r. bs_replay b t = Some r \<and> rb_inv ?n r \<and> rb_list r = latest ?n ?h"
    using j unfolding journals_ok_def by blast
  then have i: "rb_inv ?n r" "rb_list r = latest ?n ?h" "?h \<noteq> []" using r by (auto split: if_splits)
  have io: "in_order ?h" using j by (simp add: journals_ok_def topic_frames_def sorted_wrt_filter)
  have fs: "fs = filter (\<lambda>f. n < fr_sequence f) (latest ?n ?h)"
    and gap: "rb_len r = ?n \<Longrightarrow> \<not> n < fr_sequence (hd (latest ?n ?h))"
    using a n unfolding rb_after_list [OF i(1)] i(2) by (auto split: if_splits)
  have split: "?h = take (length ?h - ?n) ?h @ latest ?n ?h" by (simp add: latest_def)
  have "\<not> n < fr_sequence g" if g: "g \<in> set (take (length ?h - ?n) ?h)" for g
  proof -
    have l: "?n < length ?h" using g by (cases "length ?h \<le> ?n") auto
    have n0: "0 < ?n" using i(1) by (simp add: rb_inv_def)
    have "rb_len r = ?n" using i(2) l length_rb_list [of r] by (simp add: latest_def)
    then have "\<not> n < fr_sequence (hd (latest ?n ?h))" by (rule gap)
    moreover have "latest ?n ?h \<noteq> []" using l n0 by (simp add: latest_def)
    then have "hd (latest ?n ?h) \<in> set (latest ?n ?h)" by simp
    then have "fr_sequence g < fr_sequence (hd (latest ?n ?h))"
      using io g by (subst (asm) split) (auto simp: sorted_wrt_append)
    ultimately show ?thesis by auto
  qed
  then have "filter (\<lambda>f. n < fr_sequence f) (take (length ?h - ?n) ?h) = []" by (simp add: filter_empty_conv)
  then show ?thesis unfolding fs by (subst (2) split) simp
qed

text \<open>A bus with a subscription to a prefix, on which two frames are published, for the examples.\<close>

definition demo_cfg :: stream_config where
  "demo_cfg = \<lparr>DefaultBuffer = 4, MaxBuffer = 0, ReplayCapacity = 2, MaxPayloadBytes = 0, CopyPayload = False\<rparr>"

definition demo_frame :: frame where
  "demo_frame = zero_frame\<lparr>fr_topic := ''ab''\<rparr>"

abbreviation demo_publish where
  "demo_publish b \<equiv> stream_Publish (\<lambda>xs. xs) (\<lambda>_. []) background (\<lambda>_. 5) demo_frame b"

definition demo_bus :: stream_bus where
  "demo_bus = snd (stream_Subscribe background (\<lambda>_. 1) (zero_options\<lparr>o_topic := ''a'', o_prefix := True\<rparr>) (NewStreamBus demo_cfg))"

definition demo_bus2 :: stream_bus where
  "demo_bus2 = snd (demo_publish (snd (demo_publish demo_bus)))"

lemmas bus_eval = demo_cfg_def demo_frame_def demo_bus_def demo_bus2_def stream_Publish_def stream_Subscribe_def NewStreamBus_def
  normalized_def sub_defaults_def zero_options_def zero_frame_def newPrefixNode_def stream_replay_def stream_targets_def exact_subs_def
  newSubscription_def Let_def stamped_def journal_add_def enqueue.simps enqueue_turn_def fq_push_def newFrameQueue_def time_IsZero_def
  background_def

lemma reach_demo: "bus_reach demo_cfg [] demo_bus"
  unfolding demo_bus_def by (rule b_subscribe [OF b_new]) (simp add: NewStreamBus_def)

lemma demo_visits: "visits (\<lambda>xs. xs)" "waits_ok (\<lambda>_. [])"
  by (simp_all add: visits_def waits_ok_def)

lemma reach_demo2:
  "bus_reach demo_cfg [stamped 1 5 demo_frame, stamped 2 5 demo_frame] demo_bus2"
proof -
  have "bs_seq demo_bus = 0" by (simp add: bus_eval)
  then have 1: "bus_reach demo_cfg ([] @ accepted background (\<lambda>_. 5) demo_frame demo_bus) (snd (demo_publish demo_bus))"
    by (intro b_publish [OF reach_demo] demo_visits) simp
  have "bs_seq (snd (demo_publish demo_bus)) = 1" by (simp add: bus_eval)
  then have "bus_reach demo_cfg (([] @ accepted background (\<lambda>_. 5) demo_frame demo_bus) @
      accepted background (\<lambda>_. 5) demo_frame (snd (demo_publish demo_bus))) demo_bus2"
    unfolding demo_bus2_def by (intro b_publish [OF 1] demo_visits) simp
  then show ?thesis by (simp add: accepted_def bus_eval)
qed

section \<open>Properties\<close>

text \<open>
  C17. A successful \<^verbatim>\<open>Publish\<close> reaches exactly the subscribers of the topic. On a bus reached by
  any operations it enqueues the frame, stamped with the next sequence number, once
  for every open subscription whose topic is the frame's, or a prefix of it where that
  was asked for, and it changes no other subscription; the trie of prefixes and
  the order in which the targets are visited do not matter.
\<close>

theorem publish_reaches_subscribers:
  assumes "bus_reach cfg h b" and "visits ord"
    and "stream_Publish ord ws ctx clk frm b = (Some (n, None), b')" and "bs_heap b sid = Some s"
  shows "bs_heap b' sid =
    Some (if \<not> sb_closed s \<and> topic_matches (sb_options s) (fr_topic frm)
          then snd (enqueue (ws sid) (stamped n (clk 1) frm) s) else s)"
proof -
  let ?b = "b\<lparr>bs_seq := bs_seq b + 1\<rparr>" and ?f = "stamped (bs_seq b + 1) (clk 1) frm"
  let ?ids = "ord (stream_targets (fr_topic frm) ?b)"
  have n: "n = bs_seq b + 1" and p: "publish_to ws ?f ?ids (journal_add ?f ?b) = (Some None, b')"
    using assms(3) by (auto simp: stream_Publish_def Let_def split: if_splits option.splits prod.splits)
  have "distinct (stream_targets (fr_topic frm) ?b)" by (simp add: stream_targets_def)
  then have d: "distinct ?ids" "set ?ids = set (stream_targets (fr_topic frm) ?b)" using assms(2) by (auto simp: visits_def)
  have hp: "bs_heap (journal_add ?f ?b) = bs_heap b" by (simp add: journal_add_def Let_def)
  have "stream_targets (fr_topic frm) ?b = stream_targets (fr_topic frm) b" by (simp add: stream_targets_def exact_subs_def)
  then have "sid \<in> set ?ids \<longleftrightarrow> \<not> sb_closed s \<and> topic_matches (sb_options s) (fr_topic frm)"
    using routes_targets [OF bus_reach_routes [OF assms(1)], of sid] assms(4) d(2) by auto
  then show ?thesis using publish_to_heap [OF p d(1), of sid] hp assms(4) n by auto
qed

theorem publish_reaches_subscribers_witness:
  "\<exists>s. bs_heap demo_bus 1 = Some s \<and>
     bs_heap (snd (demo_publish demo_bus)) 1 = Some (snd (enqueue [] (stamped 1 5 demo_frame) s))"
proof -
  obtain s where s: "bs_heap demo_bus 1 = Some s" "\<not> sb_closed s" "topic_matches (sb_options s) (fr_topic demo_frame)"
    by (auto simp: bus_eval topic_matches_def)
  have "demo_publish demo_bus = (Some (1, None), snd (demo_publish demo_bus))" by (simp add: bus_eval)
  from publish_reaches_subscribers [OF reach_demo demo_visits(1) this s(1)] s show ?thesis by simp
qed



end
