(* ===== verification/Stream_Session.thy ===== *)
theory Stream_Session
  imports Stream_Bus Stream_Wire
begin

text \<open>
  The WebTransport handler (src/streambus/webtransport/handler.go), which binds sessions
  of the WebTransport library to a stream bus: a reader of the control stream, a reader
  of datagrams and, for each subscription of the client, a goroutine \<^verbatim>\<open>pump\<close> that
  forwards its frames.

  The library is the parameter \<open>wt_lib\<close>, with the control stream and the streams of the
  pumps as handles. The handler works over any \<^verbatim>\<open>streambus.Bus\<close>: \<open>stream_ops\<close> are the
  operations it calls, \<open>stream_provider\<close> is what it relies on, and the in-memory bus is
  shown to provide it. A call of the bus is one step of a session, taken when it returns.
\<close>

section \<open>The bus and the library\<close>

text \<open>
  A bus as a session uses it. \<^verbatim>\<open>Publish\<close> depends on a schedule, which says what other
  goroutines do while it waits; \<open>so_Recv\<close> receives a frame from the channel of a
  subscription if one is ready, and \<open>so_Ended\<close> holds once that channel is closed.
\<close>

record ('w, 'b) stream_ops =
  so_Publish :: "'w \<Rightarrow> ctx \<Rightarrow> clock \<Rightarrow> frame \<Rightarrow> 'b \<Rightarrow> (u64 \<times> stream_error option) option \<times> 'b"
  so_Subscribe :: "ctx \<Rightarrow> clock \<Rightarrow> sub_options \<Rightarrow> 'b \<Rightarrow> (stream_error + u64) \<times> 'b"
  so_CloseSub :: "u64 \<Rightarrow> 'b \<Rightarrow> 'b"
  so_Recv :: "u64 \<Rightarrow> 'b \<Rightarrow> (frame \<times> 'b) option"
  so_Ended :: "u64 \<Rightarrow> 'b \<Rightarrow> bool"

text \<open>What the contract of a bus speaks of: the schedules of \<^verbatim>\<open>Publish\<close>, an invariant, whether
  there are ids left, and which subscriptions exist and are open.\<close>

record ('w, 'b) stream_view =
  sw_schedule :: "'w \<Rightarrow> bool"
  sw_inv :: "'b \<Rightarrow> bool"
  sw_room :: "'b \<Rightarrow> bool"
  sw_issued :: "u64 \<Rightarrow> 'b \<Rightarrow> bool"
  sw_open :: "u64 \<Rightarrow> 'b \<Rightarrow> bool"

text \<open>The session of the WebTransport library: which sides support datagrams, the datagrams
  and the streams, of which one handle is the control stream.\<close>

record 'x wt_lib =
  wt_datagrams :: "'x \<Rightarrow> bool \<times> bool"
  wt_SendDatagram :: "byte list \<Rightarrow> 'x \<Rightarrow> stream_error option \<times> 'x"
  wt_OpenUniStreamSync :: "ctx \<Rightarrow> clock \<Rightarrow> 'x \<Rightarrow> (stream_error + nat) \<times> 'x"
  wt_Write :: "nat \<Rightarrow> 'x writer"
  wt_CloseStream :: "nat \<Rightarrow> 'x \<Rightarrow> 'x"
  wt_CloseWithError :: "'x \<Rightarrow> 'x"

section \<open>The handler\<close>

text \<open>A pointer that is only compared with nil is a boolean.\<close>

record 'r handler =
  h_Server :: bool
  h_Bus :: bool
  h_Authenticate :: "('r \<Rightarrow> stream_error option) option"
  MaxMessageBytes :: int
  MaxDatagramBytes :: int
  h_OnError :: bool

definition defaultMaxMessageBytes :: int where
  "defaultMaxMessageBytes = 64 * 2 ^ 20"

definition defaultMaxDatagramBytes :: int where
  "defaultMaxDatagramBytes = 1200"

definition maximum :: "'r handler \<Rightarrow> int" where
  "maximum h = (if MaxMessageBytes h \<le> 0 then defaultMaxMessageBytes else MaxMessageBytes h)"

definition maximumDatagram :: "'r handler \<Rightarrow> int" where
  "maximumDatagram h = (if MaxDatagramBytes h \<le> 0 then defaultMaxDatagramBytes else MaxDatagramBytes h)"

text \<open>The errors passed to \<^verbatim>\<open>OnError\<close>.\<close>

definition handler_report :: "'r handler \<Rightarrow> 'e \<Rightarrow> 'e list \<Rightarrow> 'e list" where
  "handler_report h e reports = (if h_OnError h then reports @ [e] else reports)"

text \<open>The errors of \<^verbatim>\<open>ServeSession\<close>, of which one wraps another, and \<^verbatim>\<open>errors.Is\<close> for an error of a
  context.\<close>

datatype serve_error = AcceptFailed stream_error | SessionFailed stream_error

fun errors_Is :: "serve_error \<Rightarrow> go_error \<Rightarrow> bool" where
  "errors_Is (AcceptFailed e) c \<longleftrightarrow> e = CtxErr c"
| "errors_Is (SessionFailed e) c \<longleftrightarrow> e = CtxErr c"

text \<open>
  \<^verbatim>\<open>ServeHTTP\<close>, with what \<^verbatim>\<open>Upgrade\<close> and then \<^verbatim>\<open>ServeSession\<close> return: the status it writes, if
  any, whether it served a session, and the errors it reports.
\<close>

definition ServeHTTP ::
    "'r handler \<Rightarrow> ('r \<Rightarrow> stream_error option) \<Rightarrow> ('r \<Rightarrow> serve_error option) \<Rightarrow> 'r \<Rightarrow> nat option \<times> bool \<times> serve_error list" where
  "ServeHTTP h Upgrade serve request =
     (if \<not> h_Server h \<or> \<not> h_Bus h then (Some 503, False, [])
      else if (case h_Authenticate h of None \<Rightarrow> False | Some auth \<Rightarrow> auth request \<noteq> None) then (Some 401, False, [])
      else case Upgrade request of
             Some e \<Rightarrow> (None, False, handler_report h (SessionFailed e) [])
           | None \<Rightarrow>
               (None, True,
                case serve request of
                  Some e \<Rightarrow> if \<not> errors_Is e Canceled then handler_report h e [] else []
                | None \<Rightarrow> []))"

section \<open>Sessions\<close>

text \<open>A goroutine \<^verbatim>\<open>pump\<close>: the id of the client, the subscription, the stream it has opened, and the
  result with which it has left its loop and not yet run its deferred function.\<close>

record pump =
  pu_id :: u64
  pu_sub :: u64
  pu_reliable :: "nat option"
  pu_exit :: "stream_error option option"

text \<open>The state of a session with the bus and the library; \<open>se_opened\<close> records the subscriptions
  the session has made.\<close>

record ('b, 'x) session_state =
  se_control :: nat
  se_subscriptions :: "(u64 \<times> u64) list"
  se_acks :: "(u64 \<times> u64) list"
  se_bus :: 'b
  se_lib :: 'x
  se_reports :: "stream_error list"
  se_pumps :: "pump list"
  se_opened :: "u64 list"

text \<open>What a session is given: the handler, the bus, the library, and the text of an error.\<close>

record ('r, 'w, 'b, 'x) serving =
  sv_handler :: "'r handler"
  sv_bus :: "('w, 'b) stream_ops"
  sv_lib :: "'x wt_lib"
  sv_text :: "stream_error \<Rightarrow> string"

definition writeControl ::
    "('r, 'w, 'b, 'x) serving \<Rightarrow> message \<Rightarrow> ('b, 'x) session_state \<Rightarrow> stream_error option \<times> ('b, 'x) session_state" where
  "writeControl V m s =
     (case WriteMessage (wt_Write (sv_lib V) (se_control s)) m (se_lib s) of (e, x) \<Rightarrow> (e, s\<lparr>se_lib := x\<rparr>))"

definition session_subscribe ::
    "('r, 'w, 'b, 'x) serving \<Rightarrow> ctx \<Rightarrow> clock \<Rightarrow> message \<Rightarrow> ('b, 'x) session_state \<Rightarrow> stream_error option \<times> ('b, 'x) session_state" where
  "session_subscribe V ctx clk m s =
     (if m_subscription m = 0 then (Some (IOErr ''subscription id is required''), s)
      else if gm_get (se_subscriptions s) (m_subscription m) \<noteq> None then (Some (IOErr ''subscription id already exists''), s)
      else let options = (if o_topic (m_options m) = [] then (m_options m)\<lparr>o_topic := fr_topic (m_frame m)\<rparr> else m_options m)
           in case so_Subscribe (sv_bus V) ctx clk options (se_bus s) of
                (Inl e, b) \<Rightarrow> (Some e, s\<lparr>se_bus := b\<rparr>)
              | (Inr bid, b) \<Rightarrow>
                  writeControl V (zero_message\<lparr>m_kind := MessageAck, m_id := m_id m, m_subscription := m_subscription m\<rparr>)
                    (s\<lparr>se_bus := b, se_subscriptions := gm_put (se_subscriptions s) (m_subscription m) bid,
                       se_acks := gm_put (se_acks s) (m_subscription m) (o_since (m_options m)),
                       se_pumps := se_pumps s @ [\<lparr>pu_id = m_subscription m, pu_sub = bid, pu_reliable = None, pu_exit = None\<rparr>],
                       se_opened := se_opened s @ [bid]\<rparr>))"

definition session_unsubscribe ::
    "('r, 'w, 'b, 'x) serving \<Rightarrow> u64 \<Rightarrow> ('b, 'x) session_state \<Rightarrow> stream_error option \<times> ('b, 'x) session_state" where
  "session_unsubscribe V sid s =
     (let s1 = s\<lparr>se_subscriptions := gm_del (se_subscriptions s) sid, se_acks := gm_del (se_acks s) sid\<rparr>
      in case gm_get (se_subscriptions s) sid of
           None \<Rightarrow> (Some (IOErr ''unknown subscription''), s1)
         | Some bid \<Rightarrow> (None, s1\<lparr>se_bus := so_CloseSub (sv_bus V) bid (se_bus s1)\<rparr>))"

text \<open>\<^verbatim>\<open>handleMessage\<close>; the result is \<^const>\<open>None\<close> when \<^verbatim>\<open>Publish\<close> does not return.\<close>

definition handleMessage ::
    "('r, 'w, 'b, 'x) serving \<Rightarrow> 'w \<Rightarrow> ctx \<Rightarrow> clock \<Rightarrow> message \<Rightarrow> bool \<Rightarrow> ('b, 'x) session_state
       \<Rightarrow> stream_error option option \<times> ('b, 'x) session_state" where
  "handleMessage V sch ctx clk m datagram s =
     (if m_kind m = MessageSubscribe then
        (if datagram then (Some (Some (IOErr ''subscribe requires the reliable control stream'')), s)
         else apfst Some (session_subscribe V ctx clk m s))
      else if m_kind m = MessageUnsubscribe then
        (if datagram then (Some (Some (IOErr ''unsubscribe requires the reliable control stream'')), s)
         else apfst Some (session_unsubscribe V (m_subscription m) s))
      else if m_kind m = MessagePublish then
        (let frm = (if datagram then (m_frame m)\<lparr>fr_reliability := Unreliable\<rparr> else m_frame m)
         in case so_Publish (sv_bus V) sch ctx clk frm (se_bus s) of
              (None, b) \<Rightarrow> (None, s\<lparr>se_bus := b\<rparr>)
            | (Some (sequence, Some e), b) \<Rightarrow> (Some (Some e), s\<lparr>se_bus := b\<rparr>)
            | (Some (sequence, None), b) \<Rightarrow>
                if \<not> datagram
                then apfst Some (writeControl V (zero_message\<lparr>m_kind := MessageAck, m_id := m_id m, m_ack := sequence\<rparr>) (s\<lparr>se_bus := b\<rparr>))
                else (Some None, s\<lparr>se_bus := b\<rparr>))
      else if m_kind m = MessageAck then
        (if datagram then (Some (Some (IOErr ''ack requires the reliable control stream'')), s)
         else (Some None,
               if gm_get (se_subscriptions s) (m_subscription m) \<noteq> None
               then s\<lparr>se_acks := gm_put (se_acks s) (m_subscription m) (m_ack m)\<rparr> else s))
      else if m_kind m = MessagePing then
        (let pong = zero_message\<lparr>m_kind := MessagePong, m_id := m_id m\<rparr>
         in if datagram
            then (case EncodeMessage pong of
                    Inl e \<Rightarrow> (Some (Some e), s)
                  | Inr d \<Rightarrow> (case wt_SendDatagram (sv_lib V) d (se_lib s) of (e, x) \<Rightarrow> (Some e, s\<lparr>se_lib := x\<rparr>)))
            else apfst Some (writeControl V pong s))
      else (Some (Some (IOErr (''unsupported message kind '' @ nat_digits (unat (m_kind m))))), s))"

text \<open>A turn of the loop of \<^verbatim>\<open>readControl\<close>: the error with which the loop ends, if it does.\<close>

definition control_turn ::
    "('r, 'w, 'b, 'x) serving \<Rightarrow> 'w \<Rightarrow> ctx \<Rightarrow> clock \<Rightarrow> message \<Rightarrow> ('b, 'x) session_state
       \<Rightarrow> stream_error option option \<times> ('b, 'x) session_state" where
  "control_turn V sch ctx clk m s =
     (case handleMessage V sch ctx clk m False s of
        (Some (Some e), s1) \<Rightarrow> apfst Some (writeControl V (zero_message\<lparr>m_kind := MessageError, m_id := m_id m, m_error := sv_text V e\<rparr>) s1)
      | r \<Rightarrow> r)"

text \<open>Every message takes at least one byte of the stream.\<close>

lemma ReadUvarint_loop_shorter: "ReadUvarint_loop n x bs = Inr (y, r) \<Longrightarrow> length r < length bs"
  by (induct n x bs rule: ReadUvarint_loop.induct) (auto simp: ReadByte_def Let_def less_Suc_eq split: if_splits list.splits sum.splits)

lemma ReadMessage_shorter:
  assumes "ReadMessage r = (Inr m, r1)"
  shows "length (rd_data r1) < length (rd_data r)"
  using assms ReadUvarint_loop_shorter
  by (fastforce simp: ReadMessage_def ReadUvarint_def ReadFull_def split: sum.splits prod.splits if_splits)

text \<open>
  \<^verbatim>\<open>readControl\<close> on what the stream delivers; \<open>others n\<close> is what the other goroutines do to the
  session before the n-th message is handled. The result is \<^const>\<open>None\<close> when a call of \<^verbatim>\<open>Publish\<close>
  does not return.
\<close>

function readControl ::
    "('r, 'w, 'b, 'x) serving \<Rightarrow> (nat \<Rightarrow> 'w) \<Rightarrow> ctx \<Rightarrow> (nat \<Rightarrow> clock) \<Rightarrow> (nat \<Rightarrow> ('b, 'x) session_state \<Rightarrow> ('b, 'x) session_state)
       \<Rightarrow> nat \<Rightarrow> wire_reader \<Rightarrow> ('b, 'x) session_state \<Rightarrow> stream_error option \<times> ('b, 'x) session_state" where
  "readControl V sch ctx clk others n r s =
     (case ReadMessage r of
        (Inl e, r1) \<Rightarrow> (Some e, s)
      | (Inr m, r1) \<Rightarrow>
          (case control_turn V (sch n) ctx (clk n) m (others n s) of
             (None, s1) \<Rightarrow> (None, s1)
           | (Some (Some e), s1) \<Rightarrow> (Some e, s1)
           | (Some None, s1) \<Rightarrow> readControl V sch ctx clk others (Suc n) r1 s1))"
  by pat_completeness auto
termination
  by (relation "measure (\<lambda>(V, sch, ctx, clk, others, n, r, s). length (rd_data r))") (auto dest: ReadMessage_shorter [OF sym])

declare readControl.simps [simp del]

text \<open>A turn of \<^verbatim>\<open>readDatagrams\<close>: whether it returns, and the state. Nothing but the end of the
  session ends the loop.\<close>

definition datagram_turn ::
    "('r, 'w, 'b, 'x) serving \<Rightarrow> 'w \<Rightarrow> ctx \<Rightarrow> clock \<Rightarrow> byte list \<Rightarrow> ('b, 'x) session_state \<Rightarrow> bool \<times> ('b, 'x) session_state" where
  "datagram_turn V sch ctx clk data s =
     (if int (length data) > maximum (sv_handler V) then (True, s)
      else case DecodeMessage data of
             Inl e \<Rightarrow> (True, s)
           | Inr m \<Rightarrow>
               (case handleMessage V sch ctx clk m True s of
                  (None, s1) \<Rightarrow> (False, s1)
                | (Some None, s1) \<Rightarrow> (True, s1)
                | (Some (Some e), s1) \<Rightarrow> (True, s1\<lparr>se_reports := handler_report (sv_handler V) e (se_reports s1)\<rparr>)))"

text \<open>\<^verbatim>\<open>readDatagrams\<close> on the datagrams received before \<^verbatim>\<open>ReceiveDatagram\<close> fails with \<open>e\<close>.\<close>

fun readDatagrams ::
    "('r, 'w, 'b, 'x) serving \<Rightarrow> (nat \<Rightarrow> 'w) \<Rightarrow> ctx \<Rightarrow> (nat \<Rightarrow> clock) \<Rightarrow> (nat \<Rightarrow> ('b, 'x) session_state \<Rightarrow> ('b, 'x) session_state)
       \<Rightarrow> nat \<Rightarrow> byte list list \<Rightarrow> stream_error \<Rightarrow> ('b, 'x) session_state \<Rightarrow> stream_error option \<times> ('b, 'x) session_state" where
  "readDatagrams V sch ctx clk others n [] e s = (Some e, s)"
| "readDatagrams V sch ctx clk others n (data # ds) e s =
     (case datagram_turn V (sch n) ctx (clk n) data (others n s) of
        (False, s1) \<Rightarrow> (None, s1)
      | (True, s1) \<Rightarrow> readDatagrams V sch ctx clk others (Suc n) ds e s1)"

section \<open>Pumps\<close>

definition data_message :: "u64 \<Rightarrow> frame \<Rightarrow> message" where
  "data_message sid f = zero_message\<lparr>m_kind := MessageData, m_subscription := sid, m_frame := f\<rparr>"

definition open_message :: "u64 \<Rightarrow> message" where
  "open_message sid = zero_message\<lparr>m_kind := MessageStreamOpen, m_subscription := sid\<rparr>"

text \<open>The frame on the reliable stream, which is opened for the first one: the error with which
  the pump returns, if it does.\<close>

definition pump_reliable ::
    "'x wt_lib \<Rightarrow> ctx \<Rightarrow> clock \<Rightarrow> u64 \<Rightarrow> message \<Rightarrow> nat option \<times> 'x \<Rightarrow> stream_error option \<times> nat option \<times> 'x" where
  "pump_reliable lib ctx clk sid m =
     (\<lambda>(reliable, x).
        let send = (\<lambda>h x. case WriteMessage (wt_Write lib h) m x of
                            (Some e, x1) \<Rightarrow> (Some e, Some h, wt_CloseStream lib h x1)
                          | (None, x1) \<Rightarrow> (None, Some h, x1))
        in case reliable of
             Some h \<Rightarrow> send h x
           | None \<Rightarrow>
               (case wt_OpenUniStreamSync lib ctx clk x of
                  (Inl e, x1) \<Rightarrow> (Some e, None, x1)
                | (Inr h, x1) \<Rightarrow>
                    (case WriteMessage (wt_Write lib h) (open_message sid) x1 of
                       (Some e, x2) \<Rightarrow> (Some e, Some h, wt_CloseStream lib h x2)
                     | (None, x2) \<Rightarrow> send h x2)))"

text \<open>The work of \<^verbatim>\<open>pump\<close> for a frame.\<close>

definition pump_frame ::
    "'r handler \<Rightarrow> 'x wt_lib \<Rightarrow> ctx \<Rightarrow> clock \<Rightarrow> u64 \<Rightarrow> frame \<Rightarrow> nat option \<times> 'x \<Rightarrow> stream_error option \<times> nat option \<times> 'x" where
  "pump_frame h lib ctx clk sid f =
     (\<lambda>(reliable, x).
        let m = data_message sid f
        in if fr_reliability f = Unreliable
           then case EncodeMessage m of
                  Inl e \<Rightarrow> (Some e, reliable, x)
                | Inr d \<Rightarrow>
                    if int (length d) \<le> maximumDatagram h \<and> fst (wt_datagrams lib x) \<and> snd (wt_datagrams lib x)
                    then (case wt_SendDatagram lib d x of
                            (None, x1) \<Rightarrow> (None, reliable, x1)
                          | (Some e, x1) \<Rightarrow> pump_reliable lib ctx clk sid m (reliable, x1))
                    else pump_reliable lib ctx clk sid m (reliable, x)
           else pump_reliable lib ctx clk sid m (reliable, x))"

text \<open>The case of the \<^verbatim>\<open>select\<close> that a turn of \<^verbatim>\<open>pump\<close> takes, and the turn: the result with which it
  leaves the loop, if it does.\<close>

datatype pump_event = PumpDone go_error | PumpEnded | PumpFrame frame

definition close_reliable :: "'x wt_lib \<Rightarrow> nat option \<Rightarrow> 'x \<Rightarrow> 'x" where
  "close_reliable lib reliable x = (case reliable of None \<Rightarrow> x | Some h \<Rightarrow> wt_CloseStream lib h x)"

fun pump_turn ::
    "'r handler \<Rightarrow> 'x wt_lib \<Rightarrow> ctx \<Rightarrow> clock \<Rightarrow> u64 \<Rightarrow> pump_event \<Rightarrow> nat option \<times> 'x \<Rightarrow> stream_error option option \<times> nat option \<times> 'x" where
  "pump_turn h lib ctx clk sid (PumpDone e) (reliable, x) = (Some (Some (CtxErr e)), reliable, close_reliable lib reliable x)"
| "pump_turn h lib ctx clk sid PumpEnded (reliable, x) = (Some None, reliable, close_reliable lib reliable x)"
| "pump_turn h lib ctx clk sid (PumpFrame f) (reliable, x) =
     (case pump_frame h lib ctx clk sid f (reliable, x) of
        (Some e, y) \<Rightarrow> (Some (Some e), y)
      | (None, y) \<Rightarrow> (None, y))"

text \<open>The deferred function of \<^verbatim>\<open>pump\<close>, and what its goroutine does with the result.\<close>

definition pump_defer :: "('r, 'w, 'b, 'x) serving \<Rightarrow> u64 \<Rightarrow> u64 \<Rightarrow> stream_error option \<Rightarrow> ('b, 'x) session_state \<Rightarrow> ('b, 'x) session_state" where
  "pump_defer V sid bid r s =
     s\<lparr>se_subscriptions := gm_del (se_subscriptions s) sid, se_acks := gm_del (se_acks s) sid,
       se_bus := so_CloseSub (sv_bus V) bid (se_bus s),
       se_reports := (case r of
                        None \<Rightarrow> se_reports s
                      | Some e \<Rightarrow> if e \<noteq> CtxErr Canceled then handler_report (sv_handler V) e (se_reports s) else se_reports s)\<rparr>"

section \<open>The life of a session\<close>

definition closeSubscriptions ::
    "('r, 'w, 'b, 'x) serving \<Rightarrow> (u64 list \<Rightarrow> u64 list) \<Rightarrow> ('b, 'x) session_state \<Rightarrow> ('b, 'x) session_state" where
  "closeSubscriptions V ord s =
     s\<lparr>se_subscriptions := [], se_acks := [],
       se_bus := foldl (\<lambda>b bid. so_CloseSub (sv_bus V) bid b) (se_bus s) (ord (map snd (se_subscriptions s)))\<rparr>"

text \<open>
  A session that is served: the error of its context once that is cancelled, which readers
  run, the channel \<^verbatim>\<open>errCh\<close>, the error \<^verbatim>\<open>ServeSession\<close> has received from it, and its result.
\<close>

record ('b, 'x) session_sys =
  sy_state :: "('b, 'x) session_state"
  sy_cancelled :: "go_error option"
  sy_control :: bool
  sy_datagrams :: bool
  sy_errs :: "stream_error list"
  sy_stopped :: "stream_error option"
  sy_returned :: "serve_error option option"

definition session_ctx :: "ctx \<Rightarrow> ('b, 'x) session_sys \<Rightarrow> ctx" where
  "session_ctx parent y = (\<lambda>t. case sy_cancelled y of Some e \<Rightarrow> Some e | None \<Rightarrow> parent t)"

text \<open>\<^verbatim>\<open>ServeSession\<close> in three parts: up to the receive from \<^verbatim>\<open>errCh\<close>, with the answer of
  \<^verbatim>\<open>AcceptStream\<close>; the cancellation; and the end, when the readers have returned.\<close>

definition ServeSession_begin ::
    "('r, 'w, 'b, 'x) serving \<Rightarrow> stream_error + nat \<Rightarrow> 'b \<Rightarrow> 'x \<Rightarrow> serve_error + ('b, 'x) session_sys" where
  "ServeSession_begin V accept b x =
     (if \<not> h_Bus (sv_handler V) then Inl (SessionFailed (IOErr ''streambus webtransport: nil bus''))
      else case accept of
             Inl e \<Rightarrow> Inl (AcceptFailed e)
           | Inr control \<Rightarrow>
               Inr \<lparr>sy_state = \<lparr>se_control = control, se_subscriptions = [], se_acks = [], se_bus = b, se_lib = x, se_reports = [],
                                se_pumps = [], se_opened = []\<rparr>,
                    sy_cancelled = None, sy_control = True,
                    sy_datagrams = (fst (wt_datagrams (sv_lib V) x) \<and> snd (wt_datagrams (sv_lib V) x)),
                    sy_errs = [], sy_stopped = None, sy_returned = None\<rparr>)"

definition ServeSession_stop ::
    "('r, 'w, 'b, 'x) serving \<Rightarrow> ctx \<Rightarrow> time \<Rightarrow> stream_error \<Rightarrow> ('b, 'x) session_sys \<Rightarrow> ('b, 'x) session_sys" where
  "ServeSession_stop V parent now e y =
     y\<lparr>sy_stopped := Some e, sy_errs := tl (sy_errs y),
       sy_cancelled := Some (case parent now of Some c \<Rightarrow> c | None \<Rightarrow> Canceled),
       sy_state := (sy_state y)\<lparr>se_lib := wt_CloseWithError (sv_lib V) (se_lib (sy_state y))\<rparr>\<rparr>"

definition ServeSession_return ::
    "('r, 'w, 'b, 'x) serving \<Rightarrow> (u64 list \<Rightarrow> u64 list) \<Rightarrow> stream_error \<Rightarrow> ('b, 'x) session_sys \<Rightarrow> ('b, 'x) session_sys" where
  "ServeSession_return V ord e y =
     (let s = closeSubscriptions V ord (sy_state y); lib = sv_lib V
      in y\<lparr>sy_returned := Some (if e = CtxErr Canceled \<or> e = CtxErr DeadlineExceeded then None else Some (SessionFailed e)),
           sy_state := s\<lparr>se_lib := wt_CloseWithError lib (wt_CloseStream lib (se_control s) (se_lib s))\<rparr>\<rparr>)"

text \<open>A turn of the i-th pump, with the bus after the receive, and its end.\<close>

definition pump_at ::
    "('r, 'w, 'b, 'x) serving \<Rightarrow> ctx \<Rightarrow> clock \<Rightarrow> nat \<Rightarrow> pump_event \<Rightarrow> 'b \<Rightarrow> ('b, 'x) session_state \<Rightarrow> ('b, 'x) session_state" where
  "pump_at V ctx clk i ev b s =
     (let p = se_pumps s ! i
      in case pump_turn (sv_handler V) (sv_lib V) ctx clk (pu_id p) ev (pu_reliable p, se_lib s) of
           (r, reliable, x) \<Rightarrow>
             s\<lparr>se_bus := b, se_lib := x, se_pumps := (se_pumps s)[i := p\<lparr>pu_reliable := reliable, pu_exit := r\<rparr>]\<rparr>)"

definition pump_finish :: "('r, 'w, 'b, 'x) serving \<Rightarrow> nat \<Rightarrow> stream_error option \<Rightarrow> ('b, 'x) session_state \<Rightarrow> ('b, 'x) session_state" where
  "pump_finish V i r s =
     pump_defer V (pu_id (se_pumps s ! i)) (pu_sub (se_pumps s ! i)) r
       (s\<lparr>se_pumps := take i (se_pumps s) @ drop (Suc i) (se_pumps s)\<rparr>)"

text \<open>What may happen to a bus: the subscriptions stay, and none that is closed opens again.\<close>

definition bus_ext :: "('w, 'b) stream_view \<Rightarrow> 'b \<Rightarrow> 'b \<Rightarrow> bool" where
  "bus_ext W b b' \<longleftrightarrow>
     sw_inv W b' \<and> (\<forall>i. sw_issued W i b \<longrightarrow> sw_issued W i b' \<and> (sw_open W i b' \<longrightarrow> sw_open W i b))"

text \<open>
  The steps of a session: messages and datagrams of the client, the ends of the readers, the
  two later parts of \<^verbatim>\<open>ServeSession\<close>, the pumps, and what others do to the bus.
\<close>

inductive session_step ::
    "('r, 'w, 'b, 'x) serving \<Rightarrow> ('w, 'b) stream_view \<Rightarrow> ctx \<Rightarrow> (u64 list \<Rightarrow> u64 list) \<Rightarrow> ('b, 'x) session_sys \<Rightarrow> ('b, 'x) session_sys \<Rightarrow> bool"
  for V W parent ord where
  control: "sy_control y \<Longrightarrow> sw_schedule W sch \<Longrightarrow> sw_room W (se_bus (sy_state y)) \<Longrightarrow>
     control_turn V sch (session_ctx parent y) clk m (sy_state y) = (Some None, s) \<Longrightarrow>
     session_step V W parent ord y (y\<lparr>sy_state := s\<rparr>)"
| control_fail: "sy_control y \<Longrightarrow> sw_schedule W sch \<Longrightarrow> sw_room W (se_bus (sy_state y)) \<Longrightarrow>
     control_turn V sch (session_ctx parent y) clk m (sy_state y) = (Some (Some e), s) \<Longrightarrow>
     session_step V W parent ord y (y\<lparr>sy_state := s, sy_control := False, sy_errs := sy_errs y @ [e]\<rparr>)"
| control_end: "sy_control y \<Longrightarrow> session_step V W parent ord y (y\<lparr>sy_control := False, sy_errs := sy_errs y @ [e]\<rparr>)"
| datagram: "sy_datagrams y \<Longrightarrow> sw_schedule W sch \<Longrightarrow>
     datagram_turn V sch (session_ctx parent y) clk d (sy_state y) = (True, s) \<Longrightarrow>
     session_step V W parent ord y (y\<lparr>sy_state := s\<rparr>)"
| datagram_end: "sy_datagrams y \<Longrightarrow> session_step V W parent ord y (y\<lparr>sy_datagrams := False, sy_errs := sy_errs y @ [e]\<rparr>)"
| stop: "sy_stopped y = None \<Longrightarrow> sy_errs y = e # es \<Longrightarrow> session_step V W parent ord y (ServeSession_stop V parent now e y)"
| return: "sy_stopped y = Some e \<Longrightarrow> sy_returned y = None \<Longrightarrow> \<not> sy_control y \<Longrightarrow> \<not> sy_datagrams y \<Longrightarrow>
     session_step V W parent ord y (ServeSession_return V ord e y)"
| pump_recv: "i < length (se_pumps (sy_state y)) \<Longrightarrow> pu_exit (se_pumps (sy_state y) ! i) = None \<Longrightarrow>
     so_Recv (sv_bus V) (pu_sub (se_pumps (sy_state y) ! i)) (se_bus (sy_state y)) = Some (f, b) \<Longrightarrow>
     session_step V W parent ord y (y\<lparr>sy_state := pump_at V (session_ctx parent y) clk i (PumpFrame f) b (sy_state y)\<rparr>)"
| pump_ended: "i < length (se_pumps (sy_state y)) \<Longrightarrow> pu_exit (se_pumps (sy_state y) ! i) = None \<Longrightarrow>
     so_Ended (sv_bus V) (pu_sub (se_pumps (sy_state y) ! i)) (se_bus (sy_state y)) \<Longrightarrow>
     session_step V W parent ord y
       (y\<lparr>sy_state := pump_at V (session_ctx parent y) clk i PumpEnded (se_bus (sy_state y)) (sy_state y)\<rparr>)"
| pump_done: "i < length (se_pumps (sy_state y)) \<Longrightarrow> pu_exit (se_pumps (sy_state y) ! i) = None \<Longrightarrow>
     session_ctx parent y (clk 0) = Some e \<Longrightarrow>
     session_step V W parent ord y
       (y\<lparr>sy_state := pump_at V (session_ctx parent y) clk i (PumpDone e) (se_bus (sy_state y)) (sy_state y)\<rparr>)"
| pump_exit: "i < length (se_pumps (sy_state y)) \<Longrightarrow> pu_exit (se_pumps (sy_state y) ! i) = Some r \<Longrightarrow>
     session_step V W parent ord y (y\<lparr>sy_state := pump_finish V i r (sy_state y)\<rparr>)"
| others: "bus_ext W (se_bus (sy_state y)) b \<Longrightarrow> session_step V W parent ord y (y\<lparr>sy_state := (sy_state y)\<lparr>se_bus := b\<rparr>\<rparr>)"

inductive session_reach ::
    "('r, 'w, 'b, 'x) serving \<Rightarrow> ('w, 'b) stream_view \<Rightarrow> ctx \<Rightarrow> (u64 list \<Rightarrow> u64 list) \<Rightarrow> ('b, 'x) session_sys \<Rightarrow> bool"
  for V W parent ord where
  session_begin: "sw_inv W b \<Longrightarrow> ServeSession_begin V accept b x = Inr y \<Longrightarrow> session_reach V W parent ord y"
| session_next: "session_reach V W parent ord y \<Longrightarrow> session_step V W parent ord y y' \<Longrightarrow> session_reach V W parent ord y'"

section \<open>What a session relies on\<close>

text \<open>
  The contract of \<^verbatim>\<open>streambus.Bus\<close>: no operation opens a closed subscription, \<^verbatim>\<open>Subscribe\<close> returns a
  new one, and \<^verbatim>\<open>Close\<close> closes.
\<close>

locale stream_provider =
  fixes ops :: "('w, 'b) stream_ops" and W :: "('w, 'b) stream_view"
  assumes publish_law: "sw_schedule W sch \<Longrightarrow> sw_inv W b \<Longrightarrow> so_Publish ops sch ctx clk f b = (r, b') \<Longrightarrow> bus_ext W b b'"
    and recv_law: "sw_inv W b \<Longrightarrow> so_Recv ops i b = Some (f, b') \<Longrightarrow> bus_ext W b b'"
    and close_law: "sw_inv W b \<Longrightarrow> bus_ext W b (so_CloseSub ops i b) \<and> (sw_issued W i b \<longrightarrow> \<not> sw_open W i (so_CloseSub ops i b))"
    and subscribe_law: "sw_inv W b \<Longrightarrow> sw_room W b \<Longrightarrow> so_Subscribe ops ctx clk opts b = (q, b') \<Longrightarrow>
      bus_ext W b b' \<and> (\<forall>i. q = Inr i \<longrightarrow> \<not> sw_issued W i b \<and> sw_issued W i b')"

text \<open>The pumps as pairs of the two ids.\<close>

definition pump_ids :: "pump list \<Rightarrow> (u64 \<times> u64) list" where
  "pump_ids ps = map (\<lambda>p. (pu_id p, pu_sub p)) ps"

lemma pump_ids_simps [simp]:
  "pump_ids [] = []" "pump_ids (p # ps) = (pu_id p, pu_sub p) # pump_ids ps" "pump_ids (ps @ qs) = pump_ids ps @ pump_ids qs"
  by (simp_all add: pump_ids_def)

text \<open>
  The invariant of a session: the pumps have different subscriptions, all made by the session;
  a subscription of the session that is open has a pump; the two maps have the same keys,
  and an entry has its pump.
\<close>

definition state_inv :: "('w, 'b) stream_view \<Rightarrow> ('b, 'x) session_state \<Rightarrow> bool" where
  "state_inv W s \<longleftrightarrow>
     sw_inv W (se_bus s) \<and> distinct (map snd (pump_ids (se_pumps s))) \<and> snd ` set (pump_ids (se_pumps s)) \<subseteq> set (se_opened s) \<and>
     (\<forall>i \<in> set (se_opened s). sw_issued W i (se_bus s) \<and> (sw_open W i (se_bus s) \<longrightarrow> i \<in> snd ` set (pump_ids (se_pumps s)))) \<and>
     (\<forall>k. gm_get (se_acks s) k = None \<longleftrightarrow> gm_get (se_subscriptions s) k = None) \<and>
     (\<forall>k i. gm_get (se_subscriptions s) k = Some i \<longrightarrow> k \<noteq> 0 \<and> (k, i) \<in> set (pump_ids (se_pumps s)))"

definition session_inv :: "('w, 'b) stream_view \<Rightarrow> ('b, 'x) session_sys \<Rightarrow> bool" where
  "session_inv W y \<longleftrightarrow>
     state_inv W (sy_state y) \<and> (sy_stopped y \<noteq> None \<longrightarrow> sy_cancelled y \<noteq> None) \<and>
     (sy_returned y \<noteq> None \<longrightarrow> sy_stopped y \<noteq> None \<and> \<not> sy_control y \<and> \<not> sy_datagrams y \<and> se_subscriptions (sy_state y) = [])"

lemma state_inv_frame:
  "state_inv W (s\<lparr>se_lib := x\<rparr>) = state_inv W s" "state_inv W (s\<lparr>se_reports := rs\<rparr>) = state_inv W s"
  by (simp_all add: state_inv_def)

lemma state_inv_bus:
  assumes "state_inv W s" and "bus_ext W (se_bus s) b"
  shows "state_inv W (s\<lparr>se_bus := b\<rparr>)"
  using assms by (auto simp: state_inv_def bus_ext_def)

lemma bus_ext_refl: "sw_inv W b \<Longrightarrow> bus_ext W b b"
  by (simp add: bus_ext_def)

lemma bus_ext_trans: "bus_ext W b c \<Longrightarrow> bus_ext W c d \<Longrightarrow> bus_ext W b d"
  by (simp add: bus_ext_def)

lemma state_inv_write: "state_inv W s \<Longrightarrow> state_inv W (snd (writeControl V m s))"
  by (simp add: writeControl_def state_inv_frame split: prod.split)

lemma state_inv_forget:
  assumes "state_inv W s"
  shows "state_inv W (s\<lparr>se_subscriptions := gm_del (se_subscriptions s) k, se_acks := gm_del (se_acks s) k\<rparr>)"
  using assms by (simp add: state_inv_def)

text \<open>A subscription that is new to the bus gets its entries and its pump.\<close>

lemma state_inv_new:
  assumes s: "state_inv W s" and b: "bus_ext W (se_bus s) b" and i: "\<not> sw_issued W i (se_bus s)" "sw_issued W i b" and k: "k \<noteq> 0"
  shows "state_inv W (s\<lparr>se_bus := b, se_subscriptions := gm_put (se_subscriptions s) k i, se_acks := gm_put (se_acks s) k a,
    se_pumps := se_pumps s @ [\<lparr>pu_id = k, pu_sub = i, pu_reliable = rel, pu_exit = r\<rparr>], se_opened := se_opened s @ [i]\<rparr>)"
proof -
  have "i \<notin> set (se_opened s)" using s i by (auto simp: state_inv_def)
  then show ?thesis using state_inv_bus [OF s b] i k by (auto simp: state_inv_def)
qed

text \<open>A pump that ends closes its subscription and deletes the entries of its id.\<close>

lemma state_inv_finish:
  assumes s: "state_inv W s" and j: "j < length (se_pumps s)" and b: "bus_ext W (se_bus s) b"
    and c: "\<not> sw_open W (pu_sub (se_pumps s ! j)) b"
  shows "state_inv W (s\<lparr>se_subscriptions := gm_del (se_subscriptions s) (pu_id (se_pumps s ! j)),
    se_acks := gm_del (se_acks s) (pu_id (se_pumps s ! j)), se_bus := b, se_pumps := take j (se_pumps s) @ drop (Suc j) (se_pumps s)\<rparr>)"
proof -
  obtain us p vs where e: "se_pumps s = us @ p # vs" "length us = j" using id_take_nth_drop [OF j] j by (metis length_take min.absorb4)
  have n: "se_pumps s ! j = p" "take j (se_pumps s) @ drop (Suc j) (se_pumps s) = us @ vs" using e by (auto simp: nth_append)
  have c': "\<not> sw_open W (pu_sub p) b" using c n by simp
  have o: "sw_issued W i b \<and> (sw_open W i b \<longrightarrow> i \<in> snd ` set (pump_ids (us @ vs)))" if "i \<in> set (se_opened s)" for i
    using that s b c' unfolding state_inv_def bus_ext_def e(1) by auto
  have m: "k \<noteq> 0 \<and> (k, i) \<in> set (pump_ids (us @ vs))" if "gm_get (gm_del (se_subscriptions s) (pu_id p)) k = Some i" for k i
    using that s unfolding state_inv_def e(1) by (auto split: if_splits)
  show ?thesis using s b o m unfolding state_inv_def bus_ext_def n by (auto simp: e(1))
qed

text \<open>The pumps leave the two ids of a pump alone.\<close>

lemma pump_ids_update: "pu_id p = pu_id (ps ! i) \<Longrightarrow> pu_sub p = pu_sub (ps ! i) \<Longrightarrow> pump_ids (ps[i := p]) = pump_ids ps"
  unfolding pump_ids_def by (metis (no_types, lifting) list_update_id map_update)

lemma pump_at_ids: "pump_ids (se_pumps (pump_at V ctx clk i ev b s)) = pump_ids (se_pumps s)"
  by (simp add: pump_at_def Let_def pump_ids_update split: prod.split)

lemma pump_at_frame:
  "se_subscriptions (pump_at V ctx clk i ev b s) = se_subscriptions s" "se_acks (pump_at V ctx clk i ev b s) = se_acks s"
  "se_bus (pump_at V ctx clk i ev b s) = b" "se_opened (pump_at V ctx clk i ev b s) = se_opened s"
  by (simp_all add: pump_at_def Let_def split: prod.split)

lemma state_inv_pump_at:
  assumes "state_inv W s" and "bus_ext W (se_bus s) b"
  shows "state_inv W (pump_at V ctx clk i ev b s)"
  using state_inv_bus [OF assms] by (simp add: state_inv_def pump_at_ids pump_at_frame)

context stream_provider
begin

lemma close_all: "sw_inv W b \<Longrightarrow> bus_ext W b (foldl (\<lambda>b i. so_CloseSub ops i b) b is)"
proof (induct "is" arbitrary: b)
  case (Cons i "is")
  then have c: "bus_ext W b (so_CloseSub ops i b)" using close_law by blast
  then have "bus_ext W (so_CloseSub ops i b) (foldl (\<lambda>b i. so_CloseSub ops i b) (so_CloseSub ops i b) is)"
    using Cons.hyps by (simp add: bus_ext_def)
  with c show ?case using bus_ext_trans by simp
qed (simp add: bus_ext_refl)

lemma subscribe_keeps:
  assumes V: "sv_bus V = ops" and s: "state_inv W s" and room: "sw_room W (se_bus s)"
  shows "state_inv W (snd (session_subscribe V ctx clk m s))"
proof (cases "m_subscription m = 0 \<or> gm_get (se_subscriptions s) (m_subscription m) \<noteq> None")
  case True
  then show ?thesis using s by (auto simp: session_subscribe_def)
next
  case False
  have i: "sw_inv W (se_bus s)" using s by (simp add: state_inv_def)
  define opts where "opts = (if o_topic (m_options m) = [] then (m_options m)\<lparr>o_topic := fr_topic (m_frame m)\<rparr> else m_options m)"
  obtain r b where r: "so_Subscribe ops ctx clk opts (se_bus s) = (r, b)" by (cases "so_Subscribe ops ctx clk opts (se_bus s)")
  note l = subscribe_law [OF i room r]
  show ?thesis
  proof (cases r)
    case (Inl e)
    then have "session_subscribe V ctx clk m s = (Some e, s\<lparr>se_bus := b\<rparr>)"
      using False r by (simp add: session_subscribe_def V Let_def opts_def)
    then show ?thesis using state_inv_bus [OF s] l by simp
  next
    case (Inr j)
    then have l: "bus_ext W (se_bus s) b" "\<not> sw_issued W j (se_bus s)" "sw_issued W j b" using l by simp_all
    have "m_subscription m \<noteq> 0" using False by simp
    note state_inv_write [OF state_inv_new [OF s l this]]
    then show ?thesis using False r Inr by (simp add: session_subscribe_def V Let_def opts_def)
  qed
qed

lemma unsubscribe_keeps:
  assumes V: "sv_bus V = ops" and s: "state_inv W s"
  shows "state_inv W (snd (session_unsubscribe V k s))"
proof -
  let ?s = "s\<lparr>se_subscriptions := gm_del (se_subscriptions s) k, se_acks := gm_del (se_acks s) k\<rparr>"
  have f: "state_inv W ?s" by (rule state_inv_forget [OF s])
  then have "bus_ext W (se_bus ?s) (so_CloseSub ops i (se_bus ?s))" for i using close_law by (simp add: state_inv_def)
  note b = state_inv_bus [OF f this]
  show ?thesis
  proof (cases "gm_get (se_subscriptions s) k")
    case None
    then show ?thesis using f by (simp add: session_unsubscribe_def)
  next
    case (Some i)
    then show ?thesis using b [of i] by (simp add: session_unsubscribe_def V)
  qed
qed

lemma publish_keeps:
  assumes s: "state_inv W s" and sch: "sw_schedule W sch" and q: "so_Publish ops sch ctx clk f (se_bus s) = (r, b)"
  shows "state_inv W (s\<lparr>se_bus := b\<rparr>)"
proof -
  have "sw_inv W (se_bus s)" using s by (simp add: state_inv_def)
  then show ?thesis by (rule state_inv_bus [OF s publish_law [OF sch _ q]])
qed

lemma ack_keeps:
  assumes "state_inv W s" and "gm_get (se_subscriptions s) k \<noteq> None"
  shows "state_inv W (s\<lparr>se_acks := gm_put (se_acks s) k a\<rparr>)"
  using assms unfolding state_inv_def by simp

lemma handle_keeps:
  assumes V: "sv_bus V = ops" and s: "state_inv W s" and sch: "sw_schedule W sch" and room: "datagram \<or> sw_room W (se_bus s)"
  shows "state_inv W (snd (handleMessage V sch ctx clk m datagram s))"
proof -
  consider "m_kind m = MessageSubscribe" | "m_kind m = MessageUnsubscribe" | "m_kind m = MessagePublish" | "m_kind m = MessageAck"
    | "m_kind m = MessagePing"
    | "m_kind m \<notin> {MessageSubscribe, MessageUnsubscribe, MessagePublish, MessageAck, MessagePing}" by blast
  then show ?thesis
  proof cases
    case 1
    then show ?thesis using s room subscribe_keeps [OF V s] by (cases datagram) (simp_all add: handleMessage_def)
  next
    case 2
    then show ?thesis using s unsubscribe_keeps [OF V s] by (cases datagram) (simp_all add: handleMessage_def)
  next
    case 3
    define frm where "frm = (if datagram then (m_frame m)\<lparr>fr_reliability := Unreliable\<rparr> else m_frame m)"
    obtain q b where q: "so_Publish ops sch ctx clk frm (se_bus s) = (q, b)" by (cases "so_Publish ops sch ctx clk frm (se_bus s)")
    have b: "state_inv W (s\<lparr>se_bus := b\<rparr>)" by (rule publish_keeps [OF s sch q])
    note w = state_inv_write [OF b]
    from 3 q show ?thesis
      by (auto simp: handleMessage_def Let_def V frm_def [symmetric] b w split: option.split)
  next
    case 4
    then show ?thesis using s ack_keeps [OF s] by (simp add: handleMessage_def)
  next
    case 5
    then show ?thesis using s state_inv_write [OF s]
      by (auto simp: handleMessage_def Let_def state_inv_frame split: sum.split prod.split)
  next
    case 6
    then show ?thesis using s by (simp add: handleMessage_def)
  qed
qed

end

text \<open>What the two parts of the end of \<^verbatim>\<open>ServeSession\<close> and a pump leave alone.\<close>

lemma pump_finish_frame:
  "se_opened (pump_finish V i r s) = se_opened s"
  "se_pumps (pump_finish V i r s) = take i (se_pumps s) @ drop (Suc i) (se_pumps s)"
  by (simp_all add: pump_finish_def pump_defer_def)

context stream_provider
begin

lemma control_keeps:
  assumes V: "sv_bus V = ops" and s: "state_inv W s" and sch: "sw_schedule W sch" and room: "sw_room W (se_bus s)"
  shows "state_inv W (snd (control_turn V sch ctx clk m s))"
proof -
  obtain r s1 where h: "handleMessage V sch ctx clk m False s = (r, s1)" by (cases "handleMessage V sch ctx clk m False s")
  have "state_inv W s1" using handle_keeps [OF V s sch, of False ctx clk m] room h by simp
  then show ?thesis using state_inv_write by (auto simp: control_turn_def h split: option.split)
qed

lemma datagram_keeps:
  assumes V: "sv_bus V = ops" and s: "state_inv W s" and sch: "sw_schedule W sch"
  shows "state_inv W (snd (datagram_turn V sch ctx clk d s))"
proof (cases "DecodeMessage d")
  case (Inr m)
  obtain r s1 where h: "handleMessage V sch ctx clk m True s = (r, s1)" by (cases "handleMessage V sch ctx clk m True s")
  have "state_inv W s1" using handle_keeps [OF V s sch, of True ctx clk m] h by simp
  then show ?thesis using s by (auto simp: datagram_turn_def Inr h state_inv_frame split: option.split)
qed (simp add: datagram_turn_def s)

lemma finish_keeps:
  assumes V: "sv_bus V = ops" and s: "state_inv W s" and i: "i < length (se_pumps s)"
  shows "state_inv W (pump_finish V i r s)"
proof -
  let ?b = "so_CloseSub ops (pu_sub (se_pumps s ! i)) (se_bus s)"
  have b: "sw_inv W (se_bus s)" using s by (simp add: state_inv_def)
  have "pu_sub (se_pumps s ! i) \<in> snd ` set (pump_ids (se_pumps s))" using nth_mem [OF i] by (force simp: pump_ids_def)
  then have "sw_issued W (pu_sub (se_pumps s ! i)) (se_bus s)" using s by (auto simp: state_inv_def)
  then have "bus_ext W (se_bus s) ?b" "\<not> sw_open W (pu_sub (se_pumps s ! i)) ?b" using close_law [OF b] by blast+
  note f = state_inv_finish [OF s i this]
  show ?thesis using f unfolding pump_finish_def pump_defer_def V state_inv_def by simp
qed

lemma return_keeps:
  assumes V: "sv_bus V = ops" and s: "state_inv W s"
  shows "state_inv W (closeSubscriptions V ord s)"
proof -
  have "sw_inv W (se_bus s)" using s by (simp add: state_inv_def)
  note b = state_inv_bus [OF s close_all [OF this]]
  show ?thesis using b [of "ord (map snd (se_subscriptions s))"] unfolding closeSubscriptions_def V state_inv_def by simp
qed

lemma step_keeps:
  assumes V: "sv_bus V = ops" and y: "session_inv W y" and st: "session_step V W parent ord y y'"
  shows "session_inv W y'"
proof -
  have s: "state_inv W (sy_state y)" using y by (simp add: session_inv_def)
  then have b: "sw_inv W (se_bus (sy_state y))" by (simp add: state_inv_def)
  show ?thesis using st
  proof cases
    case (control sch clk m s')
    then show ?thesis using y control_keeps [OF V s control(3,4), of "session_ctx parent y" clk m] by (simp add: session_inv_def)
  next
    case (control_fail sch clk m e s')
    then show ?thesis using y control_keeps [OF V s control_fail(3,4), of "session_ctx parent y" clk m] by (simp add: session_inv_def)
  next
    case (control_end e)
    then show ?thesis using y by (simp add: session_inv_def)
  next
    case (datagram sch clk d s')
    then show ?thesis using y datagram_keeps [OF V s datagram(3), of "session_ctx parent y" clk d] by (simp add: session_inv_def)
  next
    case (datagram_end e)
    then show ?thesis using y by (simp add: session_inv_def)
  next
    case (stop e es now)
    then show ?thesis using y by (simp add: session_inv_def ServeSession_stop_def state_inv_frame)
  next
    case (return e)
    then show ?thesis using y return_keeps [OF V s, of ord]
      by (simp add: session_inv_def ServeSession_return_def Let_def state_inv_frame closeSubscriptions_def)
  next
    case (pump_recv i f b' clk)
    have "bus_ext W (se_bus (sy_state y)) b'" using recv_law [OF b] pump_recv(4) V by simp
    then show ?thesis using y state_inv_pump_at [OF s] pump_recv(1) by (simp add: session_inv_def pump_at_frame)
  next
    case (pump_ended i clk)
    then show ?thesis using y state_inv_pump_at [OF s bus_ext_refl [OF b]] by (simp add: session_inv_def pump_at_frame)
  next
    case (pump_done i clk e)
    then show ?thesis using y state_inv_pump_at [OF s bus_ext_refl [OF b]] by (simp add: session_inv_def pump_at_frame)
  next
    case (pump_exit i r)
    have "se_subscriptions (sy_state y) = [] \<Longrightarrow> se_subscriptions (pump_finish V i r (sy_state y)) = []"
      by (simp add: pump_finish_def pump_defer_def)
    then show ?thesis using y finish_keeps [OF V s pump_exit(2)] pump_exit(1) by (simp add: session_inv_def)
  next
    case (others b')
    then show ?thesis using y state_inv_bus [OF s others(2)] by (simp add: session_inv_def)
  qed
qed

lemma reach_inv:
  assumes V: "sv_bus V = ops" and "session_reach V W parent ord y"
  shows "session_inv W y"
  using assms(2)
proof induct
  case (session_begin b accept x y)
  then show ?case
    by (auto simp: ServeSession_begin_def session_inv_def state_inv_def split: if_splits sum.splits)
next
  case (session_next y y')
  then show ?case using step_keeps [OF V] by blast
qed

end

section \<open>The end of a session\<close>

abbreviation session_steps where
  "session_steps V W parent ord \<equiv> (session_step V W parent ord)\<^sup>*\<^sup>*"

text \<open>A pump leaves when the context is cancelled.\<close>

lemma pump_leaves:
  assumes c: "sy_cancelled y = Some e" and p: "se_pumps (sy_state y) = p # ps"
  shows "\<exists>s. session_steps V W parent ord y (y\<lparr>sy_state := s\<rparr>) \<and> se_pumps s = ps \<and> se_opened s = se_opened (sy_state y)"
proof -
  have exit: "\<exists>s'. session_steps V W parent ord (y\<lparr>sy_state := s\<rparr>) (y\<lparr>sy_state := s'\<rparr>) \<and> se_pumps s' = ps \<and> se_opened s' = se_opened s"
    if "se_pumps s = q # ps" "pu_exit q = Some r" for s q r
  proof (intro exI conjI)
    have "session_step V W parent ord (y\<lparr>sy_state := s\<rparr>) ((y\<lparr>sy_state := s\<rparr>)\<lparr>sy_state := pump_finish V 0 r (sy_state (y\<lparr>sy_state := s\<rparr>))\<rparr>)"
      using that by (intro session_step.pump_exit) simp_all
    then show "session_steps V W parent ord (y\<lparr>sy_state := s\<rparr>) (y\<lparr>sy_state := pump_finish V 0 r s\<rparr>)" by (simp add: r_into_rtranclp)
  qed (simp_all add: pump_finish_frame that)
  show ?thesis
  proof (cases "pu_exit p")
    case (Some r)
    then show ?thesis using exit [OF p] by simp
  next
    case None
    let ?s = "pump_at V (session_ctx parent y) (\<lambda>_. 0) 0 (PumpDone e) (se_bus (sy_state y)) (sy_state y)"
    have "session_step V W parent ord y (y\<lparr>sy_state := ?s\<rparr>)"
      using p None c by (intro session_step.pump_done) (simp_all add: session_ctx_def)
    moreover have "\<exists>q r. se_pumps ?s = q # ps \<and> pu_exit q = Some r" by (simp add: pump_at_def p)
    ultimately show ?thesis using exit [of ?s] by (metis converse_rtranclp_into_rtranclp pump_at_frame(4))
  qed
qed

lemma pumps_leave:
  "sy_cancelled y = Some e \<Longrightarrow>
     \<exists>s. session_steps V W parent ord y (y\<lparr>sy_state := s\<rparr>) \<and> se_pumps s = [] \<and> se_opened s = se_opened (sy_state y)"
proof (induct "se_pumps (sy_state y)" arbitrary: y)
  case Nil
  then show ?case by (intro exI [of _ "sy_state y"]) simp
next
  case (Cons p ps)
  obtain s where s: "session_steps V W parent ord y (y\<lparr>sy_state := s\<rparr>)" "se_pumps s = ps" "se_opened s = se_opened (sy_state y)"
    using pump_leaves [OF Cons.prems Cons.hyps(2) [symmetric]] by blast
  obtain s' where "session_steps V W parent ord (y\<lparr>sy_state := s\<rparr>) (y\<lparr>sy_state := s'\<rparr>)" "se_pumps s' = []" "se_opened s' = se_opened s"
    using Cons.hyps(1) [of "y\<lparr>sy_state := s\<rparr>"] s(2) Cons.prems by auto
  then show ?case using s by (metis rtranclp_trans)
qed

text \<open>The readers return, and then \<^verbatim>\<open>ServeSession\<close> does.\<close>

definition readers_only :: "('b, 'x) session_sys \<Rightarrow> ('b, 'x) session_sys \<Rightarrow> bool" where
  "readers_only y y' \<longleftrightarrow>
     sy_state y' = sy_state y \<and> sy_cancelled y' = sy_cancelled y \<and> sy_stopped y' = sy_stopped y \<and> sy_returned y' = sy_returned y"

lemma control_returns:
  "\<exists>y'. session_steps V W parent ord y y' \<and> readers_only y y' \<and> \<not> sy_control y'"
proof (cases "sy_control y")
  case True
  then have "session_step V W parent ord y (y\<lparr>sy_control := False, sy_errs := sy_errs y @ [EOF]\<rparr>)" by (rule session_step.control_end)
  then show ?thesis by (intro exI conjI) (erule r_into_rtranclp, simp_all add: readers_only_def)
qed (auto simp: readers_only_def)

lemma datagrams_return:
  "\<exists>y'. session_steps V W parent ord y y' \<and> readers_only y y' \<and> \<not> sy_datagrams y' \<and> sy_control y' = sy_control y"
proof (cases "sy_datagrams y")
  case True
  then have "session_step V W parent ord y (y\<lparr>sy_datagrams := False, sy_errs := sy_errs y @ [EOF]\<rparr>)" by (rule session_step.datagram_end)
  then show ?thesis by (intro exI conjI) (erule r_into_rtranclp, simp_all add: readers_only_def)
qed (auto simp: readers_only_def)

lemma session_returns:
  assumes "sy_stopped y = Some e" and "sy_cancelled y = Some c"
  shows "\<exists>y'. session_steps V W parent ord y y' \<and> sy_returned y' \<noteq> None \<and> sy_cancelled y' = Some c \<and>
    se_opened (sy_state y') = se_opened (sy_state y)"
proof -
  obtain y1 where 1: "session_steps V W parent ord y y1" "readers_only y y1" "\<not> sy_control y1" using control_returns by blast
  obtain y2 where 2: "session_steps V W parent ord y1 y2" "readers_only y1 y2" "\<not> sy_datagrams y2" "sy_control y2 = sy_control y1"
    using datagrams_return by blast
  have y2: "sy_stopped y2 = Some e" "sy_cancelled y2 = Some c" "sy_state y2 = sy_state y" "\<not> sy_control y2"
    using 1 2 assms by (simp_all add: readers_only_def)
  have s: "session_steps V W parent ord y y2" using 1 2 by (meson rtranclp_trans)
  show ?thesis
  proof (cases "sy_returned y2")
    case None
    have "session_step V W parent ord y2 (ServeSession_return V ord e y2)" by (rule session_step.return [OF y2(1) None y2(4) 2(3)])
    with s have "session_steps V W parent ord y (ServeSession_return V ord e y2)" by (rule rtranclp.rtrancl_into_rtrancl)
    then show ?thesis using y2
      by (intro exI [of _ "ServeSession_return V ord e y2"]) (simp add: ServeSession_return_def Let_def closeSubscriptions_def)
  next
    case (Some r)
    then show ?thesis using s y2 by (intro exI [of _ y2]) simp
  qed
qed

context stream_provider
begin

lemma steps_reach: "session_steps V W parent ord y y' \<Longrightarrow> session_reach V W parent ord y \<Longrightarrow> session_reach V W parent ord y'"
  by (induct rule: rtranclp_induct) (auto intro: session_next)

lemma closed_without_pumps:
  assumes "sv_bus V = ops" and "session_reach V W parent ord y" and "se_pumps (sy_state y) = []"
  shows "i \<in> set (se_opened (sy_state y)) \<Longrightarrow> \<not> sw_open W i (se_bus (sy_state y))"
  using reach_inv [OF assms(1,2)] assms(3) by (auto simp: session_inv_def state_inv_def)

lemma shuts_down:
  assumes V: "sv_bus V = ops" and y: "session_reach V W parent ord y" and "sy_stopped y \<noteq> None"
  shows "\<exists>y'. session_steps V W parent ord y y' \<and> sy_returned y' \<noteq> None \<and> se_pumps (sy_state y') = [] \<and>
    (\<forall>i \<in> set (se_opened (sy_state y)). \<not> sw_open W i (se_bus (sy_state y')))"
proof -
  obtain e c where ec: "sy_stopped y = Some e" "sy_cancelled y = Some c"
    using reach_inv [OF V y] assms(3) by (auto simp: session_inv_def)
  obtain y1 where 1: "session_steps V W parent ord y y1" "sy_returned y1 \<noteq> None" "sy_cancelled y1 = Some c"
    "se_opened (sy_state y1) = se_opened (sy_state y)" using session_returns [OF ec] by blast
  obtain s where 2: "session_steps V W parent ord y1 (y1\<lparr>sy_state := s\<rparr>)" "se_pumps s = []" "se_opened s = se_opened (sy_state y1)"
    using pumps_leave [OF 1(3)] by blast
  let ?y = "y1\<lparr>sy_state := s\<rparr>"
  have st: "session_steps V W parent ord y ?y" using 1(1) 2(1) by (rule rtranclp_trans)
  have "session_reach V W parent ord ?y" by (rule steps_reach [OF st y])
  from closed_without_pumps [OF V this] have "\<forall>i \<in> set (se_opened (sy_state y)). \<not> sw_open W i (se_bus (sy_state ?y))"
    using 1(4) 2(2,3) by simp
  with st 1(2) 2(2) show ?thesis by (intro exI [of _ ?y]) simp
qed

end

section \<open>The in-memory bus\<close>

text \<open>The receive from the channel of a subscription, which its goroutine \<^verbatim>\<open>run\<close> serves and, when it
  ends, closes.\<close>

definition sub_recv :: "u64 \<Rightarrow> stream_bus \<Rightarrow> (frame \<times> stream_bus) option" where
  "sub_recv i b =
     (case bs_heap b i of
        None \<Rightarrow> None
      | Some s \<Rightarrow>
          (case sb_runner s of
             RSend f \<Rightarrow> Some (f, b\<lparr>bs_heap := (bs_heap b)(i \<mapsto> s\<lparr>sb_delivered := sb_delivered s + 1, sb_runner := RDrain\<rparr>)\<rparr>)
           | _ \<Rightarrow> None))"

definition sub_ended :: "u64 \<Rightarrow> stream_bus \<Rightarrow> bool" where
  "sub_ended i b = (case bs_heap b i of None \<Rightarrow> False | Some s \<Rightarrow> sb_runner s = RStopped)"

definition inmemory_ops :: "((u64 list \<Rightarrow> u64 list) \<times> waits, stream_bus) stream_ops" where
  "inmemory_ops = \<lparr>so_Publish = (\<lambda>(visit, ws). stream_Publish visit ws), so_Subscribe = stream_Subscribe, so_CloseSub = bus_close_sub,
     so_Recv = sub_recv, so_Ended = sub_ended\<rparr>"

definition inmemory_view :: "((u64 list \<Rightarrow> u64 list) \<times> waits, stream_bus) stream_view" where
  "inmemory_view = \<lparr>sw_schedule = (\<lambda>(visit, ws). waits_ok ws), sw_inv = (\<lambda>b. \<forall>i. bs_heap b i \<noteq> None \<longrightarrow> i \<le> bs_subSeq b),
     sw_room = (\<lambda>b. bs_subSeq b \<noteq> - 1), sw_issued = (\<lambda>i b. bs_heap b i \<noteq> None),
     sw_open = (\<lambda>i b. \<exists>s. bs_heap b i = Some s \<and> \<not> sb_closed s)\<rparr>"

lemma heap_close_sub:
  "bs_heap (bus_close_sub i b) =
     (case bs_heap b i of None \<Rightarrow> bs_heap b | Some s \<Rightarrow> if sb_closed s then bs_heap b else (bs_heap b)(i \<mapsto> sub_Close s))"
  by (simp add: bus_close_sub_def bus_remove_def Let_def split: option.split)

lemma inmemory_same:
  assumes "sw_inv inmemory_view b" and "same_routes b b'"
  shows "bus_ext inmemory_view b b'"
proof -
  have r: "map_option sub_reg (bs_heap b' i) = map_option sub_reg (bs_heap b i)" for i
    using assms(2) by (simp add: same_routes_def reg_def fun_eq_iff)
  have n: "(\<exists>s. bs_heap b' i = Some s) \<longleftrightarrow> (\<exists>s. bs_heap b i = Some s)" for i
    using r [of i] by (cases "bs_heap b i"; cases "bs_heap b' i") auto
  have c: "(\<exists>s. bs_heap b' i = Some s \<and> \<not> sb_closed s) \<longleftrightarrow> (\<exists>s. bs_heap b i = Some s \<and> \<not> sb_closed s)" for i
    using r [of i] by (cases "bs_heap b i"; cases "bs_heap b' i") (auto simp: sub_reg_def)
  show ?thesis using assms by (simp add: bus_ext_def inmemory_view_def same_routes_def n c)
qed

lemma inmemory_close:
  assumes "sw_inv inmemory_view b"
  shows "bus_ext inmemory_view b (bus_close_sub i b) \<and> \<not> sw_open inmemory_view i (bus_close_sub i b)"
  using assms by (auto simp: bus_ext_def inmemory_view_def heap_close_sub bus_close_sub_frame sub_Close_def split: option.split if_splits)

lemma subscribe_cases:
  assumes "stream_Subscribe ctx clk opts b = (q, b')"
  obtains e where "q = Inl e" "b' = b"
  | e s where "q = Inl e" "bs_heap b' = (bs_heap b)(bs_subSeq b + 1 \<mapsto> s)" "bs_subSeq b' = bs_subSeq b + 1" "sb_closed s"
  | s where "q = Inr (bs_subSeq b + 1)" "bs_heap b' = (bs_heap b)(bs_subSeq b + 1 \<mapsto> s)" "bs_subSeq b' = bs_subSeq b + 1"
proof -
  let ?i = "bs_subSeq b + 1" and ?s = "newSubscription (bs_subSeq b + 1) (sub_defaults (bs_config b) opts)"
  let ?b = "b\<lparr>bs_subSeq := ?i, bs_heap := (bs_heap b)(?i \<mapsto> ?s)\<rparr>"
  have c: "bs_heap (bus_close_sub ?i ?b) = (bs_heap b)(?i \<mapsto> sub_Close ?s)" "bs_subSeq (bus_close_sub ?i ?b) = ?i" "sb_closed (sub_Close ?s)"
    by (simp_all add: heap_close_sub bus_close_sub_frame newSubscription_def sub_Close_def)
  have open': "\<exists>s. bs_heap b' = (bs_heap b)(?i \<mapsto> s) \<and> bs_subSeq b' = ?i \<and> (q = Inr ?i \<or> (\<exists>e. q = Inl e) \<and> sb_closed s)"
    if "\<not> (o_topic opts = [] \<or> o_buffer (sub_defaults (bs_config b) opts) < 1 \<or>
        o_buffer (sub_defaults (bs_config b) opts) > MaxBuffer (bs_config b) \<or> ctx (clk 0) \<noteq> None)"
  proof (cases "bs_closed b \<or> stream_replay (sub_defaults (bs_config b) opts) ?b = None")
    case True
    then have "\<exists>e. q = Inl e \<and> b' = bus_close_sub ?i ?b" using assms that by (auto simp: stream_Subscribe_def Let_def split: if_splits)
    then show ?thesis using c by (intro exI [of _ "sub_Close ?s"]) auto
  next
    case False
    then obtain fs where "stream_replay (sub_defaults (bs_config b) opts) ?b = Some fs" by blast
    then show ?thesis using False assms that
      by (intro exI [of _ "if fs = [] then ?s else preload fs ?s"]) (auto simp: stream_Subscribe_def Let_def split: if_splits)
  qed
  show thesis
  proof (cases "o_topic opts = [] \<or> o_buffer (sub_defaults (bs_config b) opts) < 1 \<or>
      o_buffer (sub_defaults (bs_config b) opts) > MaxBuffer (bs_config b) \<or> ctx (clk 0) \<noteq> None")
    case True
    then have "\<exists>e. q = Inl e \<and> b' = b" using assms by (auto simp: stream_Subscribe_def Let_def split: if_splits)
    then show thesis using that(1) by blast
  next
    case False
    from open' [OF this] show thesis using that(2,3) by blast
  qed
qed

lemma inmemory_subscribe:
  assumes v: "sw_inv inmemory_view b" and room: "sw_room inmemory_view b" and q: "stream_Subscribe ctx clk opts b = (q, b')"
  shows "bus_ext inmemory_view b b' \<and> (\<forall>i. q = Inr i \<longrightarrow> \<not> sw_issued inmemory_view i b \<and> sw_issued inmemory_view i b')"
proof -
  have l: "bs_subSeq b < bs_subSeq b + 1" using room by (simp add: inmemory_view_def word_less_succ)
  have h: "bs_heap b i = None \<or> i \<le> bs_subSeq b" for i using v by (auto simp: inmemory_view_def)
  have new: "bs_heap b (bs_subSeq b + 1) = None" using h [of "bs_subSeq b + 1"] l by auto
  have le: "i \<le> bs_subSeq b + 1" if "bs_heap b i \<noteq> None" for i using h [of i] that l by auto
  have ext: "bus_ext inmemory_view b b'" if "bs_heap b' = (bs_heap b)(bs_subSeq b + 1 \<mapsto> s)" "bs_subSeq b' = bs_subSeq b + 1" for s
    using that new le by (auto simp: bus_ext_def inmemory_view_def)
  show ?thesis using q
  proof (cases rule: subscribe_cases)
    case (1 e)
    then show ?thesis using bus_ext_refl [OF v] by simp
  next
    case (2 e s)
    then show ?thesis using ext by simp
  next
    case (3 s)
    then show ?thesis using ext new by (simp add: inmemory_view_def)
  qed
qed

lemma inmemory_recv:
  assumes "sw_inv inmemory_view b" and "sub_recv i b = Some (f, b')"
  shows "bus_ext inmemory_view b b'"
proof (rule inmemory_same [OF assms(1)])
  obtain s where s: "bs_heap b i = Some s"
    "b' = b\<lparr>bs_heap := (bs_heap b)(i \<mapsto> s\<lparr>sb_delivered := sb_delivered s + 1, sb_runner := RDrain\<rparr>)\<rparr>"
    using assms(2) by (auto simp: sub_recv_def split: option.splits runner.splits)
  have "sub_reg (s\<lparr>sb_delivered := sb_delivered s + 1, sb_runner := RDrain\<rparr>) = sub_reg s" by (simp add: sub_reg_def)
  from reg_upd [OF s(1) this] show "same_routes b b'" using s(2) by (simp add: same_routes_def)
qed

text \<open>The in-memory bus keeps the contract.\<close>

interpretation mem: stream_provider inmemory_ops inmemory_view
proof
  fix sch :: "(u64 list \<Rightarrow> u64 list) \<times> waits" and b b' ctx clk f r
  assume "sw_schedule inmemory_view sch" "sw_inv inmemory_view b" "so_Publish inmemory_ops sch ctx clk f b = (r, b')"
  then show "bus_ext inmemory_view b b'"
    using publish_same [of "snd sch" b "fst sch" ctx clk f]
    by (intro inmemory_same) (simp_all add: inmemory_ops_def inmemory_view_def case_prod_beta)
next
  fix b i f b'
  assume "sw_inv inmemory_view b" "so_Recv inmemory_ops i b = Some (f, b')"
  then show "bus_ext inmemory_view b b'" by (intro inmemory_recv) (simp_all add: inmemory_ops_def)
next
  fix b i
  assume "sw_inv inmemory_view b"
  then show "bus_ext inmemory_view b (so_CloseSub inmemory_ops i b) \<and>
      (sw_issued inmemory_view i b \<longrightarrow> \<not> sw_open inmemory_view i (so_CloseSub inmemory_ops i b))"
    using inmemory_close by (simp add: inmemory_ops_def)
next
  fix b ctx clk opts q b'
  assume "sw_inv inmemory_view b" "sw_room inmemory_view b" "so_Subscribe inmemory_ops ctx clk opts b = (q, b')"
  then show "bus_ext inmemory_view b b' \<and> (\<forall>i. q = Inr i \<longrightarrow> \<not> sw_issued inmemory_view i b \<and> sw_issued inmemory_view i b')"
    by (intro inmemory_subscribe) (simp_all add: inmemory_ops_def)
qed

section \<open>What a pump delivers\<close>

text \<open>The turns of \<^verbatim>\<open>pump\<close> for the frames it receives, each with its instants.\<close>

fun pump_frames ::
    "'r handler \<Rightarrow> 'x wt_lib \<Rightarrow> ctx \<Rightarrow> u64 \<Rightarrow> (clock \<times> frame) list \<Rightarrow> nat option \<times> 'x \<Rightarrow> stream_error option option \<times> nat option \<times> 'x" where
  "pump_frames h lib ctx sid [] y = (None, y)"
| "pump_frames h lib ctx sid ((clk, f) # fs) y =
     (case pump_turn h lib ctx clk sid (PumpFrame f) y of
        (Some r, y1) \<Rightarrow> (Some r, y1)
      | (None, y1) \<Rightarrow> pump_frames h lib ctx sid fs y1)"

text \<open>
  What the WebTransport library documents of a session that is up: a datagram it accepts is
  sent and one it refuses is not, a stream can be opened and is empty, and what is
  written to a stream is appended to it and sends no datagram.
\<close>

definition wt_ok :: "'x wt_lib \<Rightarrow> ctx \<Rightarrow> ('x \<Rightarrow> byte list list) \<Rightarrow> (nat \<Rightarrow> 'x \<Rightarrow> byte list) \<Rightarrow> bool" where
  "wt_ok lib ctx sent strm \<longleftrightarrow>
     (\<forall>d x e x1. wt_SendDatagram lib d x = (e, x1) \<longrightarrow>
        sent x1 = (if e = None then sent x @ [d] else sent x) \<and> (\<forall>h. strm h x1 = strm h x)) \<and>
     (\<forall>clk x. \<exists>h x1. wt_OpenUniStreamSync lib ctx clk x = (Inr h, x1) \<and> strm h x1 = [] \<and> sent x1 = sent x) \<and>
     (\<forall>h. writer_ok (wt_Write lib h) (strm h) \<and> (\<forall>d x. sent (snd (wt_Write lib h d x)) = sent x))"

definition framed :: "message \<Rightarrow> byte list" where
  "framed m = (case EncodeMessage m of Inl e \<Rightarrow> [] | Inr d \<Rightarrow> PutUvarint (of_nat (length d)) @ d)"

lemma read_framed:
  assumes "n < 2 ^ 63" and "\<forall>m \<in> set ms. wire_valid m \<and> (\<forall>d. EncodeMessage m = Inr d \<longrightarrow> int (length d) \<le> n)"
  shows "ReadMessages (length ms + 1) \<lparr>rd_data = concat (map framed ms), rd_max = n\<rparr> = map Inr ms @ [Inl EOF]"
  using assms(2)
proof (induct ms)
  case Nil
  show ?case by (simp add: ReadMessage_def ReadUvarint_def)
next
  case (Cons m ms)
  obtain d where d: "EncodeMessage m = Inr d" using decode_encode [of m] Cons.prems by auto
  have "ReadMessage \<lparr>rd_data = PutUvarint (of_nat (length d)) @ d @ concat (map framed ms), rd_max = n\<rparr> =
      (Inr m, \<lparr>rd_data = concat (map framed ms), rd_max = n\<rparr>)"
    using Cons.prems d assms(1) by (intro ReadMessage_ok) auto
  moreover have "framed m = PutUvarint (of_nat (length d)) @ d" by (simp add: framed_def d)
  ultimately show ?case using Cons by simp
qed

lemma writeAll_sent:
  assumes "\<And>d x. sent (snd (wr d x)) = sent x"
  shows "sent (snd (writeAll wr d x)) = sent x"
proof (induct "length d" arbitrary: d x rule: less_induct)
  case less
  obtain n e w1 where w: "wr d x = ((n, e), w1)" by (cases "wr d x") auto
  have s: "sent w1 = sent x" using assms [of d x] w by simp
  have r: "sent (snd (writeAll wr (drop (nat n) d) w1)) = sent w1" if "d \<noteq> []" "0 < n" using less that by simp
  show ?case using s r by (simp add: writeAll.simps [of wr d x] w split: option.split)
qed

lemma write_framed:
  assumes w: "wt_ok lib ctx sent strm" and m: "wire_valid m"
  shows "\<exists>x1. WriteMessage (wt_Write lib h) m x = (None, x1) \<and> strm h x1 = strm h x @ framed m \<and> sent x1 = sent x"
proof -
  obtain d where d: "EncodeMessage m = Inr d" using decode_encode [OF m] by auto
  have "writer_ok (wt_Write lib h) (strm h)" "\<And>d x. sent (snd (wt_Write lib h d x)) = sent x" using w by (simp_all add: wt_ok_def)
  note wr = WriteMessage_ok [OF this(1) d, of x] and st = writeAll_sent [of sent "wt_Write lib h", OF this(2)]
  obtain x1 where x1: "WriteMessage (wt_Write lib h) m x = (None, x1)" "strm h x1 = strm h x @ framed m" using wr d by (auto simp: framed_def)
  have "sent (snd (WriteMessage (wt_Write lib h) m x)) = sent x"
    using st by (auto simp: WriteMessage_def d split: prod.split option.split) (metis snd_conv)+
  with x1 show ?thesis by simp
qed


text \<open>The state of a pump that has sent the frames \<open>us\<close> as datagrams and \<open>vs\<close> on its stream.\<close>

definition pump_sent ::
    "('x \<Rightarrow> byte list list) \<Rightarrow> (nat \<Rightarrow> 'x \<Rightarrow> byte list) \<Rightarrow> u64 \<Rightarrow> byte list list \<Rightarrow> frame list \<Rightarrow> frame list \<Rightarrow> nat option \<times> 'x \<Rightarrow> bool" where
  "pump_sent sent strm sid before us vs y \<longleftrightarrow>
     (\<exists>ds. sent (snd y) = before @ ds \<and> map Inr ds = map (\<lambda>f. EncodeMessage (data_message sid f)) us) \<and>
     (case fst y of
        None \<Rightarrow> vs = []
      | Some h \<Rightarrow> strm h (snd y) = concat (map framed (open_message sid # map (data_message sid) vs)))"

lemma open_message_valid: "wire_valid (open_message sid)"
  by (simp add: wire_valid_def open_message_def zero_message_def zero_frame_def zero_options_def wire_time_def time_IsZero_def)

lemma pump_reliable_sends:
  assumes w: "wt_ok lib ctx sent strm" and v: "wire_valid (data_message sid f)" and y: "pump_sent sent strm sid before us vs y"
  shows "\<exists>y1. pump_reliable lib ctx clk sid (data_message sid f) y = (None, y1) \<and> pump_sent sent strm sid before us (vs @ [f]) y1"
proof -
  obtain rel x where x: "y = (rel, x)" by (cases y)
  show ?thesis
  proof (cases rel)
    case (Some h)
    obtain x1 where "WriteMessage (wt_Write lib h) (data_message sid f) x = (None, x1)"
      "strm h x1 = strm h x @ framed (data_message sid f)" "sent x1 = sent x" using write_framed [OF w v] by blast
    then show ?thesis using y by (intro exI [of _ "(Some h, x1)"]) (simp add: pump_reliable_def x Some pump_sent_def)
  next
    case None
    obtain h x1 where o: "wt_OpenUniStreamSync lib ctx clk x = (Inr h, x1)" "strm h x1 = []" "sent x1 = sent x"
      using w unfolding wt_ok_def by blast
    obtain x2 where 2: "WriteMessage (wt_Write lib h) (open_message sid) x1 = (None, x2)"
      "strm h x2 = strm h x1 @ framed (open_message sid)" "sent x2 = sent x1" using write_framed [OF w open_message_valid] by blast
    obtain x3 where "WriteMessage (wt_Write lib h) (data_message sid f) x2 = (None, x3)"
      "strm h x3 = strm h x2 @ framed (data_message sid f)" "sent x3 = sent x2" using write_framed [OF w v] by blast
    then show ?thesis using y o 2 by (intro exI [of _ "(Some h, x3)"]) (simp add: pump_reliable_def x None pump_sent_def)
  qed
qed

definition datagram_fits :: "'r handler \<Rightarrow> u64 \<Rightarrow> frame \<Rightarrow> bool" where
  "datagram_fits h sid f \<longleftrightarrow>
     fr_reliability f = Unreliable \<and> (\<exists>d. EncodeMessage (data_message sid f) = Inr d \<and> int (length d) \<le> maximumDatagram h)"

lemma pump_frame_sends:
  assumes w: "wt_ok lib ctx sent strm" and v: "wire_valid (data_message sid f)" and y: "pump_sent sent strm sid before us vs y"
  shows "\<exists>y1. pump_frame h lib ctx clk sid f y = (None, y1) \<and>
    (pump_sent sent strm sid before us (vs @ [f]) y1 \<or> datagram_fits h sid f \<and> pump_sent sent strm sid before (us @ [f]) vs y1)"
proof -
  obtain rel x where x: "y = (rel, x)" by (cases y)
  obtain d where d: "EncodeMessage (data_message sid f) = Inr d" using decode_encode [OF v] by auto
  let ?go = "fr_reliability f = Unreliable \<and> int (length d) \<le> maximumDatagram h \<and> fst (wt_datagrams lib x) \<and> snd (wt_datagrams lib x)"
  obtain e x1 where s: "wt_SendDatagram lib d x = (e, x1)" by (cases "wt_SendDatagram lib d x")
  then have l: "sent x1 = (if e = None then sent x @ [d] else sent x)" "strm g x1 = strm g x" for g
    using w unfolding wt_ok_def by blast+
  show ?thesis
  proof (cases "?go \<and> e = None")
    case True
    then have "pump_frame h lib ctx clk sid f y = (None, rel, x1)" by (simp add: pump_frame_def x d s Let_def)
    moreover have "datagram_fits h sid f" using True d by (simp add: datagram_fits_def)
    moreover have "pump_sent sent strm sid before (us @ [f]) vs (rel, x1)" using y True l d
      by (auto simp: pump_sent_def x split: option.splits)
    ultimately show ?thesis by blast
  next
    case False
    let ?x = "if ?go then x1 else x"
    have "pump_frame h lib ctx clk sid f y = pump_reliable lib ctx clk sid (data_message sid f) (rel, ?x)"
      using False by (cases e) (auto simp: pump_frame_def x d s Let_def)
    moreover have "pump_sent sent strm sid before us vs (rel, ?x)" using y False l
      by (auto simp: pump_sent_def x split: option.splits)
    ultimately show ?thesis using pump_reliable_sends [OF w v] by metis
  qed
qed

lemma pump_frames_sends:
  assumes w: "wt_ok lib ctx sent strm"
  shows "\<forall>f \<in> set fs. wire_valid (data_message sid (snd f)) \<Longrightarrow> pump_sent sent strm sid before us vs y \<Longrightarrow>
    \<exists>y1 us1 vs1. pump_frames h lib ctx sid fs y = (None, y1) \<and> map snd fs \<in> shuffles us1 vs1 \<and> (\<forall>f \<in> set us1. datagram_fits h sid f) \<and>
      pump_sent sent strm sid before (us @ us1) (vs @ vs1) y1"
proof (induct fs arbitrary: y us vs)
  case Nil
  then show ?case by (intro exI [of _ y] exI [of _ "[]"]) simp
next
  case (Cons cf fs)
  obtain clk f where cf: "cf = (clk, f)" by (cases cf)
  have v: "wire_valid (data_message sid f)" using Cons.prems(1) cf by simp
  obtain y1 where y1: "pump_frame h lib ctx clk sid f y = (None, y1)"
    "pump_sent sent strm sid before us (vs @ [f]) y1 \<or> datagram_fits h sid f \<and> pump_sent sent strm sid before (us @ [f]) vs y1"
    using pump_frame_sends [OF w v Cons.prems(2)] by blast
  have r: "pump_frames h lib ctx sid ((clk, f) # fs) y = pump_frames h lib ctx sid fs y1"
    using y1(1) by (cases y) simp
  have v': "\<forall>f \<in> set fs. wire_valid (data_message sid (snd f))" using Cons.prems(1) by simp
  from y1(2) show ?case
  proof
    assume "pump_sent sent strm sid before us (vs @ [f]) y1"
    from Cons.hyps [OF v' this] obtain y2 us1 vs1 where 2: "pump_frames h lib ctx sid fs y1 = (None, y2)" "map snd fs \<in> shuffles us1 vs1"
      "\<forall>f \<in> set us1. datagram_fits h sid f" "pump_sent sent strm sid before (us @ us1) ((vs @ [f]) @ vs1) y2" by blast
    then show ?thesis
      by - (rule exI [of _ y2], rule exI [of _ us1], rule exI [of _ "f # vs1"], simp del: pump_frames.simps add: r Cons_in_shuffles_iff cf)
  next
    assume "datagram_fits h sid f \<and> pump_sent sent strm sid before (us @ [f]) vs y1"
    then have d: "datagram_fits h sid f" and "pump_sent sent strm sid before (us @ [f]) vs y1" by simp_all
    from Cons.hyps [OF v' this(2)] obtain y2 us1 vs1 where 2: "pump_frames h lib ctx sid fs y1 = (None, y2)" "map snd fs \<in> shuffles us1 vs1"
      "\<forall>f \<in> set us1. datagram_fits h sid f" "pump_sent sent strm sid before ((us @ [f]) @ us1) (vs @ vs1) y2" by blast
    then show ?thesis using d
      by - (rule exI [of _ y2], rule exI [of _ "f # us1"], rule exI [of _ vs1], simp del: pump_frames.simps add: r Cons_in_shuffles_iff cf)
  qed
qed

section \<open>Examples\<close>

text \<open>A library with both sides supporting datagrams that keeps what is sent and written.\<close>

definition demo_wt :: "(byte list list \<times> byte list) wt_lib" where
  "demo_wt = \<lparr>wt_datagrams = (\<lambda>x. (True, True)), wt_SendDatagram = (\<lambda>d x. (None, fst x @ [d], snd x)),
     wt_OpenUniStreamSync = (\<lambda>ctx clk x. (Inr 1, fst x, [])), wt_Write = (\<lambda>h d x. ((int (length d), None), fst x, snd x @ d)),
     wt_CloseStream = (\<lambda>h x. x), wt_CloseWithError = (\<lambda>x. x)\<rparr>"

lemma demo_wt_ok: "wt_ok demo_wt ctx fst (\<lambda>h. snd)"
proof -
  have "writer_ok (wt_Write demo_wt h) snd" for h
    unfolding writer_ok_def
  proof (intro allI impI)
    fix d :: "byte list" and w :: "byte list list \<times> byte list"
    assume "d \<noteq> []"
    then show "\<exists>n w1. wt_Write demo_wt h d w = ((int n, None), w1) \<and> 0 < n \<and> n \<le> length d \<and> snd w1 = snd w @ take n d"
      by (intro exI [of _ "length d"] exI [of _ "(fst w, snd w @ d)"]) (simp add: demo_wt_def)
  qed
  then show ?thesis by (auto simp: wt_ok_def) (auto simp: demo_wt_def)
qed

definition demo_handler :: "unit handler" where
  "demo_handler = \<lparr>h_Server = True, h_Bus = True, h_Authenticate = None, MaxMessageBytes = 0, MaxDatagramBytes = 0, h_OnError = True\<rparr>"

definition demo_serving where
  "demo_serving = \<lparr>sv_handler = demo_handler, sv_bus = inmemory_ops, sv_lib = demo_wt, sv_text = (\<lambda>_. [])\<rparr>"

lemma demo_serving_simps [simp]:
  "sv_bus demo_serving = inmemory_ops" "sv_lib demo_serving = demo_wt" "sv_handler demo_serving = demo_handler"
  by (simp_all add: demo_serving_def)

text \<open>The client subscribes under the id 7, unsubscribes, and subscribes under 7 again.\<close>

definition demo_join :: "string \<Rightarrow> message" where
  "demo_join t = zero_message\<lparr>m_kind := MessageSubscribe, m_subscription := 7, m_options := zero_options\<lparr>o_topic := t\<rparr>\<rparr>"

definition demo_leave :: message where
  "demo_leave = zero_message\<lparr>m_kind := MessageUnsubscribe, m_subscription := 7\<rparr>"

lemma ack_valid: "wire_valid (zero_message\<lparr>m_kind := MessageAck, m_id := i, m_subscription := j\<rparr>)"
  by (simp add: wire_valid_def zero_message_def zero_frame_def zero_options_def wire_time_def time_IsZero_def)

text \<open>A subscription as a step, up to what is written.\<close>

lemma join_step:
  assumes y: "sy_control y" "gm_get (se_subscriptions (sy_state y)) 7 = None" "bs_subSeq (se_bus (sy_state y)) \<noteq> - 1"
    and b: "stream_Subscribe (session_ctx parent y) clk (zero_options\<lparr>o_topic := t\<rparr>) (se_bus (sy_state y)) = (Inr i, b)" "t \<noteq> []"
  shows "\<exists>x. session_step demo_serving inmemory_view parent ord y
    (y\<lparr>sy_state := (sy_state y)\<lparr>se_bus := b, se_subscriptions := gm_put (se_subscriptions (sy_state y)) 7 i,
       se_acks := gm_put (se_acks (sy_state y)) 7 0,
       se_pumps := se_pumps (sy_state y) @ [\<lparr>pu_id = 7, pu_sub = i, pu_reliable = None, pu_exit = None\<rparr>],
       se_opened := se_opened (sy_state y) @ [i], se_lib := x\<rparr>\<rparr>)"
proof -
  obtain x1 where x1: "WriteMessage (wt_Write demo_wt (se_control (sy_state y)))
      (zero_message\<lparr>m_kind := MessageAck, m_id := 0, m_subscription := 7\<rparr>) (se_lib (sy_state y)) = (None, x1)"
    using write_framed [OF demo_wt_ok ack_valid] by blast
  have z: "o_topic zero_options = []" "o_since zero_options = 0" "m_id zero_message = 0" by (simp_all add: zero_options_def zero_message_def)
  have s: "sw_schedule inmemory_view (\<lambda>ids. ids, \<lambda>_. [])" "sw_room inmemory_view (se_bus (sy_state y))"
    using y(3) by (simp_all add: inmemory_view_def waits_ok_def)
  show ?thesis
    by (rule exI [of _ x1], rule session_step.control [OF y(1) s, where m = "demo_join t" and clk = clk])
      (use y b x1 z in \<open>simp add: control_turn_def handleMessage_def demo_join_def session_subscribe_def inmemory_ops_def writeControl_def\<close>)
qed

lemma demo_subscribe:
  assumes "bs_config b = normalized demo_cfg" and "\<not> bs_closed b" and "bs_replay b t = None" and "ctx (clk 0) = None" and "t \<noteq> []"
  shows "\<exists>s b'. stream_Subscribe ctx clk (zero_options\<lparr>o_topic := t\<rparr>) b = (Inr (bs_subSeq b + 1), b') \<and>
    bs_heap b' = (bs_heap b)(bs_subSeq b + 1 \<mapsto> s) \<and> \<not> sb_closed s \<and> bs_subSeq b' = bs_subSeq b + 1 \<and> bs_config b' = bs_config b \<and>
    bs_closed b' = bs_closed b \<and> bs_replay b' = bs_replay b"
  using assms by (auto simp: stream_Subscribe_def sub_defaults_def Let_def stream_replay_def normalized_def demo_cfg_def
      zero_options_def newSubscription_def)

lemma leave_step:
  assumes "sy_control y" and "gm_get (se_subscriptions (sy_state y)) 7 = Some i" and "bs_subSeq (se_bus (sy_state y)) \<noteq> - 1"
  shows "session_step demo_serving inmemory_view parent ord y
    (y\<lparr>sy_state := (sy_state y)\<lparr>se_bus := bus_close_sub i (se_bus (sy_state y)),
       se_subscriptions := gm_del (se_subscriptions (sy_state y)) 7, se_acks := gm_del (se_acks (sy_state y)) 7\<rparr>\<rparr>)"
proof -
  have s: "sw_schedule inmemory_view (\<lambda>ids. ids, \<lambda>_. [])" "sw_room inmemory_view (se_bus (sy_state y))"
    using assms(3) by (simp_all add: inmemory_view_def waits_ok_def)
  show ?thesis
    by (rule session_step.control [OF assms(1) s, where m = demo_leave])
      (use assms(2) in \<open>simp add: control_turn_def handleMessage_def demo_leave_def session_unsubscribe_def inmemory_ops_def\<close>)
qed

text \<open>The first pump has left its loop when the second subscription is made.\<close>

abbreviation demo_reach where
  "demo_reach \<equiv> session_reach demo_serving inmemory_view background (\<lambda>xs. xs)"

abbreviation pump7 :: "u64 \<Rightarrow> stream_error option option \<Rightarrow> pump" where
  "pump7 i r \<equiv> \<lparr>pu_id = 7, pu_sub = i, pu_reliable = None, pu_exit = r\<rparr>"

text \<open>What the states of the example have in common: a session that is up, over a bus with the
  given number of subscriptions.\<close>

definition demo_up :: "u64 \<Rightarrow> (stream_bus, byte list list \<times> byte list) session_sys \<Rightarrow> bool" where
  "demo_up n y \<longleftrightarrow>
     demo_reach y \<and> sy_control y \<and> sy_cancelled y = None \<and> sy_stopped y = None \<and>
     bs_config (se_bus (sy_state y)) = normalized demo_cfg \<and> \<not> bs_closed (se_bus (sy_state y)) \<and>
     bs_replay (se_bus (sy_state y)) = Map.empty \<and> bs_subSeq (se_bus (sy_state y)) = n"

lemma demo_start: "\<exists>y. demo_up 0 y \<and> se_subscriptions (sy_state y) = [] \<and> se_pumps (sy_state y) = [] \<and> se_opened (sy_state y) = []"
proof -
  obtain y where y: "ServeSession_begin demo_serving (Inr 0) (NewStreamBus demo_cfg) ([], []) = Inr y"
    by (simp add: ServeSession_begin_def demo_handler_def)
  have "demo_reach y" by (rule session_begin [OF _ y]) (simp add: inmemory_view_def NewStreamBus_def)
  with y show ?thesis by (intro exI [of _ y]) (auto simp: demo_up_def ServeSession_begin_def demo_handler_def NewStreamBus_def)
qed

lemma demo_joins:
  assumes y: "demo_up n y" and n: "n \<noteq> - 1" and "gm_get (se_subscriptions (sy_state y)) 7 = None" "(t :: string) \<noteq> []"
  shows "\<exists>y' s. demo_up (n + 1) y' \<and> gm_get (se_subscriptions (sy_state y')) 7 = Some (n + 1) \<and>
    se_pumps (sy_state y') = se_pumps (sy_state y) @ [pump7 (n + 1) None] \<and> se_opened (sy_state y') = se_opened (sy_state y) @ [n + 1] \<and>
    bs_heap (se_bus (sy_state y')) = (bs_heap (se_bus (sy_state y)))(n + 1 \<mapsto> s) \<and> \<not> sb_closed s"
proof -
  note u = y [unfolded demo_up_def]
  have c: "session_ctx background y ((\<lambda>_. 0) 0) = None" using u by (simp add: session_ctx_def)
  obtain s b where b: "stream_Subscribe (session_ctx background y) (\<lambda>_. 0) (zero_options\<lparr>o_topic := t\<rparr>) (se_bus (sy_state y)) = (Inr (n + 1), b)"
    "bs_heap b = (bs_heap (se_bus (sy_state y)))(n + 1 \<mapsto> s)" "\<not> sb_closed s" "bs_subSeq b = n + 1"
    "bs_config b = normalized demo_cfg" "\<not> bs_closed b" "bs_replay b = Map.empty"
    using demo_subscribe [of "se_bus (sy_state y)" t "session_ctx background y" "\<lambda>_. 0"] u c assms(4) by auto
  have "bs_subSeq (se_bus (sy_state y)) \<noteq> - 1" using u n by simp
  from join_step [OF _ assms(3) this b(1) assms(4), of "\<lambda>xs. xs"] u obtain x where
    "session_step demo_serving inmemory_view background (\<lambda>xs. xs) y
      (y\<lparr>sy_state := (sy_state y)\<lparr>se_bus := b, se_subscriptions := gm_put (se_subscriptions (sy_state y)) 7 (n + 1),
         se_acks := gm_put (se_acks (sy_state y)) 7 0, se_pumps := se_pumps (sy_state y) @ [pump7 (n + 1) None],
         se_opened := se_opened (sy_state y) @ [n + 1], se_lib := x\<rparr>\<rparr>)" (is "session_step _ _ _ _ _ ?y") by auto
  then have "demo_reach ?y" using u session_next by blast
  then show ?thesis using u b by (intro exI [of _ ?y] exI [of _ s]) (simp add: demo_up_def)
qed

lemma demo_leaves:
  assumes y: "demo_up n y" and n: "n \<noteq> - 1" and i: "gm_get (se_subscriptions (sy_state y)) 7 = Some i"
  shows "\<exists>y'. demo_up n y' \<and> gm_get (se_subscriptions (sy_state y')) 7 = None \<and> se_pumps (sy_state y') = se_pumps (sy_state y) \<and>
    se_opened (sy_state y') = se_opened (sy_state y) \<and> bs_heap (se_bus (sy_state y')) = bs_heap (bus_close_sub i (se_bus (sy_state y)))"
proof -
  note u = y [unfolded demo_up_def]
  have "bs_subSeq (se_bus (sy_state y)) \<noteq> - 1" using u n by simp
  note st = leave_step [OF _ i this, of background "\<lambda>xs. xs"]
  let ?y = "y\<lparr>sy_state := (sy_state y)\<lparr>se_bus := bus_close_sub i (se_bus (sy_state y)),
       se_subscriptions := gm_del (se_subscriptions (sy_state y)) 7, se_acks := gm_del (se_acks (sy_state y)) 7\<rparr>\<rparr>"
  have "demo_reach ?y" using u st session_next by blast
  then show ?thesis using u by (intro exI [of _ ?y]) (simp add: demo_up_def bus_close_sub_frame)
qed

lemma demo_stopped: "\<exists>y. demo_reach y \<and> sy_stopped y \<noteq> None \<and> se_opened (sy_state y) = [1]"
proof -
  obtain y where y: "demo_up 0 y" "se_subscriptions (sy_state y) = []" "se_pumps (sy_state y) = []" "se_opened (sy_state y) = []"
    using demo_start by blast
  have none: "gm_get (se_subscriptions (sy_state y)) 7 = None" using y(2) by simp
  obtain y1 where y1: "demo_up 1 y1" "se_opened (sy_state y1) = [1]"
    using demo_joins [OF y(1) _ none, of "''a''"] y(4) by auto
  let ?y2 = "y1\<lparr>sy_control := False, sy_errs := sy_errs y1 @ [EOF]\<rparr>"
  have 2: "demo_reach ?y2" "sy_stopped ?y2 = None" "sy_errs ?y2 \<noteq> []"
    using y1(1) session_next [OF _ session_step.control_end] by (auto simp: demo_up_def)
  then obtain e es where "sy_errs ?y2 = e # es" by (meson list.exhaust)
  from session_next [OF 2(1) session_step.stop [OF 2(2) this, where now = 0]] show ?thesis
    using y1(2) by (intro exI [of _ "ServeSession_stop demo_serving background 0 e ?y2"]) (simp add: ServeSession_stop_def)
qed

lemma demo_reused:
  "\<exists>y s. demo_reach y \<and> se_pumps (sy_state y) = [pump7 1 (Some None), pump7 2 None] \<and> gm_get (se_subscriptions (sy_state y)) 7 = Some 2 \<and>
     bs_heap (se_bus (sy_state y)) 2 = Some s \<and> \<not> sb_closed s"
proof -
  obtain y where y: "demo_up 0 y" "se_subscriptions (sy_state y) = []" "se_pumps (sy_state y) = []" using demo_start by blast
  have none: "gm_get (se_subscriptions (sy_state y)) 7 = None" using y(2) by simp
  obtain y1 s1 where y1: "demo_up 1 y1" "gm_get (se_subscriptions (sy_state y1)) 7 = Some 1" "se_pumps (sy_state y1) = [pump7 1 None]"
    "bs_heap (se_bus (sy_state y1)) 1 = Some s1" using demo_joins [OF y(1) _ none, of "''a''"] y(3) by auto
  obtain y2 s2 where y2: "demo_up 1 y2" "gm_get (se_subscriptions (sy_state y2)) 7 = None" "se_pumps (sy_state y2) = [pump7 1 None]"
    "bs_heap (se_bus (sy_state y2)) 1 = Some s2"
    using demo_leaves [OF y1(1) _ y1(2)] y1(3,4) by (auto simp: heap_close_sub split: if_splits)
  obtain y3 s3 where y3: "demo_up 2 y3" "gm_get (se_subscriptions (sy_state y3)) 7 = Some 2" "se_pumps (sy_state y3) = [pump7 1 None, pump7 2 None]"
    "bs_heap (se_bus (sy_state y3)) 1 = Some s2" "bs_heap (se_bus (sy_state y3)) 2 = Some s3" "\<not> sb_closed s3"
    using demo_joins [OF y2(1) _ y2(2), of "''b''"] y2(3,4) by auto
  let ?b = "(se_bus (sy_state y3))\<lparr>bs_heap := (bs_heap (se_bus (sy_state y3)))(1 \<mapsto> s2\<lparr>sb_runner := RStopped\<rparr>)\<rparr>"
  let ?y4 = "y3\<lparr>sy_state := (sy_state y3)\<lparr>se_bus := ?b\<rparr>\<rparr>"
  have r3: "demo_reach y3" using y3(1) by (simp add: demo_up_def)
  have "sw_inv inmemory_view (se_bus (sy_state y3))"
    using mem.reach_inv [OF _ r3] by (simp add: session_inv_def state_inv_def)
  moreover have "same_routes (se_bus (sy_state y3)) ?b" using reg_upd [OF y3(4)] by (simp add: same_routes_def sub_reg_def)
  ultimately have "demo_reach ?y4" using session_next [OF r3 session_step.others] inmemory_same by blast
  moreover have "sub_ended 1 ?b" by (simp add: sub_ended_def)
  ultimately have "demo_reach (?y4\<lparr>sy_state := pump_at demo_serving (session_ctx background ?y4) (\<lambda>_. 0) 0 PumpEnded ?b (sy_state ?y4)\<rparr>)"
    (is "demo_reach ?y5") using session_next [OF _ session_step.pump_ended [where i = 0 and y = ?y4 and V = demo_serving]] y3(3)
    by (auto simp: inmemory_ops_def)
  moreover have "se_pumps (sy_state ?y5) = [pump7 1 (Some None), pump7 2 None]" using y3(3) by (simp add: pump_at_def)
  moreover have "gm_get (se_subscriptions (sy_state ?y5)) 7 = Some 2" "bs_heap (se_bus (sy_state ?y5)) 2 = Some s3"
    using y3 by (simp_all add: pump_at_frame)
  ultimately show ?thesis using y3(6) by blast
qed

lemma decode_all:
  assumes "map Inr ds = map (\<lambda>f. EncodeMessage (data_message sid f)) us" and "\<And>f. f \<in> set us \<Longrightarrow> wire_valid (data_message sid f)"
  shows "map DecodeMessage ds = map (\<lambda>f. Inr (data_message sid f)) us"
  using assms
proof (induct us arbitrary: ds)
  case (Cons f us)
  then obtain d ds' where d: "ds = d # ds'" "EncodeMessage (data_message sid f) = Inr d" "map Inr ds' = map (\<lambda>f. EncodeMessage (data_message sid f)) us"
    by (cases ds) auto
  have "DecodeMessage d = Inr (data_message sid f)" using decode_encode [of "data_message sid f"] Cons.prems(2) d(2) by auto
  then show ?case using Cons.hyps [OF d(3)] Cons.prems(2) d(1) by simp
qed simp

section \<open>Properties\<close>

text \<open>
  C19. A pump loses and reorders nothing. Over a session that is up, the pump of a
  subscription keeps running, and each frame it receives leaves exactly once: as a datagram,
  which happens only to frames that were published as unreliable and whose message
  fits, or on the reliable stream of the subscription. A client that decodes the
  datagrams and reads the stream gets the two subsequences back in order, the stream
  after the message that opens it and with nothing else in it.
\<close>

theorem pump_delivers:
  assumes "wt_ok lib ctx sent strm" and "4096 \<le> n" and "n < 2 ^ 63"
    and "\<forall>f \<in> set fs. wire_valid (data_message sid (snd f)) \<and> (\<forall>d. EncodeMessage (data_message sid (snd f)) = Inr d \<longrightarrow> int (length d) \<le> n)"
  shows "\<exists>y us vs ds. pump_frames h lib ctx sid fs (None, x) = (None, y) \<and> map snd fs \<in> shuffles us vs \<and>
    (\<forall>f \<in> set us. datagram_fits h sid f) \<and> sent (snd y) = sent x @ ds \<and> map DecodeMessage ds = map (\<lambda>f. Inr (data_message sid f)) us \<and>
    (case fst y of
       None \<Rightarrow> vs = []
     | Some g \<Rightarrow> ReadMessages (length vs + 2) (NewReader (strm g (snd y)) n) =
         map Inr (open_message sid # map (data_message sid) vs) @ [Inl EOF])"
proof -
  have "\<forall>f \<in> set fs. wire_valid (data_message sid (snd f))" using assms(4) by blast
  moreover have "pump_sent sent strm sid (sent x) [] [] (None, x)" by (simp add: pump_sent_def)
  ultimately obtain y us vs where y: "pump_frames h lib ctx sid fs (None, x) = (None, y)" "map snd fs \<in> shuffles us vs"
    "\<forall>f \<in> set us. datagram_fits h sid f" "pump_sent sent strm sid (sent x) us vs y"
    using pump_frames_sends [OF assms(1), of fs sid "sent x" "[]" "[]" "(None, x)" h] by auto
  have v: "wire_valid (data_message sid f) \<and> (\<forall>d. EncodeMessage (data_message sid f) = Inr d \<longrightarrow> int (length d) \<le> n)"
    if "f \<in> set us \<union> set vs" for f
  proof -
    have "f \<in> snd ` set fs" using that set_shuffles [OF y(2)] by simp
    then show ?thesis using assms(4) by blast
  qed
  obtain ds where ds: "sent (snd y) = sent x @ ds" "map Inr ds = map (\<lambda>f. EncodeMessage (data_message sid f)) us"
    using y(4) by (auto simp: pump_sent_def)
  have "map DecodeMessage ds = map (\<lambda>f. Inr (data_message sid f)) us" using decode_all [OF ds(2)] v by blast
  moreover have "ReadMessages (length vs + 2) (NewReader (strm g (snd y)) n) =
      map Inr (open_message sid # map (data_message sid) vs) @ [Inl EOF]" if "fst y = Some g" for g
  proof -
    have "int (length d) \<le> n" if "EncodeMessage (open_message sid) = Inr d" for d
      using length_encode [OF that] assms(2) by (simp add: open_message_def zero_message_def zero_frame_def wire_topic_def)
    then have "ReadMessages (length (open_message sid # map (data_message sid) vs) + 1)
        \<lparr>rd_data = concat (map framed (open_message sid # map (data_message sid) vs)), rd_max = n\<rparr> =
        map Inr (open_message sid # map (data_message sid) vs) @ [Inl EOF]"
      using open_message_valid v by (intro read_framed [OF assms(3)]) auto
    then show ?thesis using y(4) that assms(2) by (simp add: pump_sent_def NewReader_def)
  qed
  moreover have "vs = []" if "fst y = None" using y(4) that by (simp add: pump_sent_def)
  ultimately show ?thesis using y(1,2,3) ds(1)
    by (intro exI [of _ y] exI [of _ us] exI [of _ vs] exI [of _ ds]) (auto split: option.split)
qed

text \<open>Two frames for the example, one of each kind.\<close>

definition demo_frames :: "(clock \<times> frame) list" where
  "demo_frames = [(\<lambda>_. 0, zero_frame\<lparr>fr_topic := ''a''\<rparr>), (\<lambda>_. 0, zero_frame\<lparr>fr_topic := ''a'', fr_reliability := Unreliable\<rparr>)]"

theorem pump_delivers_witness:
  "\<exists>y us vs ds. pump_frames demo_handler demo_wt background 7 demo_frames (None, [], []) = (None, y) \<and>
     map snd demo_frames \<in> shuffles us vs \<and> fst (snd y) = ds \<and> map DecodeMessage ds = map (\<lambda>f. Inr (data_message 7 f)) us"
proof -
  have "wire_valid (data_message 7 (snd f)) \<and> (\<forall>d. EncodeMessage (data_message 7 (snd f)) = Inr d \<longrightarrow> int (length d) \<le> 4096)"
    if "f \<in> set demo_frames" for f
  proof
    show "wire_valid (data_message 7 (snd f))" using that
      by (auto simp: demo_frames_def wire_valid_def data_message_def zero_message_def zero_frame_def zero_options_def wire_time_def time_IsZero_def)
    show "\<forall>d. EncodeMessage (data_message 7 (snd f)) = Inr d \<longrightarrow> int (length d) \<le> 4096"
    proof (intro allI impI)
      fix d
      assume "EncodeMessage (data_message 7 (snd f)) = Inr d"
      from length_encode [OF this] that show "int (length d) \<le> 4096"
        by (auto simp: demo_frames_def data_message_def zero_message_def zero_frame_def wire_topic_def)
    qed
  qed
  then show ?thesis
    using pump_delivers [OF demo_wt_ok [of background], of 4096 demo_frames 7 demo_handler "([], [])"] by fastforce
qed

text \<open>
  C21. The subscriptions of a session are exactly as alive as its pumps. In every interleaving
  of the messages and datagrams of the client, the pumps, the end of the session and
  whatever others do to the bus: the two maps of a session have the same keys, an entry
  has a pump of its id and subscription, every subscription that the session has made and
  that is open on the bus is served by exactly one pump, and without pumps none is open.
\<close>

theorem session_pumps_exact:
  assumes "sv_bus V = inmemory_ops" and "session_reach V inmemory_view parent ord y"
  defines "s \<equiv> sy_state y"
  shows "(gm_get (se_acks s) k = None \<longleftrightarrow> gm_get (se_subscriptions s) k = None) \<and>
    (gm_get (se_subscriptions s) k = Some j \<longrightarrow> (\<exists>p \<in> set (se_pumps s). pu_id p = k \<and> pu_sub p = j)) \<and>
    distinct (map pu_sub (se_pumps s)) \<and>
    (i \<in> set (se_opened s) \<longrightarrow> (\<exists>b. bs_heap (se_bus s) i = Some b \<and> (sb_closed b \<or> i \<in> set (map pu_sub (se_pumps s)))))"
proof -
  have v: "state_inv inmemory_view s" using mem.reach_inv [OF assms(1,2)] by (simp add: session_inv_def s_def)
  have ids: "map snd (pump_ids (se_pumps s)) = map pu_sub (se_pumps s)" "snd ` set (pump_ids (se_pumps s)) = set (map pu_sub (se_pumps s))"
    "(k, j) \<in> set (pump_ids (se_pumps s)) \<longleftrightarrow> (\<exists>p \<in> set (se_pumps s). pu_id p = k \<and> pu_sub p = j)"
    by (auto simp: pump_ids_def image_iff)
  have "\<exists>b. bs_heap (se_bus s) i = Some b \<and> (sb_closed b \<or> i \<in> set (map pu_sub (se_pumps s)))" if "i \<in> set (se_opened s)"
  proof -
    have "sw_issued inmemory_view i (se_bus s)" "sw_open inmemory_view i (se_bus s) \<longrightarrow> i \<in> set (map pu_sub (se_pumps s))"
      using v that unfolding state_inv_def ids by blast+
    then show ?thesis by (auto simp: inmemory_view_def)
  qed
  then show ?thesis using v unfolding state_inv_def ids(1) ids(3) [symmetric] by blast
qed

theorem session_pumps_exact_witness:
  "\<exists>y b. demo_reach y \<and> distinct (map pu_sub (se_pumps (sy_state y))) \<and> gm_get (se_acks (sy_state y)) 7 \<noteq> None \<and>
     bs_heap (se_bus (sy_state y)) 2 = Some b \<and> \<not> sb_closed b"
proof -
  obtain y s where y: "demo_reach y" "gm_get (se_subscriptions (sy_state y)) 7 = Some 2" "bs_heap (se_bus (sy_state y)) 2 = Some s" "\<not> sb_closed s"
    using demo_reused by blast
  show ?thesis using session_pumps_exact [OF _ y(1), of 7] y by auto
qed



text \<open>
  C39. A client that reuses an id can lose control of its subscription. The deferred function of a
  pump deletes the entries of its id without looking whose they are. When the client
  has unsubscribed and subscribed again under the same id before the old pump has run it,
  the new subscription stays open and its pump running, but it can no longer be
  cancelled: \<^verbatim>\<open>unsubscribe\<close> answers that it is unknown.
\<close>

theorem session_reused_id:
  assumes "sv_bus V = inmemory_ops" and "session_reach V inmemory_view parent ord y"
    and "i < length (se_pumps (sy_state y))" and "pu_exit (se_pumps (sy_state y) ! i) = Some r"
    and "gm_get (se_subscriptions (sy_state y)) (pu_id (se_pumps (sy_state y) ! i)) = Some j" and "j \<noteq> pu_sub (se_pumps (sy_state y) ! i)"
    and "bs_heap (se_bus (sy_state y)) j = Some b"
  defines "s' \<equiv> pump_finish V i r (sy_state y)" and "k \<equiv> pu_id (se_pumps (sy_state y) ! i)"
  shows "session_reach V inmemory_view parent ord (y\<lparr>sy_state := s'\<rparr>) \<and> bs_heap (se_bus s') j = Some b \<and>
    (\<exists>p \<in> set (se_pumps s'). pu_id p = k \<and> pu_sub p = j) \<and>
    fst (session_unsubscribe V k s') = Some (IOErr ''unknown subscription'')"
proof -
  have "session_reach V inmemory_view parent ord (y\<lparr>sy_state := s'\<rparr>)"
    unfolding s'_def by (rule session_next [OF assms(2) session_step.pump_exit [OF assms(3,4)]])
  moreover have "bs_heap (se_bus s') j = Some b"
    using assms(6,7) by (simp add: s'_def pump_finish_def pump_defer_def assms(1) inmemory_ops_def heap_close_sub split: option.split)
  moreover have "\<exists>p \<in> set (se_pumps s'). pu_id p = k \<and> pu_sub p = j"
  proof -
    have "state_inv inmemory_view (sy_state y)" using mem.reach_inv [OF assms(1,2)] by (simp add: session_inv_def)
    then have "(k, j) \<in> set (pump_ids (se_pumps (sy_state y)))" using assms(5) unfolding state_inv_def k_def by blast
    then obtain p where p: "p \<in> set (se_pumps (sy_state y))" "pu_id p = k" "pu_sub p = j" by (auto simp: pump_ids_def)
    have "p \<noteq> se_pumps (sy_state y) ! i" using p(3) assms(6) by auto
    moreover have "set (se_pumps (sy_state y)) = insert (se_pumps (sy_state y) ! i) (set (se_pumps s'))"
      using arg_cong [OF id_take_nth_drop [OF assms(3)], of set] by (simp add: s'_def pump_finish_frame)
    ultimately show ?thesis using p by blast
  qed
  moreover have "fst (session_unsubscribe V k s') = Some (IOErr ''unknown subscription'')"
    by (simp add: session_unsubscribe_def s'_def k_def pump_finish_def pump_defer_def Let_def)
  ultimately show ?thesis by blast
qed

theorem session_reused_id_witness:
  "\<exists>y b. demo_reach y \<and> bs_heap (se_bus (sy_state y)) 2 = Some b \<and> \<not> sb_closed b \<and>
     (\<exists>p \<in> set (se_pumps (sy_state y)). pu_id p = 7 \<and> pu_sub p = 2) \<and>
     fst (session_unsubscribe demo_serving 7 (sy_state y)) = Some (IOErr ''unknown subscription'')"
proof -
  obtain y b where y: "demo_reach y" "se_pumps (sy_state y) = [pump7 1 (Some None), pump7 2 None]"
    "gm_get (se_subscriptions (sy_state y)) 7 = Some 2" "bs_heap (se_bus (sy_state y)) 2 = Some b" "\<not> sb_closed b" using demo_reused by blast
  let ?y = "y\<lparr>sy_state := pump_finish demo_serving 0 None (sy_state y)\<rparr>"
  have "demo_reach ?y \<and> bs_heap (se_bus (sy_state ?y)) 2 = Some b \<and> (\<exists>p \<in> set (se_pumps (sy_state ?y)). pu_id p = 7 \<and> pu_sub p = 2) \<and>
      fst (session_unsubscribe demo_serving 7 (sy_state ?y)) = Some (IOErr ''unknown subscription'')"
    using session_reused_id [OF _ y(1), of 0 None 2 b] y by simp
  with y(5) show ?thesis by blast
qed

end
