(* ===== verification/Bus_Registry.thy ===== *)
theory Bus_Registry
  imports Warp_Syncbus
begin

text \<open>
  What the networked buses (packages syncbus/mesh, syncbus/redis, syncbus/nats and
  syncbus/kafka) share: a map from keys to the channels of their subscribers, with
  the handle of the backend's subscription beside them, and the three things every
  one of them does with it. \<^verbatim>\<open>Subscribe\<close> makes a buffered channel and adds it to the
  entry of its key, a message is offered to each channel with a \<^verbatim>\<open>select\<close> that has a
  default, and \<^verbatim>\<open>Unsubscribe\<close> takes the channel out, closes it, and drops an entry
  without channels.

  A channel is its index in the list of channels ever made. Sending on a closed
  channel and closing a channel twice panic; \<open>subreg_wf\<close> is the invariant that
  excludes both.
\<close>

section \<open>Offering an event\<close>

text \<open>An event that has only its key.\<close>

definition key_event :: "key \<Rightarrow> event" where
  "key_event k = \<lparr>evKey = k, evRegion = '''', evVectorClock = None, evScope = ScopeLocal\<rparr>"

fun offer_all :: "'a \<Rightarrow> chan_id list \<Rightarrow> 'a chan list \<Rightarrow> nat \<times> bool \<times> 'a chan list" where
  "offer_all ev [] chs = (0, False, chs)"
| "offer_all ev (c # cs) chs =
     (case try_send ev (chs ! c) of
        SendPanic \<Rightarrow> (0, True, chs)
      | Full \<Rightarrow> offer_all ev cs chs
      | Sent ch \<Rightarrow> (case offer_all ev cs (chs[c := ch]) of (n, p, chs') \<Rightarrow> (Suc n, p, chs')))"

text \<open>What a list of channels is after the event was offered to some of them.\<close>

definition offered :: "'a \<Rightarrow> chan_id set \<Rightarrow> 'a chan list \<Rightarrow> 'a chan list" where
  "offered ev C chs =
     map (\<lambda>c. if c \<in> C \<and> chan_ready (chs ! c) then push ev (chs ! c) else chs ! c) [0..<length chs]"

lemma length_offered [simp]: "length (offered ev C chs) = length chs"
  by (simp add: offered_def)

lemma nth_offered [simp]:
  "c < length chs \<Longrightarrow>
   offered ev C chs ! c = (if c \<in> C \<and> chan_ready (chs ! c) then push ev (chs ! c) else chs ! c)"
  by (simp add: offered_def)

lemma offered_empty [simp]: "offered ev {} chs = chs"
  by (simp add: offered_def map_nth)

lemma chan_ready_push: "chan_ready (push x c) \<longleftrightarrow> Suc (length (buf c)) < cap c"
  by (simp add: chan_ready_def)

lemma offer_all_eq:
  assumes "distinct cs" and "\<forall>c \<in> set cs. c < length chs \<and> \<not> closed (chs ! c)"
  shows "offer_all ev cs chs = (length (filter (\<lambda>c. chan_ready (chs ! c)) cs), False, offered ev (set cs) chs)"
  using assms
proof (induction cs arbitrary: chs)
  case (Cons c cs)
  show ?case
  proof (cases "chan_ready (chs ! c)")
    case False
    moreover from this have "offered ev (set (c # cs)) chs = offered ev (set cs) chs"
      by (intro nth_equalityI) auto
    ultimately show ?thesis using Cons by (simp add: try_send_def)
  next
    case True
    let ?chs = "chs[c := push ev (chs ! c)]"
    have "offer_all ev cs ?chs = (length (filter (\<lambda>c. chan_ready (?chs ! c)) cs), False, offered ev (set cs) ?chs)"
      using Cons.prems by (intro Cons.IH) (auto simp: nth_list_update)
    moreover have "filter (\<lambda>c. chan_ready (?chs ! c)) cs = filter (\<lambda>c. chan_ready (chs ! c)) cs"
      using Cons.prems by (intro filter_cong) (auto simp: nth_list_update)
    moreover have "offered ev (set cs) ?chs = offered ev (set (c # cs)) chs"
      using Cons.prems True by (intro nth_equalityI) (auto simp: nth_list_update)
    ultimately show ?thesis using Cons.prems True by (simp add: try_send_def push_def)
  qed
qed simp

section \<open>The map of subscriptions\<close>

record 'h subreg =
  sr_subs :: "(key \<times> 'h \<times> chan_id list) list"
  sr_chans :: "event chan list"
  sr_panicked :: bool

definition reg_empty :: "'h subreg" where
  "reg_empty = \<lparr>sr_subs = [], sr_chans = [], sr_panicked = False\<rparr>"

definition reg_chans :: "key \<Rightarrow> 'h subreg \<Rightarrow> chan_id list" where
  "reg_chans k r = (case gm_get (sr_subs r) k of None \<Rightarrow> [] | Some (h, cs) \<Rightarrow> cs)"

text \<open>A subscription of a key: \<open>h\<close> is the handle of a new entry, an entry that exists keeps its own.\<close>

definition reg_add :: "nat \<Rightarrow> 'h \<Rightarrow> key \<Rightarrow> 'h subreg \<Rightarrow> chan_id \<times> 'h subreg" where
  "reg_add n h k r =
     (let c = length (sr_chans r);
          entry = (case gm_get (sr_subs r) k of None \<Rightarrow> (h, [c]) | Some (h', cs) \<Rightarrow> (h', cs @ [c]))
      in (c, r\<lparr>sr_chans := sr_chans r @ [make_chan n], sr_subs := gm_put (sr_subs r) k entry\<rparr>))"

definition reg_offer :: "event \<Rightarrow> chan_id list \<Rightarrow> 'h subreg \<Rightarrow> nat \<times> 'h subreg" where
  "reg_offer ev cs r =
     (case offer_all ev cs (sr_chans r) of
        (n, p, chs) \<Rightarrow> (n, r\<lparr>sr_chans := chs, sr_panicked := sr_panicked r \<or> p\<rparr>))"

definition reg_close :: "chan_id \<Rightarrow> 'h subreg \<Rightarrow> 'h subreg" where
  "reg_close c r = r\<lparr>sr_chans := (sr_chans r)[c := (sr_chans r ! c)\<lparr>closed := True\<rparr>],
     sr_panicked := sr_panicked r \<or> closed (sr_chans r ! c)\<rparr>"

text \<open>
  \<^verbatim>\<open>Unsubscribe\<close>: \<open>rm\<close> is how the bus takes the channel out of the slice. The handle is
  returned when the entry has no channel left and is dropped.
\<close>

definition reg_remove ::
    "(chan_id \<Rightarrow> chan_id list \<Rightarrow> chan_id list) \<Rightarrow> key \<Rightarrow> chan_id \<Rightarrow> 'h subreg \<Rightarrow> 'h option \<times> 'h subreg" where
  "reg_remove rm k c r =
     (case gm_get (sr_subs r) k of
        None \<Rightarrow> (None, r)
      | Some (h, cs) \<Rightarrow>
          (let (cs', r1) = (if c \<in> set cs then (rm c cs, reg_close c r) else (cs, r))
           in if cs' = [] then (Some h, r1\<lparr>sr_subs := gm_del (sr_subs r1) k\<rparr>)
              else (None, r1\<lparr>sr_subs := gm_put (sr_subs r1) k (h, cs')\<rparr>)))"

text \<open>A receive by the consumer of a channel.\<close>

definition reg_receive :: "chan_id \<Rightarrow> 'h subreg \<Rightarrow> event option \<times> 'h subreg" where
  "reg_receive c r =
     (case buf (sr_chans r ! c) of
        [] \<Rightarrow> (None, r)
      | e # es \<Rightarrow> (Some e, r\<lparr>sr_chans := (sr_chans r)[c := (sr_chans r ! c)\<lparr>buf := es\<rparr>]\<rparr>))"

section \<open>The invariant\<close>

text \<open>
  The entries have distinct keys and at least one channel, no channel is in two
  places, and every registered channel is open.
\<close>

definition subreg_wf :: "'h subreg \<Rightarrow> bool" where
  "subreg_wf r \<longleftrightarrow>
     gm_ok (sr_subs r) \<and>
     (\<forall>k. distinct (reg_chans k r)) \<and>
     (\<forall>k k' c. c \<in> set (reg_chans k r) \<longrightarrow> c \<in> set (reg_chans k' r) \<longrightarrow> k = k') \<and>
     (\<forall>k c. c \<in> set (reg_chans k r) \<longrightarrow> c < length (sr_chans r) \<and> \<not> closed (sr_chans r ! c)) \<and>
     (\<forall>k h cs. gm_get (sr_subs r) k = Some (h, cs) \<longrightarrow> cs \<noteq> []) \<and>
     \<not> sr_panicked r"

definition removes :: "(chan_id \<Rightarrow> chan_id list \<Rightarrow> chan_id list) \<Rightarrow> bool" where
  "removes rm \<longleftrightarrow> (\<forall>c cs. mset (rm c cs) = mset cs - {#c#})"

lemma removes_remove1 [simp]: "removes remove1"
  by (simp add: removes_def)

lemma removes_swap_remove [simp]: "removes swap_remove"
  by (simp add: removes_def mset_swap_remove)

lemma removes_spec:
  assumes "removes rm" and "distinct cs"
  shows "set (rm c cs) = set cs - {c}" and "distinct (rm c cs)"
proof -
  have m: "mset (rm c cs) = mset (remove1 c cs)" using assms(1) by (simp add: removes_def)
  then show "set (rm c cs) = set cs - {c}" using assms(2) by (metis set_mset_mset set_remove1_eq)
  show "distinct (rm c cs)" using m assms(2) by (metis distinct_remove1 mset_eq_imp_distinct_iff)
qed

lemma subreg_wfD:
  assumes "subreg_wf r"
  shows "gm_ok (sr_subs r)" and "distinct (reg_chans k r)"
    and "c \<in> set (reg_chans k r) \<Longrightarrow> c \<in> set (reg_chans k' r) \<Longrightarrow> k = k'"
    and "c \<in> set (reg_chans k r) \<Longrightarrow> c < length (sr_chans r)"
    and "c \<in> set (reg_chans k r) \<Longrightarrow> \<not> closed (sr_chans r ! c)"
    and "\<not> sr_panicked r"
    and "gm_get (sr_subs r) k = Some (h, cs) \<Longrightarrow> cs \<noteq> []"
  using assms unfolding subreg_wf_def by blast+

lemma subreg_wf_empty [simp]: "subreg_wf reg_empty"
  by (simp add: subreg_wf_def reg_empty_def reg_chans_def)

lemma reg_chans_add [simp]:
  "reg_chans k' (snd (reg_add n h k r)) = (if k' = k then reg_chans k r @ [length (sr_chans r)] else reg_chans k' r)"
  by (simp add: reg_add_def reg_chans_def Let_def split: option.split prod.split)

lemma reg_add_id [simp]: "fst (reg_add n h k r) = length (sr_chans r)"
  by (simp add: reg_add_def Let_def)

lemma reg_add_frame [simp]:
  "sr_chans (snd (reg_add n h k r)) = sr_chans r @ [make_chan n]" "sr_panicked (snd (reg_add n h k r)) = sr_panicked r"
  by (simp_all add: reg_add_def Let_def)

lemma subreg_wf_add:
  assumes "subreg_wf r"
  shows "subreg_wf (snd (reg_add n h k r))"
proof -
  let ?n = "length (sr_chans r)"
  have fresh: "?n \<notin> set (reg_chans k' r)" for k' using subreg_wfD(4) [OF assms, of ?n k'] by auto
  have "gm_ok (sr_subs (snd (reg_add n h k r)))" using subreg_wfD(1) [OF assms] by (simp add: reg_add_def Let_def)
  moreover have "\<not> closed ((sr_chans r @ [make_chan n]) ! c)" if "c = ?n \<or> c \<in> set (reg_chans k' r)" for c k'
    using that subreg_wfD(4,5) [OF assms, of c k'] by (auto simp: nth_append make_chan_def)
  moreover have "cs \<noteq> []" if "gm_get (sr_subs (snd (reg_add n h k r))) k' = Some (h', cs)" for k' h' cs
    using that subreg_wfD(7) [OF assms] by (auto simp: reg_add_def Let_def split: if_splits option.splits)
  ultimately show ?thesis
    using fresh subreg_wfD(2-4,6) [OF assms] unfolding subreg_wf_def
    by (auto simp: less_SucI dest: subreg_wfD(3) [OF assms] split: if_splits)
qed

lemma reg_offer_eq:
  assumes "subreg_wf r"
  shows "reg_offer ev (reg_chans k r) r =
    (length (filter (\<lambda>c. chan_ready (sr_chans r ! c)) (reg_chans k r)),
     r\<lparr>sr_chans := offered ev (set (reg_chans k r)) (sr_chans r)\<rparr>)"
  using offer_all_eq [OF subreg_wfD(2) [OF assms, of k], of "sr_chans r" ev] subreg_wfD(4,5) [OF assms]
  by (simp add: reg_offer_def)

lemma reg_chans_frame [simp]: "reg_chans k (r\<lparr>sr_chans := chs\<rparr>) = reg_chans k r"
  by (simp add: reg_chans_def)

lemma subreg_wf_chans:
  assumes "subreg_wf r" and "length chs = length (sr_chans r)"
    and "\<And>c. c < length chs \<Longrightarrow> closed (chs ! c) = closed (sr_chans r ! c)"
  shows "subreg_wf (r\<lparr>sr_chans := chs\<rparr>)"
  using assms unfolding subreg_wf_def by (simp add: reg_chans_def)

lemma subreg_wf_offer: "subreg_wf r \<Longrightarrow> subreg_wf (snd (reg_offer ev (reg_chans k r) r))"
  by (simp add: reg_offer_eq) (rule subreg_wf_chans, auto)

lemma subreg_wf_receive: "subreg_wf r \<Longrightarrow> subreg_wf (snd (reg_receive c r))"
proof (cases "buf (sr_chans r ! c)")
  case (Cons e es)
  have "closed ((sr_chans r)[c := (sr_chans r ! c)\<lparr>buf := es\<rparr>] ! c') = closed (sr_chans r ! c')"
    if "c' < length (sr_chans r)" for c'
    using that by (cases "c' = c") auto
  then show "subreg_wf r \<Longrightarrow> ?thesis" by (simp add: reg_receive_def Cons) (rule subreg_wf_chans, simp_all)
qed (simp add: reg_receive_def)

lemma reg_chans_remove:
  assumes "subreg_wf r"
  shows "reg_chans k' (snd (reg_remove rm k c r)) =
    (if k' = k \<and> c \<in> set (reg_chans k r) then rm c (reg_chans k r) else reg_chans k' r)"
  using subreg_wfD(7) [OF assms, of k]
  by (auto simp: reg_remove_def reg_chans_def reg_close_def Let_def split: option.split prod.split)

lemma subreg_wf_remove:
  assumes wf: "subreg_wf r" and rm: "removes rm"
  shows "subreg_wf (snd (reg_remove rm k c r))"
proof (cases "c \<in> set (reg_chans k r)")
  case False
  then have "snd (reg_remove rm k c r) = r \<or>
      (\<exists>h cs. gm_get (sr_subs r) k = Some (h, cs) \<and> snd (reg_remove rm k c r) = r\<lparr>sr_subs := gm_put (sr_subs r) k (h, cs)\<rparr>)"
    using subreg_wfD(7) [OF wf, of k] by (auto simp: reg_remove_def reg_chans_def Let_def split: option.split)
  then show ?thesis
  proof (elim disjE exE conjE)
    fix h cs
    assume e: "gm_get (sr_subs r) k = Some (h, cs)" and s: "snd (reg_remove rm k c r) = r\<lparr>sr_subs := gm_put (sr_subs r) k (h, cs)\<rparr>"
    have "reg_chans k' (r\<lparr>sr_subs := gm_put (sr_subs r) k (h, cs)\<rparr>) = reg_chans k' r" for k'
      using e by (simp add: reg_chans_def)
    then show ?thesis using wf e unfolding s subreg_wf_def by (simp split: if_split)
  qed (use wf in simp)
next
  case True
  let ?r = "snd (reg_remove rm k c r)"
  from True obtain h cs where e: "gm_get (sr_subs r) k = Some (h, cs)" and c: "c \<in> set cs"
    by (cases "gm_get (sr_subs r) k") (auto simp: reg_chans_def)
  have ch: "sr_chans ?r = (sr_chans r)[c := (sr_chans r ! c)\<lparr>closed := True\<rparr>]" "sr_panicked ?r = sr_panicked r"
    "gm_ok (sr_subs ?r)"
    using e c subreg_wfD(1) [OF wf] subreg_wfD(5) [OF wf True] by (simp_all add: reg_remove_def reg_close_def Let_def)
  have reg: "reg_chans k' ?r = (if k' = k then rm c (reg_chans k r) else reg_chans k' r)" for k'
    using reg_chans_remove [OF wf] True by simp
  have sub: "set (reg_chans k' ?r) = set (reg_chans k' r) - {c}" for k'
    using removes_spec [OF rm subreg_wfD(2) [OF wf, of k], of c] subreg_wfD(3) [OF wf True, of k'] by (auto simp: reg)
  have "distinct (reg_chans k' ?r)" for k'
    using removes_spec [OF rm subreg_wfD(2) [OF wf, of k]] subreg_wfD(2) [OF wf] by (simp add: reg)
  moreover have "cs \<noteq> []" if "gm_get (sr_subs ?r) k' = Some (h, cs)" for k' h cs
    using that subreg_wfD(7) [OF wf] e c by (auto simp: reg_remove_def reg_close_def Let_def split: if_splits)
  ultimately show ?thesis
    using ch subreg_wfD(3-6) [OF wf] unfolding subreg_wf_def sub by (auto simp: nth_list_update)
qed

lemmas subreg_wf_intros = subreg_wf_empty subreg_wf_add subreg_wf_offer subreg_wf_receive
  subreg_wf_remove [OF _ removes_remove1] subreg_wf_remove [OF _ removes_swap_remove]

section \<open>Pending keys\<close>

text \<open>
  Every bus has a map of the keys whose publication is under way. \<open>marks pend ks\<close> says
  that it holds exactly the keys \<open>ks\<close>, and each of them for one reason only.
\<close>

definition marks :: "unit gomap \<Rightarrow> key list \<Rightarrow> bool" where
  "marks pend ks \<longleftrightarrow> gm_ok pend \<and> distinct ks \<and> (\<forall>k. gm_get pend k \<noteq> None \<longleftrightarrow> k \<in> set ks)"

lemma marks_empty [simp]: "marks [] []"
  by (simp add: marks_def)

lemma marks_perm:
  assumes "marks pend ks" and "mset ks = mset ks'"
  shows "marks pend ks'"
proof -
  have "set ks = set ks'" "distinct ks = distinct ks'" using assms(2) by (auto dest: mset_eq_setD mset_eq_imp_distinct_iff)
  then show ?thesis using assms(1) by (simp add: marks_def)
qed

lemma marks_put:
  assumes "marks pend ks" and "gm_get pend k = None"
  shows "marks (gm_put pend k ()) (ks @ [k])"
proof -
  have "k \<notin> set ks" using assms by (auto simp: marks_def)
  then show ?thesis using assms(1) by (auto simp: marks_def)
qed

lemma marks_del:
  assumes "marks pend (xs @ k # ys)"
  shows "marks (gm_del pend k) (xs @ ys)"
proof -
  have "k \<notin> set (xs @ ys)" using assms by (auto simp: marks_def)
  moreover have "gm_get pend k' \<noteq> None \<longleftrightarrow> k' \<in> set (xs @ k # ys)" for k' using assms unfolding marks_def by blast
  ultimately have "gm_get (gm_del pend k) k' \<noteq> None \<longleftrightarrow> k' \<in> set (xs @ ys)" for k'
    by (cases "k' = k") auto
  then show ?thesis using assms unfolding marks_def by simp
qed

end
