(* ===== verification/Redis_Bus.thy ===== *)
theory Redis_Bus
  imports Bus_Registry
begin

text \<open>
  The bus over Redis Pub/Sub (src/syncbus/redis/redis.go).

  Redis is the environment: whether a call of the client fails, whether a new
  subscription is confirmed and which payloads arrive are arguments of the sections
  of code that depend on them. JSON and gzip are the parameter \<open>wire\<close>.

  Each function is a section of code between two points at which other goroutines
  may run, and \<open>rbus_step\<close> is their interleaving. \<open>rb_phase\<close> and \<open>rb_gphase\<close> say where
  the goroutines \<^verbatim>\<open>runBatcher\<close> and \<^verbatim>\<open>dispatchGlobal\<close> are, \<open>rb_disp\<close> which goroutines
  \<^verbatim>\<open>dispatch\<close> were started. A client, a subscription of the library and the channel
  \<^verbatim>\<open>globalReady\<close> are numbers, a new one whenever the code makes one. A
  \<^verbatim>\<open>redisSubscription\<close> is a number \<open>rh_obj\<close>, because a goroutine \<^verbatim>\<open>dispatch\<close> keeps the one
  it was started with after \<^verbatim>\<open>Close\<close> has dropped it from the map; those are in
  \<open>rb_orphans\<close>. \<open>rb_out\<close>, \<open>rb_direct\<close> and \<open>rb_confirmed\<close> record what was published by the
  batcher, what was published by \<^verbatim>\<open>PublishAndAwait\<close>, and the clients on which the
  subscription of the global channel was confirmed.
\<close>

section \<open>The bus\<close>

definition batchThreshold :: nat where
  "batchThreshold = 10"

definition globalUpdateChannel :: string where
  "globalUpdateChannel = ''warp:updates''"

record BatchPayload =
  Nonce :: string
  Keys :: "key list"
  Regions :: "string list"
  Vectors :: "vclock option list"
  Scopes :: "scope list"

record wire =
  wEncode :: "BatchPayload \<Rightarrow> go_error + string"
  wDecode :: "string \<Rightarrow> BatchPayload option"

record publishReq =
  rq_key :: key
  rq_opts :: publish_options
  rq_resp :: nat

record redis_handle =
  rh_obj :: nat
  rh_pubsub :: nat

datatype batcher =
    AtSelect
  | Readying bool nat nat string
  | Publishing bool nat string
  | Failed string go_error
  | Jittering nat string
  | Stopped

datatype listener =
    GTop
  | GSubscribe nat
  | GConfirm nat nat
  | GConfirmed nat nat
  | GListen nat nat
  | GDeliver nat nat "event list"
  | GPause
  | GStopped

record redis_bus =
  rb_reg :: "redis_handle subreg"
  rb_orphans :: "(redis_handle \<times> chan_id list) list"
  rb_nobjs :: nat
  rb_ps :: "bool list"
  rb_disp :: "(key \<times> redis_handle) list"
  rb_pending :: "unit gomap"
  rb_seen :: "time gomap"
  rb_published :: u64
  rb_delivered :: u64
  rb_queue :: "publishReq list"
  rb_resp :: "go_error option chan list"
  rb_closed :: bool
  rb_client :: nat
  rb_ready :: nat
  rb_readied :: "nat list"
  rb_globalSub :: "nat option"
  rb_globalCancel :: bool
  rb_batch :: "publishReq list"
  rb_phase :: batcher
  rb_final :: bool
  rb_gphase :: listener
  rb_out :: "(nat \<times> string) list"
  rb_direct :: "(key \<times> string) list"
  rb_confirmed :: "nat list"

definition NewRedisBus :: redis_bus where
  "NewRedisBus = \<lparr>rb_reg = reg_empty, rb_orphans = [], rb_nobjs = 0, rb_ps = [], rb_disp = [], rb_pending = [], rb_seen = [],
     rb_published = 0, rb_delivered = 0, rb_queue = [], rb_resp = [], rb_closed = False, rb_client = 0, rb_ready = 0,
     rb_readied = [], rb_globalSub = None, rb_globalCancel = False, rb_batch = [], rb_phase = AtSelect, rb_final = False,
     rb_gphase = GTop, rb_out = [], rb_direct = [], rb_confirmed = []\<rparr>"

section \<open>Publishing\<close>

text \<open>
  \<^verbatim>\<open>Publish\<close>: the first critical section (\<open>None\<close> when the key is pending already, and
  the call returns no error), the send of the request, and the two ways to return.
\<close>

definition redis_publish_begin :: "key \<Rightarrow> redis_bus \<Rightarrow> nat option \<times> redis_bus" where
  "redis_publish_begin k b =
     (if gm_get (rb_pending b) k \<noteq> None then (None, b)
      else (Some (length (rb_resp b)),
            b\<lparr>rb_pending := gm_put (rb_pending b) k (), rb_resp := rb_resp b @ [make_chan 1]\<rparr>))"

definition redis_publish_send :: "publishReq \<Rightarrow> redis_bus \<Rightarrow> redis_bus" where
  "redis_publish_send rq b = b\<lparr>rb_queue := rb_queue b @ [rq]\<rparr>"

definition cleanup :: "key \<Rightarrow> redis_bus \<Rightarrow> redis_bus" where
  "cleanup k b = b\<lparr>rb_pending := gm_del (rb_pending b) k\<rparr>"

definition redis_publish_return :: "key \<Rightarrow> nat \<Rightarrow> redis_bus \<Rightarrow> go_error option \<times> redis_bus" where
  "redis_publish_return k resp b =
     (case buf (rb_resp b ! resp) of
        [] \<Rightarrow> (None, b)
      | err # es \<Rightarrow>
          (let b1 = cleanup k (b\<lparr>rb_resp := (rb_resp b)[resp := (rb_resp b ! resp)\<lparr>buf := es\<rparr>]\<rparr>)
           in (err, if err = None then b1\<lparr>rb_published := rb_published b1 + 1\<rparr> else b1)))"

definition redis_publish_cancel :: "go_error \<Rightarrow> key \<Rightarrow> redis_bus \<Rightarrow> go_error option \<times> redis_bus" where
  "redis_publish_cancel e k b = (Some (if e = DeadlineExceeded then ErrTimeout else e), cleanup k b)"

text \<open>
  \<^verbatim>\<open>PublishAndAwait\<close>: \<open>res\<close> is the answer of the client, the number of receivers.
\<close>

definition redis_PublishAndAwait ::
    "go_error + int \<Rightarrow> string \<Rightarrow> key \<Rightarrow> int \<Rightarrow> publish_option list \<Rightarrow> redis_bus \<Rightarrow> go_error option \<times> redis_bus" where
  "redis_PublishAndAwait res uuid k replicas opts b =
     (let n = (if replicas \<le> 0 then 1 else replicas)
      in case res of
           Inl e \<Rightarrow> (Some e, b)
         | Inr val \<Rightarrow>
             (let b1 = b\<lparr>rb_direct := rb_direct b @ [(k, uuid)]\<rparr>
              in if val < n then (Some ErrQuorumNotSatisfied, b1)
                 else (None, b1\<lparr>rb_published := rb_published b1 + 1\<rparr>)))"

definition redis_PublishAndAwaitTopology where
  "redis_PublishAndAwaitTopology res uuid k minZones opts b = redis_PublishAndAwait res uuid k minZones opts b"

definition redis_RevokeLease where
  "redis_RevokeLease idn b = redis_publish_begin (lease_key idn) b"

section \<open>Subscriptions of the library\<close>

text \<open>\<^verbatim>\<open>client.Subscribe\<close> and \<^verbatim>\<open>pubsub.Close\<close>.\<close>

definition new_pubsub :: "redis_bus \<Rightarrow> nat \<times> redis_bus" where
  "new_pubsub b = (length (rb_ps b), b\<lparr>rb_ps := rb_ps b @ [True]\<rparr>)"

definition close_pubsub :: "nat \<Rightarrow> redis_bus \<Rightarrow> redis_bus" where
  "close_pubsub ps b = b\<lparr>rb_ps := (rb_ps b)[ps := False]\<rparr>"

text \<open>\<^verbatim>\<open>Subscribe\<close>: \<open>rerr\<close> is the error of \<^verbatim>\<open>ps.Receive\<close>, when a subscription is made.\<close>

definition redis_Subscribe :: "go_error option \<Rightarrow> key \<Rightarrow> redis_bus \<Rightarrow> (go_error + chan_id) \<times> redis_bus" where
  "redis_Subscribe rerr k b =
     (case gm_get (sr_subs (rb_reg b)) k of
        None \<Rightarrow>
        (let (ps, b1) = new_pubsub b
         in case rerr of
              Some e \<Rightarrow> (Inl e, b1)
            | None \<Rightarrow>
                (let h = \<lparr>rh_obj = rb_nobjs b1, rh_pubsub = ps\<rparr>
                 in case reg_add 1 h k (rb_reg b1) of
                      (c, r) \<Rightarrow> (Inr c, b1\<lparr>rb_reg := r, rb_nobjs := Suc (rb_nobjs b1), rb_disp := rb_disp b1 @ [(k, h)]\<rparr>)))
      | Some (h, cs) \<Rightarrow> case reg_add 1 h k (rb_reg b) of (c, r) \<Rightarrow> (Inr c, b\<lparr>rb_reg := r\<rparr>))"

definition redis_Unsubscribe :: "go_error option \<Rightarrow> key \<Rightarrow> chan_id \<Rightarrow> redis_bus \<Rightarrow> go_error option \<times> redis_bus" where
  "redis_Unsubscribe cerr k c b =
     (case reg_remove swap_remove k c (rb_reg b) of
        (None, r) \<Rightarrow> (None, b\<lparr>rb_reg := r\<rparr>)
      | (Some h, r) \<Rightarrow> (cerr, close_pubsub (rh_pubsub h) (b\<lparr>rb_reg := r\<rparr>)))"

definition redis_SubscribeLease where
  "redis_SubscribeLease rerr idn b = redis_Subscribe rerr (lease_key idn) b"

definition redis_UnsubscribeLease where
  "redis_UnsubscribeLease cerr idn c b = redis_Unsubscribe cerr (lease_key idn) c b"

section \<open>Receiving\<close>

definition checkSeen :: "time \<Rightarrow> string \<Rightarrow> redis_bus \<Rightarrow> bool \<times> redis_bus" where
  "checkSeen now payload b =
     (if gm_get (rb_seen b) payload \<noteq> None then (True, b)
      else (False, b\<lparr>rb_seen := gm_put (rb_seen b) payload now\<rparr>))"

definition cleanupSeen_tick :: "time \<Rightarrow> redis_bus \<Rightarrow> redis_bus" where
  "cleanupSeen_tick now b =
     b\<lparr>rb_seen := fold (\<lambda>(k, t) m. if time_Sub now t > 60 * 10 ^ 9 then gm_del m k else m) (rb_seen b) (rb_seen b)\<rparr>"

text \<open>The channels of a \<^verbatim>\<open>redisSubscription\<close>, still in the map or dropped by \<^verbatim>\<open>Close\<close>.\<close>

definition sub_chans :: "key \<Rightarrow> redis_handle \<Rightarrow> redis_bus \<Rightarrow> chan_id list" where
  "sub_chans k h b =
     (case gm_get (sr_subs (rb_reg b)) k of
        Some (h', cs) \<Rightarrow> if rh_obj h' = rh_obj h then cs else []
      | None \<Rightarrow> []) @ concat (map snd (filter (\<lambda>(h', cs). rh_obj h' = rh_obj h) (rb_orphans b)))"

definition redis_offer :: "event \<Rightarrow> chan_id list \<Rightarrow> redis_bus \<Rightarrow> redis_bus" where
  "redis_offer ev cs b =
     (case reg_offer ev cs (rb_reg b) of
        (n, r) \<Rightarrow> b\<lparr>rb_reg := r, rb_delivered := rb_delivered b + of_nat n\<rparr>)"

text \<open>An iteration of \<^verbatim>\<open>dispatch\<close>.\<close>

definition dispatch_message :: "time \<Rightarrow> string \<Rightarrow> key \<Rightarrow> redis_handle \<Rightarrow> redis_bus \<Rightarrow> redis_bus" where
  "dispatch_message now payload k h b =
     (case checkSeen now payload b of
        (True, b1) \<Rightarrow> b1
      | (False, b1) \<Rightarrow> redis_offer (key_event k) (sub_chans k h b1) b1)"

definition batch_events :: "BatchPayload \<Rightarrow> event list" where
  "batch_events p =
     map (\<lambda>i. \<lparr>evKey = Keys p ! i,
                evRegion = (if i < length (Regions p) then Regions p ! i else ''''),
                evVectorClock = (if i < length (Vectors p) then Vectors p ! i else None),
                evScope = (if i < length (Scopes p) then Scopes p ! i else ScopeLocal)\<rparr>) [0..<length (Keys p)]"

text \<open>One key of a batch: its critical section.\<close>

definition deliver_event :: "event \<Rightarrow> redis_bus \<Rightarrow> redis_bus" where
  "deliver_event ev b = redis_offer ev (reg_chans (evKey ev) (rb_reg b)) b"

section \<open>The goroutine of the global channel\<close>

definition drop_globalSub :: "nat \<Rightarrow> redis_bus \<Rightarrow> redis_bus" where
  "drop_globalSub ps b = (if rb_globalSub b = Some ps then b\<lparr>rb_globalSub := None\<rparr> else b)"

definition mark_ready :: "redis_bus \<Rightarrow> redis_bus" where
  "mark_ready b = (if rb_ready b \<in> set (rb_readied b) then b else b\<lparr>rb_readied := rb_ready b # rb_readied b\<rparr>)"

text \<open>
  \<open>rerr\<close> is the error of \<^verbatim>\<open>ReceiveTimeout\<close>; \<open>msg\<close> is what the channel of the subscription
  gives, \<open>None\<close> when it is closed; \<open>done\<close> says that the case of \<^verbatim>\<open>closeCh\<close> is taken.
\<close>

definition listener_step ::
    "wire \<Rightarrow> time \<Rightarrow> go_error option \<Rightarrow> string option \<Rightarrow> bool \<Rightarrow> redis_bus \<Rightarrow> redis_bus" where
  "listener_step w now rerr msg done b =
     (case rb_gphase b of
        GTop \<Rightarrow> b\<lparr>rb_gphase := GSubscribe (rb_client b)\<rparr>
      | GSubscribe c \<Rightarrow>
          (let (ps, b1) = new_pubsub b
           in if c \<noteq> rb_client b1 then (close_pubsub ps b1)\<lparr>rb_gphase := GTop\<rparr>
              else b1\<lparr>rb_globalSub := Some ps, rb_globalCancel := True, rb_gphase := GConfirm c ps\<rparr>)
      | GConfirm c ps \<Rightarrow>
          (let b1 = (if rb_globalSub b = Some ps then b\<lparr>rb_globalCancel := False\<rparr> else b)
           in case rerr of
                Some e \<Rightarrow> (drop_globalSub ps (close_pubsub ps b1))\<lparr>rb_gphase := GPause\<rparr>
              | None \<Rightarrow> b1\<lparr>rb_confirmed := c # rb_confirmed b1, rb_gphase := GConfirmed c ps\<rparr>)
      | GConfirmed c ps \<Rightarrow> (if c = rb_client b then mark_ready b else b)\<lparr>rb_gphase := GListen c ps\<rparr>
      | GListen c ps \<Rightarrow>
          if done then (close_pubsub ps b)\<lparr>rb_gphase := GStopped\<rparr>
          else (case msg of
                  None \<Rightarrow> (drop_globalSub ps (close_pubsub ps b))\<lparr>rb_gphase := GPause\<rparr>
                | Some payload \<Rightarrow>
                    (case checkSeen now payload b of
                       (True, b1) \<Rightarrow> b1
                     | (False, b1) \<Rightarrow>
                         (case wDecode w payload of
                            None \<Rightarrow> b1
                          | Some p \<Rightarrow> b1\<lparr>rb_gphase := GDeliver c ps (batch_events p)\<rparr>)))
      | GDeliver c ps [] \<Rightarrow> b\<lparr>rb_gphase := GListen c ps\<rparr>
      | GDeliver c ps (ev # evs) \<Rightarrow> (deliver_event ev b)\<lparr>rb_gphase := GDeliver c ps evs\<rparr>
      | GPause \<Rightarrow> b\<lparr>rb_gphase := (if done then GStopped else GTop)\<rparr>
      | GStopped \<Rightarrow> b)"

section \<open>The batcher\<close>

text \<open>The first request of every key.\<close>

fun unique_batch :: "key list \<Rightarrow> publishReq list \<Rightarrow> publishReq list" where
  "unique_batch seen [] = []"
| "unique_batch seen (rq # rqs) =
     (if rq_key rq \<in> set seen then unique_batch seen rqs else rq # unique_batch (rq_key rq # seen) rqs)"

definition batch_payload :: "string \<Rightarrow> publishReq list \<Rightarrow> BatchPayload" where
  "batch_payload nonce rqs = \<lparr>Nonce = nonce, Keys = map rq_key rqs, Regions = map (\<lambda>rq. oRegion (rq_opts rq)) rqs,
     Vectors = map (\<lambda>rq. oVectorClock (rq_opts rq)) rqs, Scopes = map (\<lambda>rq. oScope (rq_opts rq)) rqs\<rparr>"

text \<open>
  The loop that answers the requests. A send on a channel with a free buffer does not
  block, and \<open>rbus_inv\<close> says that every one of these has its buffer free.
\<close>

definition respond_all :: "go_error option \<Rightarrow> redis_bus \<Rightarrow> redis_bus" where
  "respond_all err b =
     b\<lparr>rb_resp := fold (\<lambda>rq rs. rs[rq_resp rq := push err (rs ! rq_resp rq)]) (rb_batch b) (rb_resp b), rb_batch := []\<rparr>"

definition flush_return :: "redis_bus \<Rightarrow> redis_bus" where
  "flush_return b = b\<lparr>rb_phase := (if rb_final b then Stopped else AtSelect)\<rparr>"

definition flush_begin :: "wire \<Rightarrow> string \<Rightarrow> redis_bus \<Rightarrow> redis_bus" where
  "flush_begin w nonce b =
     (if length (rb_batch b) = 0 then flush_return b
      else case wEncode w (batch_payload nonce (unique_batch [] (rb_batch b))) of
             Inl e \<Rightarrow> flush_return (respond_all (Some e) b)
           | Inr d \<Rightarrow> b\<lparr>rb_phase := Readying False (rb_client b) (rb_ready b) d\<rparr>)"

text \<open>An iteration of \<^verbatim>\<open>readyClient\<close>, by the case of its \<^verbatim>\<open>select\<close>; \<open>None\<close> is another iteration.\<close>

datatype ready_case = CaseReady | CaseProbe "go_error option" | CaseClosed | CaseTimeout

fun readyClient :: "ready_case \<Rightarrow> nat \<Rightarrow> redis_bus \<Rightarrow> (go_error + nat) option" where
  "readyClient CaseReady ready b = (if ready = rb_ready b then Some (Inr (rb_client b)) else None)"
| "readyClient (CaseProbe err) ready b = (case err of Some e \<Rightarrow> Some (Inl e) | None \<Rightarrow> None)"
| "readyClient CaseClosed ready b = Some (Inl Canceled)"
| "readyClient CaseTimeout ready b = Some (Inl ErrTimeout)"

fun ready_enabled :: "ready_case \<Rightarrow> nat \<Rightarrow> redis_bus \<Rightarrow> bool" where
  "ready_enabled CaseReady ready b \<longleftrightarrow> ready \<in> set (rb_readied b)"
| "ready_enabled CaseClosed ready b \<longleftrightarrow> rb_closed b"
| "ready_enabled cs ready b \<longleftrightarrow> True"

text \<open>\<^verbatim>\<open>reconnect\<close>: \<open>ok k\<close> says that the new subscription of \<open>k\<close> was confirmed.\<close>

definition resubscribe :: "(key \<Rightarrow> bool) \<Rightarrow> key \<Rightarrow> redis_bus \<Rightarrow> redis_bus" where
  "resubscribe ok k b =
     (case gm_get (sr_subs (rb_reg b)) k of
        None \<Rightarrow> b
      | Some (h, cs) \<Rightarrow>
          (let b1 = close_pubsub (rh_pubsub h) b; (ps, b2) = new_pubsub b1; h' = h\<lparr>rh_pubsub := ps\<rparr>
           in if ok k
              then b2\<lparr>rb_reg := (rb_reg b2)\<lparr>sr_subs := gm_put (sr_subs (rb_reg b2)) k (h', cs)\<rparr>,
                     rb_disp := rb_disp b2 @ [(k, h')]\<rparr>
              else close_pubsub ps b2))"

definition reconnect :: "(key \<Rightarrow> bool) \<Rightarrow> redis_bus \<Rightarrow> redis_bus" where
  "reconnect ok b =
     (let b1 = b\<lparr>rb_globalCancel := False\<rparr>;
          b2 = (case rb_globalSub b1 of Some ps \<Rightarrow> (close_pubsub ps b1)\<lparr>rb_globalSub := None\<rparr> | None \<Rightarrow> b1);
          b3 = b2\<lparr>rb_client := Suc (rb_client b2), rb_ready := Suc (rb_ready b2)\<rparr>
      in fold (resubscribe ok) (gm_keys (sr_subs (rb_reg b3))) b3)"

text \<open>
  The rest of \<^verbatim>\<open>flush\<close>: \<open>cs\<close> is the case of \<^verbatim>\<open>readyClient\<close>, \<open>perr\<close> the error of the
  client's \<^verbatim>\<open>Publish\<close>, \<open>j\<close> the jitter, \<open>done\<close> says that the case of \<^verbatim>\<open>closeCh\<close> is taken.
\<close>

definition batcher_step ::
    "ready_case \<Rightarrow> go_error option \<Rightarrow> (key \<Rightarrow> bool) \<Rightarrow> int \<Rightarrow> bool \<Rightarrow> redis_bus \<Rightarrow> redis_bus" where
  "batcher_step cs perr ok j done b =
     (case rb_phase b of
        Readying again c rd d \<Rightarrow>
          (case readyClient cs rd b of
             None \<Rightarrow> b\<lparr>rb_phase := Readying again (rb_client b) (rb_ready b) d\<rparr>
           | Some (Inr c') \<Rightarrow> b\<lparr>rb_phase := (if again \<and> j > 0 then Jittering c' d else Publishing again c' d)\<rparr>
           | Some (Inl e) \<Rightarrow> if again then flush_return (respond_all (Some e) b) else b\<lparr>rb_phase := Failed d e\<rparr>)
      | Publishing again c d \<Rightarrow>
          (case perr of
             None \<Rightarrow> flush_return (respond_all None (b\<lparr>rb_out := rb_out b @ [(c, d)]\<rparr>))
           | Some e \<Rightarrow> if again then flush_return (respond_all (Some e) b) else b\<lparr>rb_phase := Failed d e\<rparr>)
      | Failed d e \<Rightarrow>
          if rb_closed b then flush_return (respond_all (Some e) b)
          else let b1 = reconnect ok b in b1\<lparr>rb_phase := Readying True (rb_client b1) (rb_ready b1) d\<rparr>
      | Jittering c d \<Rightarrow> if done then flush_return b else b\<lparr>rb_phase := Publishing True c d\<rparr>
      | AtSelect \<Rightarrow> b
      | Stopped \<Rightarrow> b)"

text \<open>The cases of the loop of \<^verbatim>\<open>runBatcher\<close>.\<close>

definition batcher_request :: "wire \<Rightarrow> string \<Rightarrow> redis_bus \<Rightarrow> redis_bus" where
  "batcher_request w nonce b =
     (case rb_queue b of
        [] \<Rightarrow> b
      | rq # rqs \<Rightarrow>
          (let b1 = b\<lparr>rb_queue := rqs, rb_batch := rb_batch b @ [rq]\<rparr>
           in if length (rb_batch b1) \<ge> batchThreshold then flush_begin w nonce b1 else b1))"

definition batcher_tick :: "wire \<Rightarrow> string \<Rightarrow> redis_bus \<Rightarrow> redis_bus" where
  "batcher_tick w nonce b = flush_begin w nonce b"

definition batcher_close :: "wire \<Rightarrow> string \<Rightarrow> redis_bus \<Rightarrow> redis_bus" where
  "batcher_close w nonce b = flush_begin w nonce (b\<lparr>rb_final := True\<rparr>)"

section \<open>Closing\<close>

definition redis_Close :: "redis_bus \<Rightarrow> go_error option \<times> redis_bus" where
  "redis_Close b =
     (let b1 = b\<lparr>rb_closed := True, rb_globalCancel := False\<rparr>;
          b2 = (case rb_globalSub b1 of Some ps \<Rightarrow> (close_pubsub ps b1)\<lparr>rb_globalSub := None\<rparr> | None \<Rightarrow> b1);
          entries = map snd (sr_subs (rb_reg b2));
          b3 = fold (\<lambda>(h, cs). close_pubsub (rh_pubsub h)) entries b2
      in (None, b3\<lparr>rb_orphans := rb_orphans b3 @ entries, rb_reg := (rb_reg b3)\<lparr>sr_subs := []\<rparr>\<rparr>))"

definition redis_Metrics :: "redis_bus \<Rightarrow> bus_metrics" where
  "redis_Metrics b = \<lparr>Published = rb_published b, Delivered = rb_delivered b\<rparr>"

definition redis_IsHealthy :: "redis_bus \<Rightarrow> bool" where
  "redis_IsHealthy b = True"

definition redis_Peers :: "redis_bus \<Rightarrow> string list" where
  "redis_Peers b = []"

section \<open>Interleavings\<close>

record redis_call =
  cl_key :: key
  cl_opts :: publish_options
  cl_resp :: nat
  cl_sent :: bool

record rbus_sys =
  rs_bus :: redis_bus
  rs_calls :: "redis_call list"

text \<open>\<open>rs_calls\<close> are the calls of \<^verbatim>\<open>Publish\<close> that have not returned. \<^verbatim>\<open>Close\<close> is called once.\<close>

inductive rbus_step :: "wire \<Rightarrow> rbus_sys \<Rightarrow> rbus_sys \<Rightarrow> bool" for w where
  publish: "redis_publish_begin k (rs_bus s) = (Some i, b) \<Longrightarrow>
     rbus_step w s \<lparr>rs_bus = b, rs_calls = rs_calls s @ [\<lparr>cl_key = k, cl_opts = publish_opts opts, cl_resp = i, cl_sent = False\<rparr>]\<rparr>"
| send: "rs_calls s = cs1 @ c # cs2 \<Longrightarrow> \<not> cl_sent c \<Longrightarrow> length (rb_queue (rs_bus s)) < 1000 \<Longrightarrow>
     rbus_step w s \<lparr>rs_bus = redis_publish_send \<lparr>rq_key = cl_key c, rq_opts = cl_opts c, rq_resp = cl_resp c\<rparr> (rs_bus s),
       rs_calls = cs1 @ c\<lparr>cl_sent := True\<rparr> # cs2\<rparr>"
| return: "rs_calls s = cs1 @ c # cs2 \<Longrightarrow> cl_sent c \<Longrightarrow> buf (rb_resp (rs_bus s) ! cl_resp c) \<noteq> [] \<Longrightarrow>
     rbus_step w s \<lparr>rs_bus = snd (redis_publish_return (cl_key c) (cl_resp c) (rs_bus s)), rs_calls = cs1 @ cs2\<rparr>"
| cancel: "rs_calls s = cs1 @ c # cs2 \<Longrightarrow>
     rbus_step w s \<lparr>rs_bus = snd (redis_publish_cancel e (cl_key c) (rs_bus s)), rs_calls = cs1 @ cs2\<rparr>"
| await: "rbus_step w s (s\<lparr>rs_bus := snd (redis_PublishAndAwait res uuid k replicas opts (rs_bus s))\<rparr>)"
| request: "rb_phase (rs_bus s) = AtSelect \<Longrightarrow> rbus_step w s (s\<lparr>rs_bus := batcher_request w nonce (rs_bus s)\<rparr>)"
| ticker: "rb_phase (rs_bus s) = AtSelect \<Longrightarrow> rbus_step w s (s\<lparr>rs_bus := batcher_tick w nonce (rs_bus s)\<rparr>)"
| closing: "rb_phase (rs_bus s) = AtSelect \<Longrightarrow> rb_closed (rs_bus s) \<Longrightarrow>
     rbus_step w s (s\<lparr>rs_bus := batcher_close w nonce (rs_bus s)\<rparr>)"
| flushing: "\<forall>again c rd d. rb_phase (rs_bus s) = Readying again c rd d \<longrightarrow> ready_enabled cs rd (rs_bus s) \<Longrightarrow>
     (done \<longrightarrow> rb_closed (rs_bus s)) \<Longrightarrow>
     rbus_step w s (s\<lparr>rs_bus := batcher_step cs perr ok j done (rs_bus s)\<rparr>)"
| listening: "(done \<longrightarrow> rb_closed (rs_bus s)) \<Longrightarrow>
     rbus_step w s (s\<lparr>rs_bus := listener_step w now rerr msg done (rs_bus s)\<rparr>)"
| message: "(k, h) \<in> set (rb_disp (rs_bus s)) \<Longrightarrow>
     rbus_step w s (s\<lparr>rs_bus := dispatch_message now payload k h (rs_bus s)\<rparr>)"
| forget: "rbus_step w s (s\<lparr>rs_bus := cleanupSeen_tick now (rs_bus s)\<rparr>)"
| subscribe: "rbus_step w s (s\<lparr>rs_bus := snd (redis_Subscribe rerr k (rs_bus s))\<rparr>)"
| unsubscribe: "rbus_step w s (s\<lparr>rs_bus := snd (redis_Unsubscribe cerr k c (rs_bus s))\<rparr>)"
| consume: "rbus_step w s (s\<lparr>rs_bus := (rs_bus s)\<lparr>rb_reg := snd (reg_receive c (rb_reg (rs_bus s)))\<rparr>\<rparr>)"
| close: "\<not> rb_closed (rs_bus s) \<Longrightarrow> rbus_step w s (s\<lparr>rs_bus := snd (redis_Close (rs_bus s))\<rparr>)"

inductive rbus_reach :: "wire \<Rightarrow> rbus_sys \<Rightarrow> bool" for w where
  init: "rbus_reach w \<lparr>rs_bus = NewRedisBus, rs_calls = []\<rparr>"
| step: "rbus_reach w s \<Longrightarrow> rbus_step w s s' \<Longrightarrow> rbus_reach w s'"

section \<open>The registry\<close>

definition orphan_chans :: "redis_bus \<Rightarrow> chan_id list" where
  "orphan_chans b = concat (map snd (rb_orphans b))"

text \<open>The channels of dropped subscriptions are open, and no other subscription has them.\<close>

definition orphans_ok :: "chan_id list \<Rightarrow> redis_handle subreg \<Rightarrow> bool" where
  "orphans_ok os r \<longleftrightarrow> distinct os \<and>
     (\<forall>c \<in> set os. c < length (sr_chans r) \<and> \<not> closed (sr_chans r ! c) \<and> (\<forall>k. c \<notin> set (reg_chans k r)))"

definition reg_inv :: "redis_bus \<Rightarrow> bool" where
  "reg_inv b \<longleftrightarrow> subreg_wf (rb_reg b) \<and> orphans_ok (orphan_chans b) (rb_reg b)"

lemma reg_inv_frame:
  "reg_inv b \<Longrightarrow> rb_reg b' = rb_reg b \<Longrightarrow> rb_orphans b' = rb_orphans b \<Longrightarrow> reg_inv b'"
  by (simp add: reg_inv_def orphan_chans_def)

lemma orphans_ok_chans:
  assumes "orphans_ok os r" and "length chs = length (sr_chans r)"
    and "\<And>c. c < length chs \<Longrightarrow> closed (chs ! c) = closed (sr_chans r ! c)"
  shows "orphans_ok os (r\<lparr>sr_chans := chs\<rparr>)"
  using assms unfolding orphans_ok_def by simp

lemma reg_inv_chans:
  assumes "reg_inv b" and "length chs = length (sr_chans (rb_reg b))"
    and "\<And>c. c < length chs \<Longrightarrow> closed (chs ! c) = closed (sr_chans (rb_reg b) ! c)"
    and "rb_reg b' = (rb_reg b)\<lparr>sr_chans := chs\<rparr>" and "rb_orphans b' = rb_orphans b"
  shows "reg_inv b'"
proof -
  have "subreg_wf (rb_reg b')" using assms unfolding reg_inv_def assms(4) by (intro subreg_wf_chans) auto
  moreover have "orphans_ok (orphan_chans b') (rb_reg b')"
    using assms unfolding reg_inv_def assms(4) orphan_chans_def assms(5) by (intro orphans_ok_chans) auto
  ultimately show ?thesis by (simp add: reg_inv_def)
qed

lemma redis_offer_inv:
  assumes "reg_inv b" and "distinct cs" and "\<forall>c \<in> set cs. c < length (sr_chans (rb_reg b)) \<and> \<not> closed (sr_chans (rb_reg b) ! c)"
  shows "reg_inv (redis_offer ev cs b)"
proof (rule reg_inv_chans [OF assms(1)])
  let ?chs = "offered ev (set cs) (sr_chans (rb_reg b))"
  show "rb_reg (redis_offer ev cs b) = (rb_reg b)\<lparr>sr_chans := ?chs\<rparr>"
    using offer_all_eq [OF assms(2,3), of ev] by (simp add: redis_offer_def reg_offer_def)
  show "rb_orphans (redis_offer ev cs b) = rb_orphans b" by (simp add: redis_offer_def split: prod.split)
qed auto

lemma deliver_event_inv: "reg_inv b \<Longrightarrow> reg_inv (deliver_event ev b)"
  unfolding deliver_event_def by (rule redis_offer_inv) (auto simp: reg_inv_def dest: subreg_wfD)

lemma sub_chans_ok:
  assumes "reg_inv b"
  shows "distinct (sub_chans k h b)"
    and "c \<in> set (sub_chans k h b) \<Longrightarrow> c < length (sr_chans (rb_reg b)) \<and> \<not> closed (sr_chans (rb_reg b) ! c)"
proof -
  define os where "os = concat (map snd (filter (\<lambda>(h', cs). rh_obj h' = rh_obj h) (rb_orphans b)))"
  define es where "es = (case gm_get (sr_subs (rb_reg b)) k of Some (h', cs) \<Rightarrow> if rh_obj h' = rh_obj h then cs else [] | None \<Rightarrow> [])"
  have c: "sub_chans k h b = es @ os" by (simp add: sub_chans_def es_def os_def)
  have e: "es = reg_chans k (rb_reg b) \<or> es = []" by (auto simp: es_def reg_chans_def split: option.splits prod.splits)
  have o: "set os \<subseteq> set (orphan_chans b)" by (auto simp: os_def orphan_chans_def)
  have "distinct (concat (map snd xs)) \<Longrightarrow> distinct (concat (map snd (filter P xs)))" for P and xs :: "(redis_handle \<times> chan_id list) list"
    by (induct xs) auto
  then have d: "distinct os" using assms by (simp add: os_def reg_inv_def orphans_ok_def orphan_chans_def)
  have w: "subreg_wf (rb_reg b)" and ok: "orphans_ok (orphan_chans b) (rb_reg b)" using assms by (simp_all add: reg_inv_def)
  have ok': "x < length (sr_chans (rb_reg b))" "\<not> closed (sr_chans (rb_reg b) ! x)" "x \<notin> set (reg_chans k (rb_reg b))" if "x \<in> set os" for x
    using ok o that unfolding orphans_ok_def by blast+
  show "distinct (sub_chans k h b)" using e d subreg_wfD(2) [OF w, of k] ok'(3) by (auto simp: c)
  show "c < length (sr_chans (rb_reg b)) \<and> \<not> closed (sr_chans (rb_reg b) ! c)" if "c \<in> set (sub_chans k h b)"
    using that e subreg_wfD(4,5) [OF w, of c k] ok'(1,2) by (auto simp: c)
qed

lemma reg_receive_inv: "reg_inv b \<Longrightarrow> reg_inv (b\<lparr>rb_reg := snd (reg_receive c (rb_reg b))\<rparr>)"
proof (cases "buf (sr_chans (rb_reg b) ! c)")
  case (Cons e es)
  let ?chs = "(sr_chans (rb_reg b))[c := (sr_chans (rb_reg b) ! c)\<lparr>buf := es\<rparr>]"
  have "closed (?chs ! c') = closed (sr_chans (rb_reg b) ! c')" if "c' < length ?chs" for c'
    using that by (cases "c' = c") auto
  then show "reg_inv b \<Longrightarrow> ?thesis" by (elim reg_inv_chans [where chs = ?chs]) (simp_all add: reg_receive_def Cons)
qed (simp add: reg_receive_def)

lemma checkSeen_frame:
  "rb_reg (snd (checkSeen now p b)) = rb_reg b" "rb_orphans (snd (checkSeen now p b)) = rb_orphans b"
  by (simp_all add: checkSeen_def)

lemma dispatch_message_inv:
  assumes "reg_inv b"
  shows "reg_inv (dispatch_message now p k h b)"
proof -
  obtain q b1 where c: "checkSeen now p b = (q, b1)" by (meson surj_pair)
  have i: "reg_inv b1" using checkSeen_frame [of now p b] c by (auto intro: reg_inv_frame [OF assms])
  show ?thesis
    using i redis_offer_inv [OF i sub_chans_ok(1) [OF i, of k h]] sub_chans_ok(2) [OF i, of _ k h]
    by (cases q) (auto simp: dispatch_message_def c)
qed

lemma redis_Subscribe_reg:
  "\<exists>h. rb_reg (snd (redis_Subscribe rerr k b)) = rb_reg b \<or> rb_reg (snd (redis_Subscribe rerr k b)) = snd (reg_add 1 h k (rb_reg b))"
  "rb_orphans (snd (redis_Subscribe rerr k b)) = rb_orphans b"
  by (auto simp: redis_Subscribe_def new_pubsub_def Let_def reg_add_def split: option.split)

lemma redis_Subscribe_inv:
  assumes "reg_inv b"
  shows "reg_inv (snd (redis_Subscribe rerr k b))"
proof -
  let ?b = "snd (redis_Subscribe rerr k b)"
  from redis_Subscribe_reg(1) [of rerr k b] obtain h where
    "rb_reg ?b = rb_reg b \<or> rb_reg ?b = snd (reg_add 1 h k (rb_reg b))" by blast
  then show ?thesis
  proof
    assume "rb_reg ?b = rb_reg b"
    then show ?thesis by (rule reg_inv_frame [OF assms _ redis_Subscribe_reg(2)])
  next
    assume r: "rb_reg ?b = snd (reg_add 1 h k (rb_reg b))"
    have "orphans_ok (orphan_chans b) (snd (reg_add 1 h k (rb_reg b)))"
      using assms unfolding reg_inv_def orphans_ok_def by (auto simp: nth_append)
    then show ?thesis
      using assms subreg_wf_add [of "rb_reg b" 1 h k] redis_Subscribe_reg(2) [of rerr k b] by (simp add: reg_inv_def r orphan_chans_def)
  qed
qed

lemma redis_Unsubscribe_reg:
  "rb_reg (snd (redis_Unsubscribe cerr k c b)) = snd (reg_remove swap_remove k c (rb_reg b))"
  "rb_orphans (snd (redis_Unsubscribe cerr k c b)) = rb_orphans b"
  by (auto simp: redis_Unsubscribe_def close_pubsub_def split: option.split prod.split)

lemma reg_remove_closed:
  assumes "\<forall>k. c' \<notin> set (reg_chans k r)"
  shows "sr_chans (snd (reg_remove rm k c r)) ! c' = sr_chans r ! c'"
    and "length (sr_chans (snd (reg_remove rm k c r))) = length (sr_chans r)"
proof -
  have "c' \<noteq> c" if "gm_get (sr_subs r) k = Some (h, cs)" "c \<in> set cs" for h cs
    using assms that by (auto simp: reg_chans_def dest!: spec [of _ k])
  then show "sr_chans (snd (reg_remove rm k c r)) ! c' = sr_chans r ! c'"
    by (auto simp: reg_remove_def reg_close_def Let_def split: option.split)
  show "length (sr_chans (snd (reg_remove rm k c r))) = length (sr_chans r)"
    by (auto simp: reg_remove_def reg_close_def Let_def split: option.split)
qed

lemma redis_Unsubscribe_inv:
  assumes "reg_inv b"
  shows "reg_inv (snd (redis_Unsubscribe cerr k c b))"
proof -
  have w: "subreg_wf (rb_reg b)" and ok: "orphans_ok (orphan_chans b) (rb_reg b)" using assms by (simp_all add: reg_inv_def)
  let ?r = "snd (reg_remove swap_remove k c (rb_reg b))"
  have "set (reg_chans k' ?r) \<subseteq> set (reg_chans k' (rb_reg b))" for k'
    using removes_spec(1) [OF removes_swap_remove subreg_wfD(2) [OF w, of k], of c] by (auto simp: reg_chans_remove [OF w])
  moreover have "sr_chans ?r ! x = sr_chans (rb_reg b) ! x" "length (sr_chans ?r) = length (sr_chans (rb_reg b))" if "x \<in> set (orphan_chans b)" for x
    using that ok reg_remove_closed [of x "rb_reg b" swap_remove k c] unfolding orphans_ok_def by blast+
  ultimately have "orphans_ok (orphan_chans b) ?r" using ok unfolding orphans_ok_def by (simp add: subset_iff) blast
  then show ?thesis using subreg_wf_intros(6) [OF w] redis_Unsubscribe_reg [of cerr k c b] by (simp add: reg_inv_def orphan_chans_def)
qed

lemma close_pubsubs_frame: "\<exists>ps. fold (\<lambda>(h, cs). close_pubsub (rh_pubsub h)) es b = b\<lparr>rb_ps := ps\<rparr>"
proof (induct es arbitrary: b)
  case Nil
  show ?case by (rule exI [of _ "rb_ps b"]) simp
next
  case (Cons e es)
  obtain h cs where e: "e = (h, cs)" by (cases e)
  from Cons [of "close_pubsub (rh_pubsub h) b"] show ?case by (auto simp: e close_pubsub_def)
qed

lemma gm_concat_chans:
  assumes "gm_ok m" and "\<And>k k' h cs h' cs'. gm_get m k = Some (h, cs) \<Longrightarrow> gm_get m k' = Some (h', cs') \<Longrightarrow> k \<noteq> k' \<Longrightarrow> set cs \<inter> set cs' = {}"
    and "\<And>k h cs. gm_get m k = Some (h, cs) \<Longrightarrow> distinct cs"
  shows "distinct (concat (map (\<lambda>e. snd (snd e)) m))"
  using assms
proof (induct m)
  case (Cons e m)
  obtain k h cs where e: "e = (k, h, cs)" by (cases e)
  have k: "k \<notin> set (gm_keys m)" and m: "gm_ok m" using Cons.prems(1) by (auto simp: e)
  have up: "gm_get (e # m) k' = Some x" if "gm_get m k' = Some x" for k' x
    using that k by (auto simp: e dest: gm_get_in_keys)
  have "distinct (concat (map (\<lambda>e. snd (snd e)) m))"
    by (rule Cons.hyps [OF m]) (use Cons.prems(2,3) up in blast)+
  moreover have "set cs \<inter> set cs' = {}" if "(k', h', cs') \<in> set m" for k' h' cs'
  proof -
    have "gm_get m k' = Some (h', cs')" using that m by simp
    moreover have "k' \<noteq> k" using that k by (metis fst_conv image_eqI list.set_map)
    ultimately show ?thesis using Cons.prems(2) [of k h cs k' h' cs'] up by (simp add: e)
  qed
  moreover have "distinct cs" using Cons.prems(3) [of k h cs] by (simp add: e)
  ultimately show ?case by (fastforce simp: e)
qed simp

lemma redis_Close_inv:
  assumes "reg_inv b"
  shows "reg_inv (snd (redis_Close b))"
proof -
  let ?b = "snd (redis_Close b)"
  let ?new = "concat (map (\<lambda>e. snd (snd e)) (sr_subs (rb_reg b)))"
  have w: "subreg_wf (rb_reg b)" and ok: "orphans_ok (orphan_chans b) (rb_reg b)" using assms by (simp_all add: reg_inv_def)
  define b2 where "b2 = (case rb_globalSub b of Some ps \<Rightarrow> (close_pubsub ps (b\<lparr>rb_closed := True, rb_globalCancel := False\<rparr>))\<lparr>rb_globalSub := None\<rparr>
      | None \<Rightarrow> b\<lparr>rb_closed := True, rb_globalCancel := False\<rparr>)"
  have b2: "rb_reg b2 = rb_reg b" "rb_orphans b2 = rb_orphans b" by (simp_all add: b2_def close_pubsub_def split: option.split)
  from close_pubsubs_frame [of "map snd (sr_subs (rb_reg b))" b2] obtain x where
    f: "fold (\<lambda>(h, cs). close_pubsub (rh_pubsub h)) (map snd (sr_subs (rb_reg b))) b2 = b2\<lparr>rb_ps := x\<rparr>" by blast
  have "?b = b2\<lparr>rb_ps := x, rb_orphans := rb_orphans b @ map snd (sr_subs (rb_reg b)), rb_reg := (rb_reg b)\<lparr>sr_subs := []\<rparr>\<rparr>"
    using f b2 by (cases "rb_globalSub b") (simp_all add: redis_Close_def Let_def b2_def)
  then have r: "rb_reg ?b = (rb_reg b)\<lparr>sr_subs := []\<rparr>" and o: "orphan_chans ?b = orphan_chans b @ ?new"
    by (simp_all add: orphan_chans_def comp_def)
  have "distinct ?new"
  proof (rule gm_concat_chans [OF subreg_wfD(1) [OF w]])
    show "distinct cs" if "gm_get (sr_subs (rb_reg b)) k = Some (h, cs)" for k h cs
      using that subreg_wfD(2) [OF w, of k] by (simp add: reg_chans_def)
    show "set cs \<inter> set cs' = {}" if "gm_get (sr_subs (rb_reg b)) k = Some (h, cs)" "gm_get (sr_subs (rb_reg b)) k' = Some (h', cs')" "k \<noteq> k'" for k k' h cs h' cs'
      using that subreg_wfD(3) [OF w, of _ k k'] by (auto simp: reg_chans_def)
  qed
  moreover have new: "\<exists>k. c \<in> set (reg_chans k (rb_reg b))" if "c \<in> set ?new" for c
  proof -
    from that obtain k h cs where "(k, h, cs) \<in> set (sr_subs (rb_reg b))" "c \<in> set cs" by auto
    then have "gm_get (sr_subs (rb_reg b)) k = Some (h, cs)" using subreg_wfD(1) [OF w] by simp
    then show ?thesis using \<open>c \<in> set cs\<close> by (intro exI [of _ k]) (simp add: reg_chans_def)
  qed
  ultimately have "orphans_ok (orphan_chans b @ ?new) ((rb_reg b)\<lparr>sr_subs := []\<rparr>)"
    using ok subreg_wfD(4,5) [OF w] unfolding orphans_ok_def by (auto simp: reg_chans_def simp del: set_concat) blast+
  moreover have "subreg_wf ((rb_reg b)\<lparr>sr_subs := []\<rparr>)" using subreg_wfD(6) [OF w] by (simp add: subreg_wf_def reg_chans_def)
  ultimately show ?thesis by (simp add: reg_inv_def r o)
qed

lemma resubscribe_frame: "\<exists>ps r d. resubscribe ok k b = b\<lparr>rb_ps := ps, rb_reg := r, rb_disp := d\<rparr>"
  by (rule exI [of _ "rb_ps (resubscribe ok k b)"], rule exI [of _ "rb_reg (resubscribe ok k b)"], rule exI [of _ "rb_disp (resubscribe ok k b)"])
    (auto simp: resubscribe_def new_pubsub_def close_pubsub_def Let_def split: option.split)

lemma resubscribes_frame: "\<exists>ps r d. fold (resubscribe ok) ks b = b\<lparr>rb_ps := ps, rb_reg := r, rb_disp := d\<rparr>"
proof (induct ks arbitrary: b)
  case Nil
  show ?case by (rule exI [of _ "rb_ps b"], rule exI [of _ "rb_reg b"], rule exI [of _ "rb_disp b"]) simp
next
  case (Cons k ks)
  obtain ps r d where "resubscribe ok k b = b\<lparr>rb_ps := ps, rb_reg := r, rb_disp := d\<rparr>" using resubscribe_frame by blast
  then show ?case using Cons [of "resubscribe ok k b"] by auto
qed

lemma reconnect_frame:
  "\<exists>ps r d. reconnect ok b = b\<lparr>rb_globalCancel := False, rb_globalSub := None, rb_client := Suc (rb_client b), rb_ready := Suc (rb_ready b),
     rb_ps := ps, rb_reg := r, rb_disp := d\<rparr>"
proof -
  define b2 where "b2 = (case rb_globalSub b of Some ps \<Rightarrow> (close_pubsub ps (b\<lparr>rb_globalCancel := False\<rparr>))\<lparr>rb_globalSub := None\<rparr>
      | None \<Rightarrow> b\<lparr>rb_globalCancel := False\<rparr>)"
  have "b2 = b\<lparr>rb_globalCancel := False, rb_globalSub := None, rb_ps := rb_ps b2\<rparr>"
    by (auto simp: b2_def close_pubsub_def split: option.split)
  then obtain q where "b2 = b\<lparr>rb_globalCancel := False, rb_globalSub := None, rb_ps := q\<rparr>" by blast
  moreover have "reconnect ok b = fold (resubscribe ok) (gm_keys (sr_subs (rb_reg b2))) (b2\<lparr>rb_client := Suc (rb_client b2), rb_ready := Suc (rb_ready b2)\<rparr>)"
    by (cases "rb_globalSub b") (simp_all add: reconnect_def Let_def b2_def)
  ultimately show ?thesis
    using resubscribes_frame [of ok "gm_keys (sr_subs (rb_reg b2))" "b2\<lparr>rb_client := Suc (rb_client b2), rb_ready := Suc (rb_ready b2)\<rparr>"]
    by auto
qed

lemma reconnect_simps [simp]:
  "rb_client (reconnect ok b) = Suc (rb_client b)" "rb_ready (reconnect ok b) = Suc (rb_ready b)"
  "rb_readied (reconnect ok b) = rb_readied b" "rb_orphans (reconnect ok b) = rb_orphans b" "rb_pending (reconnect ok b) = rb_pending b"
  "rb_resp (reconnect ok b) = rb_resp b" "rb_queue (reconnect ok b) = rb_queue b" "rb_batch (reconnect ok b) = rb_batch b"
  "rb_out (reconnect ok b) = rb_out b" "rb_confirmed (reconnect ok b) = rb_confirmed b" "rb_final (reconnect ok b) = rb_final b"
  "rb_closed (reconnect ok b) = rb_closed b" "rb_gphase (reconnect ok b) = rb_gphase b" "rb_seen (reconnect ok b) = rb_seen b"
  using reconnect_frame [of ok b] by auto

lemma resubscribe_inv:
  assumes "reg_inv b"
  shows "reg_inv (resubscribe ok k b)"
proof (cases "ok k \<and> gm_get (sr_subs (rb_reg b)) k \<noteq> None")
  case False
  then have "rb_reg (resubscribe ok k b) = rb_reg b" "rb_orphans (resubscribe ok k b) = rb_orphans b"
    by (auto simp: resubscribe_def new_pubsub_def close_pubsub_def Let_def split: option.split)
  then show ?thesis by (rule reg_inv_frame [OF assms])
next
  case True
  then obtain h cs where e: "gm_get (sr_subs (rb_reg b)) k = Some (h, cs)" by auto
  let ?b = "resubscribe ok k b"
  from e True obtain h' where r: "rb_reg ?b = (rb_reg b)\<lparr>sr_subs := gm_put (sr_subs (rb_reg b)) k (h', cs)\<rparr>" and o: "rb_orphans ?b = rb_orphans b"
    by (auto simp: resubscribe_def new_pubsub_def close_pubsub_def Let_def)
  have c: "reg_chans k' (rb_reg ?b) = reg_chans k' (rb_reg b)" for k' using e by (simp add: r reg_chans_def)
  have w: "subreg_wf (rb_reg b)" using assms by (simp add: reg_inv_def)
  have ne: "cs' \<noteq> []" if "gm_get (sr_subs (rb_reg ?b)) k' = Some (h2, cs')" for k' h2 cs'
    using that subreg_wfD(7) [OF w] e by (auto simp: r split: if_splits)
  have s: "gm_ok (sr_subs (rb_reg ?b))" "sr_chans (rb_reg ?b) = sr_chans (rb_reg b)" "sr_panicked (rb_reg ?b) = sr_panicked (rb_reg b)"
    using subreg_wfD(1) [OF w] by (simp_all add: r)
  have "subreg_wf (rb_reg ?b)"
    unfolding subreg_wf_def c s using s(1) ne subreg_wfD(2-6) [OF w] by blast
  moreover have "orphans_ok (orphan_chans ?b) (rb_reg ?b)"
    using assms unfolding reg_inv_def orphans_ok_def orphan_chans_def c s o by blast
  ultimately show ?thesis by (simp add: reg_inv_def)
qed

lemma reconnect_inv:
  assumes "reg_inv b"
  shows "reg_inv (reconnect ok b)"
proof -
  have i: "reg_inv (fold (resubscribe ok) ks b)" if "reg_inv b" for ks b
    using that by (induct ks arbitrary: b) (auto intro: resubscribe_inv)
  show ?thesis
    unfolding reconnect_def Let_def
    by (rule i, rule reg_inv_frame [OF assms]) (auto simp: close_pubsub_def split: option.split)
qed

lemma flush_frame:
  "rb_reg (respond_all e b) = rb_reg b" "rb_orphans (respond_all e b) = rb_orphans b"
  "rb_reg (flush_return b) = rb_reg b" "rb_orphans (flush_return b) = rb_orphans b"
  "rb_reg (flush_begin w nonce b) = rb_reg b" "rb_orphans (flush_begin w nonce b) = rb_orphans b"
  by (auto simp: respond_all_def flush_return_def flush_begin_def split: sum.split)

lemma batcher_step_reg:
  assumes "reg_inv b"
  shows "reg_inv (batcher_step cs perr ok j done b)"
proof (cases "\<exists>d e. rb_phase b = Failed d e \<and> \<not> rb_closed b")
  case True
  then show ?thesis
    by (auto simp: batcher_step_def Let_def intro!: reg_inv_frame [OF reconnect_inv [OF assms, of ok]])
next
  case False
  then have "rb_reg (batcher_step cs perr ok j done b) = rb_reg b" "rb_orphans (batcher_step cs perr ok j done b) = rb_orphans b"
    by (auto simp: batcher_step_def flush_frame Let_def split: batcher.splits option.splits sum.splits if_splits)
  then show ?thesis by (rule reg_inv_frame [OF assms])
qed

lemma listener_step_reg:
  assumes "reg_inv b"
  shows "reg_inv (listener_step w now rerr msg done b)"
proof (cases "\<exists>c ps ev evs. rb_gphase b = GDeliver c ps (ev # evs)")
  case True
  then obtain c ps ev evs where g: "rb_gphase b = GDeliver c ps (ev # evs)" by blast
  show ?thesis by (rule reg_inv_frame [OF deliver_event_inv [OF assms, of ev]]) (simp_all add: listener_step_def g)
next
  case False
  then have "rb_reg (listener_step w now rerr msg done b) = rb_reg b \<and> rb_orphans (listener_step w now rerr msg done b) = rb_orphans b"
    by (auto simp: listener_step_def Let_def new_pubsub_def close_pubsub_def drop_globalSub_def mark_ready_def checkSeen_def
        split: listener.split option.split list.split)
  then show ?thesis using reg_inv_frame [OF assms] by blast
qed

section \<open>The calls of Publish\<close>

definition published_key :: "wire \<Rightarrow> (nat \<times> string) list \<Rightarrow> key \<Rightarrow> bool" where
  "published_key w out k \<longleftrightarrow> (\<exists>c d p. (c, d) \<in> set out \<and> wEncode w p = Inr d \<and> k \<in> set (Keys p))"

text \<open>
  A call that has not sent its request has a fresh channel. One that has sent it has it
  in the queue or in the batch, or has its answer; an answer without error is given
  after a payload with the key was published.
\<close>

definition call_ok :: "wire \<Rightarrow> go_error option chan list \<Rightarrow> publishReq list \<Rightarrow> (nat \<times> string) list \<Rightarrow> redis_call \<Rightarrow> bool" where
  "call_ok w resp rqs out c \<longleftrightarrow> cl_resp c < length resp \<and>
     (if cl_sent c
      then (\<exists>rq \<in> set rqs. rq_resp rq = cl_resp c \<and> rq_key rq = cl_key c) \<or>
           (\<exists>e. buf (resp ! cl_resp c) = [e] \<and> (e = None \<longrightarrow> published_key w out (cl_key c)))
      else cl_resp c \<notin> rq_resp ` set rqs \<and> resp ! cl_resp c = make_chan 1)"

definition calls_ok ::
    "wire \<Rightarrow> unit gomap \<Rightarrow> go_error option chan list \<Rightarrow> publishReq list \<Rightarrow> (nat \<times> string) list \<Rightarrow> redis_call list \<Rightarrow> bool" where
  "calls_ok w pend resp rqs out cls \<longleftrightarrow>
     gm_ok pend \<and> distinct (map cl_key cls) \<and> (\<forall>k. gm_get pend k \<noteq> None \<longleftrightarrow> k \<in> cl_key ` set cls) \<and>
     distinct (map cl_resp cls) \<and> distinct (map rq_resp rqs) \<and>
     (\<forall>rq \<in> set rqs. rq_resp rq < length resp \<and> resp ! rq_resp rq = make_chan 1) \<and>
     (\<forall>c \<in> set cls. call_ok w resp rqs out c)"

lemma calls_ok_mset:
  assumes "calls_ok w pend resp rqs out cls" and "mset rqs = mset rqs'"
  shows "calls_ok w pend resp rqs' out cls"
proof -
  have e: "set rqs = set rqs'" using assms(2) by (rule mset_eq_setD)
  have d: "distinct (map rq_resp rqs) = distinct (map rq_resp rqs')"
    using assms(2) by (intro mset_eq_imp_distinct_iff) simp
  show ?thesis using assms(1) unfolding calls_ok_def call_ok_def e d .
qed

lemma calls_ok_out:
  assumes "calls_ok w pend resp rqs out cls"
  shows "calls_ok w pend resp rqs (out @ [m]) cls"
proof -
  have "published_key w out k \<Longrightarrow> published_key w (out @ [m]) k" for k unfolding published_key_def by force
  then show ?thesis using assms unfolding calls_ok_def call_ok_def by meson
qed

lemma calls_begin:
  assumes "calls_ok w pend resp rqs out cls" and "gm_get pend k = None"
  shows "calls_ok w (gm_put pend k ()) (resp @ [make_chan 1]) rqs out
    (cls @ [\<lparr>cl_key = k, cl_opts = o1, cl_resp = length resp, cl_sent = False\<rparr>])"
proof -
  have k: "k \<notin> cl_key ` set cls" using assms unfolding calls_ok_def by blast
  have r: "cl_resp c < length resp" if "c \<in> set cls" for c using assms(1) that by (simp add: calls_ok_def call_ok_def)
  then have f: "length resp \<notin> cl_resp ` set cls" by fastforce
  have "rq_resp rq < length resp" if "rq \<in> set rqs" for rq using assms(1) that by (simp add: calls_ok_def)
  then have g: "length resp \<notin> rq_resp ` set rqs" by fastforce
  have "call_ok w (resp @ [make_chan 1]) rqs out c" if "c \<in> set cls" for c
    using assms(1) r [OF that] that unfolding calls_ok_def call_ok_def by (auto simp: nth_append)
  moreover have "gm_get (gm_put pend k ()) k' \<noteq> None \<longleftrightarrow> k' \<in> insert k (cl_key ` set cls)" for k'
    using assms(1) unfolding calls_ok_def by simp
  moreover have "call_ok w (resp @ [make_chan 1]) rqs out \<lparr>cl_key = k, cl_opts = o1, cl_resp = length resp, cl_sent = False\<rparr>"
    using g by (simp add: call_ok_def)
  ultimately show ?thesis using assms(1) k f unfolding calls_ok_def by (simp add: nth_append less_SucI)
qed

lemma calls_other:
  assumes "calls_ok w pend resp rqs out (cs1 @ c # cs2)" and "c' \<in> set (cs1 @ cs2)"
  shows "call_ok w resp rqs out c'" and "cl_resp c' \<noteq> cl_resp c" and "cl_key c' \<noteq> cl_key c"
proof -
  show "call_ok w resp rqs out c'" using assms unfolding calls_ok_def by auto
  have "cl_resp c \<notin> cl_resp ` set (cs1 @ cs2)" "cl_key c \<notin> cl_key ` set (cs1 @ cs2)" using assms(1) unfolding calls_ok_def by auto
  then show "cl_resp c' \<noteq> cl_resp c" "cl_key c' \<noteq> cl_key c" using assms(2) by (metis imageI)+
qed

lemma calls_send:
  assumes "calls_ok w pend resp rqs out (cs1 @ c # cs2)" and "\<not> cl_sent c"
  shows "calls_ok w pend resp (\<lparr>rq_key = cl_key c, rq_opts = cl_opts c, rq_resp = cl_resp c\<rparr> # rqs) out (cs1 @ c\<lparr>cl_sent := True\<rparr> # cs2)"
proof -
  let ?rq = "\<lparr>rq_key = cl_key c, rq_opts = cl_opts c, rq_resp = cl_resp c\<rparr>"
  have c: "call_ok w resp rqs out c" using assms(1) by (simp add: calls_ok_def)
  have "call_ok w resp (?rq # rqs) out c'" if "c' \<in> set (cs1 @ cs2)" for c'
  proof -
    show ?thesis using calls_other(1,2) [OF assms(1) that] by (auto simp: call_ok_def)
  qed
  moreover have "call_ok w resp (?rq # rqs) out (c\<lparr>cl_sent := True\<rparr>)" using c by (simp add: call_ok_def)
  ultimately show ?thesis using assms c unfolding calls_ok_def by (auto simp: call_ok_def [of _ _ _ _ c])
qed

lemma calls_drop:
  assumes "calls_ok w pend resp rqs out (cs1 @ c # cs2)"
  shows "calls_ok w (gm_del pend (cl_key c)) resp rqs out (cs1 @ cs2)"
proof -
  have "gm_get (gm_del pend (cl_key c)) k \<noteq> None \<longleftrightarrow> k \<in> cl_key ` set (cs1 @ cs2)" for k
    using assms calls_other(3) [OF assms] unfolding calls_ok_def by (cases "k = cl_key c") auto
  then show ?thesis using assms unfolding calls_ok_def by auto
qed

lemma calls_return:
  assumes "calls_ok w pend resp rqs out (cs1 @ c # cs2)" and "buf (resp ! cl_resp c) \<noteq> []"
  shows "calls_ok w (gm_del pend (cl_key c)) (resp[cl_resp c := ch]) rqs out (cs1 @ cs2)"
proof -
  have n: "cl_resp c \<notin> rq_resp ` set rqs" using assms unfolding calls_ok_def by (auto simp: make_chan_def)
  have "call_ok w (resp[cl_resp c := ch]) rqs out c'" if "c' \<in> set (cs1 @ cs2)" for c'
  proof -
    show ?thesis using calls_other(1,2) [OF assms(1) that] by (simp add: call_ok_def)
  qed
  moreover have "resp[cl_resp c := ch] ! rq_resp rq = resp ! rq_resp rq" if "rq \<in> set rqs" for rq
    using n that by (metis imageI nth_list_update_neq)
  ultimately show ?thesis using calls_drop [OF assms(1)] unfolding calls_ok_def by simp
qed

lemma respond_nth:
  assumes "distinct (map rq_resp rqs)" and "\<forall>rq \<in> set rqs. rq_resp rq < length resp"
  shows "length (fold (\<lambda>rq rs. rs[rq_resp rq := push e (rs ! rq_resp rq)]) rqs resp) = length resp \<and>
    (\<forall>i < length resp. fold (\<lambda>rq rs. rs[rq_resp rq := push e (rs ! rq_resp rq)]) rqs resp ! i =
      (if i \<in> rq_resp ` set rqs then push e (resp ! i) else resp ! i))"
  using assms
proof (induct rqs arbitrary: resp)
  case (Cons rq rqs)
  let ?r = "resp[rq_resp rq := push e (resp ! rq_resp rq)]"
  have "distinct (map rq_resp rqs)" "\<forall>q \<in> set rqs. rq_resp q < length ?r" using Cons.prems by auto
  from Cons.hyps [OF this] show ?case using Cons.prems by (auto simp: nth_list_update)
qed simp

lemma calls_respond:
  assumes "calls_ok w pend resp (q @ rqs) out cls" and "e = None \<Longrightarrow> \<forall>rq \<in> set rqs. published_key w out (rq_key rq)"
  shows "calls_ok w pend (fold (\<lambda>rq rs. rs[rq_resp rq := push e (rs ! rq_resp rq)]) rqs resp) q out cls"
proof -
  let ?resp = "fold (\<lambda>rq rs. rs[rq_resp rq := push e (rs ! rq_resp rq)]) rqs resp"
  have d: "distinct (map rq_resp rqs)" and l: "\<forall>rq \<in> set rqs. rq_resp rq < length resp"
    and fresh: "resp ! rq_resp rq = make_chan 1" if "rq \<in> set (q @ rqs)" for rq
    using assms(1) that by (auto simp: calls_ok_def)
  have len: "length ?resp = length resp" and nth: "i < length resp \<Longrightarrow> ?resp ! i = (if i \<in> rq_resp ` set rqs then push e (resp ! i) else resp ! i)" for i
    using respond_nth [of rqs resp e] assms(1) unfolding calls_ok_def by auto
  have dj: "rq_resp rq \<notin> rq_resp ` set rqs" if "rq \<in> set q" for rq
    using assms(1) that by (auto simp: calls_ok_def)
  have "call_ok w ?resp q out c" if "c \<in> set cls" for c
  proof -
    have c: "call_ok w resp (q @ rqs) out c" using assms(1) that by (simp add: calls_ok_def)
    then have i: "cl_resp c < length resp" by (simp add: call_ok_def)
    show ?thesis
    proof (cases "cl_sent c")
      case False
      then show ?thesis using c nth [OF i] len by (auto simp: call_ok_def)
    next
      case True
      with c consider (wait) rq where "rq \<in> set q" "rq_resp rq = cl_resp c" "rq_key rq = cl_key c"
        | (batch) rq where "rq \<in> set rqs" "rq_resp rq = cl_resp c" "rq_key rq = cl_key c"
        | (answered) a where "buf (resp ! cl_resp c) = [a]" "a = None \<longrightarrow> published_key w out (cl_key c)"
        by (auto simp: call_ok_def)
      then show ?thesis
      proof cases
        case wait
        then show ?thesis using True i len by (auto simp: call_ok_def)
      next
        case batch
        then have "cl_resp c \<in> rq_resp ` set rqs" "resp ! cl_resp c = make_chan 1" using fresh [of rq] by (metis imageI, simp)
        then have "buf (?resp ! cl_resp c) = [e]" using nth [OF i] by (simp add: push_def make_chan_def)
        moreover have "e = None \<longrightarrow> published_key w out (cl_key c)" using assms(2) batch by metis
        ultimately show ?thesis unfolding call_ok_def using True i len by metis
      next
        case answered
        then have "cl_resp c \<notin> rq_resp ` set rqs" using fresh by (auto simp: make_chan_def)
        then have "?resp ! cl_resp c = resp ! cl_resp c" using nth [OF i] by simp
        then show ?thesis unfolding call_ok_def using True i len answered by metis
      qed
    qed
  qed
  moreover have "rq_resp rq < length ?resp \<and> ?resp ! rq_resp rq = make_chan 1" if "rq \<in> set q" for rq
    using assms(1) len nth [of "rq_resp rq"] dj [OF that] that unfolding calls_ok_def by simp
  ultimately show ?thesis using assms(1) unfolding calls_ok_def by simp
qed

section \<open>The invariant\<close>

definition carries :: "wire \<Rightarrow> string \<Rightarrow> publishReq list \<Rightarrow> bool" where
  "carries w d rqs \<longleftrightarrow> (\<exists>p. wEncode w p = Inr d \<and> rq_key ` set rqs \<subseteq> set (Keys p))"

text \<open>
  The batcher: in the middle of a flush it has a payload with the keys of the batch, it
  stops with an empty batch, and a flush that reconnects is not the last one.
\<close>

definition batcher_ok :: "wire \<Rightarrow> redis_bus \<Rightarrow> bool" where
  "batcher_ok w b \<longleftrightarrow> (rb_final b \<longrightarrow> rb_closed b) \<and>
     (case rb_phase b of
        AtSelect \<Rightarrow> \<not> rb_final b
      | Readying again c rd d \<Rightarrow> carries w d (rb_batch b) \<and> (again \<longrightarrow> \<not> rb_final b)
      | Publishing again c d \<Rightarrow> carries w d (rb_batch b) \<and> (again \<longrightarrow> \<not> rb_final b)
      | Failed d e \<Rightarrow> carries w d (rb_batch b)
      | Jittering c d \<Rightarrow> carries w d (rb_batch b) \<and> \<not> rb_final b
      | Stopped \<Rightarrow> rb_batch b = [])"

text \<open>A client that is ready, or that a payload was published with, was confirmed.\<close>

definition ready_ok :: "redis_bus \<Rightarrow> bool" where
  "ready_ok b \<longleftrightarrow>
     (\<forall>i \<in> set (rb_readied b). i \<le> rb_ready b) \<and>
     (rb_ready b \<in> set (rb_readied b) \<longrightarrow> rb_client b \<in> set (rb_confirmed b)) \<and>
     (\<forall>c ps. rb_gphase b = GConfirmed c ps \<longrightarrow> c \<in> set (rb_confirmed b)) \<and>
     (\<forall>again c d. rb_phase b = Publishing again c d \<longrightarrow> c \<in> set (rb_confirmed b)) \<and>
     (\<forall>c d. rb_phase b = Jittering c d \<longrightarrow> c \<in> set (rb_confirmed b)) \<and>
     fst ` set (rb_out b) \<subseteq> set (rb_confirmed b)"

definition rbus_inv :: "wire \<Rightarrow> rbus_sys \<Rightarrow> bool" where
  "rbus_inv w s \<longleftrightarrow> (let b = rs_bus s in
     reg_inv b \<and> calls_ok w (rb_pending b) (rb_resp b) (rb_queue b @ rb_batch b) (rb_out b) (rs_calls s) \<and>
     batcher_ok w b \<and> ready_ok b)"

lemma unique_batch_keys: "rq_key ` set (unique_batch seen rqs) = rq_key ` set rqs - set seen"
  by (induct rqs arbitrary: seen) auto

lemma batch_carries: "wEncode w (batch_payload nonce (unique_batch [] rqs)) = Inr d \<Longrightarrow> carries w d rqs"
  unfolding carries_def using unique_batch_keys [of "[]" rqs]
  by (intro exI [of _ "batch_payload nonce (unique_batch [] rqs)"]) (simp add: batch_payload_def)

lemma calls_ok_frame:
  assumes "calls_ok w (rb_pending b) (rb_resp b) (rb_queue b @ rb_batch b) (rb_out b) cls"
    and "rb_pending b' = rb_pending b" "rb_resp b' = rb_resp b" "rb_queue b' = rb_queue b" "rb_batch b' = rb_batch b" "rb_out b' = rb_out b"
  shows "calls_ok w (rb_pending b') (rb_resp b') (rb_queue b' @ rb_batch b') (rb_out b') cls"
  using assms by simp

lemma batcher_ok_frame:
  "batcher_ok w b \<Longrightarrow> rb_final b' = rb_final b \<Longrightarrow> (rb_closed b \<longrightarrow> rb_closed b') \<Longrightarrow> rb_phase b' = rb_phase b \<Longrightarrow> rb_batch b' = rb_batch b \<Longrightarrow>
   batcher_ok w b'"
  unfolding batcher_ok_def by (cases "rb_phase b") simp_all

lemma ready_ok_frame:
  "ready_ok b \<Longrightarrow> rb_readied b' = rb_readied b \<Longrightarrow> rb_ready b' = rb_ready b \<Longrightarrow> rb_client b' = rb_client b \<Longrightarrow> rb_confirmed b' = rb_confirmed b \<Longrightarrow>
   rb_gphase b' = rb_gphase b \<Longrightarrow> rb_phase b' = rb_phase b \<Longrightarrow> rb_out b' = rb_out b \<Longrightarrow> ready_ok b'"
  unfolding ready_ok_def by simp

text \<open>The steps that concern only the registry, the counters and what was seen.\<close>

lemma rbus_inv_frame:
  assumes "rbus_inv w s" and "reg_inv b'"
    and "rb_pending b' = rb_pending (rs_bus s)" "rb_resp b' = rb_resp (rs_bus s)" "rb_queue b' = rb_queue (rs_bus s)"
    and "rb_batch b' = rb_batch (rs_bus s)" "rb_out b' = rb_out (rs_bus s)"
    and "rb_final b' = rb_final (rs_bus s)" "rb_closed (rs_bus s) \<longrightarrow> rb_closed b'" "rb_phase b' = rb_phase (rs_bus s)"
    and "rb_readied b' = rb_readied (rs_bus s)" "rb_ready b' = rb_ready (rs_bus s)" "rb_client b' = rb_client (rs_bus s)"
    and "rb_confirmed b' = rb_confirmed (rs_bus s)" "rb_gphase b' = rb_gphase (rs_bus s)"
  shows "rbus_inv w (s\<lparr>rs_bus := b'\<rparr>)"
  using assms batcher_ok_frame [of w "rs_bus s" b'] ready_ok_frame [of "rs_bus s" b'] by (simp add: rbus_inv_def Let_def)

section \<open>The steps keep the invariant\<close>

lemma respond_all_ok:
  assumes "calls_ok w (rb_pending b) (rb_resp b) (rb_queue b @ rb_batch b) (rb_out b) cls"
    and "e = None \<Longrightarrow> \<forall>rq \<in> set (rb_batch b). published_key w (rb_out b) (rq_key rq)"
  shows "calls_ok w (rb_pending (respond_all e b)) (rb_resp (respond_all e b)) (rb_queue (respond_all e b) @ rb_batch (respond_all e b)) (rb_out (respond_all e b)) cls"
  using calls_respond [OF assms] by (simp add: respond_all_def)

lemma flush_return_calls [simp]:
  "rb_pending (flush_return b) = rb_pending b" "rb_resp (flush_return b) = rb_resp b" "rb_queue (flush_return b) = rb_queue b"
  "rb_batch (flush_return b) = rb_batch b" "rb_out (flush_return b) = rb_out b"
  by (simp_all add: flush_return_def)

lemma flush_return_ok: "(rb_final b \<longrightarrow> rb_closed b \<and> rb_batch b = []) \<Longrightarrow> batcher_ok w (flush_return b)"
  by (simp add: batcher_ok_def flush_return_def)

lemma flush_return_ready: "ready_ok b \<Longrightarrow> ready_ok (flush_return b)"
  by (auto simp: ready_ok_def flush_return_def)

lemma respond_all_ready: "ready_ok b \<Longrightarrow> ready_ok (respond_all e b)"
  by (rule ready_ok_frame) (simp_all add: respond_all_def)

text \<open>Answering all requests and returning, from any point of a flush.\<close>

lemma rbus_inv_answer:
  assumes "rbus_inv w s" and "e \<noteq> None"
  shows "rbus_inv w (s\<lparr>rs_bus := flush_return (respond_all e (rs_bus s))\<rparr>)"
proof -
  let ?b = "rs_bus s"
  have i: "reg_inv ?b" "calls_ok w (rb_pending ?b) (rb_resp ?b) (rb_queue ?b @ rb_batch ?b) (rb_out ?b) (rs_calls s)" "batcher_ok w ?b" "ready_ok ?b"
    using assms by (simp_all add: rbus_inv_def Let_def)
  have "reg_inv (flush_return (respond_all e ?b))" by (rule reg_inv_frame [OF i(1)]) (simp_all add: flush_frame)
  moreover have "batcher_ok w (flush_return (respond_all e ?b))"
    using i(3) by (intro flush_return_ok) (simp add: batcher_ok_def respond_all_def)
  ultimately show ?thesis
    using respond_all_ok [OF i(2), of e] assms(2) flush_return_ready [OF respond_all_ready [OF i(4), of e]]
    by (simp add: rbus_inv_def Let_def)
qed

lemma rbus_inv_flush_begin:
  assumes r: "reg_inv b" and c: "calls_ok w (rb_pending b) (rb_resp b) (rb_queue b @ rb_batch b) (rb_out b) cls"
    and f: "rb_final b \<longrightarrow> rb_closed b" and rd: "ready_ok b"
  shows "rbus_inv w \<lparr>rs_bus = flush_begin w nonce b, rs_calls = cls\<rparr>"
proof (cases "rb_batch b = []")
  case True
  have "reg_inv (flush_return b)" by (rule reg_inv_frame [OF r]) (simp_all add: flush_frame)
  then show ?thesis using True c f flush_return_ready [OF rd] flush_return_ok [of b w] by (simp add: rbus_inv_def flush_begin_def)
next
  case False
  let ?p = "batch_payload nonce (unique_batch [] (rb_batch b))"
  show ?thesis
  proof (cases "wEncode w ?p")
    case (Inl e)
    have "reg_inv (flush_return (respond_all (Some e) b))" by (rule reg_inv_frame [OF r]) (simp_all add: flush_frame)
    moreover have "batcher_ok w (flush_return (respond_all (Some e) b))" using f by (intro flush_return_ok) (simp add: respond_all_def)
    ultimately show ?thesis
      using False Inl respond_all_ok [OF c, of "Some e"] flush_return_ready [OF respond_all_ready [OF rd, of "Some e"]]
      by (simp add: rbus_inv_def flush_begin_def Let_def)
  next
    case (Inr d)
    let ?b = "b\<lparr>rb_phase := Readying False (rb_client b) (rb_ready b) d\<rparr>"
    have "reg_inv ?b" by (rule reg_inv_frame [OF r]) simp_all
    moreover have "ready_ok ?b" using rd by (simp add: ready_ok_def)
    ultimately show ?thesis using False Inr c f batch_carries [OF Inr] by (simp add: rbus_inv_def flush_begin_def batcher_ok_def)
  qed
qed

lemma rbus_invD:
  assumes "rbus_inv w s"
  shows "reg_inv (rs_bus s)"
    and "calls_ok w (rb_pending (rs_bus s)) (rb_resp (rs_bus s)) (rb_queue (rs_bus s) @ rb_batch (rs_bus s)) (rb_out (rs_bus s)) (rs_calls s)"
    and "batcher_ok w (rs_bus s)" and "ready_ok (rs_bus s)"
  using assms by (simp_all add: rbus_inv_def Let_def)

lemma rbus_invI:
  "reg_inv b \<Longrightarrow> calls_ok w (rb_pending b) (rb_resp b) (rb_queue b @ rb_batch b) (rb_out b) (rs_calls s) \<Longrightarrow> batcher_ok w b \<Longrightarrow> ready_ok b \<Longrightarrow>
   rbus_inv w (s\<lparr>rs_bus := b\<rparr>)"
  by (simp add: rbus_inv_def Let_def)

lemma readyClient_cases:
  "readyClient cs rdy b = None \<or> (\<exists>e. readyClient cs rdy b = Some (Inl e)) \<or>
   cs = CaseReady \<and> rdy = rb_ready b \<and> readyClient cs rdy b = Some (Inr (rb_client b))"
  by (cases cs) (auto split: option.split)

lemma rbus_inv_published:
  assumes i: "rbus_inv w s" and ph: "rb_phase (rs_bus s) = Publishing again cl d"
  defines "b \<equiv> (rs_bus s)\<lparr>rb_out := rb_out (rs_bus s) @ [(cl, d)]\<rparr>"
  shows "rbus_inv w (s\<lparr>rs_bus := flush_return (respond_all None b)\<rparr>)"
proof (rule rbus_invI)
  note inv = rbus_invD [OF i]
  show "reg_inv (flush_return (respond_all None b))" by (rule reg_inv_frame [OF inv(1)]) (simp_all add: flush_frame b_def)
  from inv(3) ph obtain p where p: "wEncode w p = Inr d" "rq_key ` set (rb_batch b) \<subseteq> set (Keys p)"
    by (auto simp: batcher_ok_def carries_def b_def)
  have "published_key w (rb_out b) (rq_key rq)" if "rq \<in> set (rb_batch b)" for rq
    unfolding published_key_def using p that by (intro exI [of _ cl] exI [of _ d] exI [of _ p]) (auto simp: b_def)
  then have "calls_ok w (rb_pending (respond_all None b)) (rb_resp (respond_all None b)) (rb_queue (respond_all None b) @ rb_batch (respond_all None b))
      (rb_out (respond_all None b)) (rs_calls s)"
    using calls_ok_out [OF inv(2), of "(cl, d)"] by (intro respond_all_ok) (simp_all add: b_def)
  then show "calls_ok w (rb_pending (flush_return (respond_all None b))) (rb_resp (flush_return (respond_all None b)))
      (rb_queue (flush_return (respond_all None b)) @ rb_batch (flush_return (respond_all None b))) (rb_out (flush_return (respond_all None b))) (rs_calls s)"
    by simp
  have "ready_ok b" using inv(4) ph by (auto simp: ready_ok_def b_def)
  then show "ready_ok (flush_return (respond_all None b))" by (intro flush_return_ready respond_all_ready)
  show "batcher_ok w (flush_return (respond_all None b))"
    using inv(3) by (intro flush_return_ok) (simp add: batcher_ok_def respond_all_def b_def)
qed

lemma rbus_inv_reconnect:
  assumes i: "rbus_inv w s" and ph: "rb_phase (rs_bus s) = Failed d e" and cl: "\<not> rb_closed (rs_bus s)"
  shows "rbus_inv w (s\<lparr>rs_bus := (reconnect ok (rs_bus s))\<lparr>rb_phase := Readying True (Suc (rb_client (rs_bus s))) (Suc (rb_ready (rs_bus s))) d\<rparr>\<rparr>)"
    (is "rbus_inv w (s\<lparr>rs_bus := ?b\<rparr>)")
proof (rule rbus_invI)
  note inv = rbus_invD [OF i]
  show "reg_inv ?b" by (rule reg_inv_frame [OF reconnect_inv [OF inv(1), of ok]]) simp_all
  show "ready_ok ?b" using inv(4) unfolding ready_ok_def by auto
  show "batcher_ok w ?b" using inv(3) ph cl by (auto simp: batcher_ok_def)
qed (use rbus_invD(2) [OF i] in simp)

lemma rbus_inv_jitter:
  assumes i: "rbus_inv w s" and ph: "rb_phase (rs_bus s) = Jittering cl d"
  shows "rbus_inv w (s\<lparr>rs_bus := flush_return (rs_bus s)\<rparr>)"
proof (rule rbus_invI)
  note inv = rbus_invD [OF i]
  show "reg_inv (flush_return (rs_bus s))" by (rule reg_inv_frame [OF inv(1)]) (simp_all add: flush_frame)
  show "batcher_ok w (flush_return (rs_bus s))" using inv(3) ph by (intro flush_return_ok) (simp add: batcher_ok_def)
  show "ready_ok (flush_return (rs_bus s))" by (rule flush_return_ready [OF inv(4)])
qed (use rbus_invD(2) [OF i] in simp)

text \<open>Going on to another point of the flush.\<close>

lemma rbus_inv_phase:
  assumes i: "rbus_inv w s" and "batcher_ok w ((rs_bus s)\<lparr>rb_phase := ph\<rparr>)"
    and "\<And>again c d. ph = Publishing again c d \<or> ph = Jittering c d \<Longrightarrow> c \<in> set (rb_confirmed (rs_bus s))"
  shows "rbus_inv w (s\<lparr>rs_bus := (rs_bus s)\<lparr>rb_phase := ph\<rparr>\<rparr>)"
proof (rule rbus_invI)
  note inv = rbus_invD [OF i]
  show "reg_inv ((rs_bus s)\<lparr>rb_phase := ph\<rparr>)" by (rule reg_inv_frame [OF inv(1)]) simp_all
  show "ready_ok ((rs_bus s)\<lparr>rb_phase := ph\<rparr>)" using inv(4) assms(3) by (auto simp: ready_ok_def)
qed (use rbus_invD(2) [OF i] assms(2) in simp_all)

lemma rbus_inv_readying:
  assumes i: "rbus_inv w s" and ph: "rb_phase (rs_bus s) = Readying again c rdy d" and en: "ready_enabled cs rdy (rs_bus s)"
  shows "rbus_inv w (s\<lparr>rs_bus := batcher_step cs perr ok j done (rs_bus s)\<rparr>)"
proof -
  let ?b = "rs_bus s"
  note inv = rbus_invD [OF i]
  have on: "rbus_inv w (s\<lparr>rs_bus := ?b\<lparr>rb_phase := Readying again c' r' d\<rparr>\<rparr>)" "rbus_inv w (s\<lparr>rs_bus := ?b\<lparr>rb_phase := Failed d e\<rparr>\<rparr>)" for c' r' e
    using inv(3) ph by (auto simp: batcher_ok_def intro!: rbus_inv_phase [OF i])
  have go: "rbus_inv w (s\<lparr>rs_bus := ?b\<lparr>rb_phase := Publishing again c' d\<rparr>\<rparr>)" "again \<Longrightarrow> rbus_inv w (s\<lparr>rs_bus := ?b\<lparr>rb_phase := Jittering c' d\<rparr>\<rparr>)"
    if "c' \<in> set (rb_confirmed ?b)" for c'
    using inv(3) ph that by (auto simp: batcher_ok_def intro!: rbus_inv_phase [OF i])
  from readyClient_cases [of cs rdy ?b] consider (again) "readyClient cs rdy ?b = None" | (err) e where "readyClient cs rdy ?b = Some (Inl e)"
    | (client) "cs = CaseReady" "rdy = rb_ready ?b" "readyClient cs rdy ?b = Some (Inr (rb_client ?b))" by metis
  then show ?thesis
  proof cases
    case again
    then show ?thesis using ph on by (simp add: batcher_step_def)
  next
    case (err e)
    then show ?thesis using ph on rbus_inv_answer [OF i, of "Some e"] by (simp add: batcher_step_def)
  next
    case client
    then have "rb_client ?b \<in> set (rb_confirmed ?b)" using en inv(4) by (simp add: ready_ok_def)
    then show ?thesis using client ph go by (auto simp: batcher_step_def)
  qed
qed

lemma rbus_inv_batcher_step:
  assumes i: "rbus_inv w s" and en: "\<forall>again c rd d. rb_phase (rs_bus s) = Readying again c rd d \<longrightarrow> ready_enabled cs rd (rs_bus s)"
  shows "rbus_inv w (s\<lparr>rs_bus := batcher_step cs perr ok j done (rs_bus s)\<rparr>)"
proof (cases "rb_phase (rs_bus s)")
  case (Readying again cl rdy d)
  then show ?thesis using rbus_inv_readying [OF i Readying] en by blast
next
  case (Publishing again cl d)
  then have "rbus_inv w (s\<lparr>rs_bus := (rs_bus s)\<lparr>rb_phase := Failed d e\<rparr>\<rparr>)" for e
    using rbus_invD(3) [OF i] by (intro rbus_inv_phase [OF i]) (simp_all add: batcher_ok_def)
  then show ?thesis
    using Publishing rbus_inv_published [OF i Publishing] rbus_inv_answer [OF i, of perr]
    by (cases perr) (simp_all add: batcher_step_def)
next
  case (Failed d e)
  then show ?thesis
    using rbus_inv_reconnect [OF i Failed] rbus_inv_answer [OF i, of "Some e"] by (simp add: batcher_step_def Let_def)
next
  case (Jittering cl d)
  then have "rbus_inv w (s\<lparr>rs_bus := (rs_bus s)\<lparr>rb_phase := Publishing True cl d\<rparr>\<rparr>)"
    using rbus_invD(3,4) [OF i] by (intro rbus_inv_phase [OF i]) (auto simp: batcher_ok_def ready_ok_def)
  then show ?thesis using Jittering rbus_inv_jitter [OF i Jittering] by (simp add: batcher_step_def)
qed (use i in \<open>simp_all add: batcher_step_def\<close>)

lemma redis_offer_eq:
  "redis_offer ev cs b =
   b\<lparr>rb_reg := snd (reg_offer ev cs (rb_reg b)), rb_delivered := rb_delivered b + of_nat (fst (reg_offer ev cs (rb_reg b)))\<rparr>"
  by (simp add: redis_offer_def split: prod.split)

text \<open>What the goroutine of the global channel leaves alone.\<close>

lemma listener_frame:
  "rb_pending (listener_step w now rerr msg done b) = rb_pending b" "rb_resp (listener_step w now rerr msg done b) = rb_resp b"
  "rb_queue (listener_step w now rerr msg done b) = rb_queue b" "rb_batch (listener_step w now rerr msg done b) = rb_batch b"
  "rb_out (listener_step w now rerr msg done b) = rb_out b" "rb_final (listener_step w now rerr msg done b) = rb_final b"
  "rb_closed (listener_step w now rerr msg done b) = rb_closed b" "rb_phase (listener_step w now rerr msg done b) = rb_phase b"
  by (auto simp: listener_step_def deliver_event_def redis_offer_eq Let_def new_pubsub_def close_pubsub_def drop_globalSub_def mark_ready_def checkSeen_def
      split: listener.split option.split list.split)

lemma listener_ready:
  assumes "ready_ok b"
  shows "ready_ok (listener_step w now rerr msg done b)"
proof (cases "rb_gphase b")
  case (GDeliver c ps evs)
  show ?thesis
  proof (cases evs)
    case (Cons ev es)
    then show ?thesis using GDeliver assms by (simp add: listener_step_def ready_ok_def deliver_event_def redis_offer_eq)
  qed (use GDeliver assms in \<open>simp add: listener_step_def ready_ok_def\<close>)
next
  case (GConfirm c ps)
  then show ?thesis using assms by (cases rerr) (auto simp: listener_step_def ready_ok_def drop_globalSub_def close_pubsub_def)
next
  case (GConfirmed c ps)
  then show ?thesis using assms by (auto simp: listener_step_def ready_ok_def mark_ready_def)
next
  case (GListen c ps)
  then show ?thesis using assms
    by (auto simp: listener_step_def ready_ok_def close_pubsub_def drop_globalSub_def checkSeen_def split: option.split)
qed (use assms in \<open>auto simp: listener_step_def ready_ok_def Let_def new_pubsub_def close_pubsub_def\<close>)

lemma rbus_inv_listener:
  assumes "rbus_inv w s"
  shows "rbus_inv w (s\<lparr>rs_bus := listener_step w now rerr msg done (rs_bus s)\<rparr>)"
  using rbus_invD [OF assms] listener_ready [of "rs_bus s"] listener_step_reg [of "rs_bus s"] batcher_ok_frame [of w "rs_bus s"]
  by (intro rbus_invI) (simp_all add: listener_frame)

lemma redis_Close_frame:
  "\<exists>ps os r. snd (redis_Close b) = b\<lparr>rb_closed := True, rb_globalCancel := False, rb_globalSub := None, rb_ps := ps, rb_orphans := os, rb_reg := r\<rparr>"
proof -
  let ?b1 = "b\<lparr>rb_closed := True, rb_globalCancel := False\<rparr>"
  define b2 where "b2 = (case rb_globalSub b of Some ps \<Rightarrow> (close_pubsub ps ?b1)\<lparr>rb_globalSub := None\<rparr> | None \<Rightarrow> ?b1)"
  obtain ps where f: "fold (\<lambda>(h, cs). close_pubsub (rh_pubsub h)) (map snd (sr_subs (rb_reg b2))) b2 = b2\<lparr>rb_ps := ps\<rparr>"
    using close_pubsubs_frame by blast
  have b2: "b2 = b\<lparr>rb_closed := True, rb_globalCancel := False, rb_globalSub := None, rb_ps := rb_ps b2\<rparr>"
    by (auto simp: b2_def close_pubsub_def split: option.split)
  have "snd (redis_Close b) = b2\<lparr>rb_ps := ps, rb_orphans := rb_orphans b2 @ map snd (sr_subs (rb_reg b2)), rb_reg := (rb_reg b2)\<lparr>sr_subs := []\<rparr>\<rparr>"
    using f by (cases "rb_globalSub b") (simp_all add: redis_Close_def Let_def b2_def)
  then show ?thesis by (subst (asm) b2) auto
qed

lemma redis_Subscribe_frame: "\<exists>ps r n d. snd (redis_Subscribe rerr k b) = b\<lparr>rb_ps := ps, rb_reg := r, rb_nobjs := n, rb_disp := d\<rparr>"
  by (rule exI [of _ "rb_ps (snd (redis_Subscribe rerr k b))"], rule exI [of _ "rb_reg (snd (redis_Subscribe rerr k b))"],
      rule exI [of _ "rb_nobjs (snd (redis_Subscribe rerr k b))"], rule exI [of _ "rb_disp (snd (redis_Subscribe rerr k b))"])
    (auto simp: redis_Subscribe_def new_pubsub_def Let_def split: option.split prod.split)

lemma redis_Unsubscribe_frame: "\<exists>ps r. snd (redis_Unsubscribe cerr k c b) = b\<lparr>rb_ps := ps, rb_reg := r\<rparr>"
  by (rule exI [of _ "rb_ps (snd (redis_Unsubscribe cerr k c b))"], rule exI [of _ "rb_reg (snd (redis_Unsubscribe cerr k c b))"])
    (auto simp: redis_Unsubscribe_def close_pubsub_def split: option.split prod.split)

lemma dispatch_message_frame: "\<exists>x r n. dispatch_message now p k h b = b\<lparr>rb_seen := x, rb_reg := r, rb_delivered := n\<rparr>"
  by (rule exI [of _ "rb_seen (dispatch_message now p k h b)"], rule exI [of _ "rb_reg (dispatch_message now p k h b)"],
      rule exI [of _ "rb_delivered (dispatch_message now p k h b)"])
    (simp add: dispatch_message_def checkSeen_def redis_offer_eq)

lemma rbus_inv_registry:
  assumes "rbus_inv w s" and "reg_inv b" and "b = (rs_bus s)\<lparr>rb_ps := ps, rb_reg := r, rb_nobjs := n, rb_disp := d\<rparr>"
  shows "rbus_inv w (s\<lparr>rs_bus := b\<rparr>)"
  by (rule rbus_inv_frame [OF assms(1,2)]) (simp_all add: assms(3))

lemma rbus_inv_publish:
  assumes "rbus_inv w s" and "redis_publish_begin k (rs_bus s) = (Some i, b)"
  shows "rbus_inv w \<lparr>rs_bus = b, rs_calls = rs_calls s @ [\<lparr>cl_key = k, cl_opts = opts, cl_resp = i, cl_sent = False\<rparr>]\<rparr>"
proof -
  note inv = rbus_invD [OF assms(1)]
  from assms(2) have n: "gm_get (rb_pending (rs_bus s)) k = None" and i: "i = length (rb_resp (rs_bus s))"
    and b: "b = (rs_bus s)\<lparr>rb_pending := gm_put (rb_pending (rs_bus s)) k (), rb_resp := rb_resp (rs_bus s) @ [make_chan 1]\<rparr>"
    by (cases "gm_get (rb_pending (rs_bus s)) k"; auto simp: redis_publish_begin_def split: if_splits)+
  have "reg_inv b" by (rule reg_inv_frame [OF inv(1)]) (simp_all add: b)
  moreover have "batcher_ok w b" by (rule batcher_ok_frame [OF inv(3)]) (simp_all add: b)
  moreover have "ready_ok b" by (rule ready_ok_frame [OF inv(4)]) (simp_all add: b)
  ultimately show ?thesis using calls_begin [OF inv(2) n, of opts] by (simp add: rbus_inv_def Let_def b i)
qed

lemma rbus_inv_calls:
  assumes "rbus_inv w s" and "calls_ok w (rb_pending b) (rb_resp b) (rb_queue b @ rb_batch b) (rb_out b) cls"
    and "b = (rs_bus s)\<lparr>rb_pending := pend, rb_resp := resp, rb_queue := q, rb_published := n\<rparr>"
  shows "rbus_inv w \<lparr>rs_bus = b, rs_calls = cls\<rparr>"
proof -
  note inv = rbus_invD [OF assms(1)]
  have "reg_inv b" by (rule reg_inv_frame [OF inv(1)]) (simp_all add: assms(3))
  moreover have "batcher_ok w b" by (rule batcher_ok_frame [OF inv(3)]) (simp_all add: assms(3))
  moreover have "ready_ok b" by (rule ready_ok_frame [OF inv(4)]) (simp_all add: assms(3))
  ultimately show ?thesis using assms(2) by (simp add: rbus_inv_def Let_def)
qed

lemma rbus_inv_return:
  assumes i: "rbus_inv w s" and c: "rs_calls s = cs1 @ c # cs2" and r: "buf (rb_resp (rs_bus s) ! cl_resp c) \<noteq> []"
  shows "rbus_inv w \<lparr>rs_bus = snd (redis_publish_return (cl_key c) (cl_resp c) (rs_bus s)), rs_calls = cs1 @ cs2\<rparr>"
proof -
  let ?b = "rs_bus s"
  obtain e es where e: "buf (rb_resp ?b ! cl_resp c) = e # es" using r by (cases "buf (rb_resp ?b ! cl_resp c)") auto
  have b: "snd (redis_publish_return (cl_key c) (cl_resp c) ?b) = ?b\<lparr>rb_pending := gm_del (rb_pending ?b) (cl_key c),
      rb_resp := (rb_resp ?b)[cl_resp c := (rb_resp ?b ! cl_resp c)\<lparr>buf := es\<rparr>], rb_queue := rb_queue ?b,
      rb_published := if e = None then rb_published ?b + 1 else rb_published ?b\<rparr>"
    by (simp add: redis_publish_return_def e cleanup_def Let_def)
  show ?thesis
    by (rule rbus_inv_calls [OF i _ b])
      (use calls_return [OF rbus_invD(2) [OF i, unfolded c] r, of "(rb_resp ?b ! cl_resp c)\<lparr>buf := es\<rparr>"] in \<open>simp add: b\<close>)
qed

lemma rs_bus_update: "s\<lparr>rs_bus := b\<rparr> = \<lparr>rs_bus = b, rs_calls = rs_calls s\<rparr>"
  by simp

lemma rbus_inv_request:
  assumes i: "rbus_inv w s" and ph: "rb_phase (rs_bus s) = AtSelect"
  shows "rbus_inv w (s\<lparr>rs_bus := batcher_request w nonce (rs_bus s)\<rparr>)"
proof (cases "rb_queue (rs_bus s)")
  case (Cons rq rqs)
  let ?b = "(rs_bus s)\<lparr>rb_queue := rqs, rb_batch := rb_batch (rs_bus s) @ [rq]\<rparr>"
  note inv = rbus_invD [OF i]
  have c: "calls_ok w (rb_pending ?b) (rb_resp ?b) (rb_queue ?b @ rb_batch ?b) (rb_out ?b) (rs_calls s)"
    using calls_ok_mset [OF inv(2), of "rqs @ rb_batch (rs_bus s) @ [rq]"] by (simp add: Cons)
  have r: "reg_inv ?b" by (rule reg_inv_frame [OF inv(1)]) simp_all
  have rd: "ready_ok ?b" by (rule ready_ok_frame [OF inv(4)]) simp_all
  have f: "rb_final ?b \<longrightarrow> rb_closed ?b" and bt: "batcher_ok w ?b" using inv(3) ph by (simp_all add: batcher_ok_def)
  have "rbus_inv w (s\<lparr>rs_bus := ?b\<rparr>)" using r c bt rd by (rule rbus_invI)
  then show ?thesis
    using rbus_inv_flush_begin [OF r c f rd, of nonce] unfolding rs_bus_update by (simp add: batcher_request_def Cons Let_def)
qed (use i in \<open>simp add: batcher_request_def\<close>)

lemma rbus_inv_tick:
  assumes "rbus_inv w s"
  shows "rbus_inv w (s\<lparr>rs_bus := batcher_tick w nonce (rs_bus s)\<rparr>)"
  using rbus_inv_flush_begin [OF rbus_invD(1,2) [OF assms] _ rbus_invD(4) [OF assms], of nonce] rbus_invD(3) [OF assms]
  unfolding rs_bus_update batcher_tick_def by (simp add: batcher_ok_def)

lemma rbus_inv_close:
  assumes i: "rbus_inv w s" and "rb_closed (rs_bus s)"
  shows "rbus_inv w (s\<lparr>rs_bus := batcher_close w nonce (rs_bus s)\<rparr>)"
proof -
  let ?b = "(rs_bus s)\<lparr>rb_final := True\<rparr>"
  note inv = rbus_invD [OF i]
  have "reg_inv ?b" by (rule reg_inv_frame [OF inv(1)]) simp_all
  moreover have "ready_ok ?b" by (rule ready_ok_frame [OF inv(4)]) simp_all
  ultimately show ?thesis
    using rbus_inv_flush_begin [of ?b w "rs_calls s" nonce] inv(2) assms(2) unfolding rs_bus_update batcher_close_def by simp
qed

lemma rbus_step_inv:
  assumes "rbus_step w s s'" and i: "rbus_inv w s"
  shows "rbus_inv w s'"
  using assms(1)
proof cases
  case (publish k i b opts)
  then show ?thesis using rbus_inv_publish [OF i] by simp
next
  case (send cs1 c cs2)
  let ?rq = "\<lparr>rq_key = cl_key c, rq_opts = cl_opts c, rq_resp = cl_resp c\<rparr>"
  have "calls_ok w (rb_pending (rs_bus s)) (rb_resp (rs_bus s)) (rb_queue (rs_bus s) @ ?rq # rb_batch (rs_bus s)) (rb_out (rs_bus s)) (cs1 @ c\<lparr>cl_sent := True\<rparr> # cs2)"
    by (rule calls_ok_mset [OF calls_send [OF rbus_invD(2) [OF i, unfolded send(2)] send(3)]]) simp
  then show ?thesis unfolding send(1) redis_publish_send_def
    by (intro rbus_inv_calls [OF i, where pend = "rb_pending (rs_bus s)" and resp = "rb_resp (rs_bus s)" and n = "rb_published (rs_bus s)"]) simp_all
next
  case (return cs1 c cs2)
  then show ?thesis using rbus_inv_return [OF i] by simp
next
  case (cancel cs1 c cs2 e)
  have "calls_ok w (gm_del (rb_pending (rs_bus s)) (cl_key c)) (rb_resp (rs_bus s)) (rb_queue (rs_bus s) @ rb_batch (rs_bus s)) (rb_out (rs_bus s)) (cs1 @ cs2)"
    by (rule calls_drop [OF rbus_invD(2) [OF i, unfolded cancel(2)]])
  then show ?thesis unfolding cancel(1) redis_publish_cancel_def cleanup_def
    by (intro rbus_inv_calls [OF i, where resp = "rb_resp (rs_bus s)" and q = "rb_queue (rs_bus s)" and n = "rb_published (rs_bus s)"]) simp_all
next
  case (await res uuid k replicas opts)
  show ?thesis unfolding await
    by (rule rbus_inv_frame [OF i reg_inv_frame [OF rbus_invD(1) [OF i]]]) (simp_all add: redis_PublishAndAwait_def Let_def split: sum.split)
next
  case (request nonce)
  then show ?thesis using rbus_inv_request [OF i] by simp
next
  case (ticker nonce)
  then show ?thesis using rbus_inv_tick [OF i] by simp
next
  case (closing nonce)
  then show ?thesis using rbus_inv_close [OF i] by simp
next
  case (flushing cs "done" perr ok j)
  then show ?thesis using rbus_inv_batcher_step [OF i] by simp
next
  case (listening "done" now rerr msg)
  then show ?thesis using rbus_inv_listener [OF i] by simp
next
  case (message k h now payload)
  obtain x r n where e: "dispatch_message now payload k h (rs_bus s) = (rs_bus s)\<lparr>rb_seen := x, rb_reg := r, rb_delivered := n\<rparr>"
    using dispatch_message_frame by blast
  show ?thesis unfolding message(1)
    by (rule rbus_inv_frame [OF i dispatch_message_inv [OF rbus_invD(1) [OF i]]]) (simp_all add: e)
next
  case (forget now)
  show ?thesis unfolding forget
    by (rule rbus_inv_frame [OF i reg_inv_frame [OF rbus_invD(1) [OF i]]]) (simp_all add: cleanupSeen_tick_def)
next
  case (subscribe rerr k)
  obtain ps r n d where "snd (redis_Subscribe rerr k (rs_bus s)) = (rs_bus s)\<lparr>rb_ps := ps, rb_reg := r, rb_nobjs := n, rb_disp := d\<rparr>"
    using redis_Subscribe_frame by blast
  from rbus_inv_registry [OF i redis_Subscribe_inv [OF rbus_invD(1) [OF i]] this] show ?thesis by (simp add: subscribe)
next
  case (unsubscribe cerr k c)
  obtain ps r where e: "snd (redis_Unsubscribe cerr k c (rs_bus s)) = (rs_bus s)\<lparr>rb_ps := ps, rb_reg := r\<rparr>"
    using redis_Unsubscribe_frame by blast
  show ?thesis unfolding unsubscribe
    by (rule rbus_inv_frame [OF i redis_Unsubscribe_inv [OF rbus_invD(1) [OF i]]]) (simp_all add: e)
next
  case (consume c)
  have "reg_inv ((rs_bus s)\<lparr>rb_reg := snd (reg_receive c (rb_reg (rs_bus s)))\<rparr>)" by (rule reg_receive_inv [OF rbus_invD(1) [OF i]])
  then show ?thesis unfolding consume by (rule rbus_inv_frame [OF i]) simp_all
next
  case close
  obtain ps os r where e: "snd (redis_Close (rs_bus s)) =
      (rs_bus s)\<lparr>rb_closed := True, rb_globalCancel := False, rb_globalSub := None, rb_ps := ps, rb_orphans := os, rb_reg := r\<rparr>"
    using redis_Close_frame by blast
  show ?thesis unfolding close by (rule rbus_inv_frame [OF i redis_Close_inv [OF rbus_invD(1) [OF i]]]) (simp_all add: e)
qed

lemma rbus_reach_inv: "rbus_reach w s \<Longrightarrow> rbus_inv w s"
proof (induct rule: rbus_reach.induct)
  case init
  show ?case
    by (simp add: rbus_inv_def NewRedisBus_def reg_inv_def orphans_ok_def orphan_chans_def calls_ok_def batcher_ok_def ready_ok_def)
next
  case (step s s')
  then show ?case using rbus_step_inv by blast
qed

section \<open>Delivering a batch\<close>

lemma find_unique_batch: "k \<notin> set seen \<Longrightarrow> find (\<lambda>rq. rq_key rq = k) (unique_batch seen rqs) = find (\<lambda>rq. rq_key rq = k) rqs"
  by (induct rqs arbitrary: seen) auto

lemma unique_batch_distinct: "distinct (map rq_key (unique_batch seen rqs))"
proof (induct rqs arbitrary: seen)
  case (Cons rq rqs)
  then show ?case using unique_batch_keys [of "rq_key rq # seen" rqs] by auto
qed simp

definition request_event :: "publishReq \<Rightarrow> event" where
  "request_event rq = \<lparr>evKey = rq_key rq, evRegion = oRegion (rq_opts rq), evVectorClock = oVectorClock (rq_opts rq), evScope = oScope (rq_opts rq)\<rparr>"

lemma find_request_event:
  "find (\<lambda>ev. evKey ev = k) (map request_event rqs) = map_option request_event (find (\<lambda>rq. rq_key rq = k) rqs)"
  by (induct rqs) (simp_all add: request_event_def)

lemma batch_events_payload: "batch_events (batch_payload nonce rqs) = map request_event rqs"
  by (rule nth_equalityI) (simp_all add: batch_events_def batch_payload_def request_event_def)

lemma deliver_event_reg:
  assumes "reg_inv b"
  shows "rb_reg (deliver_event ev b) = (rb_reg b)\<lparr>sr_chans := offered ev (set (reg_chans (evKey ev) (rb_reg b))) (sr_chans (rb_reg b))\<rparr>"
  using assms reg_offer_eq [of "rb_reg b" ev "evKey ev"] by (simp add: deliver_event_def redis_offer_eq reg_inv_def)

text \<open>A channel gets the event of its key, if it has room, and nothing else.\<close>

lemma deliver_events:
  assumes "reg_inv b" and "distinct (map evKey evs)" and "ch \<in> set (reg_chans k (rb_reg b))"
  shows "sr_chans (rb_reg (fold deliver_event evs b)) ! ch =
    (case find (\<lambda>ev. evKey ev = k) evs of
       Some ev \<Rightarrow> if chan_ready (sr_chans (rb_reg b) ! ch) then push ev (sr_chans (rb_reg b) ! ch) else sr_chans (rb_reg b) ! ch
     | None \<Rightarrow> sr_chans (rb_reg b) ! ch)"
  using assms
proof (induct evs arbitrary: b)
  case (Cons ev evs)
  let ?b = "deliver_event ev b"
  have w: "subreg_wf (rb_reg b)" using Cons.prems(1) by (simp add: reg_inv_def)
  have i: "reg_inv ?b" by (rule deliver_event_inv [OF Cons.prems(1)])
  have r: "rb_reg ?b = (rb_reg b)\<lparr>sr_chans := offered ev (set (reg_chans (evKey ev) (rb_reg b))) (sr_chans (rb_reg b))\<rparr>"
    by (rule deliver_event_reg [OF Cons.prems(1)])
  have l: "ch < length (sr_chans (rb_reg b))" by (rule subreg_wfD(4) [OF w Cons.prems(3)])
  have k: "ch \<in> set (reg_chans (evKey ev) (rb_reg b)) \<longleftrightarrow> evKey ev = k" using Cons.prems(3) subreg_wfD(3) [OF w Cons.prems(3), of "evKey ev"] by blast
  have n: "find (\<lambda>e. evKey e = k) evs = None" if "evKey ev = k"
    using Cons.prems(2) that by (auto simp: find_None_iff image_iff)
  have "ch \<in> set (reg_chans k (rb_reg ?b))" using Cons.prems(3) by (simp add: r)
  then have h: "sr_chans (rb_reg (fold deliver_event evs ?b)) ! ch = (case find (\<lambda>ev. evKey ev = k) evs of
      Some ev \<Rightarrow> if chan_ready (sr_chans (rb_reg ?b) ! ch) then push ev (sr_chans (rb_reg ?b) ! ch) else sr_chans (rb_reg ?b) ! ch
    | None \<Rightarrow> sr_chans (rb_reg ?b) ! ch)" using Cons.hyps [OF i] Cons.prems(2) by simp
  have c: "sr_chans (rb_reg ?b) ! ch = (if evKey ev = k \<and> chan_ready (sr_chans (rb_reg b) ! ch) then push ev (sr_chans (rb_reg b) ! ch) else sr_chans (rb_reg b) ! ch)"
    using k l by (simp add: r)
  show ?case
  proof (cases "evKey ev = k")
    case True
    then show ?thesis using n by (simp add: h c)
  next
    case False
    then have e: "sr_chans (rb_reg ?b) ! ch = sr_chans (rb_reg b) ! ch" by (simp add: c)
    show ?thesis using False h unfolding e by simp
  qed
qed simp

lemma listener_delivers:
  "rb_gphase b = GDeliver c ps evs \<Longrightarrow>
   ((listener_step w now None None False) ^^ Suc (length evs)) b = (fold deliver_event evs b)\<lparr>rb_gphase := GListen c ps\<rparr>"
proof (induct evs arbitrary: b)
  case (Cons ev evs)
  let ?b = "listener_step w now None None False b"
  have b: "?b = (deliver_event ev b)\<lparr>rb_gphase := GDeliver c ps evs\<rparr>" using Cons.prems by (simp add: listener_step_def)
  have g: "deliver_event e (b1\<lparr>rb_gphase := x\<rparr>) = (deliver_event e b1)\<lparr>rb_gphase := x\<rparr>" for e b1 x
    by (simp add: deliver_event_def redis_offer_eq)
  have f: "fold deliver_event es (b1\<lparr>rb_gphase := x\<rparr>) = (fold deliver_event es b1)\<lparr>rb_gphase := x\<rparr>" for es b1 x
    by (induct es arbitrary: b1) (simp_all add: g)
  have "((listener_step w now None None False) ^^ Suc (length evs)) ?b = (fold deliver_event evs ?b)\<lparr>rb_gphase := GListen c ps\<rparr>"
    by (rule Cons.hyps) (simp add: b)
  then show ?case by (simp add: b f funpow_swap1)
qed (simp add: listener_step_def)

lemma fold_deliver_seen: "rb_seen (fold deliver_event evs b) = rb_seen b"
  by (induct evs arbitrary: b) (simp_all add: deliver_event_def redis_offer_eq)

section \<open>A stopped batcher\<close>

lemma step_stopped:
  assumes "rbus_step w s s'" and "rb_phase (rs_bus s) = Stopped"
  shows "rb_phase (rs_bus s') = Stopped \<and> set (rb_queue (rs_bus s)) \<subseteq> set (rb_queue (rs_bus s'))"
  using assms(1)
proof cases
  case (publish k i b opts)
  then show ?thesis using assms(2) by (auto simp: redis_publish_begin_def split: if_splits)
next
  case (return cs1 c cs2)
  then show ?thesis using assms(2) by (auto simp: redis_publish_return_def cleanup_def Let_def split: list.splits)
next
  case (await res uuid k replicas opts)
  then show ?thesis using assms(2) by (auto simp: redis_PublishAndAwait_def Let_def split: sum.split)
next
  case (message k h now payload)
  then show ?thesis using assms(2) dispatch_message_frame [of now payload k h "rs_bus s"] by auto
next
  case (subscribe rerr k)
  then show ?thesis using assms(2) redis_Subscribe_frame [of rerr k "rs_bus s"] by auto
next
  case (unsubscribe cerr k c)
  then show ?thesis using assms(2) redis_Unsubscribe_frame [of cerr k c "rs_bus s"] by auto
next
  case close
  then show ?thesis using assms(2) redis_Close_frame [of "rs_bus s"] by auto
qed (use assms(2) in \<open>auto simp: redis_publish_send_def redis_publish_cancel_def cleanup_def batcher_step_def cleanupSeen_tick_def listener_frame\<close>)

lemma steps_stopped:
  assumes "(rbus_step w)\<^sup>*\<^sup>* s s'" and "rb_phase (rs_bus s) = Stopped"
  shows "rb_phase (rs_bus s') = Stopped \<and> set (rb_queue (rs_bus s)) \<subseteq> set (rb_queue (rs_bus s'))"
  using assms(1)
proof (induct rule: rtranclp_induct)
  case (step s1 s2)
  then show ?case using step_stopped [OF step.hyps(2)] by blast
qed (use assms(2) in simp)

lemma reach_steps: "(rbus_step w)\<^sup>*\<^sup>* s s' \<Longrightarrow> rbus_reach w s \<Longrightarrow> rbus_reach w s'"
  by (induct rule: rtranclp_induct) (auto intro: rbus_reach.step)

section \<open>A run\<close>

text \<open>A key is published and answered on a bus that has a subscriber and is connected.\<close>

definition run_request :: publishReq where
  "run_request = \<lparr>rq_key = ''k'', rq_opts = publish_opts [WithRegion ''eu''], rq_resp = 0\<rparr>"

definition run_wire :: wire where
  "run_wire = \<lparr>wEncode = (\<lambda>p. Inr ''payload''), wDecode = (\<lambda>d. Some (batch_payload ''n'' [run_request]))\<rparr>"

definition sent_call :: redis_call where
  "sent_call = \<lparr>cl_key = ''k'', cl_opts = publish_opts [WithRegion ''eu''], cl_resp = 0, cl_sent = False\<rparr>"

definition run_connected :: redis_bus where
  "run_connected = snd (redis_Subscribe None ''k'' ((listener_step run_wire 0 None None False ^^ 4) NewRedisBus))"

lemma run_connected_simps [simp]:
  "rb_gphase run_connected = GListen 0 0" "rb_pending run_connected = []" "rb_resp run_connected = []" "rb_queue run_connected = []"
  "rb_batch run_connected = []" "rb_phase run_connected = AtSelect" "rb_final run_connected = False" "rb_closed run_connected = False"
  "rb_client run_connected = 0" "rb_ready run_connected = 0" "rb_readied run_connected = [0]" "rb_out run_connected = []"
  "rb_confirmed run_connected = [0]" "rb_seen run_connected = []" "reg_chans ''k'' (rb_reg run_connected) = [0]"
  "sr_chans (rb_reg run_connected) = [make_chan 1]"
  by (simp_all add: run_connected_def numeral_eq_Suc listener_step_def NewRedisBus_def new_pubsub_def mark_ready_def redis_Subscribe_def
      reg_empty_def reg_add_def reg_chans_def Let_def)

lemma run_connected_reach: "rbus_reach run_wire \<lparr>rs_bus = run_connected, rs_calls = []\<rparr>"
proof -
  have l: "rbus_reach run_wire \<lparr>rs_bus = (listener_step run_wire 0 None None False ^^ n) NewRedisBus, rs_calls = []\<rparr>" for n
  proof (induct n)
    case (Suc n)
    show ?case using rbus_reach.step [OF Suc rbus_step.listening [of False, where now = 0 and rerr = None and msg = None]] by simp
  qed (simp add: rbus_reach.init)
  show ?thesis unfolding run_connected_def using rbus_reach.step [OF l rbus_step.subscribe [where rerr = None and k = "''k''"], of 4] by simp
qed

definition run_sent :: redis_bus where
  "run_sent = run_connected\<lparr>rb_pending := [(''k'', ())], rb_resp := [make_chan 1], rb_queue := [run_request]\<rparr>"

lemma run_sent_reach: "rbus_reach run_wire \<lparr>rs_bus = run_sent, rs_calls = [sent_call\<lparr>cl_sent := True\<rparr>]\<rparr>"
proof -
  let ?b = "run_connected\<lparr>rb_pending := [(''k'', ())], rb_resp := [make_chan 1]\<rparr>"
  have "redis_publish_begin ''k'' run_connected = (Some 0, ?b)" by (simp add: redis_publish_begin_def)
  with rbus_reach.step [OF run_connected_reach rbus_step.publish [of "''k''" _ 0 ?b _ "[WithRegion ''eu'']"]]
  have "rbus_reach run_wire \<lparr>rs_bus = ?b, rs_calls = [sent_call]\<rparr>" by (simp add: sent_call_def)
  from rbus_reach.step [OF this rbus_step.send [of _ "[]" sent_call "[]"]] show ?thesis
    by (simp add: sent_call_def redis_publish_send_def run_sent_def run_request_def)
qed

definition run_answered :: redis_bus where
  "run_answered = run_sent\<lparr>rb_queue := [], rb_resp := [push None (make_chan 1)], rb_out := [(0, ''payload'')]\<rparr>"

lemma run_answered_reach: "rbus_reach run_wire \<lparr>rs_bus = run_answered, rs_calls = [sent_call\<lparr>cl_sent := True\<rparr>]\<rparr>"
proof -
  let ?s = "\<lambda>b. \<lparr>rs_bus = b, rs_calls = [sent_call\<lparr>cl_sent := True\<rparr>]\<rparr>"
  let ?b1 = "run_sent\<lparr>rb_queue := [], rb_batch := [run_request]\<rparr>"
  let ?b2 = "?b1\<lparr>rb_phase := Readying False 0 0 ''payload''\<rparr>"
  let ?b3 = "?b1\<lparr>rb_phase := Publishing False 0 ''payload''\<rparr>"
  have "rbus_step run_wire (?s run_sent) (?s ?b1)"
    using rbus_step.request [of "?s run_sent" run_wire "''n''"] by (simp add: batcher_request_def run_sent_def batchThreshold_def)
  moreover have "rbus_step run_wire (?s ?b1) (?s ?b2)"
    using rbus_step.ticker [of "?s ?b1" run_wire "''n''"] by (simp add: batcher_tick_def flush_begin_def run_sent_def run_wire_def)
  moreover have "rbus_step run_wire (?s ?b2) (?s ?b3)"
    using rbus_step.flushing [of "?s ?b2" CaseReady False run_wire None "\<lambda>_. True" 0] by (simp add: batcher_step_def run_sent_def)
  moreover have "batcher_step CaseReady None (\<lambda>_. True) 0 False ?b3 = run_answered"
    by (rule redis_bus.equality) (simp_all add: batcher_step_def run_sent_def run_answered_def flush_return_def respond_all_def run_request_def)
  then have "rbus_step run_wire (?s ?b3) (?s run_answered)"
    using rbus_step.flushing [of "?s ?b3" CaseReady False run_wire None "\<lambda>_. True" 0] by simp
  ultimately show ?thesis using run_sent_reach by (blast intro: rbus_reach.step)
qed

section \<open>Properties\<close>





text \<open>
  What a batch carries reaches the subscribers: when the payload of a flush of the
  requests \<open>rqs\<close> arrives and was not seen before, the goroutine of the global channel
  leaves every channel with room that subscribes to the key of a request with the
  event of the first request of that key - its region, vector clock and scope - and
  every channel of another key as it was.
\<close>

theorem redis_batch_delivers:
  fixes now :: time
  assumes "rbus_reach w s" and "rb_gphase (rs_bus s) = GListen c ps" and "gm_get (rb_seen (rs_bus s)) payload = None"
    and "wDecode w payload = Some (batch_payload nonce (unique_batch [] rqs))"
    and "ch \<in> set (reg_chans k (rb_reg (rs_bus s)))" and "chan_ready (sr_chans (rb_reg (rs_bus s)) ! ch)"
  defines "received \<equiv> listener_step w now None (Some payload) False (rs_bus s)"
    and "deliver \<equiv> (listener_step w now None None False ^^ Suc (length (unique_batch [] rqs)))"
  shows "rb_gphase (deliver received) = GListen c ps \<and>
    sr_chans (rb_reg (deliver received)) ! ch =
      (case find (\<lambda>rq. rq_key rq = k) rqs of
         Some rq \<Rightarrow> push (request_event rq) (sr_chans (rb_reg (rs_bus s)) ! ch)
       | None \<Rightarrow> sr_chans (rb_reg (rs_bus s)) ! ch)"
proof -
  let ?b = "rs_bus s" and ?u = "unique_batch [] rqs"
  have i: "reg_inv ?b" by (rule rbus_invD(1) [OF rbus_reach_inv [OF assms(1)]])
  have r: "rb_gphase received = GDeliver c ps (map request_event ?u)" "rb_reg received = rb_reg ?b" "rb_orphans received = rb_orphans ?b"
    using assms(2-4) by (simp_all add: received_def listener_step_def checkSeen_def batch_events_payload)
  have ir: "reg_inv received" by (rule reg_inv_frame [OF i r(2,3)])
  have d: "deliver received = (fold deliver_event (map request_event ?u) received)\<lparr>rb_gphase := GListen c ps\<rparr>"
    using listener_delivers [OF r(1), of w now] by (simp add: deliver_def)
  have "evKey \<circ> request_event = rq_key" by (simp add: request_event_def fun_eq_iff)
  then have "distinct (map evKey (map request_event ?u))" using unique_batch_distinct [of "[]" rqs] by simp
  note e = deliver_events [OF ir this, of ch k, unfolded r(2), OF assms(5)]
  have "find (\<lambda>ev. evKey ev = k) (map request_event ?u) = map_option request_event (find (\<lambda>rq. rq_key rq = k) rqs)"
    by (simp add: find_request_event find_unique_batch)
  with e show ?thesis using assms(6) by (simp add: d split: option.split)
qed

theorem redis_batch_delivers_witness:
  "sr_chans (rb_reg ((listener_step run_wire 0 None None False ^^ 2) (listener_step run_wire 0 None (Some ''payload'') False run_answered))) ! 0
     = push (request_event run_request) (make_chan 1)"
proof -
  have d: "wDecode run_wire ''payload'' = Some (batch_payload ''n'' (unique_batch [] [run_request]))" by (simp add: run_wire_def)
  have g: "rb_gphase run_answered = GListen 0 0" "gm_get (rb_seen run_answered) ''payload'' = None" "0 \<in> set (reg_chans ''k'' (rb_reg run_answered))"
      "chan_ready (sr_chans (rb_reg run_answered) ! 0)" "sr_chans (rb_reg run_answered) ! 0 = make_chan 1"
    by (simp_all add: run_answered_def run_sent_def chan_ready_def make_chan_def)
  note w = redis_batch_delivers [OF run_answered_reach, unfolded rbus_sys.select_convs, OF g(1,2) d g(3,4), of 0, THEN conjunct2]
  have k: "find (\<lambda>rq. rq_key rq = ''k'') [run_request] = Some run_request" "Suc (length (unique_batch [] [run_request])) = 2"
    by (simp_all add: run_request_def)
  show ?thesis using w unfolding k g(5) by simp
qed

text \<open>
  C37. A request that is still in the queue when the batcher stops is never answered: it
  stays there, its channel stays empty, and the call of \<^verbatim>\<open>Publish\<close> that sent it
  returns only if its context ends.
\<close>

theorem redis_close_strands_requests:
  assumes "rbus_reach w s" and "rb_phase (rs_bus s) = Stopped" and "rq \<in> set (rb_queue (rs_bus s))" and "(rbus_step w)\<^sup>*\<^sup>* s s'"
  shows "rq \<in> set (rb_queue (rs_bus s')) \<and> buf (rb_resp (rs_bus s') ! rq_resp rq) = []"
proof -
  have q: "rq \<in> set (rb_queue (rs_bus s'))" using steps_stopped [OF assms(4,2)] assms(3) by blast
  moreover have "rb_resp (rs_bus s') ! rq_resp rq = make_chan 1"
    using rbus_invD(2) [OF rbus_reach_inv [OF reach_steps [OF assms(4,1)]]] q unfolding calls_ok_def by simp
  ultimately show ?thesis by (simp add: make_chan_def)
qed

theorem redis_close_strands_requests_witness:
  "\<exists>s. rbus_reach run_wire s \<and> rb_phase (rs_bus s) = Stopped \<and> run_request \<in> set (rb_queue (rs_bus s)) \<and>
     buf (rb_resp (rs_bus s) ! rq_resp run_request) = []"
proof -
  let ?s = "\<lambda>b. \<lparr>rs_bus = b, rs_calls = [sent_call\<lparr>cl_sent := True\<rparr>]\<rparr>"
  define b where "b = snd (redis_Close run_sent)"
  have c: "rb_phase b = AtSelect" "rb_closed b" "rb_batch b = []" "rb_queue b = [run_request]"
    using redis_Close_frame [of run_sent] by (auto simp: b_def run_sent_def)
  have "\<not> rb_closed run_sent" by (simp add: run_sent_def)
  then have "rbus_reach run_wire (?s b)" using rbus_reach.step [OF run_sent_reach rbus_step.close] by (simp add: b_def)
  then have r: "rbus_reach run_wire (?s (batcher_close run_wire ''n'' b))"
    using rbus_reach.step [OF _ rbus_step.closing [of "?s b" run_wire "''n''"]] c by simp
  have p: "rb_phase (batcher_close run_wire ''n'' b) = Stopped" "run_request \<in> set (rb_queue (batcher_close run_wire ''n'' b))"
    using c by (simp_all add: batcher_close_def flush_begin_def flush_return_def)
  show ?thesis
    using redis_close_strands_requests [OF r, of run_request "?s (batcher_close run_wire ''n'' b)"] r p
    by (intro exI [of _ "?s (batcher_close run_wire ''n'' b)"]) simp
qed

end
