(* ===== verification/Kafka_Bus.thy ===== *)
theory Kafka_Bus
  imports Bus_Registry
begin

text \<open>
  The bus over Kafka (src/syncbus/kafka/kafka.go).

  The Sarama library is the environment: whether the client, the producer, the consumer
  and a partition consumer can be made, and whether a message is accepted, are
  arguments of the sections of code that depend on them. \<open>kb_log\<close> are the topics of the
  messages the brokers accepted and \<open>kb_pcs\<close> the partition consumers made so far, of
  which a number says which; \<open>kb_misused\<close> records a message given to a producer that was
  closed.

  A call of \<^verbatim>\<open>Publish\<close> that has not returned is a \<open>kafka_call\<close> at one of the points at
  which other goroutines may run, and \<open>kafka_step\<close> is their interleaving.
\<close>

section \<open>The bus\<close>

record kafka_bus =
  kb_reg :: "nat subreg"
  kb_pcs :: "bool list"
  kb_disp :: "(key \<times> nat) list"
  kb_pending :: "unit gomap"
  kb_published :: u64
  kb_delivered :: u64
  kb_closed :: bool
  kb_wg :: nat
  kb_producer :: bool
  kb_consumer :: bool
  kb_log :: "key list"
  kb_misused :: bool

text \<open>
  The constructor: the error or the bus, and which of client and producer it leaves
  open. The three arguments are the errors of the library's constructors.
\<close>

definition NewKafkaBus ::
    "go_error option \<Rightarrow> go_error option \<Rightarrow> go_error option \<Rightarrow> (go_error + kafka_bus) \<times> bool \<times> bool" where
  "NewKafkaBus client producer consumer =
     (case client of
        Some e \<Rightarrow> (Inl e, False, False)
      | None \<Rightarrow>
          (case producer of
             Some e \<Rightarrow> (Inl e, False, False)
           | None \<Rightarrow>
               (case consumer of
                  Some e \<Rightarrow> (Inl e, False, False)
                | None \<Rightarrow>
                    (Inr \<lparr>kb_reg = reg_empty, kb_pcs = [], kb_disp = [], kb_pending = [], kb_published = 0, kb_delivered = 0,
                       kb_closed = False, kb_wg = 0, kb_producer = True, kb_consumer = True, kb_log = [], kb_misused = False\<rparr>,
                     True, True))))"

section \<open>Publishing\<close>

datatype kafka_phase =
    KJitter
  | KSend
  | KCount
  | KDelete "go_error option"
  | KDone "go_error option"

text \<open>The first critical section: the call returns at once or goes on.\<close>

datatype kafka_begin = Returns "go_error option" | GoesOn

definition kafka_publish_begin :: "key \<Rightarrow> kafka_bus \<Rightarrow> kafka_begin \<times> kafka_bus" where
  "kafka_publish_begin k b =
     (if kb_closed b then (Returns (Some (ErrOther ''kafka bus closed'')), b)
      else if gm_get (kb_pending b) k \<noteq> None then (Returns None, b)
      else (GoesOn, b\<lparr>kb_pending := gm_put (kb_pending b) k (), kb_wg := kb_wg b + 1\<rparr>))"

text \<open>
  The rest, by the point where the call is: \<open>ctxerr\<close> is the error of the context when its
  case of the \<^verbatim>\<open>select\<close> is taken, \<open>senderr\<close> the answer of the producer.
\<close>

fun kafka_publish_step ::
    "go_error option \<Rightarrow> go_error option \<Rightarrow> key \<Rightarrow> kafka_phase \<Rightarrow> kafka_bus \<Rightarrow> kafka_phase \<times> kafka_bus" where
  "kafka_publish_step ctxerr senderr k KJitter b =
     (case ctxerr of Some e \<Rightarrow> (KDelete (Some e), b) | None \<Rightarrow> (KSend, b))"
| "kafka_publish_step ctxerr senderr k KSend b =
     (let b1 = b\<lparr>kb_misused := kb_misused b \<or> \<not> kb_producer b\<rparr>
      in case senderr of
           Some e \<Rightarrow> (KDelete (Some e), b1)
         | None \<Rightarrow> (KCount, b1\<lparr>kb_log := kb_log b1 @ [k]\<rparr>))"
| "kafka_publish_step ctxerr senderr k KCount b = (KDelete None, b\<lparr>kb_published := kb_published b + 1\<rparr>)"
| "kafka_publish_step ctxerr senderr k (KDelete e) b = (KDone e, b\<lparr>kb_pending := gm_del (kb_pending b) k\<rparr>)"
| "kafka_publish_step ctxerr senderr k (KDone e) b = (KDone e, b)"

definition kafka_publish_return :: "kafka_bus \<Rightarrow> kafka_bus" where
  "kafka_publish_return b = b\<lparr>kb_wg := kb_wg b - 1\<rparr>"

text \<open>What \<^verbatim>\<open>PublishAndAwait\<close> does before it calls \<^verbatim>\<open>Publish\<close>.\<close>

definition kafka_PublishAndAwait :: "key \<Rightarrow> int \<Rightarrow> kafka_bus \<Rightarrow> kafka_begin \<times> kafka_bus" where
  "kafka_PublishAndAwait k replicas b =
     (if replicas \<le> 1 then kafka_publish_begin k b else (Returns (Some ErrQuorumUnsupported), b))"

definition kafka_PublishAndAwaitTopology :: "key \<Rightarrow> int \<Rightarrow> kafka_bus \<Rightarrow> go_error option \<times> kafka_bus" where
  "kafka_PublishAndAwaitTopology k minZones b = (Some ErrQuorumUnsupported, b)"

definition kafka_RevokeLease where
  "kafka_RevokeLease idn b = kafka_publish_begin (lease_key idn) b"

section \<open>Subscribing and receiving\<close>

definition kafka_Subscribe :: "go_error option \<Rightarrow> key \<Rightarrow> kafka_bus \<Rightarrow> (go_error + chan_id) \<times> kafka_bus" where
  "kafka_Subscribe perr k b =
     (case gm_get (sr_subs (kb_reg b)) k of
        None \<Rightarrow>
          (case perr of
             Some e \<Rightarrow> (Inl e, b)
           | None \<Rightarrow>
               (let pc = length (kb_pcs b)
                in case reg_add 1 pc k (kb_reg b) of
                     (c, r) \<Rightarrow> (Inr c, b\<lparr>kb_pcs := kb_pcs b @ [True], kb_reg := r, kb_disp := kb_disp b @ [(k, pc)]\<rparr>)))
      | Some (pc, cs) \<Rightarrow> (case reg_add 1 pc k (kb_reg b) of (c, r) \<Rightarrow> (Inr c, b\<lparr>kb_reg := r\<rparr>)))"

text \<open>
  The channels of the subscription a goroutine \<^verbatim>\<open>dispatch\<close> was started with: one that was
  dropped from the map has none left.
\<close>

definition pc_chans :: "key \<Rightarrow> nat \<Rightarrow> kafka_bus \<Rightarrow> chan_id list" where
  "pc_chans k pc b =
     (case gm_get (sr_subs (kb_reg b)) k of Some (pc', cs) \<Rightarrow> if pc' = pc then cs else [] | None \<Rightarrow> [])"

definition kafka_dispatch :: "key \<Rightarrow> nat \<Rightarrow> kafka_bus \<Rightarrow> kafka_bus" where
  "kafka_dispatch k pc b =
     (case reg_offer (key_event k) (pc_chans k pc b) (kb_reg b) of
        (n, r) \<Rightarrow> b\<lparr>kb_reg := r, kb_delivered := kb_delivered b + of_nat n\<rparr>)"

definition kafka_Unsubscribe :: "go_error option \<Rightarrow> key \<Rightarrow> chan_id \<Rightarrow> kafka_bus \<Rightarrow> go_error option \<times> kafka_bus" where
  "kafka_Unsubscribe cerr k c b =
     (case reg_remove swap_remove k c (kb_reg b) of
        (None, r) \<Rightarrow> (None, b\<lparr>kb_reg := r\<rparr>)
      | (Some pc, r) \<Rightarrow> (cerr, b\<lparr>kb_reg := r, kb_pcs := (kb_pcs b)[pc := False]\<rparr>))"

definition kafka_SubscribeLease where
  "kafka_SubscribeLease perr idn b = kafka_Subscribe perr (lease_key idn) b"

definition kafka_UnsubscribeLease where
  "kafka_UnsubscribeLease cerr idn c b = kafka_Unsubscribe cerr (lease_key idn) c b"

section \<open>Metrics and closing\<close>

definition kafka_Metrics :: "kafka_bus \<Rightarrow> bus_metrics" where
  "kafka_Metrics b = \<lparr>Published = kb_published b, Delivered = kb_delivered b\<rparr>"

definition kafka_IsHealthy :: "kafka_bus \<Rightarrow> bool" where
  "kafka_IsHealthy b = True"

definition kafka_Peers :: "kafka_bus \<Rightarrow> string list" where
  "kafka_Peers b = []"

text \<open>\<^verbatim>\<open>Close\<close> up to \<^verbatim>\<open>wg.Wait\<close>, which it reaches if the first result is true, and after it.\<close>

definition kafka_close_begin :: "kafka_bus \<Rightarrow> bool \<times> kafka_bus" where
  "kafka_close_begin b = (if kb_closed b then (False, b) else (True, b\<lparr>kb_closed := True\<rparr>))"

definition kafka_close_finish :: "kafka_bus \<Rightarrow> kafka_bus" where
  "kafka_close_finish b = b\<lparr>kb_producer := False, kb_consumer := False\<rparr>"

section \<open>Interleavings\<close>

record kafka_call =
  kc_key :: key
  kc_phase :: kafka_phase

record kafka_sys =
  ks_bus :: kafka_bus
  ks_calls :: "kafka_call list"
  ks_closing :: bool

inductive kafka_step :: "kafka_sys \<Rightarrow> kafka_sys \<Rightarrow> bool" where
  publish: "kafka_publish_begin k (ks_bus s) = (GoesOn, b) \<Longrightarrow>
     kafka_step s (s\<lparr>ks_bus := b, ks_calls := ks_calls s @ [\<lparr>kc_key = k, kc_phase = KJitter\<rparr>]\<rparr>)"
| move: "ks_calls s = cs1 @ c # cs2 \<Longrightarrow> kafka_publish_step ctxerr senderr (kc_key c) (kc_phase c) (ks_bus s) = (ph, b) \<Longrightarrow>
     kafka_step s (s\<lparr>ks_bus := b, ks_calls := cs1 @ c\<lparr>kc_phase := ph\<rparr> # cs2\<rparr>)"
| return: "ks_calls s = cs1 @ c # cs2 \<Longrightarrow> kc_phase c = KDone e \<Longrightarrow>
     kafka_step s (s\<lparr>ks_bus := kafka_publish_return (ks_bus s), ks_calls := cs1 @ cs2\<rparr>)"
| subscribe: "kafka_step s (s\<lparr>ks_bus := snd (kafka_Subscribe perr k (ks_bus s))\<rparr>)"
| unsubscribe: "kafka_step s (s\<lparr>ks_bus := snd (kafka_Unsubscribe cerr k c (ks_bus s))\<rparr>)"
| message: "(k, pc) \<in> set (kb_disp (ks_bus s)) \<Longrightarrow> kafka_step s (s\<lparr>ks_bus := kafka_dispatch k pc (ks_bus s)\<rparr>)"
| consume: "kafka_step s (s\<lparr>ks_bus := (ks_bus s)\<lparr>kb_reg := snd (reg_receive c (kb_reg (ks_bus s)))\<rparr>\<rparr>)"
| close: "kafka_close_begin (ks_bus s) = (waits, b) \<Longrightarrow>
     kafka_step s (s\<lparr>ks_bus := b, ks_closing := ks_closing s \<or> waits\<rparr>)"
| closed: "ks_closing s \<Longrightarrow> kb_wg (ks_bus s) = 0 \<Longrightarrow>
     kafka_step s (s\<lparr>ks_bus := kafka_close_finish (ks_bus s), ks_closing := False\<rparr>)"

inductive kafka_reach :: "kafka_sys \<Rightarrow> bool" where
  init: "fst (NewKafkaBus c p q) = Inr b \<Longrightarrow> kafka_reach \<lparr>ks_bus = b, ks_calls = [], ks_closing = False\<rparr>"
| step: "kafka_reach s \<Longrightarrow> kafka_step s s' \<Longrightarrow> kafka_reach s'"

text \<open>The calls whose key is marked: those that have not deleted the mark.\<close>

fun marked_phase :: "kafka_phase \<Rightarrow> bool" where
  "marked_phase (KDone e) = False"
| "marked_phase _ = True"

definition marked_keys :: "kafka_call list \<Rightarrow> key list" where
  "marked_keys cls = map kc_key (filter (\<lambda>c. marked_phase (kc_phase c)) cls)"

text \<open>Calls that are past the send but have not counted it.\<close>

definition uncounted :: "kafka_call list \<Rightarrow> nat" where
  "uncounted cls = length (filter (\<lambda>c. kc_phase c = KCount) cls)"

definition kafka_inv :: "kafka_sys \<Rightarrow> bool" where
  "kafka_inv s \<longleftrightarrow> (let b = ks_bus s in
     subreg_wf (kb_reg b) \<and> marks (kb_pending b) (marked_keys (ks_calls s)) \<and> kb_wg b = length (ks_calls s) \<and>
     of_nat (length (kb_log b)) = kb_published b + of_nat (uncounted (ks_calls s)) \<and>
     (ks_closing s \<longrightarrow> kb_closed b) \<and> (\<not> kb_producer b \<longrightarrow> kb_closed b \<and> ks_calls s = []) \<and> \<not> kb_misused b)"

lemma marked_keys_append [simp]: "marked_keys (xs @ ys) = marked_keys xs @ marked_keys ys"
  by (simp add: marked_keys_def)

lemma uncounted_append [simp]: "uncounted (xs @ ys) = uncounted xs + uncounted ys"
  by (simp add: uncounted_def)

lemma marked_keys_Cons [simp]: "marked_keys (c # cs) = (if marked_phase (kc_phase c) then kc_key c # marked_keys cs else marked_keys cs)"
  by (simp add: marked_keys_def)

lemma uncounted_Cons [simp]: "uncounted (c # cs) = (if kc_phase c = KCount then Suc (uncounted cs) else uncounted cs)"
  by (simp add: uncounted_def)

lemma marked_uncounted_Nil [simp]: "marked_keys [] = []" "uncounted [] = 0"
  by (simp_all add: marked_keys_def uncounted_def)

lemma pc_chans_subset: "pc_chans k pc b = reg_chans k (kb_reg b) \<or> pc_chans k pc b = []"
  by (simp add: pc_chans_def reg_chans_def split: option.split)

lemma kafka_dispatch_wf:
  assumes "subreg_wf (kb_reg b)"
  shows "subreg_wf (kb_reg (kafka_dispatch k pc b))"
proof -
  have "kb_reg (kafka_dispatch k pc b) = snd (reg_offer (key_event k) (pc_chans k pc b) (kb_reg b))"
    by (simp add: kafka_dispatch_def split: prod.split)
  moreover have "reg_offer ev [] (kb_reg b) = (0, kb_reg b)" for ev by (simp add: reg_offer_def)
  ultimately show ?thesis using pc_chans_subset [of k pc b] subreg_wf_offer [OF assms] assms by auto
qed

lemma kafka_step_inv:
  assumes "kafka_step s s'" and "kafka_inv s"
  shows "kafka_inv s'"
  using assms
proof cases
  case (publish k b)
  then have n: "gm_get (kb_pending (ks_bus s)) k = None" and
    b: "b = (ks_bus s)\<lparr>kb_pending := gm_put (kb_pending (ks_bus s)) k (), kb_wg := kb_wg (ks_bus s) + 1\<rparr>" and c: "\<not> kb_closed (ks_bus s)"
    by (cases "gm_get (kb_pending (ks_bus s)) k"; auto simp: kafka_publish_begin_def split: if_splits)+
  then show ?thesis using assms(2) publish(1) marks_put [OF _ n] by (auto simp: kafka_inv_def Let_def)
next
  case (move cs1 c cs2 ctxerr senderr ph b)
  then show ?thesis using assms(2) marks_del [of "kb_pending (ks_bus s)" "marked_keys cs1" "kc_key c" "marked_keys cs2"]
    by (cases "kc_phase c"; cases ctxerr; cases senderr) (auto simp: kafka_inv_def Let_def)
next
  case (return cs1 c cs2 e)
  then show ?thesis using assms(2) by (auto simp: kafka_inv_def Let_def kafka_publish_return_def)
next
  case (subscribe perr k)
  have w: "subreg_wf (kb_reg (ks_bus s))" using assms(2) by (simp add: kafka_inv_def Let_def)
  have "\<exists>h. kb_reg (snd (kafka_Subscribe perr k (ks_bus s))) = kb_reg (ks_bus s) \<or>
      kb_reg (snd (kafka_Subscribe perr k (ks_bus s))) = snd (reg_add 1 h k (kb_reg (ks_bus s)))"
    by (auto simp: kafka_Subscribe_def Let_def reg_add_def split: option.split)
  then have "subreg_wf (kb_reg (snd (kafka_Subscribe perr k (ks_bus s))))" using w subreg_wf_add [OF w] by (elim exE disjE) simp_all
  then show ?thesis using assms(2) subscribe
    by (auto simp: kafka_inv_def Let_def kafka_Subscribe_def split: option.splits prod.splits)
next
  case (unsubscribe cerr k c)
  have "kb_reg (snd (kafka_Unsubscribe cerr k c (ks_bus s))) = snd (reg_remove swap_remove k c (kb_reg (ks_bus s)))"
    by (auto simp: kafka_Unsubscribe_def split: option.split prod.split)
  then have "subreg_wf (kb_reg (snd (kafka_Unsubscribe cerr k c (ks_bus s))))"
    using assms(2) subreg_wf_intros(6) by (auto simp: kafka_inv_def Let_def)
  then show ?thesis using assms(2) unsubscribe
    by (auto simp: kafka_inv_def Let_def kafka_Unsubscribe_def split: option.splits prod.splits)
next
  case (message k pc)
  have "subreg_wf (kb_reg (kafka_dispatch k pc (ks_bus s)))" using assms(2) by (intro kafka_dispatch_wf) (simp add: kafka_inv_def Let_def)
  then show ?thesis using assms(2) message by (auto simp: kafka_inv_def Let_def kafka_dispatch_def split: prod.splits)
next
  case (consume c)
  then show ?thesis using assms(2) subreg_wf_receive by (auto simp: kafka_inv_def Let_def)
next
  case (close waits b)
  then show ?thesis using assms(2) by (auto simp: kafka_inv_def Let_def kafka_close_begin_def split: if_splits)
next
  case closed
  then show ?thesis using assms(2) by (auto simp: kafka_inv_def Let_def kafka_close_finish_def)
qed

lemma kafka_reach_inv: "kafka_reach s \<Longrightarrow> kafka_inv s"
proof (induct rule: kafka_reach.induct)
  case (init c p q b)
  then show ?case by (auto simp: NewKafkaBus_def kafka_inv_def split: option.splits)
next
  case (step s s')
  then show ?case using kafka_step_inv by blast
qed

lemma kafka_dispatch_effect:
  assumes "subreg_wf (kb_reg b)" and "gm_get (sr_subs (kb_reg b)) k = Some (pc, cs)"
  shows "kb_reg (kafka_dispatch k pc b) = (kb_reg b)\<lparr>sr_chans := offered (key_event k) (set cs) (sr_chans (kb_reg b))\<rparr>"
proof -
  have "pc_chans k pc b = reg_chans k (kb_reg b)" "reg_chans k (kb_reg b) = cs" using assms(2) by (simp_all add: pc_chans_def reg_chans_def)
  then show ?thesis using reg_offer_eq [OF assms(1), of "key_event k" k] by (simp add: kafka_dispatch_def)
qed

section \<open>A run\<close>

definition kafka_new :: kafka_bus where
  "kafka_new = (case fst (NewKafkaBus None None None) of Inr b \<Rightarrow> b | Inl e \<Rightarrow> undefined)"

definition kafka_sending :: kafka_sys where
  "kafka_sending = \<lparr>ks_bus = kafka_new\<lparr>kb_pending := [(''k'', ())], kb_wg := 1, kb_closed := True\<rparr>,
     ks_calls = [\<lparr>kc_key = ''k'', kc_phase = KSend\<rparr>], ks_closing = True\<rparr>"

lemma kafka_new_eq: "kafka_new = \<lparr>kb_reg = reg_empty, kb_pcs = [], kb_disp = [], kb_pending = [], kb_published = 0, kb_delivered = 0,
    kb_closed = False, kb_wg = 0, kb_producer = True, kb_consumer = True, kb_log = [], kb_misused = False\<rparr>"
  by (simp add: kafka_new_def NewKafkaBus_def)

text \<open>A call that is about to send when \<^verbatim>\<open>Close\<close> begins.\<close>

lemma kafka_sending_reach: "kafka_reach kafka_sending"
proof -
  let ?s0 = "\<lparr>ks_bus = kafka_new, ks_calls = [], ks_closing = False\<rparr>"
  let ?b1 = "kafka_new\<lparr>kb_pending := [(''k'', ())], kb_wg := 1\<rparr>"
  let ?s1 = "\<lambda>ph. \<lparr>ks_bus = ?b1, ks_calls = [\<lparr>kc_key = ''k'', kc_phase = ph\<rparr>], ks_closing = False\<rparr>"
  have "kafka_reach ?s0" using kafka_reach.init [of None None None kafka_new] by (simp add: kafka_new_def NewKafkaBus_def)
  moreover have "kafka_step ?s0 (?s1 KJitter)"
    using kafka_step.publish [of "''k''" ?s0 ?b1] by (simp add: kafka_publish_begin_def kafka_new_eq)
  moreover have "kafka_step (?s1 KJitter) (?s1 KSend)"
    using kafka_step.move [of "?s1 KJitter" "[]" "\<lparr>kc_key = ''k'', kc_phase = KJitter\<rparr>" "[]" None None] by simp
  moreover have "kafka_step (?s1 KSend) kafka_sending"
    using kafka_step.close [of "?s1 KSend" True "?b1\<lparr>kb_closed := True\<rparr>"]
    by (simp add: kafka_close_begin_def kafka_sending_def kafka_new_eq)
  ultimately show ?thesis by (blast intro: kafka_reach.step)
qed

section \<open>Properties\<close>

text \<open>
  C10. \<^verbatim>\<open>Close\<close> of the Kafka bus drains: in every interleaving no message is given to a
  producer that is closed, and once it is closed no call of \<^verbatim>\<open>Publish\<close> is under way and
  none can begin. Until then a key is pending exactly while one call of \<^verbatim>\<open>Publish\<close> has
  not deleted its mark, and the counter of published messages is what the brokers
  accepted, up to the calls that are about to count.
\<close>

theorem kafka_close_drains:
  assumes "kafka_reach s"
  defines "b \<equiv> ks_bus s"
  shows "\<not> kb_misused b \<and> (\<not> kb_producer b \<longrightarrow> ks_calls s = [] \<and> (\<exists>e. kafka_publish_begin k b = (Returns (Some e), b))) \<and>
    (gm_get (kb_pending b) k \<noteq> None \<longleftrightarrow> k \<in> set (marked_keys (ks_calls s))) \<and> distinct (marked_keys (ks_calls s)) \<and>
    of_nat (length (kb_log b)) = Published (kafka_Metrics b) + of_nat (uncounted (ks_calls s)) \<and> \<not> sr_panicked (kb_reg b)"
proof -
  have i: "kafka_inv s" by (rule kafka_reach_inv [OF assms(1)])
  then have "\<not> sr_panicked (kb_reg b)" by (intro subreg_wfD(6)) (simp add: kafka_inv_def Let_def b_def)
  then show ?thesis using i by (auto simp: kafka_inv_def Let_def b_def marks_def kafka_publish_begin_def kafka_Metrics_def)
qed

theorem kafka_close_drains_witness:
  "gm_get (kb_pending (ks_bus kafka_sending)) ''k'' \<noteq> None \<and> distinct (marked_keys (ks_calls kafka_sending)) \<and> \<not> kb_misused (ks_bus kafka_sending)"
proof -
  note p = kafka_close_drains [OF kafka_sending_reach, of "''k''"]
  have "''k'' \<in> set (marked_keys (ks_calls kafka_sending))" by (simp add: kafka_sending_def)
  then show ?thesis using p by metis
qed

end
