(* ===== verification/NATS_Bus.thy ===== *)
theory NATS_Bus
  imports Bus_Registry
begin

text \<open>
  The bus over NATS (src/syncbus/nats/nats.go).

  The NATS library is the environment: what publishing, subscribing, flushing and
  connecting answer are arguments of the sections of code that depend on them. A
  connection and a subscription of the library are numbers, a new one whenever the
  code makes one; \<open>nb_live\<close> are the subscriptions that have not been cancelled, with
  their connection and key, because the connection that \<^verbatim>\<open>reconnect\<close> replaces is not
  closed and may deliver again. \<open>nb_log\<close> are the messages published.

  A call of \<^verbatim>\<open>Publish\<close> that has not returned is a \<open>nbus_call\<close> at one of the points at
  which other goroutines may run, a timer of \<^verbatim>\<open>time.AfterFunc\<close> that has not fired is the
  key it deletes, and \<open>nbus_step\<close> is their interleaving. The loops of \<^verbatim>\<open>Publish\<close> and
  \<^verbatim>\<open>Subscribe\<close> are also functions of their own, which may not return.
\<close>

section \<open>The bus\<close>

record nats_bus =
  nb_conn :: nat
  nb_conns :: nat
  nb_reg :: "nat subreg"
  nb_nsubs :: nat
  nb_live :: "(nat \<times> nat \<times> key) list"
  nb_pending :: "unit gomap"
  nb_processed :: "unit gomap"
  nb_published :: u64
  nb_delivered :: u64
  nb_log :: "(key \<times> string) list"

definition NewNATSBus :: nats_bus where
  "NewNATSBus = \<lparr>nb_conn = 0, nb_conns = 1, nb_reg = reg_empty, nb_nsubs = 0, nb_live = [], nb_pending = [],
     nb_processed = [], nb_published = 0, nb_delivered = 0, nb_log = []\<rparr>"

text \<open>\<^verbatim>\<open>conn.Subscribe\<close> and \<^verbatim>\<open>Unsubscribe\<close> of a subscription.\<close>

definition conn_Subscribe :: "nat \<Rightarrow> key \<Rightarrow> nats_bus \<Rightarrow> nat \<times> nats_bus" where
  "conn_Subscribe conn k b = (nb_nsubs b, b\<lparr>nb_nsubs := Suc (nb_nsubs b), nb_live := (nb_nsubs b, conn, k) # nb_live b\<rparr>)"

definition sub_Unsubscribe :: "nat \<Rightarrow> nats_bus \<Rightarrow> nats_bus" where
  "sub_Unsubscribe ns b = b\<lparr>nb_live := filter (\<lambda>(n, _). n \<noteq> ns) (nb_live b)\<rparr>"

text \<open>\<^verbatim>\<open>newConn.Close\<close> cancels the subscriptions of the connection.\<close>

definition conn_Close :: "nat \<Rightarrow> nats_bus \<Rightarrow> nats_bus" where
  "conn_Close conn b = b\<lparr>nb_live := filter (\<lambda>(_, c, _). c \<noteq> conn) (nb_live b)\<rparr>"

section \<open>Reconnecting\<close>

record nats_env =
  ne_connected :: bool
  ne_connect :: "go_error option"
  ne_subscribe :: "key \<Rightarrow> go_error option"
  ne_timeout :: duration
  ne_clock :: clock
  ne_flush :: "ctx \<Rightarrow> clock \<Rightarrow> go_error option"

text \<open>\<^verbatim>\<open>flush\<close>: the round trip to the server under the timeout of the connection's options.\<close>

definition nats_flush :: "nats_env \<Rightarrow> ctx \<Rightarrow> go_error option" where
  "nats_flush env ctx =
     (let timeout = (if ne_timeout env \<le> 0 then 2 * 10 ^ 9 else ne_timeout env)
      in ne_flush env (with_timeout ctx (ne_clock env 0) timeout) (tick 1 (ne_clock env)))"

text \<open>The loop over the keys: the new subscriptions, or the error of the first that fails.\<close>

fun resubscribe_all :: "(key \<Rightarrow> go_error option) \<Rightarrow> nat \<Rightarrow> key list \<Rightarrow> nats_bus \<Rightarrow> (go_error + (key \<times> nat) list) \<times> nats_bus" where
  "resubscribe_all err conn [] b = (Inr [], b)"
| "resubscribe_all err conn (k # ks) b =
     (case err k of
        Some e \<Rightarrow> (Inl e, b)
      | None \<Rightarrow>
          (case conn_Subscribe conn k b of
             (ns, b1) \<Rightarrow>
               (case resubscribe_all err conn ks b1 of
                  (Inl e, b2) \<Rightarrow> (Inl e, b2)
                | (Inr m, b2) \<Rightarrow> (Inr ((k, ns) # m), b2))))"

definition set_handle :: "key \<times> nat \<Rightarrow> nat subreg \<Rightarrow> nat subreg" where
  "set_handle = (\<lambda>(k, ns) r.
     case gm_get (sr_subs r) k of
       None \<Rightarrow> r
     | Some (h, cs) \<Rightarrow> r\<lparr>sr_subs := gm_put (sr_subs r) k (ns, cs)\<rparr>)"

definition nbus_reconnect :: "nats_env \<Rightarrow> nats_bus \<Rightarrow> (go_error option \<times> nat) \<times> nats_bus" where
  "nbus_reconnect env b =
     (if ne_connected env then ((None, nb_conn b), b)
      else case ne_connect env of
             Some e \<Rightarrow> ((Some e, nb_conn b), b)
           | None \<Rightarrow>
               (let newConn = nb_conns b; b1 = b\<lparr>nb_conns := Suc (nb_conns b)\<rparr>
                in case resubscribe_all (ne_subscribe env) newConn (gm_keys (sr_subs (nb_reg b1))) b1 of
                     (Inl e, b2) \<Rightarrow> ((Some e, nb_conn b2), conn_Close newConn b2)
                   | (Inr m, b2) \<Rightarrow>
                       (case nats_flush env background of
                          Some e \<Rightarrow> ((Some e, nb_conn b2), conn_Close newConn b2)
                        | None \<Rightarrow>
                            ((None, newConn), b2\<lparr>nb_conn := newConn, nb_reg := fold set_handle m (nb_reg b2)\<rparr>))))"

section \<open>Publishing\<close>

definition nbus_publish_begin :: "key \<Rightarrow> nats_bus \<Rightarrow> nat option \<times> nats_bus" where
  "nbus_publish_begin k b =
     (if gm_get (nb_pending b) k \<noteq> None then (None, b)
      else (Some (nb_conn b), b\<lparr>nb_pending := gm_put (nb_pending b) k ()\<rparr>))"

definition nbus_unmark :: "key \<Rightarrow> nats_bus \<Rightarrow> nats_bus" where
  "nbus_unmark k b = b\<lparr>nb_pending := gm_del (nb_pending b) k\<rparr>"

definition initial_backoff :: duration where
  "initial_backoff = 100 * 10 ^ 6"

definition next_backoff :: "duration \<Rightarrow> duration" where
  "next_backoff backoff =
     (if backoff < 10 ^ 9 then (if backoff * 2 > 10 ^ 9 then 10 ^ 9 else backoff * 2) else backoff)"

text \<open>A successful \<^verbatim>\<open>conn.Publish\<close> and the count after it.\<close>

definition nbus_publish_ok :: "key \<Rightarrow> string \<Rightarrow> nats_bus \<Rightarrow> nats_bus" where
  "nbus_publish_ok k idn b = b\<lparr>nb_log := nb_log b @ [(k, idn)], nb_published := nb_published b + 1\<rparr>"

text \<open>
  The loop: in its \<open>i\<close>-th iteration \<open>perr i\<close> is the answer of \<^verbatim>\<open>conn.Publish\<close>, \<open>env i\<close> what
  \<^verbatim>\<open>reconnect\<close> meets, and \<open>clk i\<close> the time at which the context is looked at. \<open>None\<close> is
  a loop that does not end.
\<close>

partial_function (option) publish_loop ::
    "(nat \<Rightarrow> go_error option) \<Rightarrow> (nat \<Rightarrow> nats_env) \<Rightarrow> ctx \<Rightarrow> clock \<Rightarrow> key \<Rightarrow> string \<Rightarrow> nat \<Rightarrow> nats_bus \<Rightarrow> (go_error option \<times> nats_bus) option" where
  "publish_loop perr env ctx clk k idn i b =
     (case perr i of
        None \<Rightarrow> Some (None, nbus_publish_ok k idn b)
      | Some e \<Rightarrow>
          (let b1 = snd (nbus_reconnect (env i) b)
           in case ctx (clk i) of
                Some e' \<Rightarrow> Some (Some e', nbus_unmark k b1)
              | None \<Rightarrow> publish_loop perr env ctx clk k idn (Suc i) b1))"

text \<open>
  \<^verbatim>\<open>Publish\<close> with no other goroutine in between: \<open>j\<close> is the jitter and \<open>jerr\<close> the error of
  the context when its case of that \<^verbatim>\<open>select\<close> is taken. The mark of a key that was
  published is deleted by the timer.
\<close>

definition nbus_Publish where
  "nbus_Publish perr env j jerr ctx clk k idn b =
     (case nbus_publish_begin k b of
        (None, b1) \<Rightarrow> Some (None, b1)
      | (Some conn, b1) \<Rightarrow>
          (case (if (j :: int) > 0 then jerr else None) of
             Some e \<Rightarrow> Some (Some e, nbus_unmark k b1)
           | None \<Rightarrow> publish_loop perr env ctx clk k idn 0 b1))"

text \<open>
  \<^verbatim>\<open>PublishAndAwait\<close>: \<open>deadline\<close> is the deadline of the context and \<open>ferr\<close> the answer of the
  flush, with its timeout if there is one.
\<close>

definition nbus_PublishAndAwait where
  "nbus_PublishAndAwait perr env j jerr ctx clk k idn (replicas :: int) deadline ferr b =
     (let n = (if replicas \<le> 0 then 1 else replicas)
      in if n > 1 then Some (Some ErrQuorumUnsupported, b)
         else case nbus_Publish perr env j jerr ctx (tick 1 clk) k idn b of
                None \<Rightarrow> None
              | Some (Some e, b1) \<Rightarrow> Some (Some e, b1)
              | Some (None, b1) \<Rightarrow>
                  (case deadline of
                     Some d \<Rightarrow> if d - clk 0 \<le> 0 then Some (ctx (clk 0), b1) else Some (ferr (Some (d - clk 0)), b1)
                   | None \<Rightarrow> Some (ferr None, b1)))"

definition nbus_PublishAndAwaitTopology :: "key \<Rightarrow> int \<Rightarrow> nats_bus \<Rightarrow> go_error option \<times> nats_bus" where
  "nbus_PublishAndAwaitTopology k minZones b = (Some ErrQuorumUnsupported, b)"

definition nbus_RevokeLease where
  "nbus_RevokeLease perr env j jerr ctx clk idn uuid b = nbus_Publish perr env j jerr ctx clk (lease_key idn) uuid b"

section \<open>Subscribing and receiving\<close>

text \<open>
  An iteration of the loop of \<^verbatim>\<open>Subscribe\<close> under the lock, and the channel when the loop
  is left; \<open>env\<close> is what the present connection answers.
\<close>

definition nbus_subscribe_attempt :: "nats_env \<Rightarrow> ctx \<Rightarrow> key \<Rightarrow> nats_bus \<Rightarrow> chan_id option \<times> nats_bus" where
  "nbus_subscribe_attempt env ctx k b =
     (case gm_get (sr_subs (nb_reg b)) k of
        Some (ns, cs) \<Rightarrow> (case reg_add 1 ns k (nb_reg b) of (c, r) \<Rightarrow> (Some c, b\<lparr>nb_reg := r\<rparr>))
      | None \<Rightarrow>
          (case ne_subscribe env k of
             Some e \<Rightarrow> (None, b)
           | None \<Rightarrow>
               (case conn_Subscribe (nb_conn b) k b of
                  (ns, b1) \<Rightarrow>
                    (case nats_flush env ctx of
                       None \<Rightarrow> (case reg_add 1 ns k (nb_reg b1) of (c, r) \<Rightarrow> (Some c, b1\<lparr>nb_reg := r\<rparr>))
                     | Some e \<Rightarrow> (None, sub_Unsubscribe ns b1)))))"

partial_function (option) subscribe_loop ::
    "(nat \<Rightarrow> nats_env) \<Rightarrow> (nat \<Rightarrow> nats_env) \<Rightarrow> ctx \<Rightarrow> clock \<Rightarrow> key \<Rightarrow> nat \<Rightarrow> nats_bus \<Rightarrow> ((go_error + chan_id) \<times> nats_bus) option" where
  "subscribe_loop senv env ctx clk k i b =
     (case nbus_subscribe_attempt (senv i) ctx k b of
        (Some c, b1) \<Rightarrow> Some (Inr c, b1)
      | (None, b1) \<Rightarrow>
          (let b2 = snd (nbus_reconnect (env i) b1)
           in case ctx (clk i) of
                Some e \<Rightarrow> Some (Inl e, b2)
              | None \<Rightarrow> subscribe_loop senv env ctx clk k (Suc i) b2))"

definition nbus_Subscribe where
  "nbus_Subscribe senv env ctx clk k b = subscribe_loop senv env ctx clk k 0 b"

definition nbus_Unsubscribe :: "go_error option \<Rightarrow> key \<Rightarrow> chan_id \<Rightarrow> nats_bus \<Rightarrow> go_error option \<times> nats_bus" where
  "nbus_Unsubscribe uerr k c b =
     (case reg_remove swap_remove k c (nb_reg b) of
        (None, r) \<Rightarrow> (None, b\<lparr>nb_reg := r\<rparr>)
      | (Some ns, r) \<Rightarrow> (uerr, sub_Unsubscribe ns (b\<lparr>nb_reg := r\<rparr>)))"

definition nbus_SubscribeLease where
  "nbus_SubscribeLease senv env ctx clk idn b = nbus_Subscribe senv env ctx clk (lease_key idn) b"

definition nbus_UnsubscribeLease where
  "nbus_UnsubscribeLease uerr idn c b = nbus_Unsubscribe uerr (lease_key idn) c b"

definition natsHandler :: "key \<Rightarrow> string \<Rightarrow> nats_bus \<Rightarrow> nats_bus" where
  "natsHandler k idn b =
     (if gm_get (nb_processed b) idn \<noteq> None then b
      else let b1 = b\<lparr>nb_processed := gm_put (nb_processed b) idn ()\<rparr>
           in case gm_get (sr_subs (nb_reg b1)) k of
                None \<Rightarrow> b1
              | Some (ns, cs) \<Rightarrow>
                  (case reg_offer (key_event k) cs (nb_reg b1) of
                     (n, r) \<Rightarrow> b1\<lparr>nb_reg := r, nb_delivered := nb_delivered b1 + of_nat n\<rparr>))"

definition nbus_IsHealthy :: "nats_bus \<Rightarrow> bool" where
  "nbus_IsHealthy b = True"

definition nbus_Peers :: "nats_bus \<Rightarrow> string list" where
  "nbus_Peers b = []"

definition nbus_Metrics :: "nats_bus \<Rightarrow> bus_metrics" where
  "nbus_Metrics b = \<lparr>Published = nb_published b, Delivered = nb_delivered b\<rparr>"

section \<open>Interleavings\<close>

datatype nbus_phase = NJitter | NTry | NBroken | NCheck

record nbus_call =
  nc_key :: key
  nc_id :: string
  nc_phase :: nbus_phase

record nbus_sys =
  ns_bus :: nats_bus
  ns_calls :: "nbus_call list"
  ns_timers :: "key list"

inductive nbus_step :: "nbus_sys \<Rightarrow> nbus_sys \<Rightarrow> bool" where
  publish: "nbus_publish_begin k (ns_bus s) = (Some conn, b) \<Longrightarrow>
     nbus_step s (s\<lparr>ns_bus := b, ns_calls := ns_calls s @ [\<lparr>nc_key = k, nc_id = idn, nc_phase = NJitter\<rparr>]\<rparr>)"
| jitter: "ns_calls s = cs1 @ c # cs2 \<Longrightarrow> nc_phase c = NJitter \<Longrightarrow>
     nbus_step s (s\<lparr>ns_calls := cs1 @ c\<lparr>nc_phase := NTry\<rparr> # cs2\<rparr>)"
| fail: "ns_calls s = cs1 @ c # cs2 \<Longrightarrow> nc_phase c = NTry \<Longrightarrow>
     nbus_step s (s\<lparr>ns_calls := cs1 @ c\<lparr>nc_phase := NBroken\<rparr> # cs2\<rparr>)"
| repair: "ns_calls s = cs1 @ c # cs2 \<Longrightarrow> nc_phase c = NBroken \<Longrightarrow>
     nbus_step s (s\<lparr>ns_bus := snd (nbus_reconnect env (ns_bus s)), ns_calls := cs1 @ c\<lparr>nc_phase := NCheck\<rparr> # cs2\<rparr>)"
| again: "ns_calls s = cs1 @ c # cs2 \<Longrightarrow> nc_phase c = NCheck \<Longrightarrow>
     nbus_step s (s\<lparr>ns_calls := cs1 @ c\<lparr>nc_phase := NTry\<rparr> # cs2\<rparr>)"
| cancel: "ns_calls s = cs1 @ c # cs2 \<Longrightarrow> nc_phase c \<in> {NJitter, NCheck} \<Longrightarrow>
     nbus_step s (s\<lparr>ns_bus := nbus_unmark (nc_key c) (ns_bus s), ns_calls := cs1 @ cs2\<rparr>)"
| sent: "ns_calls s = cs1 @ c # cs2 \<Longrightarrow> nc_phase c = NTry \<Longrightarrow>
     nbus_step s (s\<lparr>ns_bus := nbus_publish_ok (nc_key c) (nc_id c) (ns_bus s), ns_calls := cs1 @ cs2,
       ns_timers := ns_timers s @ [nc_key c]\<rparr>)"
| timer: "ns_timers s = ks1 @ k # ks2 \<Longrightarrow>
     nbus_step s (s\<lparr>ns_bus := nbus_unmark k (ns_bus s), ns_timers := ks1 @ ks2\<rparr>)"
| subscribe: "nbus_step s (s\<lparr>ns_bus := snd (nbus_subscribe_attempt env ctx k (ns_bus s))\<rparr>)"
| reconnect: "nbus_step s (s\<lparr>ns_bus := snd (nbus_reconnect env (ns_bus s))\<rparr>)"
| unsubscribe: "nbus_step s (s\<lparr>ns_bus := snd (nbus_Unsubscribe uerr k c (ns_bus s))\<rparr>)"
| message: "(ns, conn, k) \<in> set (nb_live (ns_bus s)) \<Longrightarrow> nbus_step s (s\<lparr>ns_bus := natsHandler k idn (ns_bus s)\<rparr>)"
| consume: "nbus_step s (s\<lparr>ns_bus := (ns_bus s)\<lparr>nb_reg := snd (reg_receive c (nb_reg (ns_bus s)))\<rparr>\<rparr>)"

inductive nbus_reach :: "nbus_sys \<Rightarrow> bool" where
  init: "nbus_reach \<lparr>ns_bus = NewNATSBus, ns_calls = [], ns_timers = []\<rparr>"
| step: "nbus_reach s \<Longrightarrow> nbus_step s s' \<Longrightarrow> nbus_reach s'"

section \<open>Subscriptions\<close>

text \<open>
  The entry of every key has a subscription of its own to that key on the present
  connection that has not been cancelled.
\<close>

definition live_ok :: "nats_bus \<Rightarrow> bool" where
  "live_ok b \<longleftrightarrow> distinct (map fst (nb_live b)) \<and> (\<forall>x \<in> set (nb_live b). fst x < nb_nsubs b \<and> fst (snd x) < nb_conns b) \<and>
     nb_conn b < nb_conns b \<and> (\<forall>k ns cs. gm_get (sr_subs (nb_reg b)) k = Some (ns, cs) \<longrightarrow> (ns, nb_conn b, k) \<in> set (nb_live b))"

definition subs_ok :: "nats_bus \<Rightarrow> bool" where
  "subs_ok b \<longleftrightarrow> subreg_wf (nb_reg b) \<and> live_ok b"

lemma subs_ok_frame:
  "subs_ok b \<Longrightarrow> nb_reg b' = nb_reg b \<Longrightarrow> nb_live b' = nb_live b \<Longrightarrow> nb_nsubs b' = nb_nsubs b \<Longrightarrow> nb_conns b' = nb_conns b \<Longrightarrow>
   nb_conn b' = nb_conn b \<Longrightarrow> subs_ok b'"
  unfolding subs_ok_def live_ok_def by simp

lemma live_fresh: "live_ok b \<Longrightarrow> nb_nsubs b \<notin> fst ` set (nb_live b)"
  unfolding live_ok_def by fastforce

lemma live_unique: "live_ok b \<Longrightarrow> (ns, c, k) \<in> set (nb_live b) \<Longrightarrow> (ns, c', k') \<in> set (nb_live b) \<Longrightarrow> c = c' \<and> k = k'"
  unfolding live_ok_def using eq_key_imp_eq_value [of "nb_live b" ns "(c, k)" "(c', k')"] by blast

lemma resubscribe_all_frame:
  assumes "resubscribe_all err conn ks b = (r, b')"
  shows "b' = b\<lparr>nb_live := nb_live b', nb_nsubs := nb_nsubs b'\<rparr>"
  using assms
proof (induct ks arbitrary: b r b')
  case (Cons k ks)
  let ?b1 = "b\<lparr>nb_nsubs := Suc (nb_nsubs b), nb_live := (nb_nsubs b, conn, k) # nb_live b\<rparr>"
  show ?case
  proof (cases "err k")
    case None
    obtain q b2 where q: "resubscribe_all err conn ks ?b1 = (q, b2)" by (meson surj_pair)
    then have "b' = b2" using Cons.prems None by (cases q) (auto simp: conn_Subscribe_def)
    then show ?thesis using Cons.hyps [OF q] by simp
  qed (use Cons.prems in simp)
qed simp

text \<open>The subscriptions the loop has made: new ones on the new connection.\<close>

lemma resubscribe_all_live:
  assumes "resubscribe_all err conn ks b = (r, b')" and "distinct (map fst (nb_live b))" and "\<forall>x \<in> set (nb_live b). fst x < nb_nsubs b"
  shows "distinct (map fst (nb_live b')) \<and> (\<forall>x \<in> set (nb_live b'). fst x < nb_nsubs b') \<and> nb_nsubs b \<le> nb_nsubs b' \<and>
    set (nb_live b) \<subseteq> set (nb_live b') \<and> (\<forall>x \<in> set (nb_live b'). x \<in> set (nb_live b) \<or> fst (snd x) = conn) \<and>
    (\<forall>m. r = Inr m \<longrightarrow> map fst m = ks \<and> (\<forall>x \<in> set m. (snd x, conn, fst x) \<in> set (nb_live b')))"
  using assms
proof (induct ks arbitrary: b r b')
  case (Cons k ks)
  let ?b1 = "b\<lparr>nb_nsubs := Suc (nb_nsubs b), nb_live := (nb_nsubs b, conn, k) # nb_live b\<rparr>"
  show ?case
  proof (cases "err k")
    case None
    obtain q b2 where q: "resubscribe_all err conn ks ?b1 = (q, b2)" by (meson surj_pair)
    have b2: "b' = b2" and r: "r = (case q of Inl e \<Rightarrow> Inl e | Inr m \<Rightarrow> Inr ((k, nb_nsubs b) # m))"
      using Cons.prems(1) None q by (auto simp: conn_Subscribe_def split: sum.splits)
    have "distinct (map fst (nb_live ?b1))" "\<forall>x \<in> set (nb_live ?b1). fst x < nb_nsubs ?b1"
      using Cons.prems(2,3) by (auto simp: less_SucI)
    from Cons.hyps [OF q this] show ?thesis unfolding b2 r by (cases q) auto
  qed (use Cons.prems in auto)
qed auto

lemma set_handles:
  assumes "subreg_wf r" and "distinct (map fst m)"
  shows "subreg_wf (fold set_handle m r) \<and> (\<forall>k. reg_chans k (fold set_handle m r) = reg_chans k r) \<and> sr_chans (fold set_handle m r) = sr_chans r \<and>
    (\<forall>k ns cs. gm_get (sr_subs (fold set_handle m r)) k = Some (ns, cs) \<longrightarrow>
      (k, ns) \<in> set m \<or> k \<notin> fst ` set m \<and> gm_get (sr_subs r) k = Some (ns, cs))"
  using assms
proof (induct m arbitrary: r)
  case (Cons x m)
  obtain k ns where x: "x = (k, ns)" by (cases x)
  let ?r = "set_handle x r"
  have ch: "reg_chans k' ?r = reg_chans k' r" for k' by (auto simp: set_handle_def x reg_chans_def split: option.split)
  have f: "gm_ok (sr_subs ?r)" "sr_chans ?r = sr_chans r" "sr_panicked ?r = sr_panicked r"
    using subreg_wfD(1) [OF Cons.prems(1)] by (auto simp: set_handle_def x split: option.split)
  have ne: "cs \<noteq> []" if "gm_get (sr_subs ?r) k' = Some (h, cs)" for k' h cs
    using that subreg_wfD(7) [OF Cons.prems(1), of k'] subreg_wfD(7) [OF Cons.prems(1), of k]
    by (cases "k' = k") (auto simp: set_handle_def x split: option.splits)
  have w: "subreg_wf ?r" unfolding subreg_wf_def ch f(2,3) using f(1) ne subreg_wfD(2-6) [OF Cons.prems(1)] by blast
  have other: "gm_get (sr_subs ?r) k' = Some (h, cs) \<Longrightarrow> k' \<noteq> k \<Longrightarrow> gm_get (sr_subs r) k' = Some (h, cs)" for k' h cs
    by (auto simp: set_handle_def x split: option.splits)
  have own: "gm_get (sr_subs ?r) k = Some (h, cs) \<Longrightarrow> h = ns" for h cs
    by (auto simp: set_handle_def x split: option.splits)
  have d: "distinct (map fst m)" "k \<notin> fst ` set m" using Cons.prems(2) by (simp_all add: x)
  note i = Cons.hyps [OF w d(1)]
  note ih = i [THEN conjunct1] i [THEN conjunct2, THEN conjunct1] i [THEN conjunct2, THEN conjunct2, THEN conjunct1]
    i [THEN conjunct2, THEN conjunct2, THEN conjunct2]
  have hd: "(k', h) \<in> set (x # m) \<or> k' \<notin> fst ` set (x # m) \<and> gm_get (sr_subs r) k' = Some (h, cs)"
    if "gm_get (sr_subs (fold set_handle (x # m) r)) k' = Some (h, cs)" for k' h cs
  proof -
    have "gm_get (sr_subs (fold set_handle m ?r)) k' = Some (h, cs)" using that unfolding fold_simps .
    from ih(4) [rule_format, OF this] consider "(k', h) \<in> set m" | "k' \<notin> fst ` set m" "gm_get (sr_subs ?r) k' = Some (h, cs)" by blast
    then show ?thesis
    proof cases
      case 2
      show ?thesis
      proof (cases "k' = k")
        case True
        then have "h = ns" using own 2(2) by blast
        then show ?thesis using True by (simp add: x)
      next
        case False
        then have "k' \<notin> fst ` set (x # m)" using 2(1) by (simp add: x)
        then show ?thesis using other [OF 2(2) False] by blast
      qed
    qed simp
  qed
  show ?case
  proof (intro conjI allI impI hd)
    show "reg_chans k' (fold set_handle (x # m) r) = reg_chans k' r" for k' using ih(2) [rule_format, of k'] ch [of k'] by simp
    show "subreg_wf (fold set_handle (x # m) r)" "sr_chans (fold set_handle (x # m) r) = sr_chans r" using ih(1,3) f(2) by simp_all
  qed
qed simp

lemma reconnect_ok:
  assumes "subs_ok b"
  shows "subs_ok (snd (nbus_reconnect env b))"
proof (cases "ne_connected env \<or> ne_connect env \<noteq> None")
  case True
  then show ?thesis using assms by (auto simp: nbus_reconnect_def)
next
  case False
  let ?b1 = "b\<lparr>nb_conns := Suc (nb_conns b)\<rparr>" and ?ks = "gm_keys (sr_subs (nb_reg b))"
  obtain r b2 where r: "resubscribe_all (ne_subscribe env) (nb_conns b) ?ks ?b1 = (r, b2)" by (meson surj_pair)
  have w: "subreg_wf (nb_reg b)" and l: "live_ok b" using assms by (simp_all add: subs_ok_def)
  have f: "nb_reg b2 = nb_reg b" "nb_conn b2 = nb_conn b" "nb_conns b2 = Suc (nb_conns b)"
    using arg_cong [OF resubscribe_all_frame [OF r], of nb_reg] arg_cong [OF resubscribe_all_frame [OF r], of nb_conn]
      arg_cong [OF resubscribe_all_frame [OF r], of nb_conns] by simp_all
  have "distinct (map fst (nb_live ?b1))" "\<forall>x \<in> set (nb_live ?b1). fst x < nb_nsubs ?b1" using l by (auto simp: live_ok_def)
  note e = resubscribe_all_live [OF r this]
  have le: "fst x < nb_nsubs b2 \<and> fst (snd x) < Suc (nb_conns b)" if "x \<in> set (nb_live b2)" for x
    using e l that unfolding live_ok_def by fastforce
  have "(ns, nb_conn b, k) \<in> set (nb_live b2) \<and> nb_conn b \<noteq> nb_conns b" if "gm_get (sr_subs (nb_reg b)) k = Some (ns, cs)" for k ns cs
    using e l that unfolding live_ok_def by auto
  then have closed: "subs_ok (conn_Close (nb_conns b) b2)"
    using w e le l unfolding subs_ok_def live_ok_def by (auto simp: conn_Close_def f distinct_map_filter)
  have opened: "subs_ok (b2\<lparr>nb_conn := nb_conns b, nb_reg := fold set_handle m (nb_reg b2)\<rparr>)" if m: "r = Inr m" for m
  proof -
    have k: "map fst m = ?ks" "\<forall>x \<in> set m. (snd x, nb_conns b, fst x) \<in> set (nb_live b2)" using e m by auto
    then have d: "distinct (map fst m)" using subreg_wfD(1) [OF w] by simp
    note h = set_handles [OF w d]
    have "(ns, nb_conns b, k) \<in> set (nb_live b2)" if "gm_get (sr_subs (fold set_handle m (nb_reg b))) k = Some (ns, cs)" for k ns cs
    proof -
      from h that have "(k, ns) \<in> set m \<or> k \<notin> fst ` set m \<and> gm_get (sr_subs (nb_reg b)) k = Some (ns, cs)" by blast
      moreover have "k \<in> fst ` set m" if "gm_get (sr_subs (nb_reg b)) k = Some (ns, cs)"
        using gm_get_in_keys [OF that] k(1) by (metis list.set_map)
      ultimately show ?thesis using k(2) by fastforce
    qed
    then show ?thesis using h e le unfolding subs_ok_def live_ok_def by (simp add: f)
  qed
  show ?thesis
  proof (cases r)
    case (Inl err)
    then show ?thesis using False r closed by (simp add: nbus_reconnect_def Let_def)
  next
    case (Inr m)
    then show ?thesis using False r closed opened [OF Inr] by (cases "nats_flush env background") (simp_all add: nbus_reconnect_def Let_def)
  qed
qed

lemma reg_add_get:
  "gm_get (sr_subs (snd (reg_add n h k r))) k' =
     (if k' = k then Some (case gm_get (sr_subs r) k of None \<Rightarrow> (h, [length (sr_chans r)]) | Some (h', cs) \<Rightarrow> (h', cs @ [length (sr_chans r)]))
      else gm_get (sr_subs r) k')"
  by (simp add: reg_add_def Let_def)

lemma subscribe_attempt_ok:
  assumes "subs_ok b"
  shows "subs_ok (snd (nbus_subscribe_attempt env ctx k b))"
proof -
  have w: "subreg_wf (nb_reg b)" and l: "live_ok b" using assms by (simp_all add: subs_ok_def)
  let ?b1 = "b\<lparr>nb_nsubs := Suc (nb_nsubs b), nb_live := (nb_nsubs b, nb_conn b, k) # nb_live b\<rparr>"
  have fresh: "nb_nsubs b \<notin> fst ` set (nb_live b)" by (rule live_fresh [OF l])
  have l1: "live_ok ?b1" using l fresh unfolding live_ok_def by (auto simp: less_SucI)
  consider (old) ns cs where "gm_get (sr_subs (nb_reg b)) k = Some (ns, cs)"
    | (err) e where "gm_get (sr_subs (nb_reg b)) k = None" "ne_subscribe env k = Some e"
    | (flush) e where "gm_get (sr_subs (nb_reg b)) k = None" "ne_subscribe env k = None" "nats_flush env ctx = Some e"
    | (new) "gm_get (sr_subs (nb_reg b)) k = None" "ne_subscribe env k = None" "nats_flush env ctx = None"
    by (cases "gm_get (sr_subs (nb_reg b)) k"; cases "ne_subscribe env k"; cases "nats_flush env ctx") auto
  then show ?thesis
  proof cases
    case old
    have "snd (nbus_subscribe_attempt env ctx k b) = b\<lparr>nb_reg := snd (reg_add 1 ns k (nb_reg b))\<rparr>"
      by (simp add: nbus_subscribe_attempt_def old split: prod.split)
    moreover have "live_ok (b\<lparr>nb_reg := snd (reg_add 1 ns k (nb_reg b))\<rparr>)"
      using l old unfolding live_ok_def by (auto simp: reg_add_get split: if_splits)
    ultimately show ?thesis using subreg_wf_add [OF w] by (simp add: subs_ok_def)
  next
    case err
    then show ?thesis using assms by (simp add: nbus_subscribe_attempt_def)
  next
    case flush
    have "filter (\<lambda>(n, _). n \<noteq> nb_nsubs b) (nb_live b) = nb_live b" using fresh by (auto simp: filter_id_conv image_iff)
    then have "snd (nbus_subscribe_attempt env ctx k b) = b\<lparr>nb_nsubs := Suc (nb_nsubs b), nb_live := nb_live b\<rparr>"
      by (simp add: nbus_subscribe_attempt_def flush conn_Subscribe_def sub_Unsubscribe_def)
    then show ?thesis using w l unfolding subs_ok_def live_ok_def by (auto simp: less_SucI)
  next
    case new
    have "snd (nbus_subscribe_attempt env ctx k b) = ?b1\<lparr>nb_reg := snd (reg_add 1 (nb_nsubs b) k (nb_reg b))\<rparr>"
      by (simp add: nbus_subscribe_attempt_def new conn_Subscribe_def split: prod.split)
    moreover have "live_ok (?b1\<lparr>nb_reg := snd (reg_add 1 (nb_nsubs b) k (nb_reg b))\<rparr>)"
      using l l1 new unfolding live_ok_def by (auto simp: reg_add_get split: if_splits)
    ultimately show ?thesis using subreg_wf_add [OF w] by (simp add: subs_ok_def)
  qed
qed

lemma reg_remove_get:
  "(fst (reg_remove rm k c r) = Some h \<longrightarrow> (\<exists>cs. gm_get (sr_subs r) k = Some (h, cs)) \<and> gm_get (sr_subs (snd (reg_remove rm k c r))) k = None) \<and>
   (gm_get (sr_subs (snd (reg_remove rm k c r))) k' = Some (h', cs') \<longrightarrow> (\<exists>cs. gm_get (sr_subs r) k' = Some (h', cs)))"
  by (auto simp: reg_remove_def reg_close_def Let_def split: option.splits prod.splits if_splits)

lemma unsubscribe_ok:
  assumes "subs_ok b"
  shows "subs_ok (snd (nbus_Unsubscribe uerr k c b))"
proof -
  have w: "subreg_wf (nb_reg b)" and l: "live_ok b" using assms by (simp_all add: subs_ok_def)
  obtain h r where r: "reg_remove swap_remove k c (nb_reg b) = (h, r)" by (meson surj_pair)
  have w1: "subreg_wf r" using subreg_wf_intros(6) [OF w, of k c] r by simp
  have sub: "\<exists>cs. gm_get (sr_subs (nb_reg b)) k' = Some (ns, cs)" if "gm_get (sr_subs r) k' = Some (ns, cs')" for k' ns cs'
    using reg_remove_get [of swap_remove k c "nb_reg b" undefined k' ns cs'] r that by simp
  have live: "(ns, nb_conn b, k') \<in> set (nb_live b)" if "gm_get (sr_subs r) k' = Some (ns, cs')" for k' ns cs'
    using sub [OF that] l unfolding live_ok_def by blast
  show ?thesis
  proof (cases h)
    case None
    then show ?thesis using w1 l live r unfolding subs_ok_def live_ok_def by (simp add: nbus_Unsubscribe_def)
  next
    case (Some n)
    then obtain cs where n: "gm_get (sr_subs (nb_reg b)) k = Some (n, cs)" "gm_get (sr_subs r) k = None"
      using reg_remove_get [of swap_remove k c "nb_reg b" n k undefined undefined] r by auto
    then have nl: "(n, nb_conn b, k) \<in> set (nb_live b)" using l unfolding live_ok_def by blast
    have ne: "ns \<noteq> n" if "gm_get (sr_subs r) k' = Some (ns, cs')" for k' ns cs'
      using live_unique [OF l nl, of "nb_conn b" k'] live [OF that] that n(2) by auto
    then show ?thesis
      using Some w1 l live r unfolding subs_ok_def live_ok_def
      by (auto simp: nbus_Unsubscribe_def sub_Unsubscribe_def distinct_map_filter)
  qed
qed

lemma natsHandler_reg:
  assumes "subreg_wf (nb_reg b)"
  shows "\<exists>chs d p. natsHandler k idn b = b\<lparr>nb_processed := p, nb_reg := (nb_reg b)\<lparr>sr_chans := chs\<rparr>, nb_delivered := d\<rparr> \<and>
    subreg_wf ((nb_reg b)\<lparr>sr_chans := chs\<rparr>)"
proof -
  consider (seen) "gm_get (nb_processed b) idn \<noteq> None" | (none) "gm_get (nb_processed b) idn = None" "gm_get (sr_subs (nb_reg b)) k = None"
    | (some) ns cs where "gm_get (nb_processed b) idn = None" "gm_get (sr_subs (nb_reg b)) k = Some (ns, cs)" by (cases "gm_get (nb_processed b) idn"; cases "gm_get (sr_subs (nb_reg b)) k") auto
  then show ?thesis
  proof cases
    case seen
    then have "natsHandler k idn b = b\<lparr>nb_processed := nb_processed b, nb_reg := (nb_reg b)\<lparr>sr_chans := sr_chans (nb_reg b)\<rparr>, nb_delivered := nb_delivered b\<rparr>"
      by (simp add: natsHandler_def)
    then show ?thesis using assms by (intro exI conjI) (assumption, simp)
  next
    case none
    then have "natsHandler k idn b = b\<lparr>nb_processed := gm_put (nb_processed b) idn (), nb_reg := (nb_reg b)\<lparr>sr_chans := sr_chans (nb_reg b)\<rparr>, nb_delivered := nb_delivered b\<rparr>"
      by (simp add: natsHandler_def)
    then show ?thesis using assms by (intro exI conjI) (assumption, simp)
  next
    case some
    then have cs: "reg_chans k (nb_reg b) = cs" by (simp add: reg_chans_def)
    note o = reg_offer_eq [OF assms, of "key_event k" k, unfolded cs]
    have "subreg_wf (snd (reg_offer (key_event k) (reg_chans k (nb_reg b)) (nb_reg b)))" by (rule subreg_wf_offer [OF assms])
    then have "subreg_wf ((nb_reg b)\<lparr>sr_chans := offered (key_event k) (set cs) (sr_chans (nb_reg b))\<rparr>)" by (simp add: cs o)
    moreover have "natsHandler k idn b = b\<lparr>nb_processed := gm_put (nb_processed b) idn (),
        nb_reg := (nb_reg b)\<lparr>sr_chans := offered (key_event k) (set cs) (sr_chans (nb_reg b))\<rparr>,
        nb_delivered := nb_delivered b + of_nat (length (filter (\<lambda>c. chan_ready (sr_chans (nb_reg b) ! c)) cs))\<rparr>"
      by (simp add: natsHandler_def some o)
    ultimately show ?thesis by blast
  qed
qed

lemma live_ok_chans: "live_ok b \<Longrightarrow> live_ok (b\<lparr>nb_processed := p, nb_reg := (nb_reg b)\<lparr>sr_chans := chs\<rparr>, nb_delivered := d\<rparr>)"
  unfolding live_ok_def by simp

lemma natsHandler_ok:
  assumes "subs_ok b"
  shows "subs_ok (natsHandler k idn b)"
proof -
  have w: "subreg_wf (nb_reg b)" "live_ok b" using assms by (simp_all add: subs_ok_def)
  obtain chs d p where e: "natsHandler k idn b = b\<lparr>nb_processed := p, nb_reg := (nb_reg b)\<lparr>sr_chans := chs\<rparr>, nb_delivered := d\<rparr>"
    "subreg_wf ((nb_reg b)\<lparr>sr_chans := chs\<rparr>)" using natsHandler_reg [OF w(1)] by blast
  then show ?thesis using live_ok_chans [OF w(2), where p = p and chs = chs and d = d] by (simp add: subs_ok_def)
qed

section \<open>The invariant\<close>

definition nbus_inv :: "nbus_sys \<Rightarrow> bool" where
  "nbus_inv s \<longleftrightarrow> subs_ok (ns_bus s) \<and> marks (nb_pending (ns_bus s)) (map nc_key (ns_calls s) @ ns_timers s)"

lemma reconnect_pending: "nb_pending (snd (nbus_reconnect env b)) = nb_pending b"
proof -
  have "nb_pending b2 = nb_pending b1" if "resubscribe_all err conn ks b1 = (r, b2)" for err conn ks b1 r b2
    using arg_cong [OF resubscribe_all_frame [OF that], of nb_pending] by simp
  then show ?thesis
    by (auto simp: nbus_reconnect_def Let_def conn_Close_def split: option.split prod.split sum.split)
qed

lemma attempt_pending: "nb_pending (snd (nbus_subscribe_attempt env ctx k b)) = nb_pending b"
  by (simp add: nbus_subscribe_attempt_def conn_Subscribe_def sub_Unsubscribe_def split: option.split prod.split)

lemma unsubscribe_pending: "nb_pending (snd (nbus_Unsubscribe uerr k c b)) = nb_pending b"
  by (simp add: nbus_Unsubscribe_def sub_Unsubscribe_def split: option.split prod.split)

lemma handler_pending: "nb_pending (natsHandler k idn b) = nb_pending b"
  by (simp add: natsHandler_def Let_def split: option.split prod.split)

lemma subs_ok_pending [simp]: "subs_ok (b\<lparr>nb_pending := p\<rparr>) = subs_ok b"
  by (simp add: subs_ok_def live_ok_def)

lemma nbus_step_inv:
  assumes "nbus_step s s'" and "nbus_inv s"
  shows "nbus_inv s'"
proof -
  have ok: "subs_ok (ns_bus s)" and m: "marks (nb_pending (ns_bus s)) (map nc_key (ns_calls s) @ ns_timers s)"
    using assms(2) by (simp_all add: nbus_inv_def)
  from assms(1) show ?thesis
  proof cases
    case (publish k conn b idn)
    then have n: "gm_get (nb_pending (ns_bus s)) k = None" and b: "b = (ns_bus s)\<lparr>nb_pending := gm_put (nb_pending (ns_bus s)) k ()\<rparr>"
      by (cases "gm_get (nb_pending (ns_bus s)) k"; auto simp: nbus_publish_begin_def split: if_splits)+
    have "marks (gm_put (nb_pending (ns_bus s)) k ()) (map nc_key (ns_calls s) @ k # ns_timers s)"
      by (rule marks_perm [OF marks_put [OF m n]]) simp
    then show ?thesis using publish(1) ok by (simp add: nbus_inv_def b)
  next
    case (cancel cs1 c cs2)
    then show ?thesis using ok m marks_del [of "nb_pending (ns_bus s)" "map nc_key cs1" "nc_key c" "map nc_key cs2 @ ns_timers s"]
      by (simp add: nbus_inv_def nbus_unmark_def)
  next
    case (sent cs1 c cs2)
    have "marks (nb_pending (ns_bus s)) (map nc_key (cs1 @ cs2) @ ns_timers s @ [nc_key c])"
      by (rule marks_perm [OF m]) (simp add: sent)
    moreover have "subs_ok (nbus_publish_ok (nc_key c) (nc_id c) (ns_bus s))" by (rule subs_ok_frame [OF ok]) (simp_all add: nbus_publish_ok_def)
    ultimately show ?thesis using sent(1) by (simp add: nbus_inv_def nbus_publish_ok_def)
  next
    case (timer ks1 k ks2)
    then show ?thesis using ok m marks_del [of "nb_pending (ns_bus s)" "map nc_key (ns_calls s) @ ks1" k ks2]
      by (simp add: nbus_inv_def nbus_unmark_def)
  next
    case (repair cs1 c cs2 env)
    then show ?thesis using m reconnect_ok [OF ok] by (simp add: nbus_inv_def reconnect_pending)
  next
    case (subscribe env ctx k)
    then show ?thesis using m subscribe_attempt_ok [OF ok] by (simp add: nbus_inv_def attempt_pending)
  next
    case (reconnect env)
    then show ?thesis using m reconnect_ok [OF ok] by (simp add: nbus_inv_def reconnect_pending)
  next
    case (unsubscribe uerr k c)
    then show ?thesis using m unsubscribe_ok [OF ok] by (simp add: nbus_inv_def unsubscribe_pending)
  next
    case (message ns conn k idn)
    then show ?thesis using m natsHandler_ok [OF ok] by (simp add: nbus_inv_def handler_pending)
  next
    case (consume c)
    have "sr_subs (snd (reg_receive c r)) = sr_subs r" for r :: "nat subreg" by (simp add: reg_receive_def split: list.split)
    then have "subs_ok ((ns_bus s)\<lparr>nb_reg := snd (reg_receive c (nb_reg (ns_bus s)))\<rparr>)"
      using ok subreg_wf_receive [of "nb_reg (ns_bus s)" c] unfolding subs_ok_def live_ok_def by simp
    then show ?thesis using consume m by (simp add: nbus_inv_def)
  qed (use ok m in \<open>simp_all add: nbus_inv_def\<close>)
qed

lemma nbus_reach_inv: "nbus_reach s \<Longrightarrow> nbus_inv s"
proof (induct rule: nbus_reach.induct)
  case init
  show ?case by (simp add: nbus_inv_def NewNATSBus_def subs_ok_def live_ok_def) (simp add: reg_empty_def)
next
  case (step s s')
  then show ?case using nbus_step_inv by blast
qed

section \<open>The loops\<close>

lemma publish_loop_returns:
  "perr (i + n) = None \<or> ctx (clk (i + n)) \<noteq> None \<Longrightarrow> \<exists>r. publish_loop perr env ctx clk k idn i b = Some r"
proof (induct n arbitrary: i b)
  case 0
  then show ?case by (subst publish_loop.simps) (auto simp: Let_def split: option.split)
next
  case (Suc n)
  have "\<exists>r. publish_loop perr env ctx clk k idn (Suc i) b1 = Some r" for b1 using Suc.hyps [of "Suc i" b1] Suc.prems by simp
  then show ?case by (subst publish_loop.simps) (auto simp: Let_def split: option.split)
qed

lemma reconnect_log:
  "nb_log (snd (nbus_reconnect env b)) = nb_log b" "nb_published (snd (nbus_reconnect env b)) = nb_published b"
proof -
  have "nb_log b2 = nb_log b1" "nb_published b2 = nb_published b1" if "resubscribe_all err conn ks b1 = (r, b2)" for err conn ks b1 r b2
    using arg_cong [OF resubscribe_all_frame [OF that], of nb_log] arg_cong [OF resubscribe_all_frame [OF that], of nb_published] by simp_all
  then show "nb_log (snd (nbus_reconnect env b)) = nb_log b" "nb_published (snd (nbus_reconnect env b)) = nb_published b"
    by (auto simp: nbus_reconnect_def Let_def conn_Close_def split: option.split prod.split sum.split)
qed

text \<open>Success is reported for a message that was published once, an error when none was.\<close>

definition published_once :: "key \<Rightarrow> string \<Rightarrow> nats_bus \<Rightarrow> go_error option \<times> nats_bus \<Rightarrow> bool" where
  "published_once k idn b res \<longleftrightarrow>
     (if fst res = None then nb_log (snd res) = nb_log b @ [(k, idn)] \<and> nb_published (snd res) = nb_published b + 1
      else nb_log (snd res) = nb_log b \<and> nb_published (snd res) = nb_published b)"

lemma publish_loop_result:
  assumes "publish_loop perr env ctx clk k idn i b = Some res"
  shows "published_once k idn b res"
proof (rule publish_loop.raw_induct [where P = "\<lambda>perr env ctx clk k idn i b res. published_once k idn b res", OF _ assms])
  fix f perr env ctx clk k idn i b res
  assume ih: "\<And>perr env ctx clk k idn i b res. f perr env ctx clk k idn i b = Some res \<Longrightarrow> published_once k idn b res"
    and body: "(case perr i of None \<Rightarrow> Some (None, nbus_publish_ok k idn b)
      | Some e \<Rightarrow> let b1 = snd (nbus_reconnect (env i) b)
          in case ctx (clk i) of Some e' \<Rightarrow> Some (Some e', nbus_unmark k b1) | None \<Rightarrow> f perr env ctx clk k idn (Suc i) b1) = Some res"
  show "published_once k idn b res"
  proof (cases "perr i = None \<or> ctx (clk i) \<noteq> None")
    case True
    then show ?thesis using body
      by (auto simp: published_once_def nbus_publish_ok_def nbus_unmark_def Let_def reconnect_log split: option.splits)
  next
    case False
    then have "f perr env ctx clk k idn (Suc i) (snd (nbus_reconnect (env i) b)) = Some res" using body by (auto simp: Let_def)
    from ih [OF this] show ?thesis by (simp add: published_once_def reconnect_log)
  qed
qed

lemma attempt_succeeds:
  "ne_subscribe env k = None \<Longrightarrow> nats_flush env ctx = None \<Longrightarrow> fst (nbus_subscribe_attempt env ctx k b) \<noteq> None"
  by (auto simp: nbus_subscribe_attempt_def conn_Subscribe_def split: option.split prod.split)

lemma subscribe_loop_returns:
  "ne_subscribe (senv (i + n)) k = None \<and> nats_flush (senv (i + n)) ctx = None \<or> ctx (clk (i + n)) \<noteq> None \<Longrightarrow>
   \<exists>r. subscribe_loop senv env ctx clk k i b = Some r"
proof (induct n arbitrary: i b)
  case 0
  obtain q b1 where q: "nbus_subscribe_attempt (senv i) ctx k b = (q, b1)" by (meson surj_pair)
  then have "q \<noteq> None \<or> ctx (clk i) \<noteq> None" using 0 attempt_succeeds [of "senv i" k ctx b] by auto
  then show ?case by (subst subscribe_loop.simps) (auto simp: q Let_def split: option.split)
next
  case (Suc n)
  have "\<exists>r. subscribe_loop senv env ctx clk k (Suc i) b1 = Some r" for b1 using Suc.hyps [of "Suc i" b1] Suc.prems by simp
  then show ?case by (subst subscribe_loop.simps) (auto simp: Let_def split: option.split prod.split)
qed

lemma backoff_closed_form: "(next_backoff ^^ n) initial_backoff = min (10 ^ 9) (initial_backoff * 2 ^ n)"
proof (induct n)
  case (Suc n)
  show ?case
  proof (cases "initial_backoff * 2 ^ n < 10 ^ 9")
    case True
    then show ?thesis using Suc by (simp add: next_backoff_def)
  next
    case False
    then have "initial_backoff * 2 ^ Suc n \<ge> 10 ^ 9" by (simp add: initial_backoff_def)
    then show ?thesis using Suc False by (simp add: next_backoff_def)
  qed
qed (simp add: initial_backoff_def)

section \<open>A message is handled once\<close>

lemma step_processed:
  assumes "nbus_step s s'" and "gm_get (nb_processed (ns_bus s)) idn \<noteq> None"
  shows "gm_get (nb_processed (ns_bus s')) idn \<noteq> None"
proof -
  have r: "nb_processed (snd (nbus_reconnect env b)) = nb_processed b" for env b
  proof -
    have "nb_processed b2 = nb_processed b1" if "resubscribe_all err conn ks b1 = (r, b2)" for err conn ks b1 r b2
      using arg_cong [OF resubscribe_all_frame [OF that], of nb_processed] by simp
    then show ?thesis
      by (auto simp: nbus_reconnect_def Let_def conn_Close_def split: option.split prod.split sum.split)
  qed
  have a: "nb_processed (snd (nbus_subscribe_attempt env ctx k b)) = nb_processed b" for env ctx k b
    by (simp add: nbus_subscribe_attempt_def conn_Subscribe_def sub_Unsubscribe_def split: option.split prod.split)
  have u: "nb_processed (snd (nbus_Unsubscribe uerr k c b)) = nb_processed b" for uerr k c b
    by (simp add: nbus_Unsubscribe_def sub_Unsubscribe_def split: option.split prod.split)
  have h: "gm_get (nb_processed (natsHandler k i b)) idn \<noteq> None" if "gm_get (nb_processed b) idn \<noteq> None" for k i b
    using that by (auto simp: natsHandler_def Let_def split: option.split prod.split)
  from assms(1) show ?thesis
    by cases (use assms(2) h in \<open>auto simp: r a u nbus_publish_begin_def nbus_unmark_def nbus_publish_ok_def split: if_splits\<close>)
qed

section \<open>A run\<close>

definition nbus_published :: nbus_sys where
  "nbus_published = \<lparr>ns_bus = nbus_publish_ok ''k'' ''m'' (NewNATSBus\<lparr>nb_pending := [(''k'', ())]\<rparr>), ns_calls = [], ns_timers = [''k'']\<rparr>"

lemma nbus_published_reach: "nbus_reach nbus_published"
proof -
  let ?b = "NewNATSBus\<lparr>nb_pending := [(''k'', ())]\<rparr>"
  let ?at = "\<lambda>ph. \<lparr>ns_bus = ?b, ns_calls = [\<lparr>nc_key = ''k'', nc_id = ''m'', nc_phase = ph\<rparr>], ns_timers = []\<rparr>"
  let ?s0 = "\<lparr>ns_bus = NewNATSBus, ns_calls = [], ns_timers = []\<rparr>"
  have "nbus_step ?s0 (?at NJitter)"
    using nbus_step.publish [of "''k''" ?s0 0 ?b "''m''"] by (simp add: nbus_publish_begin_def NewNATSBus_def)
  moreover have "nbus_step (?at NJitter) (?at NTry)"
    using nbus_step.jitter [of "?at NJitter" "[]" "\<lparr>nc_key = ''k'', nc_id = ''m'', nc_phase = NJitter\<rparr>" "[]"] by simp
  moreover have "nbus_step (?at NTry) nbus_published"
    using nbus_step.sent [of "?at NTry" "[]" "\<lparr>nc_key = ''k'', nc_id = ''m'', nc_phase = NTry\<rparr>" "[]"] by (simp add: nbus_published_def)
  ultimately show ?thesis using nbus_reach.init by (blast intro: nbus_reach.step)
qed

definition calm_env :: nats_env where
  "calm_env = \<lparr>ne_connected = False, ne_connect = None, ne_subscribe = (\<lambda>k. None), ne_timeout = 0, ne_clock = (\<lambda>i. 0), ne_flush = (\<lambda>ctx clk. None)\<rparr>"

definition nbus_reconnected :: nbus_sys where
  "nbus_reconnected = nbus_published\<lparr>ns_bus := snd (nbus_reconnect calm_env (snd (nbus_subscribe_attempt calm_env background ''k'' (ns_bus nbus_published))))\<rparr>"

lemma nbus_reconnected_reach: "nbus_reach nbus_reconnected"
proof -
  have "nbus_reach (nbus_published\<lparr>ns_bus := snd (nbus_subscribe_attempt calm_env background ''k'' (ns_bus nbus_published))\<rparr>)"
    by (rule nbus_reach.step [OF nbus_published_reach nbus_step.subscribe])
  from nbus_reach.step [OF this nbus_step.reconnect [where env = calm_env]] show ?thesis by (simp add: nbus_reconnected_def)
qed

section \<open>Properties\<close>

text \<open>
  C9. Whatever the connection does, and in every interleaving of publishers, subscribers
  and attempts to reconnect: every key that has subscribers has a subscription to that
  key on the present connection which has not been cancelled, and another key has
  another one; a key is pending exactly while one call of \<^verbatim>\<open>Publish\<close> is under way or the
  timer of one has not fired; no send hits a closed channel.
\<close>

theorem nats_stays_subscribed:
  assumes "nbus_reach s"
  defines "b \<equiv> ns_bus s"
  shows "(gm_get (sr_subs (nb_reg b)) k = Some (ns, cs) \<longrightarrow> cs \<noteq> [] \<and> (ns, nb_conn b, k) \<in> set (nb_live b)) \<and>
    distinct (map fst (nb_live b)) \<and> distinct (map nc_key (ns_calls s) @ ns_timers s) \<and>
    (gm_get (nb_pending b) k \<noteq> None \<longleftrightarrow> k \<in> set (map nc_key (ns_calls s) @ ns_timers s)) \<and> \<not> sr_panicked (nb_reg b)"
proof -
  have i: "subs_ok b" "marks (nb_pending b) (map nc_key (ns_calls s) @ ns_timers s)"
    using nbus_reach_inv [OF assms(1)] by (simp_all add: nbus_inv_def b_def)
  then have "\<not> sr_panicked (nb_reg b)" "distinct (map fst (nb_live b))" using subreg_wfD(6) by (auto simp: subs_ok_def live_ok_def)
  moreover have "cs \<noteq> [] \<and> (ns, nb_conn b, k) \<in> set (nb_live b)" if "gm_get (sr_subs (nb_reg b)) k = Some (ns, cs)"
    using that i(1) subreg_wfD(7) [of "nb_reg b" k ns cs] unfolding subs_ok_def live_ok_def by blast
  ultimately show ?thesis using i(2) unfolding marks_def by blast
qed

theorem nats_stays_subscribed_witness:
  "nb_conn (ns_bus nbus_reconnected) = 1 \<and> gm_get (sr_subs (nb_reg (ns_bus nbus_reconnected))) ''k'' = Some (1, [0]) \<and>
   (1, 1, ''k'') \<in> set (nb_live (ns_bus nbus_reconnected))"
proof -
  have e: "nb_conn (ns_bus nbus_reconnected) = 1" "gm_get (sr_subs (nb_reg (ns_bus nbus_reconnected))) ''k'' = Some (1, [0])"
    by (simp_all add: nbus_reconnected_def nbus_published_def NewNATSBus_def nbus_publish_ok_def nbus_subscribe_attempt_def calm_env_def
        nats_flush_def conn_Subscribe_def nbus_reconnect_def reg_add_def reg_empty_def reg_chans_def set_handle_def Let_def)
  show ?thesis using nats_stays_subscribed [OF nbus_reconnected_reach, of "''k''" 1 "[0]", THEN conjunct1] e by simp
qed

text \<open>
  C28. The loop of \<^verbatim>\<open>Publish\<close> ends as soon as the connection takes a message or the context is
  done after a failed attempt, and so does the call; it reports success exactly when
  one message was published, once.
\<close>

theorem nats_publish_returns:
  assumes "gm_get (nb_pending b) k = None" and "j \<le> 0 \<or> jerr = None"
    and "perr n = None \<or> ctx (clk n) \<noteq> None"
  shows "\<exists>q b'. nbus_Publish perr env j jerr ctx clk k idn b = Some (q, b') \<and>
    (q = None \<longrightarrow> nb_log b' = nb_log b @ [(k, idn)]) \<and> (q \<noteq> None \<longrightarrow> nb_log b' = nb_log b)"
proof -
  let ?b1 = "b\<lparr>nb_pending := gm_put (nb_pending b) k ()\<rparr>"
  obtain q b' where r: "publish_loop perr env ctx clk k idn 0 ?b1 = Some (q, b')"
    using publish_loop_returns [of perr 0 n ctx clk env k idn ?b1] assms(3) by auto
  have "nbus_Publish perr env j jerr ctx clk k idn b = publish_loop perr env ctx clk k idn 0 ?b1"
    using assms(1,2) by (auto simp: nbus_Publish_def nbus_publish_begin_def)
  then show ?thesis using r publish_loop_result [OF r] by (auto simp: published_once_def split: if_splits)
qed

theorem nats_publish_returns_witness:
  "\<exists>q b'. nbus_Publish (\<lambda>i. if i < 7 then Some ErrConnectionClosed else None) (\<lambda>i. calm_env) 3 None background (\<lambda>i. 0) ''k'' ''m'' NewNATSBus = Some (q, b') \<and>
    (q = None \<longrightarrow> nb_log b' = [(''k'', ''m'')]) \<and> (q \<noteq> None \<longrightarrow> nb_log b' = [])"
  using nats_publish_returns [of NewNATSBus "''k''" 3 None "\<lambda>i. if i < 7 then Some ErrConnectionClosed else None" 7 background "\<lambda>i. 0" "\<lambda>i. calm_env" "''m''"]
  by (simp add: NewNATSBus_def)

text \<open>
  C38. Until its timer fires, 1 ms after the message was sent, a key that was published stays
  pending: a further \<^verbatim>\<open>Publish\<close> of it reports success although nothing is sent, whatever
  happened to the key meanwhile.
\<close>

theorem nats_publish_suppressed:
  assumes "nbus_reach s" and "k \<in> set (ns_timers s)"
  shows "nbus_Publish perr env j jerr ctx clk k idn (ns_bus s) = Some (None, ns_bus s)"
proof -
  have "gm_get (nb_pending (ns_bus s)) k \<noteq> None"
    using nbus_reach_inv [OF assms(1)] assms(2) unfolding nbus_inv_def marks_def by auto
  then show ?thesis by (auto simp: nbus_Publish_def nbus_publish_begin_def)
qed

theorem nats_publish_suppressed_witness:
  "nbus_Publish (\<lambda>i. None) (\<lambda>i. calm_env) 0 None background (\<lambda>i. 0) ''k'' ''m2'' (ns_bus nbus_published) = Some (None, ns_bus nbus_published) \<and>
   nb_log (ns_bus nbus_published) = [(''k'', ''m'')]"
  using nats_publish_suppressed [OF nbus_published_reach, of "''k''" "\<lambda>i. None" "\<lambda>i. calm_env" 0 None background "\<lambda>i. 0" "''m2''"]
  by (simp add: nbus_published_def nbus_publish_ok_def NewNATSBus_def)

end
