(* ===== verification/Mesh_Packet.thy ===== *)
theory Mesh_Packet
  imports Warp_Prelude
begin

unbundle bit_operations_syntax

text \<open>
  The datagrams of the mesh bus (src/syncbus/mesh/packet.go): \<^verbatim>\<open>marshal\<close> writes a
  packet into a buffer of the caller, which has its old contents behind what is
  written, and \<^verbatim>\<open>unmarshal\<close> reads one back. A buffer is the list of its bytes;
  \<open>copy_at\<close> is Go's \<^verbatim>\<open>copy(b[i:], src)\<close> and \<open>slice_of\<close> its \<^verbatim>\<open>b[i:j]\<close>.
\<close>

section \<open>Buffers\<close>

definition copy_at :: "'a list \<Rightarrow> nat \<Rightarrow> 'a list \<Rightarrow> 'a list" where
  "copy_at b i src = take i b @ take (length b - i) src @ drop (i + length src) b"

definition slice_of :: "'a list \<Rightarrow> nat \<Rightarrow> nat \<Rightarrow> 'a list" where
  "slice_of b i j = take (j - i) (drop i b)"

text \<open>The big-endian integers of encoding/binary: the low \<open>n\<close> bytes of a word.\<close>

primrec be_put :: "nat \<Rightarrow> u64 \<Rightarrow> byte list" where
  "be_put 0 v = []"
| "be_put (Suc n) v = ucast (drop_bit (8 * n) v) # be_put n v"

definition be_get :: "byte list \<Rightarrow> u64" where
  "be_get bs = foldl (\<lambda>acc b. push_bit 8 acc OR ucast b) 0 bs"

section \<open>Packets\<close>

datatype mesh_error = errInvalidMagic | errShortBuffer

definition magicByte :: byte where
  "magicByte = 0x57"

abbreviation typeInvalidate :: byte where "typeInvalidate \<equiv> 1"
abbreviation typeHeartbeat :: byte where "typeHeartbeat \<equiv> 2"
abbreviation typeBatch :: byte where "typeBatch \<equiv> 3"

record packet =
  p_magic :: byte
  p_type :: byte
  p_node :: "byte list"
  p_keyhash :: u64
  p_keylen :: u16
  p_key :: "byte list"
  p_keys :: "string list"

definition zero_packet :: packet where
  "zero_packet = \<lparr>p_magic = 0, p_type = 0, p_node = replicate 16 0, p_keyhash = 0, p_keylen = 0, p_key = [], p_keys = []\<rparr>"

text \<open>The loop of \<^verbatim>\<open>marshal\<close> over the keys of a batch.\<close>

fun marshal_keys :: "nat \<Rightarrow> string list \<Rightarrow> byte list \<Rightarrow> (nat \<times> mesh_error option) \<times> byte list" where
  "marshal_keys cur [] b = ((cur, None), b)"
| "marshal_keys cur (k # ks) b =
     (let kLen = length k
      in if length b < cur + 2 + kLen then ((cur, Some errShortBuffer), b)
         else let b1 = copy_at b cur (be_put 2 (ucast (of_nat kLen :: u16)));
                  b2 = copy_at b1 (cur + 2) (bytes_of k)
              in marshal_keys (cur + (2 + kLen)) ks b2)"

text \<open>The part of \<^verbatim>\<open>marshal\<close> that every type of packet has.\<close>

definition put_header :: "packet \<Rightarrow> byte list \<Rightarrow> byte list" where
  "put_header p b = copy_at (copy_at (copy_at b 0 [p_magic p]) 1 [p_type p]) 2 (p_node p)"

definition marshal :: "packet \<Rightarrow> byte list \<Rightarrow> (nat \<times> mesh_error option) \<times> byte list" where
  "marshal p b =
     (if length b < 18 then ((0, Some errShortBuffer), b)
      else let b3 = put_header p b
           in if p_type p = typeInvalidate \<or> p_type p = typeHeartbeat then
                if length b3 < 28 + length (p_key p) then ((0, Some errShortBuffer), b3)
                else let b4 = copy_at b3 18 (be_put 8 (p_keyhash p));
                         b5 = copy_at b4 26 (be_put 2 (ucast (p_keylen p)));
                         b6 = copy_at b5 28 (p_key p)
                     in ((28 + unat (p_keylen p), None), b6)
              else if p_type p = typeBatch then
                if length b3 < 20 then ((0, Some errShortBuffer), b3)
                else marshal_keys 20 (p_keys p) (copy_at b3 18 (be_put 2 (ucast (of_nat (length (p_keys p)) :: u16))))
              else ((18, None), b3))"

fun unmarshal_keys :: "nat \<Rightarrow> nat \<Rightarrow> byte list \<Rightarrow> string list \<Rightarrow> mesh_error option \<times> string list" where
  "unmarshal_keys 0 cur b acc = (None, acc)"
| "unmarshal_keys (Suc n) cur b acc =
     (if length b < cur + 2 then (Some errShortBuffer, acc)
      else let kLen = unat (be_get (slice_of b cur (cur + 2)))
           in if length b < cur + 2 + kLen then (Some errShortBuffer, acc)
              else unmarshal_keys n (cur + (2 + kLen)) b (acc @ [string_of (slice_of b (cur + 2) (cur + 2 + kLen))]))"

text \<open>\<^verbatim>\<open>unmarshal\<close> updates the packet it is called on, also when it then fails.\<close>

definition unmarshal :: "packet \<Rightarrow> byte list \<Rightarrow> mesh_error option \<times> packet" where
  "unmarshal p b =
     (if length b < 18 then (Some errShortBuffer, p)
      else let p1 = p\<lparr>p_magic := b ! 0\<rparr>
           in if p_magic p1 \<noteq> magicByte then (Some errInvalidMagic, p1)
              else let p2 = p1\<lparr>p_type := b ! 1, p_node := slice_of b 2 18\<rparr>
                   in if p_type p2 = typeInvalidate \<or> p_type p2 = typeHeartbeat then
                        if length b < 28 then (Some errShortBuffer, p2)
                        else let p3 = p2\<lparr>p_keyhash := be_get (slice_of b 18 26), p_keylen := ucast (be_get (slice_of b 26 28))\<rparr>;
                                 kl = unat (p_keylen p3)
                             in if length b < 28 + kl then (Some errShortBuffer, p3)
                                else (None, if kl > 0 then p3\<lparr>p_key := slice_of b 28 (28 + kl)\<rparr> else p3)
                      else if p_type p2 = typeBatch then
                        if length b < 20 then (Some errShortBuffer, p2)
                        else case unmarshal_keys (unat (be_get (slice_of b 18 20))) 20 b [] of
                               (e, ks) \<Rightarrow> (e, p2\<lparr>p_keys := ks\<rparr>)
                      else (None, p2))"

section \<open>Buffer lemmas\<close>

lemma length_copy_at [simp]: "i + length src \<le> length b \<Longrightarrow> length (copy_at b i src) = length b"
  by (simp add: copy_at_def)

lemma take_copy_at:
  "i + length src \<le> length b \<Longrightarrow> take (i + length src) (copy_at b i src) = take i b @ src"
  by (simp add: copy_at_def)

lemma length_be_put [simp]: "length (be_put n v) = n"
  by (induct n) auto

lemma be_get_put_acc:
  "foldl (\<lambda>acc b. push_bit 8 acc OR ucast b) acc (be_put n v) = push_bit (8 * n) acc OR take_bit (8 * n) (v :: u64)"
proof (induct n arbitrary: acc)
  case (Suc n)
  have "push_bit (8 * n) (push_bit 8 acc OR ucast (ucast (drop_bit (8 * n) v) :: byte)) OR take_bit (8 * n) v
      = push_bit (8 * n + 8) acc OR take_bit (8 * n + 8) v"
    by (rule bit_word_eqI) (auto simp: bit_simps)
  then show ?case using Suc by (simp add: add.commute)
qed simp

lemma be_get_put: "be_get (be_put n v) = take_bit (8 * n) v"
  by (simp add: be_get_def be_get_put_acc)

lemma be_get_put8 [simp]: "be_get (be_put 8 v) = v"
  by (simp add: be_get_put take_bit_length_eq [where 'a = 64, simplified])

lemma be_get_put2 [simp]: "be_get (be_put 2 (ucast (w :: u16))) = ucast w"
  by (simp add: be_get_put) (rule bit_word_eqI, auto simp: bit_simps dest: bit_imp_le_length)

lemma ucast_u16_u64 [simp]: "(ucast (ucast (w :: u16) :: u64) :: u16) = w"
  by (rule bit_word_eqI) (auto simp: bit_simps)

lemma unat_u16_u64 [simp]: "unat (ucast (w :: u16) :: u64) = unat w"
  using unsigned_less [of w, where 'a = nat] by (simp add: unsigned_ucast_eq take_bit_nat_eq_self)

lemma unat_u16: "n < 65536 \<Longrightarrow> unat (of_nat n :: u16) = n"
  by (simp add: unat_of_nat)

section \<open>The bytes of a packet\<close>

definition key_bytes :: "string list \<Rightarrow> byte list" where
  "key_bytes ks = concat (map (\<lambda>k. be_put 2 (ucast (of_nat (length k) :: u16)) @ bytes_of k) ks)"

definition packet_bytes :: "packet \<Rightarrow> byte list" where
  "packet_bytes p =
     [p_magic p, p_type p] @ p_node p @
     (if p_type p = typeInvalidate \<or> p_type p = typeHeartbeat
      then be_put 8 (p_keyhash p) @ be_put 2 (ucast (p_keylen p)) @ p_key p
      else if p_type p = typeBatch then be_put 2 (ucast (of_nat (length (p_keys p)) :: u16)) @ key_bytes (p_keys p)
      else [])"

text \<open>
  The packets the bus builds and reads: a 16-byte node, the length field right, and
  only the fields its type carries.
\<close>

definition packet_ok :: "packet \<Rightarrow> bool" where
  "packet_ok p \<longleftrightarrow>
     p_magic p = magicByte \<and> length (p_node p) = 16 \<and>
     (if p_type p = typeInvalidate \<or> p_type p = typeHeartbeat
      then length (p_key p) = unat (p_keylen p) \<and> p_keys p = []
      else p_keyhash p = 0 \<and> p_keylen p = 0 \<and> p_key p = [] \<and> (p_type p = typeBatch \<or> p_keys p = []))"

lemma key_bytes_simps [simp]:
  "key_bytes [] = []"
  "key_bytes (k # ks) = be_put 2 (ucast (of_nat (length k) :: u16)) @ bytes_of k @ key_bytes ks"
  by (simp_all add: key_bytes_def)

lemma length_key_bytes: "length (key_bytes ks) = sum_list (map (\<lambda>k. 2 + length k) ks)"
  by (induct ks) auto

lemma key_bytes_count: "2 * length ks \<le> length (key_bytes ks)"
  by (induct ks) auto

lemma key_bytes_bounds:
  assumes "length (key_bytes ks) < n"
  shows "\<forall>k \<in> set ks. length k < n" and "length ks < n"
proof -
  have "length k \<le> length (key_bytes ks)" if "k \<in> set ks" for k
    using member_le_sum_list [of "2 + length k" "map (\<lambda>k. 2 + length k) ks"] that by (simp add: length_key_bytes)
  with assms show "\<forall>k \<in> set ks. length k < n" by fastforce
  show "length ks < n" using key_bytes_count [of ks] assms by simp
qed

lemma marshal_keys_ok:
  assumes "cur + length (key_bytes ks) \<le> length b"
  shows "\<exists>b'. marshal_keys cur ks b = ((cur + length (key_bytes ks), None), b') \<and>
    take (cur + length (key_bytes ks)) b' = take cur b @ key_bytes ks"
  using assms
proof (induct ks arbitrary: cur b)
  case (Cons k ks)
  define b1 where "b1 = copy_at b cur (be_put 2 (ucast (of_nat (length k) :: u16)))"
  define b2 where "b2 = copy_at b1 (cur + 2) (bytes_of k)"
  have "take (cur + 2) b1 = take cur b @ be_put 2 (ucast (of_nat (length k) :: u16))"
    using take_copy_at [of cur "be_put 2 (ucast (of_nat (length k) :: u16))" b] Cons.prems by (simp add: b1_def)
  moreover have "take (cur + 2 + length k) b2 = take (cur + 2) b1 @ bytes_of k"
    using take_copy_at [of "cur + 2" "bytes_of k" b1] Cons.prems by (simp add: b1_def b2_def)
  moreover have "length b2 = length b" using Cons.prems by (simp add: b1_def b2_def)
  ultimately show ?case
    using Cons.hyps [of "cur + (2 + length k)" b2] Cons.prems
    by (auto simp: Let_def b1_def [symmetric] b2_def [symmetric] add.assoc simp del: add_2_eq_Suc add_2_eq_Suc')
qed simp

lemma marshal_keys_short:
  assumes "length b < cur + length (key_bytes ks)" and "cur \<le> length b"
  shows "snd (fst (marshal_keys cur ks b)) = Some errShortBuffer"
  using assms
proof (induct ks arbitrary: cur b)
  case (Cons k ks)
  then show ?case by (auto simp: Let_def)
qed simp

lemma header_bytes:
  assumes "18 \<le> length b" and "length (p_node p) = 16"
  shows "take 18 (put_header p b) = [p_magic p, p_type p] @ p_node p" and "length (put_header p b) = length b"
proof -
  let ?b1 = "copy_at b 0 [p_magic p]" let ?b2 = "copy_at ?b1 1 [p_type p]"
  have "take 1 ?b1 = [p_magic p]" using take_copy_at [of 0 "[p_magic p]" b] assms by simp
  moreover have "take 2 ?b2 = take 1 ?b1 @ [p_type p]"
    using take_copy_at [of 1 "[p_type p]" ?b1] assms by (simp add: numeral_2_eq_2)
  moreover have "take 18 (copy_at ?b2 2 (p_node p)) = take 2 ?b2 @ p_node p"
    using take_copy_at [of 2 "p_node p" ?b2] assms by simp
  ultimately show "take 18 (put_header p b) = [p_magic p, p_type p] @ p_node p" by (simp add: put_header_def)
  show "length (put_header p b) = length b" using assms by (simp add: put_header_def)
qed

lemma marshal_ok:
  assumes ok: "packet_ok p" and fits: "length (packet_bytes p) \<le> length b"
  shows "\<exists>b'. marshal p b = ((length (packet_bytes p), None), b') \<and> take (length (packet_bytes p)) b' = packet_bytes p"
proof -
  define b3 where "b3 = put_header p b"
  have n: "length (p_node p) = 16" and "18 \<le> length b" using ok fits by (auto simp: packet_ok_def packet_bytes_def)
  note h = header_bytes [OF \<open>18 \<le> length b\<close> n, folded b3_def]
  consider (one) "p_type p = typeInvalidate \<or> p_type p = typeHeartbeat" | (batch) "p_type p = typeBatch"
    | (other) "p_type p \<notin> {typeInvalidate, typeHeartbeat, typeBatch}" by auto
  then show ?thesis
  proof cases
    case one
    define b4 where "b4 = copy_at b3 18 (be_put 8 (p_keyhash p))"
    define b5 where "b5 = copy_at b4 26 (be_put 2 (ucast (p_keylen p)))"
    define b6 where "b6 = copy_at b5 28 (p_key p)"
    have l: "length (p_key p) = unat (p_keylen p)" "28 + length (p_key p) \<le> length b"
      using one ok fits n by (auto simp: packet_ok_def packet_bytes_def)
    then have l4: "length b4 = length b" "length b5 = length b" by (simp_all add: b4_def b5_def h)
    have "take 26 b4 = take 18 b3 @ be_put 8 (p_keyhash p)"
      using take_copy_at [of 18 "be_put 8 (p_keyhash p)" b3] l by (simp add: b4_def h)
    moreover have "take 28 b5 = take 26 b4 @ be_put 2 (ucast (p_keylen p))"
      using take_copy_at [of 26 "be_put 2 (ucast (p_keylen p))" b4] l l4 by (simp add: b5_def)
    moreover have "take (28 + length (p_key p)) b6 = take 28 b5 @ p_key p"
      using take_copy_at [of 28 "p_key p" b5] l l4 by (simp add: b6_def)
    ultimately have "take (28 + length (p_key p)) b6 = packet_bytes p" using one by (simp add: h packet_bytes_def)
    moreover have "length (packet_bytes p) = 28 + length (p_key p)" using one n by (simp add: packet_bytes_def)
    moreover have "marshal p b = ((28 + length (p_key p), None), b6)"
      using one l \<open>18 \<le> length b\<close> by (simp add: marshal_def Let_def b3_def [symmetric] b4_def [symmetric] b5_def [symmetric]
        b6_def [symmetric] h del: One_nat_def)
    ultimately show ?thesis by auto
  next
    case batch
    let ?c = "be_put 2 (ucast (of_nat (length (p_keys p)) :: u16))"
    define b4 where "b4 = copy_at b3 18 ?c"
    have pb: "packet_bytes p = ([p_magic p, p_type p] @ p_node p @ ?c) @ key_bytes (p_keys p)"
      using batch by (simp add: packet_bytes_def)
    have l: "20 + length (key_bytes (p_keys p)) \<le> length b" using fits n unfolding pb by simp
    have "take 20 b4 = take 18 b3 @ ?c" using take_copy_at [of 18 ?c b3] l by (simp add: b4_def h)
    moreover have "length b4 = length b" using l by (simp add: b4_def h)
    moreover have "marshal p b = marshal_keys 20 (p_keys p) b4"
      using batch l \<open>18 \<le> length b\<close> by (simp add: marshal_def Let_def b3_def [symmetric] b4_def h del: One_nat_def)
    ultimately show ?thesis using marshal_keys_ok [of 20 "p_keys p" b4] l n by (auto simp: h pb)
  next
    case other
    then show ?thesis using h \<open>18 \<le> length b\<close> n by (auto simp: marshal_def Let_def b3_def [symmetric] packet_bytes_def simp del: One_nat_def)
  qed
qed

lemma marshal_short:
  assumes ok: "packet_ok p" and big: "length b < length (packet_bytes p)"
  shows "snd (fst (marshal p b)) = Some errShortBuffer"
proof (cases "length b < 18")
  case False
  define b3 where "b3 = put_header p b"
  have n: "length (p_node p) = 16" using ok by (simp add: packet_ok_def)
  note h = header_bytes [of b p, OF _ n, folded b3_def]
  have "p_type p \<in> {typeInvalidate, typeHeartbeat, typeBatch}" using big False n by (auto simp: packet_bytes_def split: if_splits)
  then show ?thesis
    using big False n h
      marshal_keys_short [of "copy_at b3 18 (be_put 2 (ucast (of_nat (length (p_keys p)) :: u16)))" 20 "p_keys p"]
    by (auto simp: marshal_def Let_def b3_def [symmetric] packet_bytes_def simp del: One_nat_def)
qed (simp add: marshal_def)

section \<open>Reading back\<close>

lemma unmarshal_keys_bytes:
  assumes "\<forall>k \<in> set ks. length k < 65536"
  shows "unmarshal_keys (length ks) (length pre) (pre @ key_bytes ks) acc = (None, acc @ ks)"
  using assms
proof (induct ks arbitrary: pre acc)
  case (Cons k ks)
  let ?l = "be_put 2 (ucast (of_nat (length k) :: u16))"
  have "slice_of (pre @ key_bytes (k # ks)) (length pre) (length pre + 2) = ?l" by (simp add: slice_of_def)
  moreover have "slice_of (pre @ key_bytes (k # ks)) (length pre + 2) (length pre + 2 + length k) = bytes_of k"
    by (simp add: slice_of_def)
  moreover have "unat (of_nat (length k) :: u16) = length k" using Cons.prems by (simp add: unat_u16)
  moreover have "pre @ key_bytes (k # ks) = (pre @ ?l @ bytes_of k) @ key_bytes ks" by simp
  moreover have "length (pre @ ?l @ bytes_of k) = length pre + (2 + length k)" by simp
  ultimately show ?case using Cons.hyps [of "pre @ ?l @ bytes_of k" "acc @ [k]"] Cons.prems
    by (simp add: Let_def)
qed simp

text \<open>A batch that was cut off is rejected as a whole.\<close>

lemma unmarshal_keys_cut:
  assumes "\<forall>k \<in> set ks. length k < 65536" and "length pre \<le> m" and "m < length (pre @ key_bytes ks)"
  shows "fst (unmarshal_keys (length ks) (length pre) (take m (pre @ key_bytes ks)) acc) = Some errShortBuffer"
  using assms
proof (induct ks arbitrary: pre acc)
  case (Cons k ks)
  let ?l = "be_put 2 (ucast (of_nat (length k) :: u16))"
  let ?b = "take m (pre @ key_bytes (k # ks))"
  show ?case
  proof (cases "m < length pre + 2 + length k")
    case True
    have "unat (be_get (slice_of ?b (length pre) (length pre + 2))) = length k" if "length pre + 2 \<le> m"
    proof -
      have "slice_of ?b (length pre) (length pre + 2) = ?l" using that by (simp add: slice_of_def)
      then show ?thesis using Cons.prems by (simp add: unat_u16)
    qed
    moreover have "length ?b = m" using Cons.prems by simp
    ultimately show ?thesis using True by (auto simp: Let_def not_less simp del: key_bytes_simps)
  next
    case False
    define b where "b = ?b"
    have "slice_of b (length pre) (length pre + 2) = ?l" using False by (simp add: b_def slice_of_def)
    then have l: "unat (be_get (slice_of b (length pre) (length pre + 2))) = length k" using Cons.prems by (simp add: unat_u16)
    have m: "length b = m" using Cons.prems by (simp add: b_def)
    have "b = take m ((pre @ ?l @ bytes_of k) @ key_bytes ks)" by (simp add: b_def)
    then have "fst (unmarshal_keys (length ks) (length pre + (2 + length k)) b acc') = Some errShortBuffer" for acc'
      using Cons.hyps [of "pre @ ?l @ bytes_of k" acc'] Cons.prems False by simp
    then show ?thesis unfolding b_def [symmetric] using False l m by (simp add: Let_def)
  qed
qed simp

lemma unmarshal_bytes:
  assumes ok: "packet_ok p" and len: "length (packet_bytes p) \<le> 65536"
  shows "unmarshal zero_packet (packet_bytes p) = (None, p)"
proof -
  have n: "length (p_node p) = 16" and m: "p_magic p = magicByte" using ok by (auto simp: packet_ok_def)
  have s2: "slice_of (x # y # p_node p @ r) 2 18 = p_node p" for x y and r :: "byte list"
    using n by (simp add: slice_of_def numeral_2_eq_2)
  consider (one) "p_type p = typeInvalidate \<or> p_type p = typeHeartbeat" | (batch) "p_type p = typeBatch"
    | (other) "p_type p \<notin> {typeInvalidate, typeHeartbeat, typeBatch}" by auto
  then show ?thesis
  proof cases
    case one
    have b: "packet_bytes p = ([p_magic p, p_type p] @ p_node p) @ be_put 8 (p_keyhash p) @ be_put 2 (ucast (p_keylen p)) @ p_key p"
      using one by (simp add: packet_bytes_def)
    have "slice_of (packet_bytes p) 18 26 = be_put 8 (p_keyhash p)" "slice_of (packet_bytes p) 26 28 = be_put 2 (ucast (p_keylen p))"
      "slice_of (packet_bytes p) 28 (28 + length (p_key p)) = p_key p" "slice_of (packet_bytes p) 2 18 = p_node p"
      "packet_bytes p ! 0 = p_magic p" "packet_bytes p ! 1 = p_type p" "length (packet_bytes p) = 28 + length (p_key p)"
      using n by (simp_all add: b slice_of_def numeral_2_eq_2)
    then show ?thesis
      using one ok m unfolding unmarshal_def
      by (auto simp: packet_ok_def zero_packet_def Let_def)
  next
    case batch
    let ?pre = "[p_magic p, p_type p] @ p_node p @ be_put 2 (ucast (of_nat (length (p_keys p)) :: u16))"
    have b: "packet_bytes p = ?pre @ key_bytes (p_keys p)" using batch by (simp add: packet_bytes_def)
    have k: "\<forall>k \<in> set (p_keys p). length k < 65536" and c: "length (p_keys p) < 65536"
      using key_bytes_bounds [of "p_keys p" 65536] len n unfolding b by simp_all
    have "slice_of (packet_bytes p) 18 20 = be_put 2 (ucast (of_nat (length (p_keys p)) :: u16))" "slice_of (packet_bytes p) 2 18 = p_node p"
      "packet_bytes p ! 0 = p_magic p" "packet_bytes p ! 1 = p_type p" "20 \<le> length (packet_bytes p)"
      using n by (simp_all add: b slice_of_def numeral_2_eq_2)
    moreover have "unmarshal_keys (length (p_keys p)) 20 (packet_bytes p) [] = (None, p_keys p)"
      using unmarshal_keys_bytes [OF k, of ?pre "[]"] n unfolding b by simp
    ultimately show ?thesis
      using batch ok m c unfolding unmarshal_def by (auto simp: packet_ok_def zero_packet_def Let_def unat_u16)
  next
    case other
    then have "packet_bytes p = [p_magic p, p_type p] @ p_node p" by (simp add: packet_bytes_def)
    then show ?thesis
      using other ok m n unfolding unmarshal_def by (auto simp: packet_ok_def zero_packet_def Let_def slice_of_def)
  qed
qed

section \<open>Properties\<close>

text \<open>
  C23. A packet that fits into a buffer of at most 64 KiB is read back as it was, whatever
  the buffer held before; \<^verbatim>\<open>marshal\<close> fails exactly for the packets that do not fit.
\<close>

theorem packet_roundtrip:
  assumes "packet_ok p" and "length b \<le> 65536"
  shows "case marshal p b of
      ((n, None), b') \<Rightarrow> length (packet_bytes p) \<le> length b \<and> unmarshal zero_packet (take n b') = (None, p)
    | ((n, Some e), b') \<Rightarrow> length b < length (packet_bytes p) \<and> e = errShortBuffer"
proof (cases "length (packet_bytes p) \<le> length b")
  case True
  with marshal_ok [OF assms(1) True] unmarshal_bytes [OF assms(1)] assms(2) show ?thesis by auto
next
  case False
  with marshal_short [OF assms(1), of b] show ?thesis by (auto split: prod.split option.split)
qed

definition batch_example :: packet where
  "batch_example = zero_packet\<lparr>p_magic := magicByte, p_type := typeBatch, p_keys := [''user:1'', '''']\<rparr>"

theorem packet_roundtrip_witness:
  "\<exists>n b'. marshal batch_example (replicate 40 0xff) = ((n, None), b') \<and>
     unmarshal zero_packet (take n b') = (None, batch_example)"
proof -
  have ok: "packet_ok batch_example" by (simp add: packet_ok_def batch_example_def zero_packet_def)
  have "length (packet_bytes batch_example) = 30"
    by (simp add: packet_bytes_def batch_example_def zero_packet_def)
  then show ?thesis
    using packet_roundtrip [OF ok, of "replicate 40 0xff"] by (auto split: prod.splits option.splits)
qed



end
