(* ===== verification/Mesh_Bus.thy ===== *)
theory Mesh_Bus
  imports Mesh_Packet Bus_Registry
begin

text \<open>
  The peer-to-peer bus over UDP (src/syncbus/mesh/mesh.go).

  The network is the parameter \<open>mesh_net\<close>: how names resolve, what opening the socket
  answers, and which datagrams the socket refuses to send. A datagram that is sent
  is in \<open>mb_out\<close>; the network may lose, delay or repeat it, and a receiver sees at
  most the 1500 bytes its buffer holds. A buffer of the pool has 2048 bytes with
  any contents: the functions that take one get it as \<open>bb\<close>.

  Each function is a section of code between two points at which other goroutines
  may run; \<open>mesh_step\<close> is their interleaving. \<open>mb_batch\<close> is the variable of the
  goroutine \<^verbatim>\<open>runBatcher\<close> and \<open>mb_running\<close> says that it has not returned; \<open>ms_waiting\<close>
  are the keys of the calls of \<^verbatim>\<open>Publish\<close> that wait to hand their key over.
\<close>

section \<open>The bus\<close>

record mesh_opts =
  Port :: int
  Interface :: string
  Group :: string
  Peers :: "string list"
  AdvertiseAddr :: string
  Heartbeat :: duration
  BatchInterval :: duration
  BatchSize :: int

type_synonym udp_addr = string

record mesh_net =
  nResolve :: "string \<Rightarrow> go_error + udp_addr"
  nListen :: "string \<Rightarrow> go_error option"
  nInterface :: "string \<Rightarrow> go_error option"
  nJoin :: "string \<Rightarrow> udp_addr \<Rightarrow> go_error option"
  nSetMulticast :: "string \<Rightarrow> go_error option"
  nLocalAddr :: string
  nWriteTo :: "udp_addr \<Rightarrow> byte list \<Rightarrow> go_error option"

record mesh_bus =
  mb_opts :: mesh_opts
  mb_node :: "byte list"
  mb_conn :: bool
  mb_group :: udp_addr
  mb_reg :: "unit subreg"
  mb_known :: "time gomap"
  mb_resolved :: "udp_addr gomap"
  mb_publishCh :: "key chan"
  mb_pending :: "unit gomap"
  mb_published :: u64
  mb_received :: u64
  mb_done :: bool
  mb_batch :: "key list"
  mb_running :: bool
  mb_out :: "(udp_addr \<times> byte list) list"

datatype mesh_open_error =
    FailedResolve go_error | FailedListen int go_error | FailedInterface string go_error
  | FailedJoin string go_error | FailedMulticast go_error

definition mesh_defaults :: "mesh_opts \<Rightarrow> mesh_opts" where
  "mesh_defaults o1 =
     (let o2 = (if BatchInterval o1 = 0 then o1\<lparr>BatchInterval := 100 * 10 ^ 6\<rparr> else o1)
      in if BatchSize o2 = 0 then o2\<lparr>BatchSize := 20\<rparr> else o2)"

text \<open>
  The constructor: the bus or the error, and whether the socket it opened is open when
  it returns.
\<close>

definition NewMeshBus :: "mesh_net \<Rightarrow> byte list \<Rightarrow> mesh_opts \<Rightarrow> (mesh_open_error + mesh_bus) \<times> bool" where
  "NewMeshBus net uuid opts =
     (let o1 = (if Port opts = 0 then opts\<lparr>Port := 7946\<rparr> else opts);
          o2 = (if Group o1 = '''' then o1\<lparr>Group := ''239.0.0.1''\<rparr> else o1)
      in case nResolve net (Group o2 @ '':'' @ show_int (Port o2)) of
           Inl e \<Rightarrow> (Inl (FailedResolve e), False)
         | Inr addr \<Rightarrow>
             (case nListen net (''0.0.0.0:'' @ show_int (Port o2)) of
                Some e \<Rightarrow> (Inl (FailedListen (Port o2) e), False)
              | None \<Rightarrow>
                  (case (if Interface o2 \<noteq> '''' then nInterface net (Interface o2) else None) of
                     Some e \<Rightarrow> (Inl (FailedInterface (Interface o2) e), False)
                   | None \<Rightarrow>
                       (case nJoin net (Interface o2) addr of
                          Some e \<Rightarrow> (Inl (FailedJoin (Group o2) e), False)
                        | None \<Rightarrow>
                            (case (if Interface o2 \<noteq> '''' then nSetMulticast net (Interface o2) else None) of
                               Some e \<Rightarrow> (Inl (FailedMulticast e), False)
                             | None \<Rightarrow>
                                 (Inr \<lparr>mb_opts = mesh_defaults o2, mb_node = uuid, mb_conn = True, mb_group = addr,
                                    mb_reg = reg_empty, mb_known = [], mb_resolved = [], mb_publishCh = make_chan 1000,
                                    mb_pending = [], mb_published = 0, mb_received = 0, mb_done = False,
                                    mb_batch = [], mb_running = True, mb_out = []\<rparr>, True))))))"

section \<open>Publishing\<close>

text \<open>The first critical section of \<^verbatim>\<open>Publish\<close>: whether the key is pending already; it is afterwards.\<close>

definition mesh_publish_begin :: "key \<Rightarrow> mesh_bus \<Rightarrow> bool \<times> mesh_bus" where
  "mesh_publish_begin k b =
     (if gm_get (mb_pending b) k \<noteq> None then (True, b)
      else (False, b\<lparr>mb_pending := gm_put (mb_pending b) k ()\<rparr>))"

definition mesh_publish_send :: "key \<Rightarrow> mesh_bus \<Rightarrow> mesh_bus" where
  "mesh_publish_send k b = b\<lparr>mb_publishCh := push k (mb_publishCh b)\<rparr>"

definition mesh_publish_cancel :: "key \<Rightarrow> mesh_bus \<Rightarrow> mesh_bus" where
  "mesh_publish_cancel k b = b\<lparr>mb_pending := gm_del (mb_pending b) k\<rparr>"

text \<open>
  The whole call when no other goroutine runs in between. \<open>pick\<close> is the choice of the
  \<^verbatim>\<open>select\<close> when the channel has room and the context is done; \<open>None\<close> is a call that
  is still blocked.
\<close>

definition mesh_Publish ::
    "bool \<Rightarrow> ctx \<Rightarrow> clock \<Rightarrow> key \<Rightarrow> publish_option list \<Rightarrow> mesh_bus \<Rightarrow> (go_error option \<times> mesh_bus) option" where
  "mesh_Publish pick ctx clk k opts b =
     (let (already, b1) = mesh_publish_begin k b
      in if already then Some (None, b1)
         else case ctx (clk 0) of
                None \<Rightarrow> if chan_ready (mb_publishCh b1) then Some (None, mesh_publish_send k b1) else None
              | Some e \<Rightarrow> if pick \<and> chan_ready (mb_publishCh b1) then Some (None, mesh_publish_send k b1)
                          else Some (Some e, mesh_publish_cancel k b1))"

definition mesh_PublishAndAwait where
  "mesh_PublishAndAwait pick ctx clk k (replicas :: int) opts b =
     (if replicas > 0 then Some (Some ErrQuorumUnsupported, b) else mesh_Publish pick ctx clk k opts b)"

definition mesh_PublishAndAwaitTopology ::
    "ctx \<Rightarrow> clock \<Rightarrow> key \<Rightarrow> int \<Rightarrow> publish_option list \<Rightarrow> mesh_bus \<Rightarrow> go_error option \<times> mesh_bus" where
  "mesh_PublishAndAwaitTopology ctx clk k minZones opts b = (Some ErrQuorumUnsupported, b)"

text \<open>A write to the socket; one that is closed refuses everything.\<close>

definition conn_WriteTo :: "mesh_net \<Rightarrow> byte list \<Rightarrow> udp_addr \<Rightarrow> mesh_bus \<Rightarrow> go_error option \<times> mesh_bus" where
  "conn_WriteTo net payload addr b =
     (if \<not> mb_conn b then (Some (ErrOther ''use of closed network connection''), b)
      else case nWriteTo net addr payload of
             Some e \<Rightarrow> (Some e, b)
           | None \<Rightarrow> (None, b\<lparr>mb_out := mb_out b @ [(addr, payload)]\<rparr>))"

definition write_all :: "mesh_net \<Rightarrow> byte list \<Rightarrow> udp_addr list \<Rightarrow> mesh_bus \<Rightarrow> mesh_bus" where
  "write_all net payload addrs b = fold (\<lambda>addr b. snd (conn_WriteTo net payload addr b)) addrs b"

text \<open>The static seeds that are not known peers, as far as they resolve.\<close>

definition write_seeds :: "mesh_net \<Rightarrow> byte list \<Rightarrow> string list \<Rightarrow> mesh_bus \<Rightarrow> mesh_bus" where
  "write_seeds net payload ps b =
     fold (\<lambda>peer b. if gm_get (mb_resolved b) peer \<noteq> None then b
                    else case nResolve net peer of Inl e \<Rightarrow> b | Inr addr \<Rightarrow> snd (conn_WriteTo net payload addr b)) ps b"

definition broadcast :: "mesh_net \<Rightarrow> byte list \<Rightarrow> mesh_bus \<Rightarrow> go_error option \<times> mesh_bus" where
  "broadcast net payload b =
     (let (err, b1) = conn_WriteTo net payload (mb_group b) b;
          b2 = (if err = None then b1\<lparr>mb_published := mb_published b1 + 1\<rparr> else b1);
          b3 = write_all net payload (map snd (mb_resolved b2)) b2
      in (err, write_seeds net payload (Peers (mb_opts b3)) b3))"

section \<open>The batcher\<close>

definition batch_packet :: "mesh_bus \<Rightarrow> packet" where
  "batch_packet b = zero_packet\<lparr>p_magic := magicByte, p_type := typeBatch, p_node := mb_node b, p_keys := mb_batch b\<rparr>"

definition mesh_flush :: "mesh_net \<Rightarrow> byte list \<Rightarrow> mesh_bus \<Rightarrow> mesh_bus" where
  "mesh_flush net bb b =
     (if length (mb_batch b) = 0 then b
      else let b1 = (case marshal (batch_packet b) bb of
                       ((n, None), bb') \<Rightarrow> snd (broadcast net (take n bb') b)
                     | ((n, Some e), bb') \<Rightarrow> b)
           in b1\<lparr>mb_pending := fold (\<lambda>k m. gm_del m k) (mb_batch b1) (mb_pending b1), mb_batch := []\<rparr>)"

text \<open>An iteration of \<^verbatim>\<open>runBatcher\<close> that receives a key; one for the ticker is \<open>mesh_flush\<close>.\<close>

definition batcher_recv :: "mesh_net \<Rightarrow> byte list \<Rightarrow> mesh_bus \<Rightarrow> mesh_bus" where
  "batcher_recv net bb b =
     (case buf (mb_publishCh b) of
        [] \<Rightarrow> b
      | k # ks \<Rightarrow>
          (let b1 = b\<lparr>mb_publishCh := (mb_publishCh b)\<lparr>buf := ks\<rparr>, mb_batch := mb_batch b @ [k]\<rparr>
           in if int (length (mb_batch b1)) \<ge> BatchSize (mb_opts b1) then mesh_flush net bb b1 else b1))"

text \<open>The batcher receives \<open>n\<close> keys; \<open>pool i\<close> is the buffer it would get in the i-th iteration.\<close>

primrec batcher_run :: "mesh_net \<Rightarrow> (nat \<Rightarrow> byte list) \<Rightarrow> nat \<Rightarrow> mesh_bus \<Rightarrow> mesh_bus" where
  "batcher_run net pool 0 b = b"
| "batcher_run net pool (Suc n) b = batcher_run net pool n (batcher_recv net (pool n) b)"

section \<open>Subscribing and receiving\<close>

definition mesh_Subscribe :: "key \<Rightarrow> mesh_bus \<Rightarrow> (go_error + chan_id) \<times> mesh_bus" where
  "mesh_Subscribe k b = (case reg_add 32 () k (mb_reg b) of (c, r) \<Rightarrow> (Inr c, b\<lparr>mb_reg := r\<rparr>))"

definition mesh_Unsubscribe :: "key \<Rightarrow> chan_id \<Rightarrow> mesh_bus \<Rightarrow> go_error option \<times> mesh_bus" where
  "mesh_Unsubscribe k c b = (None, b\<lparr>mb_reg := snd (reg_remove remove1 k c (mb_reg b))\<rparr>)"

definition mesh_RevokeLease where
  "mesh_RevokeLease pick ctx clk idn b = mesh_Publish pick ctx clk (lease_key idn) [] b"

definition mesh_SubscribeLease where
  "mesh_SubscribeLease idn b = mesh_Subscribe (lease_key idn) b"

definition mesh_UnsubscribeLease where
  "mesh_UnsubscribeLease idn c b = mesh_Unsubscribe (lease_key idn) c b"

definition handleInvalidate :: "key \<Rightarrow> mesh_bus \<Rightarrow> mesh_bus" where
  "handleInvalidate k b = b\<lparr>mb_reg := snd (reg_offer (key_event k) (reg_chans k (mb_reg b)) (mb_reg b))\<rparr>"

definition on_heartbeat :: "mesh_net \<Rightarrow> time \<Rightarrow> string \<Rightarrow> mesh_bus \<Rightarrow> mesh_bus" where
  "on_heartbeat net now addr b =
     (let b1 = b\<lparr>mb_known := gm_put (mb_known b) addr now\<rparr>
      in if gm_get (mb_resolved b1) addr = None
         then (case nResolve net addr of
                 Inl e \<Rightarrow> b1
               | Inr a \<Rightarrow> b1\<lparr>mb_resolved := gm_put (mb_resolved b1) addr a\<rparr>)
         else b1)"

text \<open>An iteration of \<^verbatim>\<open>listen\<close> for the datagram \<open>d\<close>, of which the first 1500 bytes are read.\<close>

definition on_datagram :: "mesh_net \<Rightarrow> time \<Rightarrow> byte list \<Rightarrow> mesh_bus \<Rightarrow> mesh_bus" where
  "on_datagram net now d b =
     (case unmarshal zero_packet (take 1500 d) of
        (Some e, p) \<Rightarrow> b
      | (None, p) \<Rightarrow>
          if p_node p = mb_node b then b
          else let b1 = b\<lparr>mb_received := mb_received b + 1\<rparr>
               in if p_type p = typeHeartbeat then on_heartbeat net now (string_of (p_key p)) b1
                  else let b2 = (if p_type p = typeInvalidate then handleInvalidate (string_of (p_key p)) b1 else b1)
                       in if p_type p = typeBatch then fold handleInvalidate (p_keys p) b2 else b2)"

section \<open>Peers, heartbeats and closing\<close>

definition heartbeat_tick :: "mesh_net \<Rightarrow> byte list \<Rightarrow> mesh_bus \<Rightarrow> mesh_bus" where
  "heartbeat_tick net bb b =
     (let addr = (if AdvertiseAddr (mb_opts b) = '''' then nLocalAddr net else AdvertiseAddr (mb_opts b));
          p = zero_packet\<lparr>p_magic := magicByte, p_type := typeHeartbeat, p_node := mb_node b,
                p_keylen := of_nat (length addr), p_key := bytes_of addr\<rparr>
      in case marshal p bb of
           ((n, None), bb') \<Rightarrow> snd (broadcast net (take n bb') b)
         | ((n, Some e), bb') \<Rightarrow> b)"

definition peer_expired :: "time \<Rightarrow> time \<Rightarrow> bool" where
  "peer_expired now lastSeen \<longleftrightarrow> time_Sub now lastSeen > 60 * 10 ^ 9"

definition cleanupPeers_tick :: "time \<Rightarrow> mesh_bus \<Rightarrow> mesh_bus" where
  "cleanupPeers_tick now b =
     fold (\<lambda>(addr, lastSeen) b.
             if peer_expired now lastSeen
             then b\<lparr>mb_known := gm_del (mb_known b) addr, mb_resolved := gm_del (mb_resolved b) addr\<rparr> else b)
       (mb_known b) b"

definition mesh_Close :: "mesh_bus \<Rightarrow> go_error option \<times> mesh_bus" where
  "mesh_Close b =
     (let b1 = b\<lparr>mb_done := True\<rparr>
      in (if mb_conn b1 then None else Some (ErrOther ''use of closed network connection''), b1\<lparr>mb_conn := False\<rparr>))"

definition mesh_IsHealthy :: "mesh_bus \<Rightarrow> bool" where
  "mesh_IsHealthy b = True"

definition mesh_Metrics :: "mesh_bus \<Rightarrow> bus_metrics" where
  "mesh_Metrics b = \<lparr>Published = mb_published b, Delivered = mb_received b\<rparr>"

definition mesh_Peers :: "mesh_bus \<Rightarrow> string list" where
  "mesh_Peers b = gm_keys (mb_known b)"

section \<open>Interleavings\<close>

record mesh_sys =
  ms_bus :: mesh_bus
  ms_waiting :: "key list"

text \<open>
  A step of one node: a section of a call, an iteration of one of its goroutines, or a
  receive by the consumer of a channel. Datagrams are arbitrary bytes. The batcher
  may go on for a while after \<^verbatim>\<open>Close\<close>, until its \<^verbatim>\<open>select\<close> takes the done context.
\<close>

inductive mesh_step :: "mesh_net \<Rightarrow> mesh_sys \<Rightarrow> mesh_sys \<Rightarrow> bool" for net where
  publish: "mesh_publish_begin k (ms_bus s) = (False, b) \<Longrightarrow>
     mesh_step net s (s\<lparr>ms_bus := b, ms_waiting := ms_waiting s @ [k]\<rparr>)"
| send: "k \<in> set (ms_waiting s) \<Longrightarrow> chan_ready (mb_publishCh (ms_bus s)) \<Longrightarrow>
     mesh_step net s (s\<lparr>ms_bus := mesh_publish_send k (ms_bus s), ms_waiting := remove1 k (ms_waiting s)\<rparr>)"
| cancel: "k \<in> set (ms_waiting s) \<Longrightarrow>
     mesh_step net s (s\<lparr>ms_bus := mesh_publish_cancel k (ms_bus s), ms_waiting := remove1 k (ms_waiting s)\<rparr>)"
| recv: "mb_running (ms_bus s) \<Longrightarrow> length bb = 2048 \<Longrightarrow>
     mesh_step net s (s\<lparr>ms_bus := batcher_recv net bb (ms_bus s)\<rparr>)"
| flush: "mb_running (ms_bus s) \<Longrightarrow> length bb = 2048 \<Longrightarrow>
     mesh_step net s (s\<lparr>ms_bus := mesh_flush net bb (ms_bus s)\<rparr>)"
| stop: "mb_done (ms_bus s) \<Longrightarrow> mesh_step net s (s\<lparr>ms_bus := (ms_bus s)\<lparr>mb_running := False\<rparr>\<rparr>)"
| datagram: "mesh_step net s (s\<lparr>ms_bus := on_datagram net now d (ms_bus s)\<rparr>)"
| heartbeat: "length bb = 2048 \<Longrightarrow> mesh_step net s (s\<lparr>ms_bus := heartbeat_tick net bb (ms_bus s)\<rparr>)"
| cleanup: "mesh_step net s (s\<lparr>ms_bus := cleanupPeers_tick now (ms_bus s)\<rparr>)"
| subscribe: "mesh_step net s (s\<lparr>ms_bus := snd (mesh_Subscribe k (ms_bus s))\<rparr>)"
| unsubscribe: "mesh_step net s (s\<lparr>ms_bus := snd (mesh_Unsubscribe k c (ms_bus s))\<rparr>)"
| consume: "mesh_step net s (s\<lparr>ms_bus := (ms_bus s)\<lparr>mb_reg := snd (reg_receive c (mb_reg (ms_bus s)))\<rparr>\<rparr>)"
| closing: "mesh_step net s (s\<lparr>ms_bus := snd (mesh_Close (ms_bus s))\<rparr>)"

inductive mesh_reach :: "mesh_net \<Rightarrow> mesh_sys \<Rightarrow> bool" for net where
  init: "fst (NewMeshBus net uuid opts) = Inr b \<Longrightarrow> length uuid = 16 \<Longrightarrow>
     mesh_reach net \<lparr>ms_bus = b, ms_waiting = []\<rparr>"
| step: "mesh_reach net s \<Longrightarrow> mesh_step net s s' \<Longrightarrow> mesh_reach net s'"

text \<open>Every key that is on its way: in a waiting call, in the channel, or in the batch.\<close>

definition in_transit :: "mesh_sys \<Rightarrow> key list" where
  "in_transit s = ms_waiting s @ buf (mb_publishCh (ms_bus s)) @ mb_batch (ms_bus s)"

text \<open>Every peer whose address was resolved is a known peer.\<close>

definition peers_ok :: "time gomap \<Rightarrow> udp_addr gomap \<Rightarrow> bool" where
  "peers_ok kn rs \<longleftrightarrow> gm_ok kn \<and> gm_ok rs \<and> set (gm_keys rs) \<subseteq> set (gm_keys kn)"

definition mesh_inv :: "mesh_sys \<Rightarrow> bool" where
  "mesh_inv s \<longleftrightarrow> (let b = ms_bus s in
     subreg_wf (mb_reg b) \<and>
     gm_ok (mb_pending b) \<and> distinct (in_transit s) \<and> set (gm_keys (mb_pending b)) = set (in_transit s) \<and>
     (mb_batch b = [] \<or> int (length (mb_batch b)) < BatchSize (mb_opts b)) \<and>
     cap (mb_publishCh b) = 1000 \<and> length (buf (mb_publishCh b)) \<le> 1000 \<and> \<not> closed (mb_publishCh b) \<and>
     peers_ok (mb_known b) (mb_resolved b) \<and> length (mb_node b) = 16)"

section \<open>What the operations leave alone\<close>

text \<open>The bus after the datagram \<open>d\<close> was sent to some addresses.\<close>

definition sends :: "byte list \<Rightarrow> mesh_bus \<Rightarrow> mesh_bus \<Rightarrow> bool" where
  "sends d b b' \<longleftrightarrow> (\<exists>addrs n. b' = b\<lparr>mb_out := mb_out b @ map (\<lambda>a. (a, d)) addrs, mb_published := n\<rparr>)"

lemma sends_published: "sends d b (b\<lparr>mb_published := n\<rparr>)"
  unfolding sends_def by (rule exI [of _ "[]"], rule exI [of _ n]) simp

lemma sends_refl [simp]: "sends d b b"
  using sends_published [of d b "mb_published b"] by simp

lemma sends_trans:
  assumes "sends d a b" and "sends d b c"
  shows "sends d a c"
proof -
  from assms obtain as n as' n' where "b = a\<lparr>mb_out := mb_out a @ map (\<lambda>x. (x, d)) as, mb_published := n\<rparr>"
    and "c = b\<lparr>mb_out := mb_out b @ map (\<lambda>x. (x, d)) as', mb_published := n'\<rparr>" by (auto simp: sends_def)
  then show ?thesis unfolding sends_def by (intro exI [of _ "as @ as'"] exI [of _ n']) simp
qed

lemma sendsD:
  assumes "sends d b b'"
  shows "mb_opts b' = mb_opts b" "mb_node b' = mb_node b" "mb_conn b' = mb_conn b" "mb_group b' = mb_group b"
    "mb_reg b' = mb_reg b" "mb_known b' = mb_known b" "mb_resolved b' = mb_resolved b"
    "mb_publishCh b' = mb_publishCh b" "mb_pending b' = mb_pending b" "mb_batch b' = mb_batch b"
    "mb_running b' = mb_running b" "mb_received b' = mb_received b" "set (mb_out b) \<subseteq> set (mb_out b')"
    "\<exists>addrs. mb_out b' = mb_out b @ map (\<lambda>a. (a, d)) addrs"
  using assms by (auto simp: sends_def)

lemma conn_WriteTo_sends: "sends d b (snd (conn_WriteTo net d addr b))"
proof (cases "mb_conn b \<and> nWriteTo net addr d = None")
  case True
  then have "snd (conn_WriteTo net d addr b) = b\<lparr>mb_out := mb_out b @ map (\<lambda>a. (a, d)) [addr], mb_published := mb_published b\<rparr>"
    by (simp add: conn_WriteTo_def)
  then show ?thesis unfolding sends_def by blast
next
  case False
  then have "snd (conn_WriteTo net d addr b) = b" by (auto simp: conn_WriteTo_def split: option.splits)
  then show ?thesis by simp
qed

lemma fold_sends: "(\<And>x b. sends d b (f x b)) \<Longrightarrow> sends d b (fold f xs b)"
  by (induct xs arbitrary: b) (auto intro: sends_trans)

lemma write_all_sends: "sends d b (write_all net d addrs b)"
  unfolding write_all_def by (rule fold_sends) (rule conn_WriteTo_sends)

lemma write_seeds_sends: "sends d b (write_seeds net d ps b)"
  unfolding write_seeds_def by (rule fold_sends) (auto intro: conn_WriteTo_sends split: sum.split)

lemma broadcast_sends: "sends d b (snd (broadcast net d b))"
proof -
  define b1 where "b1 = snd (conn_WriteTo net d (mb_group b) b)"
  define b2 where "b2 = (if fst (conn_WriteTo net d (mb_group b) b) = None then b1\<lparr>mb_published := mb_published b1 + 1\<rparr> else b1)"
  have 1: "sends d b b1" by (simp add: b1_def conn_WriteTo_sends)
  have "sends d b1 b2" by (simp add: b2_def sends_published)
  then have 2: "sends d b b2" by (rule sends_trans [OF 1])
  show ?thesis
    unfolding broadcast_def Let_def case_prod_beta snd_conv b1_def [symmetric] b2_def [symmetric]
    by (rule sends_trans [OF sends_trans [OF 2 write_all_sends] write_seeds_sends])
qed

lemma broadcast_group:
  assumes "mb_conn b" and "nWriteTo net (mb_group b) d = None"
  shows "(mb_group b, d) \<in> set (mb_out (snd (broadcast net d b)))"
  using assms subsetD [OF sendsD(13) [OF write_all_sends]] subsetD [OF sendsD(13) [OF write_seeds_sends]]
  by (simp add: broadcast_def conn_WriteTo_def Let_def)

lemma gm_fold_del:
  "gm_ok m \<Longrightarrow> gm_ok (fold (\<lambda>k m. gm_del m k) ks m)"
  "set (gm_keys (fold (\<lambda>k m. gm_del m k) ks m)) = set (gm_keys m) - set ks"
  by (induct ks arbitrary: m) (auto simp: gm_keys_del simp del: set_map)

lemma batch_packet_ok [simp]: "length (mb_node b) = 16 \<Longrightarrow> packet_ok (batch_packet b)"
  by (simp add: packet_ok_def batch_packet_def zero_packet_def)

lemma batch_packet_simps [simp]:
  "p_keys (batch_packet b) = mb_batch b" "p_type (batch_packet b) = typeBatch" "p_node (batch_packet b) = mb_node b"
  by (simp_all add: batch_packet_def)

text \<open>Flushing sends the bytes of the batch when they fit into the buffer, and nothing otherwise.\<close>

lemma mesh_flush_eq:
  assumes "length (mb_node b) = 16"
  shows "\<exists>b1. sends (packet_bytes (batch_packet b)) b b1 \<and>
     (length (packet_bytes (batch_packet b)) \<le> length bb \<longrightarrow> mb_batch b \<noteq> [] \<longrightarrow>
        b1 = snd (broadcast net (packet_bytes (batch_packet b)) b)) \<and>
     mesh_flush net bb b = b1\<lparr>mb_pending := fold (\<lambda>k m. gm_del m k) (mb_batch b) (mb_pending b), mb_batch := []\<rparr>"
proof -
  let ?p = "batch_packet b"
  define b1 where "b1 = (if mb_batch b \<noteq> [] \<and> length (packet_bytes ?p) \<le> length bb then snd (broadcast net (packet_bytes ?p) b) else b)"
  have s: "sends (packet_bytes ?p) b b1" by (simp add: b1_def broadcast_sends)
  have "(case marshal ?p bb of ((n, None), bb') \<Rightarrow> snd (broadcast net (take n bb') b) | ((n, Some e), bb') \<Rightarrow> b) = b1"
    if "mb_batch b \<noteq> []"
    using that marshal_ok [of ?p bb] marshal_short [of ?p bb] assms
    by (cases "length (packet_bytes ?p) \<le> length bb") (auto simp: b1_def split: prod.splits option.splits)
  then have "mesh_flush net bb b = b1\<lparr>mb_pending := fold (\<lambda>k m. gm_del m k) (mb_batch b) (mb_pending b), mb_batch := []\<rparr>"
    using s by (cases "mb_batch b = []") (simp_all add: mesh_flush_def Let_def sendsD, simp add: b1_def)
  with s show ?thesis by (intro exI [of _ b1]) (simp add: b1_def)
qed

lemma heartbeat_sends: "\<exists>d. sends d b (heartbeat_tick net bb b)"
  unfolding heartbeat_tick_def Let_def by (auto intro: broadcast_sends sends_refl split: prod.split option.split)

text \<open>What a datagram may change: the subscribers' channels, the peers and the counter.\<close>

definition same_but_received :: "mesh_bus \<Rightarrow> mesh_bus \<Rightarrow> bool" where
  "same_but_received b b' \<longleftrightarrow> (\<exists>r kn rs n. b' = b\<lparr>mb_reg := r, mb_known := kn, mb_resolved := rs, mb_received := n\<rparr> \<and>
     subreg_wf r \<and> peers_ok kn rs)"

lemma peers_ok_put: "peers_ok kn rs \<Longrightarrow> peers_ok (gm_put kn a t) rs"
  by (auto simp: peers_ok_def gm_keys_put simp del: set_map)

lemma peers_ok_put2: "peers_ok kn rs \<Longrightarrow> peers_ok (gm_put kn a t) (gm_put rs a x)"
  by (auto simp: peers_ok_def gm_keys_put simp del: set_map)

lemma same_but_receivedI:
  "b' = b\<lparr>mb_reg := r, mb_known := kn, mb_resolved := rs, mb_received := n\<rparr> \<Longrightarrow> subreg_wf r \<Longrightarrow> peers_ok kn rs \<Longrightarrow>
   same_but_received b b'"
  unfolding same_but_received_def by blast

lemma fold_handle:
  "subreg_wf (mb_reg b) \<Longrightarrow> \<exists>r. fold handleInvalidate ks b = b\<lparr>mb_reg := r\<rparr> \<and> subreg_wf r"
proof (induct ks arbitrary: b)
  case Nil
  then show ?case by (intro exI [of _ "mb_reg b"]) simp
next
  case (Cons k ks)
  from Cons.hyps [of "handleInvalidate k b"] Cons.prems show ?case
    by (auto simp: handleInvalidate_def subreg_wf_intros)
qed

lemma on_datagram_same:
  assumes wf: "subreg_wf (mb_reg b)" and pe: "peers_ok (mb_known b) (mb_resolved b)"
  shows "same_but_received b (on_datagram net now d b)"
proof -
  let ?b1 = "b\<lparr>mb_received := mb_received b + 1\<rparr>"
  have same: "same_but_received b b"
    by (rule same_but_receivedI [where r = "mb_reg b" and kn = "mb_known b" and rs = "mb_resolved b" and n = "mb_received b"]) (simp_all add: wf pe)
  have beat: "same_but_received b (on_heartbeat net now a ?b1)" for a
  proof (cases "gm_get (mb_resolved b) a = None")
    case True
    show ?thesis
    proof (cases "nResolve net a")
      case (Inl e)
      with True show ?thesis
        by (intro same_but_receivedI [where r = "mb_reg b" and kn = "gm_put (mb_known b) a now" and rs = "mb_resolved b" and n = "mb_received b + 1"])
          (simp_all add: on_heartbeat_def wf pe peers_ok_put)
    next
      case (Inr x)
      with True show ?thesis
        by (intro same_but_receivedI [where r = "mb_reg b" and kn = "gm_put (mb_known b) a now" and rs = "gm_put (mb_resolved b) a x" and n = "mb_received b + 1"])
          (simp_all add: on_heartbeat_def wf pe peers_ok_put2)
    qed
  next
    case False
    then obtain y where "gm_get (mb_resolved b) a = Some y" by auto
    then show ?thesis
      by (intro same_but_receivedI [where r = "mb_reg b" and kn = "gm_put (mb_known b) a now" and rs = "mb_resolved b" and n = "mb_received b + 1"])
        (simp_all add: on_heartbeat_def wf pe peers_ok_put)
  qed
  have inval: "same_but_received b (fold handleInvalidate ks ?b1)" for ks
  proof -
    from fold_handle [of ?b1 ks] wf obtain r where r: "fold handleInvalidate ks ?b1 = ?b1\<lparr>mb_reg := r\<rparr>" "subreg_wf r" by auto
    show ?thesis unfolding r(1)
      by (rule same_but_receivedI [where r = r and kn = "mb_known b" and rs = "mb_resolved b" and n = "mb_received b + 1"]) (simp_all add: r pe)
  qed
  obtain e p where p: "unmarshal zero_packet (take 1500 d) = (e, p)" by (cases "unmarshal zero_packet (take 1500 d)")
  show ?thesis
    using same beat inval [of "[]"] inval [of "[k]" for k] inval
    by (cases e) (simp_all add: on_datagram_def p Let_def)
qed

lemma cleanup_fold:
  "\<exists>A. fold (\<lambda>(addr, lastSeen) b. if peer_expired now lastSeen
        then b\<lparr>mb_known := gm_del (mb_known b) addr, mb_resolved := gm_del (mb_resolved b) addr\<rparr> else b) xs b
     = b\<lparr>mb_known := fold (\<lambda>k m. gm_del m k) A (mb_known b), mb_resolved := fold (\<lambda>k m. gm_del m k) A (mb_resolved b)\<rparr> \<and>
     A = map fst (filter (\<lambda>p. peer_expired now (snd p)) xs)"
  by (induct xs arbitrary: b) auto

lemmas cleanup_eq = cleanup_fold [where xs = "mb_known b" and b = b for b, folded cleanupPeers_tick_def, simplified]

lemma peers_ok_cleanup:
  assumes "peers_ok (mb_known b) (mb_resolved b)"
  shows "\<exists>kn rs. cleanupPeers_tick now b = b\<lparr>mb_known := kn, mb_resolved := rs\<rparr> \<and> peers_ok kn rs"
proof -
  obtain A where "cleanupPeers_tick now b =
      b\<lparr>mb_known := fold (\<lambda>k m. gm_del m k) A (mb_known b), mb_resolved := fold (\<lambda>k m. gm_del m k) A (mb_resolved b)\<rparr>"
    using cleanup_fold unfolding cleanupPeers_tick_def by blast
  moreover have "peers_ok (fold (\<lambda>k m. gm_del m k) A (mb_known b)) (fold (\<lambda>k m. gm_del m k) A (mb_resolved b))"
    using assms by (auto simp: peers_ok_def gm_fold_del simp del: set_map)
  ultimately show ?thesis by blast
qed

section \<open>The invariant\<close>

text \<open>The part of the invariant that is about publishing, on its own.\<close>

definition transit_ok :: "key list \<Rightarrow> key list \<Rightarrow> key list \<Rightarrow> unit gomap \<Rightarrow> bool" where
  "transit_ok ws ch bt pend \<longleftrightarrow>
     gm_ok pend \<and> distinct (ws @ ch @ bt) \<and> set (gm_keys pend) = set (ws @ ch @ bt)"

lemma mesh_inv_alt:
  "mesh_inv s \<longleftrightarrow> (let b = ms_bus s in
     subreg_wf (mb_reg b) \<and> peers_ok (mb_known b) (mb_resolved b) \<and> length (mb_node b) = 16 \<and>
     transit_ok (ms_waiting s) (buf (mb_publishCh b)) (mb_batch b) (mb_pending b) \<and>
     (mb_batch b = [] \<or> int (length (mb_batch b)) < BatchSize (mb_opts b)) \<and>
     cap (mb_publishCh b) = 1000 \<and> length (buf (mb_publishCh b)) \<le> 1000 \<and> \<not> closed (mb_publishCh b))"
  by (auto simp: mesh_inv_def transit_ok_def in_transit_def Let_def)

lemma transit_begin: "transit_ok ws ch bt pend \<Longrightarrow> gm_get pend k = None \<Longrightarrow> transit_ok (ws @ [k]) ch bt (gm_put pend k ())"
  by (auto simp: transit_ok_def gm_keys_put gm_get_None_iff simp del: set_map)

lemma transit_send: "transit_ok ws ch bt pend \<Longrightarrow> k \<in> set ws \<Longrightarrow> transit_ok (remove1 k ws) (ch @ [k]) bt pend"
  by (auto simp: transit_ok_def simp del: set_map)

lemma transit_cancel: "transit_ok ws ch bt pend \<Longrightarrow> k \<in> set ws \<Longrightarrow> transit_ok (remove1 k ws) ch bt (gm_del pend k)"
  by (auto simp: transit_ok_def gm_keys_del simp del: set_map)

lemma transit_recv: "transit_ok ws (k # ch) bt pend \<Longrightarrow> transit_ok ws ch (bt @ [k]) pend"
  by (auto simp: transit_ok_def simp del: set_map)

lemma transit_flush: "transit_ok ws ch bt pend \<Longrightarrow> transit_ok ws ch [] (fold (\<lambda>k m. gm_del m k) bt pend)"
  by (auto simp: transit_ok_def gm_fold_del simp del: set_map)

lemma mesh_inv_flush:
  assumes "subreg_wf (mb_reg b)" "peers_ok (mb_known b) (mb_resolved b)" "length (mb_node b) = 16"
    "transit_ok ws (buf (mb_publishCh b)) (mb_batch b) (mb_pending b)"
    "cap (mb_publishCh b) = 1000" "length (buf (mb_publishCh b)) \<le> 1000" "\<not> closed (mb_publishCh b)"
  shows "mesh_inv \<lparr>ms_bus = mesh_flush net bb b, ms_waiting = ws\<rparr>"
proof -
  obtain d b1 where "sends d b b1"
    and "mesh_flush net bb b = b1\<lparr>mb_pending := fold (\<lambda>k m. gm_del m k) (mb_batch b) (mb_pending b), mb_batch := []\<rparr>"
    using mesh_flush_eq [OF assms(3)] by blast
  then show ?thesis using assms transit_flush [OF assms(4)] by (simp add: mesh_inv_alt sendsD)
qed

lemma mesh_inv_recv:
  assumes "mesh_inv s"
  shows "mesh_inv (s\<lparr>ms_bus := batcher_recv net bb (ms_bus s)\<rparr>)"
proof (cases "buf (mb_publishCh (ms_bus s))")
  case Nil
  then show ?thesis using assms by (simp add: batcher_recv_def)
next
  case (Cons k ks)
  let ?b = "ms_bus s"
  let ?b1 = "?b\<lparr>mb_publishCh := (mb_publishCh ?b)\<lparr>buf := ks\<rparr>, mb_batch := mb_batch ?b @ [k]\<rparr>"
  have t: "transit_ok (ms_waiting s) ks (mb_batch ?b @ [k]) (mb_pending ?b)"
    using assms transit_recv Cons by (simp add: mesh_inv_alt Let_def)
  have inv: "subreg_wf (mb_reg ?b)" "peers_ok (mb_known ?b) (mb_resolved ?b)" "length (mb_node ?b) = 16"
    "cap (mb_publishCh ?b) = 1000" "length ks \<le> 1000" "\<not> closed (mb_publishCh ?b)"
    using assms Cons by (simp_all add: mesh_inv_alt Let_def)
  show ?thesis
  proof (cases "int (length (mb_batch ?b1)) \<ge> BatchSize (mb_opts ?b)")
    case True
    then have "batcher_recv net bb ?b = mesh_flush net bb ?b1" by (simp add: batcher_recv_def Cons)
    moreover have "mesh_inv \<lparr>ms_bus = mesh_flush net bb ?b1, ms_waiting = ms_waiting s\<rparr>"
      using t inv by (intro mesh_inv_flush) simp_all
    ultimately show ?thesis by (cases s) simp
  next
    case False
    then have "batcher_recv net bb ?b = ?b1" by (simp add: batcher_recv_def Cons)
    then show ?thesis using False t inv by (simp add: mesh_inv_alt)
  qed
qed

lemma mesh_inv_New:
  assumes "fst (NewMeshBus net uuid opts) = Inr b" and "length uuid = 16"
  shows "mesh_inv \<lparr>ms_bus = b, ms_waiting = []\<rparr> \<and> mb_running b \<and> mb_conn b"
  using assms
  by (auto simp: NewMeshBus_def Let_def mesh_inv_def in_transit_def peers_ok_def make_chan_def split: sum.splits option.splits)

lemma mesh_inv_sends: "mesh_inv s \<Longrightarrow> sends d (ms_bus s) b \<Longrightarrow> mesh_inv (s\<lparr>ms_bus := b\<rparr>)"
  by (simp add: mesh_inv_alt sendsD Let_def)

lemma mesh_inv_received: "mesh_inv s \<Longrightarrow> same_but_received (ms_bus s) b \<Longrightarrow> mesh_inv (s\<lparr>ms_bus := b\<rparr>)"
  by (auto simp: mesh_inv_alt same_but_received_def Let_def)

lemma mesh_step_inv: "mesh_step net s s' \<Longrightarrow> mesh_inv s \<Longrightarrow> mesh_inv s'"
proof (induction rule: mesh_step.induct)
  case (publish k s b)
  then have "gm_get (mb_pending (ms_bus s)) k = None" "b = (ms_bus s)\<lparr>mb_pending := gm_put (mb_pending (ms_bus s)) k ()\<rparr>"
    by (cases "gm_get (mb_pending (ms_bus s)) k"; simp add: mesh_publish_begin_def)+
  then show ?case using publish.prems by (simp add: mesh_inv_alt Let_def transit_begin)
next
  case (send k s)
  then show ?case by (simp add: mesh_inv_alt Let_def transit_send mesh_publish_send_def chan_ready_def)
next
  case (cancel k s)
  then show ?case by (simp add: mesh_inv_alt Let_def transit_cancel mesh_publish_cancel_def)
next
  case (recv s bb)
  then show ?case by (simp add: mesh_inv_recv)
next
  case (flush s bb)
  then have "mesh_inv \<lparr>ms_bus = mesh_flush net bb (ms_bus s), ms_waiting = ms_waiting s\<rparr>"
    by (intro mesh_inv_flush) (simp_all add: mesh_inv_alt Let_def)
  then show ?case by (cases s) simp
next
  case (datagram s now d)
  then show ?case by (intro mesh_inv_received on_datagram_same) (simp_all add: mesh_inv_alt Let_def)
next
  case (heartbeat bb s)
  then show ?case using heartbeat_sends mesh_inv_sends by blast
next
  case (cleanup s now)
  then have "peers_ok (mb_known (ms_bus s)) (mb_resolved (ms_bus s))" by (simp add: mesh_inv_alt Let_def)
  from peers_ok_cleanup [OF this, of now] cleanup show ?case by (auto simp: mesh_inv_alt Let_def)
next
  case (unsubscribe s k c)
  then show ?case by (simp add: mesh_inv_alt Let_def mesh_Unsubscribe_def subreg_wf_intros)
next
  case (subscribe s k)
  then show ?case by (simp add: mesh_inv_alt Let_def mesh_Subscribe_def case_prod_beta subreg_wf_intros)
qed (simp_all add: mesh_inv_alt Let_def subreg_wf_intros mesh_Close_def)

lemma mesh_reach_inv: "mesh_reach net s \<Longrightarrow> mesh_inv s"
  by (induction rule: mesh_reach.induct) (auto simp: mesh_inv_New mesh_step_inv)

section \<open>Delivery\<close>

lemma handle_frame:
  assumes "subreg_wf (mb_reg b)"
  shows "subreg_wf (mb_reg (handleInvalidate k b))" and "reg_chans k' (mb_reg (handleInvalidate k b)) = reg_chans k' (mb_reg b)"
    and "length (sr_chans (mb_reg (handleInvalidate k b))) = length (sr_chans (mb_reg b))"
    and "c < length (sr_chans (mb_reg b)) \<Longrightarrow>
      sr_chans (mb_reg (handleInvalidate k b)) ! c =
      (if c \<in> set (reg_chans k (mb_reg b)) \<and> chan_ready (sr_chans (mb_reg b) ! c)
       then push (key_event k) (sr_chans (mb_reg b) ! c) else sr_chans (mb_reg b) ! c)"
  using subreg_wf_offer [OF assms, of "key_event k" k] assms by (simp_all add: handleInvalidate_def reg_offer_eq)

lemma fold_handle_nth:
  assumes "subreg_wf (mb_reg b)" and "distinct ks" and "c \<in> set (reg_chans k (mb_reg b))"
  shows "sr_chans (mb_reg (fold handleInvalidate ks b)) ! c =
    (if k \<in> set ks \<and> chan_ready (sr_chans (mb_reg b) ! c)
     then push (key_event k) (sr_chans (mb_reg b) ! c) else sr_chans (mb_reg b) ! c)"
  using assms
proof (induct ks arbitrary: b)
  case (Cons x ks)
  let ?b = "handleInvalidate x b"
  note f = handle_frame [OF Cons.prems(1)]
  have c: "c < length (sr_chans (mb_reg b))" using subreg_wfD(4) [OF Cons.prems(1,3)] .
  have x: "c \<in> set (reg_chans x (mb_reg b)) \<longleftrightarrow> x = k" using subreg_wfD(3) [OF Cons.prems(1)] Cons.prems(3) by blast
  have "sr_chans (mb_reg (fold handleInvalidate ks ?b)) ! c =
      (if k \<in> set ks \<and> chan_ready (sr_chans (mb_reg ?b) ! c)
       then push (key_event k) (sr_chans (mb_reg ?b) ! c) else sr_chans (mb_reg ?b) ! c)"
    using Cons.prems f by (intro Cons.hyps) auto
  then show ?case using f(4) [OF c, of x] x Cons.prems(2) by auto
qed simp

lemma on_datagram_batch:
  assumes "packet_ok p" and "p_type p = typeBatch" and "length (packet_bytes p) \<le> 1500" and "p_node p \<noteq> mb_node b"
  shows "on_datagram net now (packet_bytes p) b = fold handleInvalidate (p_keys p) (b\<lparr>mb_received := mb_received b + 1\<rparr>)"
proof -
  have "unmarshal zero_packet (take 1500 (packet_bytes p)) = (None, p)" using unmarshal_bytes [OF assms(1)] assms(3) by simp
  then show ?thesis using assms by (simp add: on_datagram_def)
qed

lemma on_datagram_cut:
  assumes ok: "packet_ok p" and t: "p_type p = typeBatch" and len: "1500 < length (packet_bytes p)" "length (packet_bytes p) \<le> 65536"
  shows "on_datagram net now (packet_bytes p) b = b"
proof -
  let ?pre = "[p_magic p, p_type p] @ p_node p @ be_put 2 (ucast (of_nat (length (p_keys p)) :: u16))"
  have b: "packet_bytes p = ?pre @ key_bytes (p_keys p)" using t by (simp add: packet_bytes_def)
  have n: "length (p_node p) = 16" "p_magic p = magicByte" using ok by (simp_all add: packet_ok_def)
  define d where "d = take 1500 (packet_bytes p)"
  have k: "\<forall>k \<in> set (p_keys p). length k < 65536" and c: "length (p_keys p) < 65536"
    using key_bytes_bounds [of "p_keys p" 65536] len(2) n unfolding b by auto
  have "length ?pre = 20" using n by simp
  then have "fst (unmarshal_keys (length (p_keys p)) 20 d []) = Some errShortBuffer"
    using unmarshal_keys_cut [OF k, of ?pre 1500 "[]"] len(1) unfolding d_def b by simp
  moreover have "slice_of d 18 20 = be_put 2 (ucast (of_nat (length (p_keys p)) :: u16))" "slice_of d 2 18 = p_node p"
    "d ! 0 = magicByte" "d ! 1 = typeBatch" "length d = 1500"
    using n t len unfolding d_def b by (simp_all add: slice_of_def numeral_2_eq_2)
  ultimately have "fst (unmarshal zero_packet d) = Some errShortBuffer"
    using c by (auto simp: unmarshal_def Let_def unat_u16 split: prod.split)
  then show ?thesis unfolding on_datagram_def d_def [symmetric] by (auto split: prod.split option.split)
qed

text \<open>A key was sent to the group in a batch that a receiver can read.\<close>

definition sent_in :: "mesh_bus \<Rightarrow> key \<Rightarrow> bool" where
  "sent_in b k \<longleftrightarrow> (\<exists>p. packet_ok p \<and> p_type p = typeBatch \<and> p_node p = mb_node b \<and> k \<in> set (p_keys p) \<and>
     distinct (p_keys p) \<and> length (packet_bytes p) \<le> 1500 \<and> (mb_group b, packet_bytes p) \<in> set (mb_out b))"

text \<open>The room a key takes when a full batch consists of keys of its length.\<close>

definition fits :: "mesh_bus \<Rightarrow> key \<Rightarrow> bool" where
  "fits b k \<longleftrightarrow> 20 + max 1 (nat (BatchSize (mb_opts b))) * (2 + length k) \<le> 1500"

lemma length_batch_bytes:
  assumes "length (mb_node b) = 16"
  shows "length (packet_bytes (batch_packet b)) = 20 + length (key_bytes (mb_batch b))"
  using assms by (simp add: packet_bytes_def batch_packet_def zero_packet_def)

lemma batch_fits:
  assumes "length (mb_node b) = 16" and "mb_batch b \<noteq> []"
    and "length (mb_batch b) \<le> max 1 (nat (BatchSize (mb_opts b)))" and "\<forall>k \<in> set (mb_batch b). fits b k"
  shows "length (packet_bytes (batch_packet b)) \<le> 1500"
proof -
  let ?n = "max 1 (nat (BatchSize (mb_opts b)))" let ?m = "Max (set (map length (mb_batch b)))"
  have "?m \<in> set (map length (mb_batch b))" using assms(2) by (intro Max_in) auto
  then obtain k where k: "k \<in> set (mb_batch b)" "?m = length k" by auto
  have "length (key_bytes (mb_batch b)) \<le> length (mb_batch b) * (2 + length k)"
  proof -
    have "\<forall>x \<in> set (mb_batch b). 2 + length x \<le> 2 + length k" using k(2) Max_ge [of "set (map length (mb_batch b))"] by auto
    then have "sum_list (map (\<lambda>k. 2 + length k) (mb_batch b)) \<le> sum_list (map (\<lambda>_. 2 + length k) (mb_batch b))"
      by (intro sum_list_mono) auto
    then show ?thesis by (simp add: length_key_bytes sum_list_triv)
  qed
  also have "\<dots> \<le> ?n * (2 + length k)" using assms(3) by (rule mult_le_mono1)
  finally show ?thesis using assms(4) k(1) length_batch_bytes [OF assms(1)] by (auto simp: fits_def)
qed

lemma mesh_flush_sends:
  assumes "length (mb_node b) = 16" and "mb_conn b" and "\<forall>d. nWriteTo net (mb_group b) d = None" and "length bb = 2048"
    and "mb_batch b \<noteq> []" and "length (mb_batch b) \<le> max 1 (nat (BatchSize (mb_opts b)))"
    and "\<forall>k \<in> set (mb_batch b). fits b k" and "distinct (mb_batch b)" and "k \<in> set (mb_batch b)"
  shows "sent_in (mesh_flush net bb b) k"
proof -
  let ?p = "batch_packet b"
  have len: "length (packet_bytes ?p) \<le> 1500" using batch_fits assms by blast
  obtain b1 where b1: "sends (packet_bytes ?p) b b1" "b1 = snd (broadcast net (packet_bytes ?p) b)"
    "mesh_flush net bb b = b1\<lparr>mb_pending := fold (\<lambda>k m. gm_del m k) (mb_batch b) (mb_pending b), mb_batch := []\<rparr>"
    using mesh_flush_eq [OF assms(1), of bb net] len assms(4,5) by auto
  have "(mb_group b, packet_bytes ?p) \<in> set (mb_out b1)" using broadcast_group assms(2,3) b1(2) by simp
  then show ?thesis
    unfolding sent_in_def b1(3) using assms len sendsD [OF b1(1)] by (intro exI [of _ ?p]) simp
qed

lemma sent_in_mono:
  "sent_in b k \<Longrightarrow> mb_node b' = mb_node b \<Longrightarrow> mb_group b' = mb_group b \<Longrightarrow> set (mb_out b) \<subseteq> set (mb_out b') \<Longrightarrow> sent_in b' k"
  unfolding sent_in_def by (elim exE conjE, rule exI) auto

lemma mesh_flush_frame:
  assumes "length (mb_node b) = 16"
  shows "mb_node (mesh_flush net bb b) = mb_node b" "mb_group (mesh_flush net bb b) = mb_group b"
    "mb_opts (mesh_flush net bb b) = mb_opts b" "mb_conn (mesh_flush net bb b) = mb_conn b"
    "mb_publishCh (mesh_flush net bb b) = mb_publishCh b" "mb_batch (mesh_flush net bb b) = []"
    "set (mb_out b) \<subseteq> set (mb_out (mesh_flush net bb b))"
proof -
  obtain b1 where "sends (packet_bytes (batch_packet b)) b b1"
    "mesh_flush net bb b = b1\<lparr>mb_pending := fold (\<lambda>k m. gm_del m k) (mb_batch b) (mb_pending b), mb_batch := []\<rparr>"
    using mesh_flush_eq [OF assms] by blast
  then show "mb_node (mesh_flush net bb b) = mb_node b" "mb_group (mesh_flush net bb b) = mb_group b"
    "mb_opts (mesh_flush net bb b) = mb_opts b" "mb_conn (mesh_flush net bb b) = mb_conn b"
    "mb_publishCh (mesh_flush net bb b) = mb_publishCh b" "mb_batch (mesh_flush net bb b) = []"
    "set (mb_out b) \<subseteq> set (mb_out (mesh_flush net bb b))"
    by (simp_all add: sendsD)
qed

text \<open>One iteration of the batcher keeps what is sent and sends what does not stay in the batch.\<close>

definition batching :: "mesh_net \<Rightarrow> mesh_bus \<Rightarrow> bool" where
  "batching net b \<longleftrightarrow>
     length (mb_node b) = 16 \<and> mb_conn b \<and> (\<forall>d. nWriteTo net (mb_group b) d = None) \<and>
     distinct (buf (mb_publishCh b) @ mb_batch b) \<and> (\<forall>k \<in> set (buf (mb_publishCh b) @ mb_batch b). fits b k) \<and>
     (mb_batch b = [] \<or> int (length (mb_batch b)) < BatchSize (mb_opts b))"

lemma batcher_recv_step:
  assumes "batching net b" and "buf (mb_publishCh b) = k # ks" and "length bb = 2048"
  shows "batching net (batcher_recv net bb b) \<and> buf (mb_publishCh (batcher_recv net bb b)) = ks \<and>
    mb_node (batcher_recv net bb b) = mb_node b \<and> mb_group (batcher_recv net bb b) = mb_group b \<and>
    (\<forall>x. sent_in b x \<or> x = k \<or> x \<in> set (mb_batch b) \<longrightarrow>
       sent_in (batcher_recv net bb b) x \<or> x \<in> set (mb_batch (batcher_recv net bb b)))"
proof -
  let ?b1 = "b\<lparr>mb_publishCh := (mb_publishCh b)\<lparr>buf := ks\<rparr>, mb_batch := mb_batch b @ [k]\<rparr>"
  have fx: "fits ?b1 x = fits b x" for x by (simp add: fits_def)
  have sx: "sent_in b x \<Longrightarrow> sent_in ?b1 x" for x by (simp add: sent_in_def)
  show ?thesis
  proof (cases "int (length (mb_batch ?b1)) \<ge> BatchSize (mb_opts b)")
    case True
    then have e: "batcher_recv net bb b = mesh_flush net bb ?b1" using assms(2) by (simp add: batcher_recv_def)
    have n: "length (mb_node ?b1) = 16" using assms(1) by (simp add: batching_def)
    note fr = mesh_flush_frame [OF n, of net bb]
    have len: "length (mb_batch ?b1) \<le> max 1 (nat (BatchSize (mb_opts ?b1)))" using assms(1) by (auto simp: batching_def)
    have "sent_in (mesh_flush net bb ?b1) x" if "x = k \<or> x \<in> set (mb_batch b)" for x
      using assms that len by (intro mesh_flush_sends) (auto simp: batching_def fx)
    moreover have "sent_in (mesh_flush net bb ?b1) x" if "sent_in b x" for x
      using sent_in_mono [OF sx [OF that]] fr by simp
    moreover have "batching net (mesh_flush net bb ?b1)" using assms fr by (simp add: batching_def fits_def)
    ultimately show ?thesis unfolding e using fr by auto
  next
    case False
    then have e: "batcher_recv net bb b = ?b1" using assms(2) by (simp add: batcher_recv_def)
    have "batching net ?b1" using assms False unfolding batching_def fx by auto
    then show ?thesis unfolding e using sx by auto
  qed
qed

lemma batcher_run_sends:
  assumes "batching net b" and "\<forall>i. length (pool i) = 2048" and "n = length (buf (mb_publishCh b))"
  shows "batching net (batcher_run net pool n b) \<and> buf (mb_publishCh (batcher_run net pool n b)) = [] \<and>
    mb_node (batcher_run net pool n b) = mb_node b \<and> mb_group (batcher_run net pool n b) = mb_group b \<and>
    (\<forall>x. sent_in b x \<or> x \<in> set (buf (mb_publishCh b)) \<or> x \<in> set (mb_batch b) \<longrightarrow>
       sent_in (batcher_run net pool n b) x \<or> x \<in> set (mb_batch (batcher_run net pool n b)))"
  using assms(1,3)
proof (induct n arbitrary: b)
  case (Suc n)
  then obtain k ks where ks: "buf (mb_publishCh b) = k # ks" by (cases "buf (mb_publishCh b)") auto
  let ?b = "batcher_recv net (pool n) b"
  from batcher_recv_step [OF Suc.prems(1) ks, of "pool n"] assms(2)
  have s: "batching net ?b" "buf (mb_publishCh ?b) = ks" "mb_node ?b = mb_node b" "mb_group ?b = mb_group b"
    "\<forall>x. sent_in b x \<or> x = k \<or> x \<in> set (mb_batch b) \<longrightarrow> sent_in ?b x \<or> x \<in> set (mb_batch ?b)" by auto
  have "n = length (buf (mb_publishCh ?b))" using s(2) Suc.prems(2) ks by simp
  note ih = Suc.hyps [OF s(1) this]
  have "sent_in (batcher_run net pool n ?b) x \<or> x \<in> set (mb_batch (batcher_run net pool n ?b))"
    if "sent_in b x \<or> x \<in> set (buf (mb_publishCh b)) \<or> x \<in> set (mb_batch b)" for x
  proof -
    have "sent_in ?b x \<or> x \<in> set ks \<or> x \<in> set (mb_batch ?b)" using that s(5) ks by (cases "x = k") auto
    then show ?thesis using ih unfolding s(2) by blast
  qed
  then show ?case using ih s(3,4) by simp
qed simp

lemma mesh_inv_batching:
  assumes "mesh_inv s" and "mb_conn (ms_bus s)" and "\<forall>d. nWriteTo net (mb_group (ms_bus s)) d = None"
    and "\<forall>k \<in> set (gm_keys (mb_pending (ms_bus s))). fits (ms_bus s) k"
  shows "batching net (ms_bus s)"
  using assms by (auto simp: mesh_inv_def batching_def in_transit_def Let_def)

lemma mesh_drain_sends:
  assumes b: "batching net b" and pool: "\<forall>i. length (pool i) = 2048" and bb: "length bb = 2048"
    and k: "k \<in> set (buf (mb_publishCh b)) \<or> k \<in> set (mb_batch b)"
  shows "\<exists>p. packet_ok p \<and> p_type p = typeBatch \<and> p_node p = mb_node b \<and> k \<in> set (p_keys p) \<and> distinct (p_keys p) \<and>
    length (packet_bytes p) \<le> 1500 \<and>
    (mb_group b, packet_bytes p) \<in> set (mb_out (mesh_flush net bb (batcher_run net pool (length (buf (mb_publishCh b))) b)))"
proof -
  define b' where "b' = batcher_run net pool (length (buf (mb_publishCh b))) b"
  from batcher_run_sends [OF b pool refl] k
  have r: "batching net b'" "mb_node b' = mb_node b" "mb_group b' = mb_group b" "sent_in b' k \<or> k \<in> set (mb_batch b')"
    by (auto simp: b'_def)
  have n: "length (mb_node b') = 16" using r(1) by (simp add: batching_def)
  have "sent_in (mesh_flush net bb b') k" using r(4)
  proof
    assume "sent_in b' k"
    then show ?thesis by (rule sent_in_mono) (rule mesh_flush_frame [OF n])+
  next
    assume "k \<in> set (mb_batch b')"
    then show ?thesis using r(1) bb by (intro mesh_flush_sends) (auto simp: batching_def)
  qed
  then show ?thesis unfolding sent_in_def b'_def [symmetric] mesh_flush_frame [OF n] r(2,3) .
qed

section \<open>An example: two nodes on a network that accepts everything\<close>

definition lan_net :: mesh_net where
  "lan_net = \<lparr>nResolve = Inr, nListen = (\<lambda>_. None), nInterface = (\<lambda>_. None), nJoin = (\<lambda>_ _. None),
     nSetMulticast = (\<lambda>_. None), nLocalAddr = ''0.0.0.0:7946'', nWriteTo = (\<lambda>_ _. None)\<rparr>"

definition zero_mesh_opts :: mesh_opts where
  "zero_mesh_opts = \<lparr>Port = 0, Interface = [], Group = [], Peers = [], AdvertiseAddr = [], Heartbeat = 0,
     BatchInterval = 0, BatchSize = 0\<rparr>"

definition lan_node :: "byte \<Rightarrow> mesh_bus" where
  "lan_node x = projr (fst (NewMeshBus lan_net (replicate 16 x) zero_mesh_opts))"

definition lan_publisher :: "key \<Rightarrow> mesh_sys" where
  "lan_publisher k = \<lparr>ms_bus = mesh_publish_send k (snd (mesh_publish_begin k (lan_node 1))), ms_waiting = []\<rparr>"

definition lan_subscriber :: mesh_sys where
  "lan_subscriber = \<lparr>ms_bus = snd (mesh_Subscribe ''k'' (lan_node 2)), ms_waiting = []\<rparr>"

definition lan_batch :: "key \<Rightarrow> mesh_sys" where
  "lan_batch k = (lan_publisher k)\<lparr>ms_bus := batcher_recv lan_net (replicate 2048 0) (ms_bus (lan_publisher k))\<rparr>"

lemma lan_New: "fst (NewMeshBus lan_net (replicate 16 x) zero_mesh_opts) = Inr (lan_node x)"
  by (simp add: lan_node_def NewMeshBus_def lan_net_def zero_mesh_opts_def Let_def)

lemma lan_node_simps [simp]:
  "mb_pending (lan_node x) = []" "mb_publishCh (lan_node x) = make_chan 1000" "mb_batch (lan_node x) = []"
  "mb_reg (lan_node x) = reg_empty" "mb_node (lan_node x) = replicate 16 x" "mb_conn (lan_node x)" "mb_running (lan_node x)"
  "BatchSize (mb_opts (lan_node x)) = 20"
  by (simp_all add: lan_node_def NewMeshBus_def lan_net_def zero_mesh_opts_def mesh_defaults_def Let_def)

lemma lan_publisher_reach: "mesh_reach lan_net (lan_publisher k)"
proof -
  let ?s0 = "\<lparr>ms_bus = lan_node 1, ms_waiting = []\<rparr>"
  let ?s1 = "?s0\<lparr>ms_bus := snd (mesh_publish_begin k (lan_node 1)), ms_waiting := [k]\<rparr>"
  have "mesh_reach lan_net ?s0" by (rule mesh_reach.init [OF lan_New]) simp
  moreover have "mesh_step lan_net ?s0 ?s1"
    using mesh_step.publish [of k ?s0 "snd (mesh_publish_begin k (lan_node 1))" lan_net]
    by (simp add: mesh_publish_begin_def)
  moreover have "mesh_step lan_net ?s1 (lan_publisher k)"
    using mesh_step.send [of k ?s1 lan_net] by (simp add: lan_publisher_def mesh_publish_begin_def chan_ready_def make_chan_def)
  ultimately show ?thesis by (blast intro: mesh_reach.step)
qed

lemma lan_subscriber_reach: "mesh_reach lan_net lan_subscriber"
proof -
  have "mesh_reach lan_net \<lparr>ms_bus = lan_node 2, ms_waiting = []\<rparr>" by (rule mesh_reach.init [OF lan_New]) simp
  from mesh_reach.step [OF this mesh_step.subscribe [of _ _ "''k''"]] show ?thesis by (simp add: lan_subscriber_def)
qed

lemma lan_batch_reach: "mesh_reach lan_net (lan_batch k)"
  unfolding lan_batch_def
  by (rule mesh_reach.step [OF lan_publisher_reach mesh_step.recv])
    (simp_all add: lan_publisher_def mesh_publish_begin_def mesh_publish_send_def)

lemmas lan_eval = lan_publisher_def lan_subscriber_def lan_batch_def mesh_publish_begin_def mesh_publish_send_def
  mesh_Subscribe_def batcher_recv_def make_chan_def reg_add_def reg_empty_def reg_chans_def in_transit_def

section \<open>Properties\<close>

text \<open>
  Whatever a node's callers, its goroutines and the network do, and in any
  interleaving: a key is marked pending exactly while one call waits to hand it over,
  or it is in the channel, or in the batch, and it is there once; the batch stays below
  its size, every resolved peer is a known peer, and no send hits a closed channel.
\<close>

theorem mesh_pending_exact:
  assumes "mesh_reach net s"
  shows "distinct (in_transit s) \<and> set (gm_keys (mb_pending (ms_bus s))) = set (in_transit s) \<and>
    (mb_batch (ms_bus s) = [] \<or> int (length (mb_batch (ms_bus s))) < BatchSize (mb_opts (ms_bus s))) \<and>
    set (gm_keys (mb_resolved (ms_bus s))) \<subseteq> set (mesh_Peers (ms_bus s)) \<and>
    \<not> sr_panicked (mb_reg (ms_bus s))"
  using mesh_reach_inv [OF assms] by (auto simp: mesh_inv_def Let_def peers_ok_def mesh_Peers_def dest: subreg_wfD(6))

theorem mesh_pending_exact_witness:
  "set (gm_keys (mb_pending (ms_bus (lan_publisher ''k'')))) = set (in_transit (lan_publisher ''k'')) \<and>
   in_transit (lan_publisher ''k'') = [''k'']"
  using mesh_pending_exact [OF lan_publisher_reach [of "''k''"]] by (simp add: lan_eval)

text \<open>
  C11. End to end: if the keys that are pending at a node are short enough for a full
  batch of them to fit into the 1500 bytes a receiver reads, then once the batcher has
  emptied its channel and flushed, each of them is in a datagram to the group with which
  any other node gives every subscriber of the key that has room its event.
\<close>

theorem mesh_publish_delivers:
  assumes "mesh_reach net a" and "mb_conn (ms_bus a)" and "\<forall>d. nWriteTo net (mb_group (ms_bus a)) d = None"
    and "\<forall>x \<in> set (gm_keys (mb_pending (ms_bus a))). fits (ms_bus a) x"
    and "\<forall>i. length (pool i) = 2048" and "length bb = 2048"
    and "k \<in> set (buf (mb_publishCh (ms_bus a))) \<or> k \<in> set (mb_batch (ms_bus a))"
    and "mesh_reach net' r" and "mb_node (ms_bus r) \<noteq> mb_node (ms_bus a)"
  shows "\<exists>d. (mb_group (ms_bus a), d) \<in>
      set (mb_out (mesh_flush net bb (batcher_run net pool (length (buf (mb_publishCh (ms_bus a)))) (ms_bus a)))) \<and>
    (\<forall>c \<in> set (reg_chans k (mb_reg (ms_bus r))). chan_ready (sr_chans (mb_reg (ms_bus r)) ! c) \<longrightarrow>
       sr_chans (mb_reg (on_datagram net' now d (ms_bus r))) ! c = push (key_event k) (sr_chans (mb_reg (ms_bus r)) ! c))"
proof -
  from mesh_inv_batching [OF mesh_reach_inv [OF assms(1)] assms(2-4)]
  obtain p where p: "packet_ok p" "p_type p = typeBatch" "p_node p = mb_node (ms_bus a)" "k \<in> set (p_keys p)" "distinct (p_keys p)"
    "length (packet_bytes p) \<le> 1500"
    "(mb_group (ms_bus a), packet_bytes p) \<in>
      set (mb_out (mesh_flush net bb (batcher_run net pool (length (buf (mb_publishCh (ms_bus a)))) (ms_bus a))))"
    using mesh_drain_sends assms(5-7) by blast
  have wf: "subreg_wf (mb_reg (ms_bus r))" using mesh_reach_inv [OF assms(8)] by (simp add: mesh_inv_def Let_def)
  have "on_datagram net' now (packet_bytes p) (ms_bus r) =
      fold handleInvalidate (p_keys p) ((ms_bus r)\<lparr>mb_received := mb_received (ms_bus r) + 1\<rparr>)"
    using p assms(9) by (intro on_datagram_batch) auto
  then show ?thesis
    using p fold_handle_nth [of "(ms_bus r)\<lparr>mb_received := mb_received (ms_bus r) + 1\<rparr>" "p_keys p" _ k] wf
    by (intro exI [of _ "packet_bytes p"]) auto
qed

theorem mesh_publish_delivers_witness:
  "\<exists>d. (mb_group (lan_node 1), d) \<in> set (mb_out (mesh_flush lan_net (replicate 2048 0)
         (batcher_run lan_net (\<lambda>_. replicate 2048 0) 1 (ms_bus (lan_publisher ''k''))))) \<and>
     sr_chans (mb_reg (on_datagram lan_net 0 d (ms_bus lan_subscriber))) ! 0 = push (key_event ''k'') (make_chan 32)"
proof -
  have "\<forall>d. nWriteTo lan_net (mb_group (ms_bus (lan_publisher ''k''))) d = None" by (simp add: lan_net_def)
  moreover have "\<forall>x \<in> set (gm_keys (mb_pending (ms_bus (lan_publisher ''k'')))). fits (ms_bus (lan_publisher ''k'')) x"
    by (simp add: lan_eval fits_def)
  moreover have "mb_node (ms_bus lan_subscriber) \<noteq> mb_node (ms_bus (lan_publisher ''k''))"
    by (simp add: lan_eval numeral_eq_Suc)
  ultimately show ?thesis
    using mesh_publish_delivers [OF lan_publisher_reach [of "''k''"], of "\<lambda>_. replicate 2048 0" "replicate 2048 0" "''k''"
        lan_net lan_subscriber 0] lan_subscriber_reach
    by (simp add: lan_eval chan_ready_def)
qed

text \<open>
  A batch of more than 1500 bytes is lost: flushing it clears its keys from the
  pending ones, although no datagram that it sends has an effect on any receiver.
\<close>

theorem mesh_oversized_batch_lost:
  assumes "mesh_reach net a" and "1500 < length (packet_bytes (batch_packet (ms_bus a)))" and "length bb = 2048"
  shows "set (gm_keys (mb_pending (mesh_flush net bb (ms_bus a)))) \<inter> set (mb_batch (ms_bus a)) = {} \<and>
    (\<exists>out. mb_out (mesh_flush net bb (ms_bus a)) = mb_out (ms_bus a) @ out \<and>
       (\<forall>(addr, d) \<in> set out. \<forall>net' now r. on_datagram net' now d r = r))"
proof -
  let ?b = "ms_bus a" let ?p = "batch_packet ?b"
  have n: "length (mb_node ?b) = 16" using mesh_reach_inv [OF assms(1)] by (simp add: mesh_inv_def Let_def)
  have eq: "mb_out (mesh_flush net bb ?b) = mb_out ?b" if "\<not> length (packet_bytes ?p) \<le> 2048"
    using marshal_short [of ?p bb] that n assms(3)
    by (auto simp: mesh_flush_def Let_def split: prod.split option.split)
  obtain b1 where b1: "sends (packet_bytes ?p) ?b b1"
    "mesh_flush net bb ?b = b1\<lparr>mb_pending := fold (\<lambda>k m. gm_del m k) (mb_batch ?b) (mb_pending ?b), mb_batch := []\<rparr>"
    using mesh_flush_eq [OF n] by blast
  obtain addrs where o: "mb_out (mesh_flush net bb ?b) = mb_out ?b @ map (\<lambda>x. (x, packet_bytes ?p)) addrs"
    using sendsD(14) [OF b1(1)] b1(2) by auto
  have "on_datagram net' now (packet_bytes ?p) r = r" if "addrs \<noteq> []" for net' now r
    using that eq o assms(2) n by (intro on_datagram_cut) (auto intro: ccontr)
  then have "\<forall>(addr, d) \<in> set (map (\<lambda>x. (x, packet_bytes ?p)) addrs). \<forall>net' now r. on_datagram net' now d r = r"
    by (cases "addrs = []") auto
  moreover have "set (gm_keys (mb_pending (mesh_flush net bb ?b))) \<inter> set (mb_batch ?b) = {}"
    unfolding b1(2) by (auto simp: gm_fold_del simp del: set_map)
  ultimately show ?thesis using o by blast
qed

theorem mesh_oversized_batch_lost_witness:
  "mb_pending (ms_bus (lan_batch (replicate 1500 CHR ''x''))) \<noteq> [] \<and>
   replicate 1500 CHR ''x'' \<notin>
     set (gm_keys (mb_pending (mesh_flush lan_net (replicate 2048 0) (ms_bus (lan_batch (replicate 1500 CHR ''x'')))))) \<and>
   (\<exists>out. mb_out (mesh_flush lan_net (replicate 2048 0) (ms_bus (lan_batch (replicate 1500 CHR ''x'')))) =
       mb_out (ms_bus (lan_batch (replicate 1500 CHR ''x''))) @ out \<and>
     list_all (\<lambda>(addr, d). on_datagram lan_net 0 d (ms_bus lan_subscriber) = ms_bus lan_subscriber) out)"
proof -
  define k where "k = replicate 1500 CHR ''x''"
  let ?b = "ms_bus (lan_batch k)"
  have l: "length k = 1500" by (simp add: k_def)
  have b: "mb_batch ?b = [k]" "mb_pending ?b = [(k, ())]" "length (mb_node ?b) = 16" by (simp_all add: lan_eval)
  have "1500 < length (packet_bytes (batch_packet ?b))" using length_batch_bytes [OF b(3)] b(1) l by simp
  then show ?thesis unfolding k_def [symmetric]
    using mesh_oversized_batch_lost [OF lan_batch_reach [of k], of "replicate 2048 0"] b
    by (auto simp: list_all_iff case_prod_beta)
qed

end
