(* ===== verification/Watch_Bus.thy ===== *)
theory Watch_Bus
  imports Warp_Syncbus "HOL-Library.Sublist"
begin

text \<open>
  The in-memory watch bus (src/watchbus/inmemory_watchbus.go) behind the interface
  \<^verbatim>\<open>WatchBus\<close> (src/watchbus/watchbus.go), and \<^verbatim>\<open>WatchPrefix\<close> of package core
  (src/core/watch.go).

  A \<^verbatim>\<open>range\<close> loop over a string visits its runes: \<open>runes\<close> decodes UTF-8 as the Go
  runtime does, with the replacement character for a byte that starts no valid
  sequence. The targets of a publication are the keys of a Go map; \<open>ord\<close> is the
  order in which the loop visits them.
\<close>

section \<open>The runes of a string\<close>

definition RuneError :: nat where
  "RuneError = 0xFFFD"

definition cont_byte :: "nat \<Rightarrow> bool" where
  "cont_byte x \<longleftrightarrow> 0x80 \<le> x \<and> x \<le> 0xBF"

text \<open>The number of bytes that a leading byte announces, with the range of the second one.\<close>

definition utf8_first :: "nat \<Rightarrow> (nat \<times> nat \<times> nat) option" where
  "utf8_first x =
     (if 0xC2 \<le> x \<and> x \<le> 0xDF then Some (2, 0x80, 0xBF)
      else if x = 0xE0 then Some (3, 0xA0, 0xBF)
      else if x = 0xED then Some (3, 0x80, 0x9F)
      else if 0xE1 \<le> x \<and> x \<le> 0xEF then Some (3, 0x80, 0xBF)
      else if x = 0xF0 then Some (4, 0x90, 0xBF)
      else if 0xF1 \<le> x \<and> x \<le> 0xF3 then Some (4, 0x80, 0xBF)
      else if x = 0xF4 then Some (4, 0x80, 0x8F)
      else None)"

text \<open>The rune at the start of a string that is not empty, with its width.\<close>

definition decode_rune :: "nat list \<Rightarrow> nat \<times> nat" where
  "decode_rune s =
     (let x = s ! 0
      in if x < 0x80 then (x, 1)
         else case utf8_first x of
                None \<Rightarrow> (RuneError, 1)
              | Some (sz, lo, hi) \<Rightarrow>
                  if length s < sz then (RuneError, 1)
                  else if s ! 1 < lo \<or> hi < s ! 1 then (RuneError, 1)
                  else if sz = 2 then ((x mod 0x20) * 0x40 + s ! 1 mod 0x40, 2)
                  else if \<not> cont_byte (s ! 2) then (RuneError, 1)
                  else if sz = 3 then ((x mod 0x10) * 0x1000 + (s ! 1 mod 0x40) * 0x40 + s ! 2 mod 0x40, 3)
                  else if \<not> cont_byte (s ! 3) then (RuneError, 1)
                  else ((x mod 8) * 0x40000 + (s ! 1 mod 0x40) * 0x1000 + (s ! 2 mod 0x40) * 0x40 + s ! 3 mod 0x40, 4))"

lemma decode_rune_width: "0 < snd (decode_rune s)"
  by (simp add: decode_rune_def Let_def split: option.split)

function decode_runes :: "nat list \<Rightarrow> nat list" where
  "decode_runes s = (if s = [] then [] else case decode_rune s of (r, w) \<Rightarrow> r # decode_runes (drop w s))"
  by auto
termination
proof (relation "measure length")
  fix s :: "nat list" and x y
  assume "s \<noteq> []" and "(x, y) = decode_rune s"
  with decode_rune_width [of s] show "(drop y s, s) \<in> measure length" by (cases "decode_rune s") auto
qed simp

declare decode_runes.simps [simp del]

definition runes :: "string \<Rightarrow> nat list" where
  "runes s = decode_runes (map of_char s)"

section \<open>The trie\<close>

datatype watch_node =
  WNode (wn_subs: "chan_id list") (wn_watchers: "chan_id list") (wn_children: "(nat \<times> watch_node) list")

definition new_watch_node :: watch_node where
  "new_watch_node = WNode [] [] []"

definition child_or_new :: "nat \<Rightarrow> watch_node \<Rightarrow> watch_node" where
  "child_or_new r n = (case gm_get (wn_children n) r of None \<Rightarrow> new_watch_node | Some m \<Rightarrow> m)"

text \<open>The loop of \<^verbatim>\<open>Publish\<close>: the subscriptions of every node on the path below the root.\<close>

fun path_subs :: "watch_node \<Rightarrow> nat list \<Rightarrow> chan_id list" where
  "path_subs n [] = []"
| "path_subs n (r # rs) =
     (case gm_get (wn_children n) r of None \<Rightarrow> [] | Some m \<Rightarrow> wn_subs m @ path_subs m rs)"

text \<open>The loop of \<^verbatim>\<open>PublishPrefix\<close> and \<^verbatim>\<open>Unwatch\<close> to the node of a prefix.\<close>

fun node_at :: "watch_node \<Rightarrow> nat list \<Rightarrow> watch_node option" where
  "node_at n [] = Some n"
| "node_at n (r # rs) = (case gm_get (wn_children n) r of None \<Rightarrow> None | Some m \<Rightarrow> node_at m rs)"

definition with_watchers :: "(chan_id list \<Rightarrow> chan_id list) \<Rightarrow> watch_node \<Rightarrow> watch_node" where
  "with_watchers f n = WNode (wn_subs n) (f (wn_watchers n)) (wn_children n)"

fun add_watcher :: "chan_id \<Rightarrow> nat list \<Rightarrow> watch_node \<Rightarrow> watch_node" where
  "add_watcher c [] n = n"
| "add_watcher c (r # rs) n =
     WNode (wn_subs n) (wn_watchers n)
       (gm_put (wn_children n) r (add_watcher c rs (with_watchers (List.insert c) (child_or_new r n))))"

fun add_prefix :: "chan_id \<Rightarrow> nat list \<Rightarrow> watch_node \<Rightarrow> watch_node" where
  "add_prefix c [] n = WNode (wn_subs n @ [c]) (wn_watchers n) (wn_children n)"
| "add_prefix c (r # rs) n =
     WNode (wn_subs n) (wn_watchers n) (gm_put (wn_children n) r (add_prefix c rs (child_or_new r n)))"

fun del_watcher :: "chan_id \<Rightarrow> nat list \<Rightarrow> watch_node \<Rightarrow> watch_node" where
  "del_watcher c [] n = n"
| "del_watcher c (r # rs) n =
     (case gm_get (wn_children n) r of
        None \<Rightarrow> n
      | Some m \<Rightarrow>
          WNode (wn_subs n) (wn_watchers n)
            (gm_put (wn_children n) r (del_watcher c rs (with_watchers (removeAll c) m))))"

fun del_prefix :: "chan_id \<Rightarrow> nat list \<Rightarrow> watch_node \<Rightarrow> watch_node" where
  "del_prefix c [] n = WNode (swap_remove c (wn_subs n)) (wn_watchers n) (wn_children n)"
| "del_prefix c (r # rs) n =
     (case gm_get (wn_children n) r of
        None \<Rightarrow> n
      | Some m \<Rightarrow> WNode (wn_subs n) (wn_watchers n) (gm_put (wn_children n) r (del_prefix c rs m)))"

section \<open>The bus\<close>

record watch_bus =
  wb_subs :: "chan_id list gomap"
  wb_root :: watch_node
  wb_chans :: "byte list chan list"

definition watch_NewInMemory :: watch_bus where
  "watch_NewInMemory = \<lparr>wb_subs = [], wb_root = new_watch_node, wb_chans = []\<rparr>"

definition key_watchers :: "key \<Rightarrow> watch_bus \<Rightarrow> chan_id list" where
  "key_watchers k b = (case gm_get (wb_subs b) k of None \<Rightarrow> [] | Some cs \<Rightarrow> cs)"

text \<open>A send that drops the message when the channel is full or closed.\<close>

definition safeSend :: "chan_id \<Rightarrow> byte list \<Rightarrow> byte list chan list \<Rightarrow> byte list chan list" where
  "safeSend c data chs = (case try_send data (chs ! c) of Sent ch \<Rightarrow> chs[c := ch] | Full \<Rightarrow> chs | SendPanic \<Rightarrow> chs)"

fun send_loop :: "ctx \<Rightarrow> clock \<Rightarrow> byte list \<Rightarrow> nat \<Rightarrow> chan_id list \<Rightarrow> byte list chan list \<Rightarrow> go_error option \<times> byte list chan list" where
  "send_loop ctx clk data i [] chs = (None, chs)"
| "send_loop ctx clk data i (c # cs) chs =
     (case ctx (clk i) of
        Some e \<Rightarrow> (Some e, chs)
      | None \<Rightarrow> send_loop ctx clk data (Suc i) cs (safeSend c data chs))"

definition watch_Publish ::
    "(chan_id list \<Rightarrow> chan_id list) \<Rightarrow> ctx \<Rightarrow> clock \<Rightarrow> key \<Rightarrow> byte list \<Rightarrow> watch_bus \<Rightarrow> go_error option \<times> watch_bus" where
  "watch_Publish ord ctx clk k data b =
     (case ctx (clk 0) of
        Some e \<Rightarrow> (Some e, b)
      | None \<Rightarrow>
          (let targets = remdups (key_watchers k b @ path_subs (wb_root b) (runes k));
               (e, chs) = send_loop ctx (tick 1 clk) data 0 (ord targets) (wb_chans b)
           in (e, b\<lparr>wb_chans := chs\<rparr>)))"

definition watch_PublishPrefix ::
    "(chan_id list \<Rightarrow> chan_id list) \<Rightarrow> ctx \<Rightarrow> clock \<Rightarrow> string \<Rightarrow> byte list \<Rightarrow> watch_bus \<Rightarrow> go_error option \<times> watch_bus" where
  "watch_PublishPrefix ord ctx clk p data b =
     (case ctx (clk 0) of
        Some e \<Rightarrow> (Some e, b)
      | None \<Rightarrow>
          (let targets = (case node_at (wb_root b) (runes p) of
                            None \<Rightarrow> []
                          | Some n \<Rightarrow> remdups (wn_watchers n @ wn_subs n));
               (e, chs) = send_loop ctx (tick 1 clk) data 0 (ord targets) (wb_chans b)
           in (e, b\<lparr>wb_chans := chs\<rparr>)))"

definition watch_Watch :: "ctx \<Rightarrow> clock \<Rightarrow> key \<Rightarrow> watch_bus \<Rightarrow> (go_error + chan_id) \<times> watch_bus" where
  "watch_Watch ctx clk k b =
     (case ctx (clk 0) of
        Some e \<Rightarrow> (Inl e, b)
      | None \<Rightarrow>
          (let c = length (wb_chans b)
           in (Inr c, b\<lparr>wb_chans := wb_chans b @ [make_chan 1], wb_subs := gm_put (wb_subs b) k (key_watchers k b @ [c]),
                        wb_root := add_watcher c (runes k) (wb_root b)\<rparr>)))"

definition watch_SubscribePrefix :: "ctx \<Rightarrow> clock \<Rightarrow> string \<Rightarrow> watch_bus \<Rightarrow> (go_error + chan_id) \<times> watch_bus" where
  "watch_SubscribePrefix ctx clk p b =
     (case ctx (clk 0) of
        Some e \<Rightarrow> (Inl e, b)
      | None \<Rightarrow>
          (let c = length (wb_chans b)
           in (Inr c, b\<lparr>wb_chans := wb_chans b @ [make_chan 1], wb_root := add_prefix c (runes p) (wb_root b)\<rparr>)))"

definition watch_Unwatch :: "ctx \<Rightarrow> clock \<Rightarrow> key \<Rightarrow> chan_id \<Rightarrow> watch_bus \<Rightarrow> go_error option \<times> watch_bus" where
  "watch_Unwatch ctx clk k c b =
     (case ctx (clk 0) of
        Some e \<Rightarrow> (Some e, b)
      | None \<Rightarrow>
          (let subs = key_watchers k b
           in if c \<in> set subs then
                let subs' = swap_remove c subs
                in (None, b\<lparr>wb_subs := (if subs' = [] then gm_del (wb_subs b) k else gm_put (wb_subs b) k subs'),
                            wb_root := del_watcher c (runes k) (wb_root b)\<rparr>)
              else (None, b\<lparr>wb_root := del_prefix c (runes k) (wb_root b)\<rparr>)))"

text \<open>\<^verbatim>\<open>WatchPrefix\<close> of package core: the gauge counts the watchers whose context is not done.\<close>

definition WatchPrefix ::
    "(ctx \<Rightarrow> clock \<Rightarrow> string \<Rightarrow> 'w \<Rightarrow> (go_error + chan_id) \<times> 'w) \<Rightarrow> ctx \<Rightarrow> clock \<Rightarrow> string \<Rightarrow> 'w \<times> int \<Rightarrow> (go_error + chan_id) \<times> 'w \<times> int" where
  "WatchPrefix subscribe ctx clk p s =
     (case subscribe ctx clk p (fst s) of
        (Inl e, w) \<Rightarrow> (Inl e, w, snd s)
      | (Inr c, w) \<Rightarrow> (Inr c, w, snd s + 1))"

text \<open>A receive by a watcher, and a watcher that closes its channel.\<close>

definition watch_receive :: "chan_id \<Rightarrow> watch_bus \<Rightarrow> byte list option \<times> watch_bus" where
  "watch_receive c b =
     (case buf (wb_chans b ! c) of
        [] \<Rightarrow> (None, b)
      | d # ds \<Rightarrow> (Some d, b\<lparr>wb_chans := (wb_chans b)[c := (wb_chans b ! c)\<lparr>buf := ds\<rparr>]\<rparr>))"

definition watch_close :: "chan_id \<Rightarrow> watch_bus \<Rightarrow> watch_bus" where
  "watch_close c b = b\<lparr>wb_chans := (wb_chans b)[c := (wb_chans b ! c)\<lparr>closed := True\<rparr>]\<rparr>"

section \<open>What the trie holds\<close>

text \<open>The subscriptions and the watchers of the node at a path.\<close>

definition subs_of :: "watch_node \<Rightarrow> nat list \<Rightarrow> chan_id list" where
  "subs_of n p = (case node_at n p of None \<Rightarrow> [] | Some m \<Rightarrow> wn_subs m)"

definition watchers_of :: "watch_node \<Rightarrow> nat list \<Rightarrow> chan_id list" where
  "watchers_of n p = (case node_at n p of None \<Rightarrow> [] | Some m \<Rightarrow> wn_watchers m)"

lemma of_simps [simp]:
  "subs_of n [] = wn_subs n" "watchers_of n [] = wn_watchers n"
  "subs_of n (r # p) = (case gm_get (wn_children n) r of None \<Rightarrow> [] | Some m \<Rightarrow> subs_of m p)"
  "watchers_of n (r # p) = (case gm_get (wn_children n) r of None \<Rightarrow> [] | Some m \<Rightarrow> watchers_of m p)"
  by (simp_all add: subs_of_def watchers_of_def split: option.split)

lemma of_new [simp]: "subs_of new_watch_node p = []" "watchers_of new_watch_node p = []"
  by (cases p; simp add: new_watch_node_def)+

lemma of_child [simp]:
  "subs_of (child_or_new r n) p = subs_of n (r # p)" "watchers_of (child_or_new r n) p = watchers_of n (r # p)"
  by (simp_all add: child_or_new_def split: option.split)

lemma of_with_watchers [simp]:
  "subs_of (with_watchers f n) p = subs_of n p"
  "watchers_of (with_watchers f n) p = (if p = [] then f (watchers_of n []) else watchers_of n p)"
  by (cases p; simp add: with_watchers_def)+

lemma wn_watchers_with [simp]: "wn_watchers (with_watchers f n) = f (wn_watchers n)"
  by (simp add: with_watchers_def)

lemma subs_of_add_watcher [simp]: "subs_of (add_watcher c q n) p = subs_of n p"
proof (induct q arbitrary: n p)
  case (Cons r q)
  then show ?case by (cases p) auto
qed simp

lemma watchers_of_add_watcher:
  "watchers_of (add_watcher c q n) p = (if p \<noteq> [] \<and> prefix p q then List.insert c (watchers_of n p) else watchers_of n p)"
proof (induct q arbitrary: n p)
  case (Cons r q)
  then show ?case by (cases p) (simp, auto simp del: of_simps(2) split: option.splits)
qed simp

lemma of_add_prefix:
  "subs_of (add_prefix c q n) p = (if p = q then subs_of n p @ [c] else subs_of n p)"
  "watchers_of (add_prefix c q n) p = watchers_of n p"
proof (induct q arbitrary: n p)
  case Nil
  { case 1 show ?case by (cases p) auto next case 2 show ?case by (cases p) auto }
next
  case (Cons r q)
  { case 1 show ?case using Cons(1) by (cases p) auto next case 2 show ?case using Cons(2) by (cases p) auto }
qed

lemma subs_of_del_watcher [simp]: "subs_of (del_watcher c q n) p = subs_of n p"
proof (induct q arbitrary: n p)
  case (Cons r q)
  then show ?case by (cases p) (auto split: option.splits)
qed simp

lemma watchers_of_del_watcher:
  "watchers_of (del_watcher c q n) p = (if p \<noteq> [] \<and> prefix p q then removeAll c (watchers_of n p) else watchers_of n p)"
proof (induct q arbitrary: n p)
  case (Cons r q)
  then show ?case by (cases p) (auto split: option.splits)
qed simp

lemma of_del_prefix:
  "subs_of (del_prefix c q n) p = (if p = q then swap_remove c (subs_of n p) else subs_of n p)"
  "watchers_of (del_prefix c q n) p = watchers_of n p"
proof (induct q arbitrary: n p)
  case Nil
  { case 1 show ?case by (cases p) auto next case 2 show ?case by (cases p) auto }
next
  case (Cons r q)
  { case 1 show ?case using Cons(1) by (cases p) (auto split: option.splits)
    next case 2 show ?case using Cons(2) by (cases p) (auto split: option.splits) }
qed

lemma set_path_subs: "c \<in> set (path_subs n q) \<longleftrightarrow> (\<exists>p. p \<noteq> [] \<and> prefix p q \<and> c \<in> set (subs_of n p))"
proof (induct q arbitrary: n)
  case (Cons r q)
  have split: "(\<exists>p. p \<noteq> [] \<and> prefix p (r # q) \<and> P p) \<longleftrightarrow> P [r] \<or> (\<exists>p. p \<noteq> [] \<and> prefix p q \<and> P (r # p))" for P
    by (metis list.distinct(1) list.exhaust prefix_code(3) prefix_order.refl prefix_bot.bot_least Cons_prefix_Cons)
  show ?case unfolding split by (cases "gm_get (wn_children n) r") (simp_all add: Cons.hyps)
qed simp

section \<open>Runs of the bus\<close>

text \<open>
  \<open>watch_reach W S b\<close>: the bus \<open>b\<close> is the result of a sequence of calls after which \<open>W\<close>
  are the watched keys with their channels and \<open>S\<close> the subscribed prefixes, as runes,
  with theirs.
\<close>

inductive watch_reach :: "(key \<times> chan_id) set \<Rightarrow> (nat list \<times> chan_id) set \<Rightarrow> watch_bus \<Rightarrow> bool" where
  init: "watch_reach {} {} watch_NewInMemory"
| watch: "watch_reach W S b \<Longrightarrow> watch_Watch ctx clk k b = (Inr c, b') \<Longrightarrow> watch_reach (insert (k, c) W) S b'"
| subscribe: "watch_reach W S b \<Longrightarrow> watch_SubscribePrefix ctx clk p b = (Inr c, b') \<Longrightarrow>
     watch_reach W (insert (runes p, c) S) b'"
| unwatch: "watch_reach W S b \<Longrightarrow> watch_Unwatch ctx clk k c b = (None, b') \<Longrightarrow>
     watch_reach (W - {(k, c)}) (if (k, c) \<in> W then S else S - {(runes k, c)}) b'"
| publish: "watch_reach W S b \<Longrightarrow> watch_reach W S (snd (watch_Publish ord ctx clk k d b))"
| publish_prefix: "watch_reach W S b \<Longrightarrow> watch_reach W S (snd (watch_PublishPrefix ord ctx clk p d b))"
| receive: "watch_reach W S b \<Longrightarrow> watch_reach W S (snd (watch_receive c b))"
| closing: "watch_reach W S b \<Longrightarrow> watch_reach W S (watch_close c b)"

definition watch_inv :: "(key \<times> chan_id) set \<Rightarrow> (nat list \<times> chan_id) set \<Rightarrow> watch_bus \<Rightarrow> bool" where
  "watch_inv W S b \<longleftrightarrow>
     (\<forall>k. distinct (key_watchers k b) \<and> set (key_watchers k b) = {c. (k, c) \<in> W}) \<and>
     (\<forall>p. distinct (subs_of (wb_root b) p) \<and> set (subs_of (wb_root b) p) = {c. (p, c) \<in> S}) \<and>
     (\<forall>p. set (watchers_of (wb_root b) p) = {c. p \<noteq> [] \<and> (\<exists>k. (k, c) \<in> W \<and> prefix p (runes k))}) \<and>
     (\<forall>c. c \<in> snd ` W \<union> snd ` S \<longrightarrow> c < length (wb_chans b)) \<and>
     inj_on snd W \<and> inj_on snd S \<and> snd ` W \<inter> snd ` S = {}"

lemma watch_invD:
  assumes "watch_inv W S b"
  shows "distinct (key_watchers k b)" and "set (key_watchers k b) = {c. (k, c) \<in> W}"
    and "distinct (subs_of (wb_root b) p)" and "set (subs_of (wb_root b) p) = {c. (p, c) \<in> S}"
    and "set (watchers_of (wb_root b) p) = {c. p \<noteq> [] \<and> (\<exists>k. (k, c) \<in> W \<and> prefix p (runes k))}"
    and "(k, c) \<in> W \<Longrightarrow> c < length (wb_chans b)" and "(p, c) \<in> S \<Longrightarrow> c < length (wb_chans b)"
    and "inj_on snd W" and "inj_on snd S" and "snd ` W \<inter> snd ` S = {}"
  using assms unfolding watch_inv_def by (auto simp: image_iff)

lemma watch_inv_unique: "watch_inv W S b \<Longrightarrow> (k, c) \<in> W \<Longrightarrow> (k', c) \<in> W \<Longrightarrow> k = k'"
  using inj_onD [OF watch_invD(8), of W S b "(k, c)" "(k', c)"] by simp

lemma watch_inv_chans:
  "watch_inv W S b \<Longrightarrow> length chs = length (wb_chans b) \<Longrightarrow> watch_inv W S (b\<lparr>wb_chans := chs\<rparr>)"
  by (simp add: watch_inv_def key_watchers_def)

lemma length_safeSend [simp]: "length (safeSend c d chs) = length chs"
  by (simp add: safeSend_def split: send.split)

lemma length_send_loop [simp]: "length (snd (send_loop ctx clk d i cs chs)) = length chs"
  by (induct cs arbitrary: i chs) (auto split: option.split)

lemma watch_inv_Watch:
  assumes inv: "watch_inv W S b" and w: "watch_Watch ctx clk k b = (Inr c, b')"
  shows "watch_inv (insert (k, c) W) S b'"
proof -
  have c: "c = length (wb_chans b)" and b': "b' = b\<lparr>wb_chans := wb_chans b @ [make_chan 1],
      wb_subs := gm_put (wb_subs b) k (key_watchers k b @ [c]), wb_root := add_watcher c (runes k) (wb_root b)\<rparr>"
    using w by (auto simp: watch_Watch_def Let_def split: option.splits)
  have fresh: "(k', c) \<notin> W" "(p, c) \<notin> S" for k' p using watch_invD(6,7) [OF inv] c by auto
  have kw: "key_watchers k' b' = (if k' = k then key_watchers k b @ [c] else key_watchers k' b)" for k'
    by (simp add: b' key_watchers_def)
  have 1: "distinct (key_watchers k' b') \<and> set (key_watchers k' b') = {x. (k', x) \<in> insert (k, c) W}" for k'
    using watch_invD(1,2) [OF inv] fresh by (auto simp: kw)
  have 2: "set (watchers_of (wb_root b') p) = {x. p \<noteq> [] \<and> (\<exists>k'. (k', x) \<in> insert (k, c) W \<and> prefix p (runes k'))}" for p
    using watch_invD(5) [OF inv, of p] by (auto simp: b' watchers_of_add_watcher)
  have 3: "\<forall>x. x \<in> snd ` insert (k, c) W \<union> snd ` S \<longrightarrow> x < length (wb_chans b')"
    using watch_invD(6,7) [OF inv] c by (fastforce simp: b' less_Suc_eq)
  have 4: "inj_on snd (insert (k, c) W)" "snd ` insert (k, c) W \<inter> snd ` S = {}"
    using watch_invD(8,10) [OF inv] fresh by (force simp: image_iff)+
  show ?thesis
    unfolding watch_inv_def using 1 2 3 4 watch_invD(3,4,9) [OF inv] by (simp add: b')
qed

lemma watch_inv_Subscribe:
  assumes inv: "watch_inv W S b" and w: "watch_SubscribePrefix ctx clk p b = (Inr c, b')"
  shows "watch_inv W (insert (runes p, c) S) b'"
proof -
  have c: "c = length (wb_chans b)" and b': "b' = b\<lparr>wb_chans := wb_chans b @ [make_chan 1],
      wb_root := add_prefix c (runes p) (wb_root b)\<rparr>"
    using w by (auto simp: watch_SubscribePrefix_def Let_def split: option.splits)
  have fresh: "(k', c) \<notin> W" "(q, c) \<notin> S" for k' q using watch_invD(6,7) [OF inv] c by auto
  have 1: "distinct (subs_of (wb_root b') q) \<and> set (subs_of (wb_root b') q) = {x. (q, x) \<in> insert (runes p, c) S}" for q
    using watch_invD(3,4) [OF inv] fresh by (auto simp: b' of_add_prefix)
  have 3: "\<forall>x. x \<in> snd ` W \<union> snd ` insert (runes p, c) S \<longrightarrow> x < length (wb_chans b')"
    using watch_invD(6,7) [OF inv] c by (fastforce simp: b' less_Suc_eq)
  have 4: "inj_on snd (insert (runes p, c) S)" "snd ` W \<inter> snd ` insert (runes p, c) S = {}"
    using watch_invD(9,10) [OF inv] fresh by (force simp: image_iff)+
  show ?thesis
    unfolding watch_inv_def using 1 3 4 watch_invD(1,2,5,8) [OF inv] by (simp add: b' of_add_prefix key_watchers_def)
qed

lemma watch_inv_Unwatch:
  assumes inv: "watch_inv W S b" and w: "watch_Unwatch ctx clk k c b = (None, b')"
  shows "watch_inv (W - {(k, c)}) (if (k, c) \<in> W then S else S - {(runes k, c)}) b'"
proof (cases "(k, c) \<in> W")
  case True
  define cs where "cs = swap_remove c (key_watchers k b)"
  have "c \<in> set (key_watchers k b)" using True watch_invD(2) [OF inv] by simp
  then have b': "b' = b\<lparr>wb_subs := (if cs = [] then gm_del (wb_subs b) k else gm_put (wb_subs b) k cs),
      wb_root := del_watcher c (runes k) (wb_root b)\<rparr>"
    using w by (auto simp: watch_Unwatch_def Let_def cs_def split: option.splits)
  have kw: "key_watchers k' b' = (if k' = k then cs else key_watchers k' b)" for k'
    by (simp add: b' key_watchers_def)
  have "mset cs = mset (key_watchers k b) - {#c#}" by (simp add: cs_def mset_swap_remove)
  then have "mset cs = mset (remove1 c (key_watchers k b))" by simp
  then have cs: "distinct cs" "set cs = set (key_watchers k b) - {c}"
    using watch_invD(1) [OF inv, of k] by (metis distinct_remove1 mset_eq_imp_distinct_iff, metis set_mset_mset set_remove1_eq)
  have 1: "distinct (key_watchers k' b') \<and> set (key_watchers k' b') = {x. (k', x) \<in> W - {(k, c)}}" for k'
    using watch_invD(1,2) [OF inv] cs by (auto simp: kw)
  have 2: "set (watchers_of (wb_root b') p) = {x. p \<noteq> [] \<and> (\<exists>k'. (k', x) \<in> W - {(k, c)} \<and> prefix p (runes k'))}" for p
    using watch_invD(5) [OF inv, of p] watch_inv_unique [OF inv True] by (auto simp: b' watchers_of_del_watcher)
  have 3: "\<forall>x. x \<in> snd ` (W - {(k, c)}) \<union> snd ` S \<longrightarrow> x < length (wb_chans b')"
    using watch_invD(6,7) [OF inv] by (force simp: b')
  have 4: "inj_on snd (W - {(k, c)})" "snd ` (W - {(k, c)}) \<inter> snd ` S = {}"
    using watch_invD(8,10) [OF inv] by (auto intro: inj_on_subset)
  show ?thesis
    unfolding watch_inv_def using True 1 2 3 4 watch_invD(3,4,9) [OF inv] by (simp add: b')
next
  case False
  have "c \<notin> set (key_watchers k b)" using False watch_invD(2) [OF inv] by simp
  then have b': "b' = b\<lparr>wb_root := del_prefix c (runes k) (wb_root b)\<rparr>"
    using w by (auto simp: watch_Unwatch_def Let_def split: option.splits)
  let ?ss = "subs_of (wb_root b) (runes k)"
  have "mset (swap_remove c ?ss) = mset (remove1 c ?ss)" by (simp add: mset_swap_remove)
  then have ss: "distinct (swap_remove c ?ss)" "set (swap_remove c ?ss) = set ?ss - {c}"
    using watch_invD(3) [OF inv, of "runes k"] by (metis distinct_remove1 mset_eq_imp_distinct_iff, metis set_mset_mset set_remove1_eq)
  have 1: "distinct (subs_of (wb_root b') q) \<and> set (subs_of (wb_root b') q) = {x. (q, x) \<in> S - {(runes k, c)}}" for q
    using watch_invD(3,4) [OF inv] ss by (auto simp: b' of_del_prefix)
  have 3: "\<forall>x. x \<in> snd ` W \<union> snd ` (S - {(runes k, c)}) \<longrightarrow> x < length (wb_chans b')"
    using watch_invD(6,7) [OF inv] by (force simp: b')
  have 4: "inj_on snd (S - {(runes k, c)})" "snd ` W \<inter> snd ` (S - {(runes k, c)}) = {}"
    using watch_invD(9,10) [OF inv] by (auto intro: inj_on_subset)
  show ?thesis
    unfolding watch_inv_def using False 1 3 4 watch_invD(1,2,5,8) [OF inv] by (simp add: b' of_del_prefix key_watchers_def)
qed

lemma watch_reach_inv: "watch_reach W S b \<Longrightarrow> watch_inv W S b"
proof (induction rule: watch_reach.induct)
  case init
  then show ?case by (simp add: watch_inv_def watch_NewInMemory_def key_watchers_def)
next
  case (publish W S b ord ctx clk k d)
  then show ?case
    by (auto simp: watch_Publish_def Let_def case_prod_beta intro!: watch_inv_chans split: option.split)
next
  case (publish_prefix W S b ord ctx clk p d)
  then show ?case
    by (auto simp: watch_PublishPrefix_def Let_def case_prod_beta intro!: watch_inv_chans split: option.split)
next
  case (receive W S b c)
  then show ?case by (cases "buf (wb_chans b ! c)") (simp_all add: watch_receive_def watch_inv_chans)
next
  case (closing W S b c)
  then show ?case by (simp add: watch_close_def watch_inv_chans)
qed (blast intro: watch_inv_Watch watch_inv_Subscribe watch_inv_Unwatch)+

section \<open>Delivery\<close>

definition accepts :: "'a chan \<Rightarrow> bool" where
  "accepts ch \<longleftrightarrow> \<not> closed ch \<and> chan_ready ch"

lemma safeSend_nth:
  "c < length chs \<Longrightarrow> x < length chs \<Longrightarrow>
   safeSend c d chs ! x = (if x = c \<and> accepts (chs ! c) then push d (chs ! c) else chs ! x)"
  by (auto simp: safeSend_def try_send_def accepts_def push_def)

lemma send_loop_nth:
  assumes "send_loop ctx clk d i cs chs = (None, chs')" and "distinct cs" and "\<forall>c \<in> set cs. c < length chs" and "x < length chs"
  shows "chs' ! x = (if x \<in> set cs \<and> accepts (chs ! x) then push d (chs ! x) else chs ! x)"
  using assms
proof (induct cs arbitrary: i chs)
  case (Cons c cs)
  then have n: "ctx (clk i) = None" by (auto split: option.splits)
  have "chs' ! x = (if x \<in> set cs \<and> accepts (safeSend c d chs ! x) then push d (safeSend c d chs ! x) else safeSend c d chs ! x)"
    using Cons.prems n by (intro Cons.hyps) auto
  then show ?case using Cons.prems by (auto simp: safeSend_nth)
qed simp

lemma ord_perm:
  assumes "\<forall>xs. mset (ord xs) = mset xs"
  shows "set (ord xs) = set xs" and "distinct (ord xs) = distinct xs"
  using assms by (metis set_mset_mset, metis mset_eq_imp_distinct_iff)

lemma runes_ascii:
  assumes "\<forall>x \<in> set s. (of_char x :: nat) < 128"
  shows "runes s = map of_char s"
proof -
  have "decode_runes xs = xs" if "\<forall>x \<in> set xs. x < 128" for xs
    using that
  proof (induct xs)
    case (Cons x xs)
    then show ?case by (subst decode_runes.simps) (simp add: decode_rune_def)
  qed (simp add: decode_runes.simps)
  then show ?thesis using assms by (simp add: runes_def)
qed

section \<open>An example\<close>

text \<open>Channel 0 is subscribed to the prefix \<open>a\<close>, channel 1 watches \<open>ab\<close>, channel 2 has the empty prefix.\<close>

definition watch_example :: watch_bus where
  "watch_example =
     snd (watch_SubscribePrefix background (\<lambda>_. 0) []
       (snd (watch_Watch background (\<lambda>_. 0) ''ab''
         (snd (watch_SubscribePrefix background (\<lambda>_. 0) ''a'' watch_NewInMemory)))))"

lemma runes_example [simp]: "runes ''ab'' = [97, 98]" "runes ''a'' = [97]" "runes [] = []"
  by (simp_all add: runes_ascii of_char_def)

lemma watch_example_reach: "watch_reach {(''ab'', 1)} {([], 2), ([97], 0)} watch_example"
proof -
  let ?b1 = "snd (watch_SubscribePrefix background (\<lambda>_. 0) ''a'' watch_NewInMemory)"
  let ?b2 = "snd (watch_Watch background (\<lambda>_. 0) ''ab'' ?b1)"
  have 1: "watch_reach {} (insert (runes ''a'', 0) {}) ?b1"
    by (rule watch_reach.subscribe [OF watch_reach.init, where ctx = background and clk = "\<lambda>_. 0"])
      (simp add: watch_SubscribePrefix_def watch_NewInMemory_def background_def)
  have 2: "watch_reach (insert (''ab'', 1) {}) (insert (runes ''a'', 0) {}) ?b2"
    by (rule watch_reach.watch [OF 1, where ctx = background and clk = "\<lambda>_. 0"])
      (simp add: watch_Watch_def watch_SubscribePrefix_def watch_NewInMemory_def background_def)
  have "watch_reach (insert (''ab'', 1) {}) (insert (runes [], 2) (insert (runes ''a'', 0) {})) watch_example"
    unfolding watch_example_def
    by (rule watch_reach.subscribe [OF 2, where ctx = background and clk = "\<lambda>_. 0"])
      (simp add: watch_Watch_def watch_SubscribePrefix_def watch_NewInMemory_def background_def)
  then show ?thesis by simp
qed

lemma watch_example_chans: "wb_chans watch_example = [make_chan 1, make_chan 1, make_chan 1]"
  by (simp add: watch_example_def watch_SubscribePrefix_def watch_Watch_def watch_NewInMemory_def background_def)

lemma fst_send_loop_background: "fst (send_loop background clk d i cs chs) = None"
  by (induct cs arbitrary: i chs) simp_all

lemma watch_background:
  "watch_Publish ord background clk k d b = (None, snd (watch_Publish ord background clk k d b))"
  "watch_PublishPrefix ord background clk k d b = (None, snd (watch_PublishPrefix ord background clk k d b))"
  by (simp_all add: watch_Publish_def watch_PublishPrefix_def Let_def case_prod_beta fst_send_loop_background)

section \<open>Properties\<close>

text \<open>
  C29. A publication that returns no error gives its data to the watchers of exactly that
  key and to the subscribers of every prefix of it, as far as their channels are open
  and have room, and changes no other channel. The prefix is one of runes, and it is
  not the empty one: a subscriber of the empty prefix gets nothing.
\<close>

theorem watch_publish_exact:
  assumes "watch_reach W S b" and "\<forall>xs. mset (ord xs) = mset xs"
    and "watch_Publish ord ctx clk k d b = (None, b')" and "c < length (wb_chans b)"
  shows "wb_chans b' ! c =
    (if ((k, c) \<in> W \<or> (\<exists>p. (p, c) \<in> S \<and> p \<noteq> [] \<and> prefix p (runes k))) \<and> accepts (wb_chans b ! c)
     then push d (wb_chans b ! c) else wb_chans b ! c)"
proof -
  have inv: "watch_inv W S b" using assms(1) by (rule watch_reach_inv)
  let ?ts = "remdups (key_watchers k b @ path_subs (wb_root b) (runes k))"
  have loop: "send_loop ctx (tick 1 clk) d 0 (ord ?ts) (wb_chans b) = (None, wb_chans b')"
    using assms(3) by (auto simp: watch_Publish_def Let_def case_prod_beta prod_eq_iff split: option.splits)
  have ts: "x \<in> set ?ts \<longleftrightarrow> (k, x) \<in> W \<or> (\<exists>p. (p, x) \<in> S \<and> p \<noteq> [] \<and> prefix p (runes k))" for x
    using watch_invD(2,4) [OF inv] by (auto simp: set_path_subs)
  have "\<forall>x \<in> set (ord ?ts). x < length (wb_chans b)"
    using ts watch_invD(6,7) [OF inv] unfolding ord_perm [OF assms(2)] by blast
  from send_loop_nth [OF loop _ this assms(4)] show ?thesis unfolding ord_perm [OF assms(2)] ts by simp
qed

theorem watch_publish_exact_witness:
  "wb_chans (snd (watch_Publish (\<lambda>ts. ts) background (\<lambda>_. 0) ''ab'' [7] watch_example)) ! 0 = push [7] (make_chan 1) \<and>
   wb_chans (snd (watch_Publish (\<lambda>ts. ts) background (\<lambda>_. 0) ''ab'' [7] watch_example)) ! 1 = push [7] (make_chan 1) \<and>
   wb_chans (snd (watch_Publish (\<lambda>ts. ts) background (\<lambda>_. 0) ''ab'' [7] watch_example)) ! 2 = make_chan 1"
proof -
  note p = watch_publish_exact [OF watch_example_reach _ watch_background(1), of "\<lambda>ts. ts"]
  show ?thesis
    using p [of 0 "\<lambda>_. 0" "''ab''" "[7]"] p [of 1 "\<lambda>_. 0" "''ab''" "[7]"] p [of 2 "\<lambda>_. 0" "''ab''" "[7]"]
    by (simp add: watch_example_chans accepts_def chan_ready_def make_chan_def)
qed

text \<open>
  Publishing to a prefix reaches the watchers of every key with that prefix and the
  subscribers of that very prefix; with the empty prefix it reaches no watcher at all.
\<close>

theorem watch_publish_prefix_exact:
  assumes "watch_reach W S b" and "\<forall>xs. mset (ord xs) = mset xs"
    and "watch_PublishPrefix ord ctx clk p d b = (None, b')" and "c < length (wb_chans b)"
  shows "wb_chans b' ! c =
    (if ((runes p, c) \<in> S \<or> runes p \<noteq> [] \<and> (\<exists>k. (k, c) \<in> W \<and> prefix (runes p) (runes k))) \<and> accepts (wb_chans b ! c)
     then push d (wb_chans b ! c) else wb_chans b ! c)"
proof -
  have inv: "watch_inv W S b" using assms(1) by (rule watch_reach_inv)
  define ts where "ts = (case node_at (wb_root b) (runes p) of None \<Rightarrow> [] | Some n \<Rightarrow> remdups (wn_watchers n @ wn_subs n))"
  have loop: "send_loop ctx (tick 1 clk) d 0 (ord ts) (wb_chans b) = (None, wb_chans b')"
    using assms(3) by (auto simp: watch_PublishPrefix_def Let_def case_prod_beta prod_eq_iff ts_def split: option.splits)
  have "distinct ts" "set ts = set (watchers_of (wb_root b) (runes p)) \<union> set (subs_of (wb_root b) (runes p))"
    by (auto simp: ts_def watchers_of_def subs_of_def split: option.splits)
  then have ts: "distinct ts" "x \<in> set ts \<longleftrightarrow> (runes p, x) \<in> S \<or> runes p \<noteq> [] \<and> (\<exists>k. (k, x) \<in> W \<and> prefix (runes p) (runes k))" for x
    using watch_invD(4,5) [OF inv] by auto
  have "\<forall>x \<in> set (ord ts). x < length (wb_chans b)"
    using ts watch_invD(6,7) [OF inv] unfolding ord_perm [OF assms(2)] by blast
  from send_loop_nth [OF loop _ this assms(4)] show ?thesis unfolding ord_perm [OF assms(2)] using ts by simp
qed

theorem watch_publish_prefix_exact_witness:
  "wb_chans (snd (watch_PublishPrefix (\<lambda>ts. ts) background (\<lambda>_. 0) ''a'' [7] watch_example)) ! 1 = push [7] (make_chan 1) \<and>
   wb_chans (snd (watch_PublishPrefix (\<lambda>ts. ts) background (\<lambda>_. 0) [] [7] watch_example)) ! 1 = make_chan 1"
proof -
  note p = watch_publish_prefix_exact [OF watch_example_reach _ watch_background(2), of "\<lambda>ts. ts"]
  show ?thesis
    using p [of 1 "\<lambda>_. 0" "''a''" "[7]"] p [of 1 "\<lambda>_. 0" "[]" "[7]"]
    by (simp add: watch_example_chans accepts_def chan_ready_def make_chan_def)
qed

end
