(* ===== verification/Lock_Redis.thy ===== *)
theory Lock_Redis
  imports Warp_Prelude
begin

text \<open>
  The Redis locker (src/lock/redis.go). The server is the parameter \<open>redis_lock_ops\<close>:
  \<^verbatim>\<open>SET NX\<close> and the atomic execution of a script, with \<open>redis_lock_ok\<close> stating what
  they do to the values the server holds, including that a call that fails may have
  taken effect. The Lua script of the package is modelled (\<open>redisDelScript\<close>).

  \<open>redis_step\<close> interleaves the calls of several lockers, their timers, and the expiry
  of keys on the server. \<open>Acquire\<close> runs over a list of rounds, each of which says what
  others do while it waits and which events its \<^verbatim>\<open>select\<close> receives.
\<close>

section \<open>The server\<close>

type_synonym redis_db = "key \<Rightarrow> string option"

datatype redis_error = RedisNil | RedisErr go_error

record 's redis_lock_ops =
  rdSetNX :: "ctx \<Rightarrow> clock \<Rightarrow> key \<Rightarrow> string \<Rightarrow> duration \<Rightarrow> 's \<Rightarrow> (go_error + bool) \<times> 's"
  rdRun :: "ctx \<Rightarrow> clock \<Rightarrow> (redis_db \<Rightarrow> int \<times> redis_db) \<Rightarrow> 's \<Rightarrow> (redis_error + int) \<times> 's"

definition setnx_law :: "('s \<Rightarrow> redis_db) \<Rightarrow> key \<Rightarrow> string \<Rightarrow> 's \<Rightarrow> (go_error + bool) \<times> 's \<Rightarrow> bool" where
  "setnx_law db k tok s res =
     (case res of
        (Inr True, s') \<Rightarrow> db s k = None \<and> db s' = (db s)(k \<mapsto> tok)
      | (Inr False, s') \<Rightarrow> db s k \<noteq> None \<and> db s' = db s
      | (Inl e, s') \<Rightarrow> db s' = db s \<or> db s k = None \<and> db s' = (db s)(k \<mapsto> tok))"

definition run_law :: "('s \<Rightarrow> redis_db) \<Rightarrow> (redis_db \<Rightarrow> int \<times> redis_db) \<Rightarrow> 's \<Rightarrow> (redis_error + int) \<times> 's \<Rightarrow> bool" where
  "run_law db script s res =
     (case res of
        (Inr n, s') \<Rightarrow> (n, db s') = script (db s)
      | (Inl e, s') \<Rightarrow> db s' = db s \<or> db s' = snd (script (db s)))"

definition redis_lock_ok :: "'s redis_lock_ops \<Rightarrow> ('s \<Rightarrow> redis_db) \<Rightarrow> bool" where
  "redis_lock_ok ops db \<longleftrightarrow>
     (\<forall>ctx clk k tok ttl s. setnx_law db k tok s (rdSetNX ops ctx clk k tok ttl s)) \<and>
     (\<forall>ctx clk script s. run_law db script s (rdRun ops ctx clk script s))"

text \<open>The script that deletes a key if it has the token.\<close>

definition redisDelScript :: "key \<Rightarrow> string \<Rightarrow> redis_db \<Rightarrow> int \<times> redis_db" where
  "redisDelScript k tok d = (if d k = Some tok then (1, d(k := None)) else (0, d))"

section \<open>The locker\<close>

record redis_entry =
  re_token :: string
  re_timer :: bool

record redis_locker =
  rl_entries :: "key \<Rightarrow> redis_entry option"
  rl_timers :: "(key \<times> string \<times> time) list"

definition NewRedis :: redis_locker where
  "NewRedis = \<lparr>rl_entries = Map.empty, rl_timers = []\<rparr>"

definition redis_cleanupLocal :: "key \<Rightarrow> string \<Rightarrow> redis_locker \<Rightarrow> redis_locker" where
  "redis_cleanupLocal k tok l =
     (case rl_entries l k of
        Some e \<Rightarrow> if re_token e = tok then l\<lparr>rl_entries := (rl_entries l)(k := None)\<rparr> else l
      | None \<Rightarrow> l)"

definition redis_releaseWithToken ::
    "'s redis_lock_ops \<Rightarrow> ctx \<Rightarrow> clock \<Rightarrow> key \<Rightarrow> string \<Rightarrow> redis_locker \<times> 's \<Rightarrow> go_error option \<times> redis_locker \<times> 's" where
  "redis_releaseWithToken ops ctx clk k tok ls =
     (case rdRun ops ctx clk (redisDelScript k tok) (snd ls) of
        (Inl (RedisErr e), s1) \<Rightarrow> (Some e, fst ls, s1)
      | (Inl RedisNil, s1) \<Rightarrow> (None, redis_cleanupLocal k tok (fst ls), s1)
      | (Inr n, s1) \<Rightarrow> (None, redis_cleanupLocal k tok (fst ls), s1))"

text \<open>\<open>tok\<close> is the answer of \<^verbatim>\<open>uuid.NewString()\<close>; the timer is due \<open>ttl\<close> after it was set.\<close>

definition redis_TryLock ::
    "'s redis_lock_ops \<Rightarrow> string \<Rightarrow> ctx \<Rightarrow> clock \<Rightarrow> key \<Rightarrow> duration \<Rightarrow> redis_locker \<times> 's
     \<Rightarrow> (go_error + bool) \<times> redis_locker \<times> 's" where
  "redis_TryLock ops tok ctx clk k ttl ls =
     (case rdSetNX ops ctx clk k tok ttl (snd ls) of
        (Inl e, s1) \<Rightarrow> (Inl e, fst ls, s1)
      | (Inr False, s1) \<Rightarrow> (Inr False, fst ls, s1)
      | (Inr True, s1) \<Rightarrow>
          (let l = fst ls;
               l1 = (if ttl > 0 then l\<lparr>rl_timers := rl_timers l @ [(k, tok, time_Add (clk 1) ttl)]\<rparr> else l)
           in (Inr True, l1\<lparr>rl_entries := (rl_entries l1)(k \<mapsto> \<lparr>re_token = tok, re_timer = ttl > 0\<rparr>)\<rparr>, s1)))"

definition stop_timer :: "key \<Rightarrow> redis_entry \<Rightarrow> redis_locker \<Rightarrow> redis_locker" where
  "stop_timer k e l =
     (if re_timer e then l\<lparr>rl_timers := filter (\<lambda>(k', tok, due). (k', tok) \<noteq> (k, re_token e)) (rl_timers l)\<rparr> else l)"

definition redis_Release ::
    "'s redis_lock_ops \<Rightarrow> ctx \<Rightarrow> clock \<Rightarrow> key \<Rightarrow> redis_locker \<times> 's \<Rightarrow> go_error option \<times> redis_locker \<times> 's" where
  "redis_Release ops ctx clk k ls =
     (case rl_entries (fst ls) k of
        None \<Rightarrow> (None, ls)
      | Some e \<Rightarrow> redis_releaseWithToken ops ctx clk k (re_token e) (stop_timer k e (fst ls), snd ls))"

text \<open>A timer that fires.\<close>

definition redis_timer :: "'s redis_lock_ops \<Rightarrow> clock \<Rightarrow> key \<times> string \<times> time \<Rightarrow> redis_locker \<times> 's \<Rightarrow> redis_locker \<times> 's" where
  "redis_timer ops clk t ls =
     snd (redis_releaseWithToken ops background clk (fst t) (fst (snd t)) ((fst ls)\<lparr>rl_timers := remove1 t (rl_timers (fst ls))\<rparr>, snd ls))"

section \<open>Acquire\<close>

definition redis_baseInterval :: duration where
  "redis_baseInterval = 5 * 10 ^ 6"

definition redis_maxInterval :: duration where
  "redis_maxInterval = 500 * 10 ^ 6"

datatype lock_event = Msg string | MsgClosed | TimerFired | CtxDone go_error

text \<open>
  The inner loop: the next interval, or the error of the context. The result is \<open>None\<close>
  while none of the events ends it.
\<close>

fun redis_wait :: "key \<Rightarrow> duration \<Rightarrow> lock_event list \<Rightarrow> (go_error + duration) option" where
  "redis_wait k iv [] = None"
| "redis_wait k iv (Msg payload # es) = (if payload = k then Some (Inr redis_baseInterval) else redis_wait k iv es)"
| "redis_wait k iv (MsgClosed # es) = Some (Inr iv)"
| "redis_wait k iv (TimerFired # es) = Some (Inr (if iv < redis_maxInterval then iv * 2 else iv))"
| "redis_wait k iv (CtxDone e # es) = Some (Inl e)"

record 's redis_round =
  rr_token :: string
  rr_clock :: clock
  rr_others :: "redis_locker \<times> 's \<Rightarrow> redis_locker \<times> 's"
  rr_events :: "lock_event list"

fun redis_acquire_loop ::
    "'s redis_lock_ops \<Rightarrow> ctx \<Rightarrow> key \<Rightarrow> duration \<Rightarrow> duration \<Rightarrow> 's redis_round list \<Rightarrow> redis_locker \<times> 's
     \<Rightarrow> go_error option option \<times> redis_locker \<times> 's" where
  "redis_acquire_loop ops ctx k ttl iv [] ls = (None, ls)"
| "redis_acquire_loop ops ctx k ttl iv (r # rs) ls =
     (case redis_TryLock ops (rr_token r) ctx (rr_clock r) k ttl ls of
        (Inl e, ls1) \<Rightarrow> (Some (Some e), ls1)
      | (Inr True, ls1) \<Rightarrow> (Some None, ls1)
      | (Inr False, ls1) \<Rightarrow>
          (case redis_wait k iv (rr_events r) of
             None \<Rightarrow> (None, rr_others r ls1)
           | Some (Inl e) \<Rightarrow> (Some (Some e), rr_others r ls1)
           | Some (Inr iv') \<Rightarrow> redis_acquire_loop ops ctx k ttl iv' rs (rr_others r ls1)))"

definition redis_Acquire where
  "redis_Acquire ops ctx k ttl rounds ls = redis_acquire_loop ops ctx k ttl redis_baseInterval rounds ls"

text \<open>The interval with which the \<open>n\<close>-th wait begins, as far as it is reached.\<close>

fun redis_intervals :: "key \<Rightarrow> duration \<Rightarrow> lock_event list list \<Rightarrow> duration list" where
  "redis_intervals k iv [] = [iv]"
| "redis_intervals k iv (es # ess) =
     iv # (case redis_wait k iv es of Some (Inr iv') \<Rightarrow> redis_intervals k iv' ess | _ \<Rightarrow> [])"

section \<open>Several lockers and one server\<close>

record 's redis_sys =
  rs_server :: 's
  rs_nodes :: "nat \<Rightarrow> redis_locker"
  rs_owner :: "string \<Rightarrow> (nat \<times> key) option"

datatype lock_label = LTry nat key | LRelease nat key | LTimer nat key string | LExpire

text \<open>
  \<open>rs_owner\<close> records which locker made a token for which key; a new token is one that
  was never made.
\<close>

inductive redis_step :: "'s redis_lock_ops \<Rightarrow> ('s \<Rightarrow> redis_db) \<Rightarrow> lock_label \<Rightarrow> 's redis_sys \<Rightarrow> 's redis_sys \<Rightarrow> bool" for ops db where
  attempt: "rs_owner sys tok = None \<Longrightarrow> redis_TryLock ops tok ctx clk k ttl (rs_nodes sys i, rs_server sys) = (r, l, s) \<Longrightarrow>
     redis_step ops db (LTry i k) sys
       (sys\<lparr>rs_server := s, rs_nodes := (rs_nodes sys)(i := l), rs_owner := (rs_owner sys)(tok \<mapsto> (i, k))\<rparr>)"
| release: "redis_Release ops ctx clk k (rs_nodes sys i, rs_server sys) = (e, l, s) \<Longrightarrow>
     redis_step ops db (LRelease i k) sys (sys\<lparr>rs_server := s, rs_nodes := (rs_nodes sys)(i := l)\<rparr>)"
| timer: "(k, tok, due) \<in> set (rl_timers (rs_nodes sys i)) \<Longrightarrow> due \<le> clk 0 \<Longrightarrow>
     redis_timer ops clk (k, tok, due) (rs_nodes sys i, rs_server sys) = (l, s) \<Longrightarrow>
     redis_step ops db (LTimer i k tok) sys (sys\<lparr>rs_server := s, rs_nodes := (rs_nodes sys)(i := l)\<rparr>)"
| expire: "db s \<subseteq>\<^sub>m db (rs_server sys) \<Longrightarrow> redis_step ops db LExpire sys (sys\<lparr>rs_server := s\<rparr>)"

inductive redis_reach :: "'s redis_lock_ops \<Rightarrow> ('s \<Rightarrow> redis_db) \<Rightarrow> 's redis_sys \<Rightarrow> bool" for ops db where
  init: "db s = Map.empty \<Longrightarrow> redis_reach ops db \<lparr>rs_server = s, rs_nodes = (\<lambda>_. NewRedis), rs_owner = Map.empty\<rparr>"
| step: "redis_reach ops db sys \<Longrightarrow> redis_step ops db lab sys sys' \<Longrightarrow> redis_reach ops db sys'"

text \<open>The locker \<open>i\<close> holds the key with the token: it has the entry, and so has the server.\<close>

definition redis_holds :: "('s \<Rightarrow> redis_db) \<Rightarrow> 's redis_sys \<Rightarrow> nat \<Rightarrow> key \<Rightarrow> string \<Rightarrow> bool" where
  "redis_holds db sys i k tok \<longleftrightarrow>
     (\<exists>e. rl_entries (rs_nodes sys i) k = Some e \<and> re_token e = tok) \<and> db (rs_server sys) k = Some tok"

definition redis_inv :: "('s \<Rightarrow> redis_db) \<Rightarrow> 's redis_sys \<Rightarrow> bool" where
  "redis_inv db sys \<longleftrightarrow>
     (\<forall>k tok. db (rs_server sys) k = Some tok \<longrightarrow> rs_owner sys tok \<noteq> None) \<and>
     (\<forall>i k e. rl_entries (rs_nodes sys i) k = Some e \<longrightarrow> rs_owner sys (re_token e) = Some (i, k)) \<and>
     (\<forall>i k tok due. (k, tok, due) \<in> set (rl_timers (rs_nodes sys i)) \<longrightarrow> rs_owner sys tok = Some (i, k))"

section \<open>The operations on the server and on the entries\<close>

lemma redis_TryLock_cases:
  assumes "redis_lock_ok ops db" and "redis_TryLock ops tok ctx clk k ttl (l, s) = (r, l', s')"
  obtains (refused) "r \<noteq> Inr True" "l' = l" "db s' = db s \<or> db s k = None \<and> db s' = (db s)(k \<mapsto> tok)" "r = Inr False \<Longrightarrow> db s k \<noteq> None"
  | (locked) "r = Inr True" "db s k = None" "db s' = (db s)(k \<mapsto> tok)"
      "rl_entries l' = (rl_entries l)(k \<mapsto> \<lparr>re_token = tok, re_timer = ttl > 0\<rparr>)"
      "set (rl_timers l') \<subseteq> set (rl_timers l) \<union> {(k, tok, time_Add (clk 1) ttl)}"
proof -
  obtain r0 s0 where x: "rdSetNX ops ctx clk k tok ttl s = (r0, s0)" by (cases "rdSetNX ops ctx clk k tok ttl s")
  have law: "setnx_law db k tok s (r0, s0)" using assms(1) unfolding redis_lock_ok_def x [symmetric] by simp
  show thesis
  proof (cases "r0 = Inr True")
    case True
    with x law assms(2) show thesis by (intro locked) (auto simp: setnx_law_def redis_TryLock_def Let_def split: if_splits)
  next
    case False
    with x law assms(2) show thesis
      by (intro refused; cases r0) (auto simp: setnx_law_def redis_TryLock_def)
  qed
qed

lemma cleanup_entries:
  "rl_entries (redis_cleanupLocal k tok l) k' =
     (if k' = k \<and> (\<exists>e. rl_entries l k = Some e \<and> re_token e = tok) then None else rl_entries l k')"
  "rl_timers (redis_cleanupLocal k tok l) = rl_timers l"
  by (auto simp: redis_cleanupLocal_def split: option.split)

lemma redis_release_cases:
  assumes "redis_lock_ok ops db" and "redis_releaseWithToken ops ctx clk k tok (l, s) = (e, l', s')"
  shows "(db s' = db s \<or> db s k = Some tok \<and> db s' = (db s)(k := None)) \<and> (l' = l \<or> l' = redis_cleanupLocal k tok l)"
proof -
  obtain r0 s0 where x: "rdRun ops ctx clk (redisDelScript k tok) s = (r0, s0)"
    by (cases "rdRun ops ctx clk (redisDelScript k tok) s")
  have law: "run_law db (redisDelScript k tok) s (r0, s0)" using assms(1) unfolding redis_lock_ok_def x [symmetric] by simp
  with x assms(2) show ?thesis
    by (auto simp: run_law_def redis_releaseWithToken_def redisDelScript_def split: sum.splits redis_error.splits if_splits)
qed

lemma stop_timer_simps [simp]: "rl_entries (stop_timer k e l) = rl_entries l" "set (rl_timers (stop_timer k e l)) \<subseteq> set (rl_timers l)"
  by (auto simp: stop_timer_def)

section \<open>Tokens have one owner\<close>

lemma map_le_Some: "m \<subseteq>\<^sub>m m' \<Longrightarrow> m x = Some y \<Longrightarrow> m' x = Some y"
  by (auto simp: map_le_def dom_def)

lemma redis_inv_shrink:
  assumes inv: "redis_inv db sys" and "db s \<subseteq>\<^sub>m db (rs_server sys)" and "rl_entries l \<subseteq>\<^sub>m rl_entries (rs_nodes sys i)"
    and "set (rl_timers l) \<subseteq> set (rl_timers (rs_nodes sys i))"
  shows "redis_inv db (sys\<lparr>rs_server := s, rs_nodes := (rs_nodes sys)(i := l)\<rparr>)"
  unfolding redis_inv_def
proof (intro conjI allI impI)
  fix k tok
  assume "db (rs_server (sys\<lparr>rs_server := s, rs_nodes := (rs_nodes sys)(i := l)\<rparr>)) k = Some tok"
  then have "db (rs_server sys) k = Some tok" using map_le_Some [OF assms(2)] by simp
  then show "rs_owner (sys\<lparr>rs_server := s, rs_nodes := (rs_nodes sys)(i := l)\<rparr>) tok \<noteq> None"
    using inv by (simp add: redis_inv_def)
next
  fix j k e
  assume "rl_entries (rs_nodes (sys\<lparr>rs_server := s, rs_nodes := (rs_nodes sys)(i := l)\<rparr>) j) k = Some e"
  then have "rl_entries (rs_nodes sys j) k = Some e" using map_le_Some [OF assms(3)] by (simp split: if_splits)
  then show "rs_owner (sys\<lparr>rs_server := s, rs_nodes := (rs_nodes sys)(i := l)\<rparr>) (re_token e) = Some (j, k)"
    using inv by (simp add: redis_inv_def)
next
  fix j k tok due
  assume "(k, tok, due) \<in> set (rl_timers (rs_nodes (sys\<lparr>rs_server := s, rs_nodes := (rs_nodes sys)(i := l)\<rparr>) j))"
  then have "(k, tok, due) \<in> set (rl_timers (rs_nodes sys j))" using subsetD [OF assms(4)] by (simp split: if_splits)
  then have "rs_owner sys tok = Some (j, k)" using inv unfolding redis_inv_def by blast
  then show "rs_owner (sys\<lparr>rs_server := s, rs_nodes := (rs_nodes sys)(i := l)\<rparr>) tok = Some (j, k)" by simp
qed

lemma redis_step_inv:
  assumes ok: "redis_lock_ok ops db" and inv: "redis_inv db sys" and step: "redis_step ops db lab sys sys'"
  shows "redis_inv db sys'"
  using step
proof cases
  case (attempt tok ctx clk k ttl i r l s)
  have new: "rs_owner sys tok' \<noteq> None \<Longrightarrow> tok' \<noteq> tok" for tok' using attempt(3) by auto
  from ok attempt(4) show ?thesis
  proof (cases rule: redis_TryLock_cases)
    case refused
    then show ?thesis using inv new unfolding redis_inv_def attempt(2) by (auto split: if_splits)
  next
    case locked
    then show ?thesis using inv new unfolding redis_inv_def attempt(2) by (fastforce split: if_splits)
  qed
next
  case (release ctx clk k i e l s)
  show ?thesis
  proof (cases "rl_entries (rs_nodes sys i) k")
    case None
    then have "l = rs_nodes sys i" "s = rs_server sys" using release(3) by (auto simp: redis_Release_def)
    then show ?thesis using inv unfolding release(2) by simp
  next
    case (Some en)
    let ?l = "stop_timer k en (rs_nodes sys i)"
    have "redis_releaseWithToken ops ctx clk k (re_token en) (?l, rs_server sys) = (e, l, s)"
      using release(3) Some by (simp add: redis_Release_def)
    from redis_release_cases [OF ok this]
    have "db s \<subseteq>\<^sub>m db (rs_server sys)" "rl_entries l \<subseteq>\<^sub>m rl_entries (rs_nodes sys i)"
      "set (rl_timers l) \<subseteq> set (rl_timers (rs_nodes sys i))"
      by (auto simp: map_le_def cleanup_entries dom_def split: if_splits dest: subsetD [OF stop_timer_simps(2)])
    then show ?thesis using redis_inv_shrink [OF inv] unfolding release(2) by blast
  qed
next
  case (timer k tok due i clk l s)
  let ?l = "(rs_nodes sys i)\<lparr>rl_timers := remove1 (k, tok, due) (rl_timers (rs_nodes sys i))\<rparr>"
  obtain e where "redis_releaseWithToken ops background clk k tok (?l, rs_server sys) = (e, l, s)"
    using timer(5) by (cases "redis_releaseWithToken ops background clk k tok (?l, rs_server sys)") (simp add: redis_timer_def)
  from redis_release_cases [OF ok this]
  have "db s \<subseteq>\<^sub>m db (rs_server sys)" "rl_entries l \<subseteq>\<^sub>m rl_entries (rs_nodes sys i)"
    "set (rl_timers l) \<subseteq> set (rl_timers (rs_nodes sys i))"
    by (auto simp: map_le_def cleanup_entries dom_def split: if_splits dest: subsetD [OF set_remove1_subset])
  then show ?thesis using redis_inv_shrink [OF inv] unfolding timer(2) by blast
next
  case (expire s)
  then show ?thesis using redis_inv_shrink [OF inv, of s "rs_nodes sys 0" 0] by simp
qed

lemma redis_reach_inv:
  assumes "redis_lock_ok ops db"
  shows "redis_reach ops db sys \<Longrightarrow> redis_inv db sys"
proof (induction rule: redis_reach.induct)
  case (init s)
  then show ?case by (simp add: redis_inv_def NewRedis_def)
next
  case (step sys lab sys')
  then show ?case using redis_step_inv assms by blast
qed

lemma redis_invD:
  assumes "redis_inv db sys"
  shows "rl_entries (rs_nodes sys i) k = Some e \<Longrightarrow> rs_owner sys (re_token e) = Some (i, k)"
    and "(k, tok, due) \<in> set (rl_timers (rs_nodes sys i)) \<Longrightarrow> rs_owner sys tok = Some (i, k)"
proof -
  show "rl_entries (rs_nodes sys i) k = Some e \<Longrightarrow> rs_owner sys (re_token e) = Some (i, k)"
    using assms by (simp add: redis_inv_def)
  have "\<forall>i k tok due. (k, tok, due) \<in> set (rl_timers (rs_nodes sys i)) \<longrightarrow> rs_owner sys tok = Some (i, k)"
    using assms by (simp add: redis_inv_def)
  then show "(k, tok, due) \<in> set (rl_timers (rs_nodes sys i)) \<Longrightarrow> rs_owner sys tok = Some (i, k)" by blast
qed

lemma redis_holdsD:
  assumes "redis_inv db sys" and "redis_holds db sys i k tok"
  shows "rs_owner sys tok = Some (i, k)" and "db (rs_server sys) k = Some tok"
  using assms(2) redis_invD(1) [OF assms(1), of i k] by (auto simp: redis_holds_def)

lemma redis_holds_unique:
  assumes inv: "redis_inv db sys" and h: "redis_holds db sys i k tok" and h': "redis_holds db sys j k tok'"
  shows "j = i \<and> tok' = tok"
  using redis_holdsD [OF inv h] redis_holdsD [OF inv h'] by simp

text \<open>A release with another token, or of another key, leaves a held key alone.\<close>

lemma redis_release_keeps:
  assumes ok: "redis_lock_ok ops db" and r: "redis_releaseWithToken ops ctx clk k' tok' (l, s) = (e, l', s')"
    and ne: "k' = k \<Longrightarrow> tok' \<noteq> tok"
  shows "db s k = Some tok \<Longrightarrow> db s' k = Some tok"
    and "rl_entries l k = Some en \<Longrightarrow> re_token en = tok \<Longrightarrow> rl_entries l' k = Some en"
proof -
  note c = redis_release_cases [OF ok r]
  show "db s k = Some tok \<Longrightarrow> db s' k = Some tok" using c ne by (cases "k' = k") auto
  show "rl_entries l k = Some en \<Longrightarrow> re_token en = tok \<Longrightarrow> rl_entries l' k = Some en"
    using c ne by (cases "k' = k") (auto simp: cleanup_entries)
qed

lemma redis_holds_kept:
  assumes ok: "redis_lock_ok ops db" and inv: "redis_inv db sys" and h: "redis_holds db sys i k tok"
    and step: "redis_step ops db lab sys sys'" and lab: "lab \<notin> {LRelease i k, LTimer i k tok, LExpire}"
  shows "redis_holds db sys' i k tok"
proof -
  from h obtain en where en: "rl_entries (rs_nodes sys i) k = Some en" "re_token en = tok" and d: "db (rs_server sys) k = Some tok"
    by (auto simp: redis_holds_def)
  have own: "rs_owner sys tok = Some (i, k)" using redis_holdsD(1) [OF inv h] .
  from step show ?thesis
  proof cases
    case (attempt tok' ctx clk k' ttl j r l s)
    from ok attempt(4) show ?thesis
    proof (cases rule: redis_TryLock_cases)
      case refused
      then show ?thesis using en d unfolding redis_holds_def attempt(2) by auto
    next
      case locked
      then have "k' \<noteq> k" using d by auto
      then show ?thesis using locked en d unfolding redis_holds_def attempt(2) by auto
    qed
  next
    case (release ctx clk k' j e l s)
    show ?thesis
    proof (cases "rl_entries (rs_nodes sys j) k'")
      case None
      then have "l = rs_nodes sys j" "s = rs_server sys" using release(3) by (auto simp: redis_Release_def)
      then show ?thesis using h unfolding release(2) by (simp add: redis_holds_def)
    next
      case (Some en')
      have r: "redis_releaseWithToken ops ctx clk k' (re_token en') (stop_timer k' en' (rs_nodes sys j), rs_server sys) = (e, l, s)"
        using release(3) Some by (simp add: redis_Release_def)
      have "rs_owner sys (re_token en') = Some (j, k')" using redis_invD(1) [OF inv Some] .
      then have ne: "k' = k \<Longrightarrow> re_token en' \<noteq> tok" using own lab release(1) by auto
      show ?thesis using redis_release_keeps [OF ok r ne] en d unfolding redis_holds_def release(2) by auto
    qed
  next
    case (timer k' tok' due j clk l s)
    let ?l = "(rs_nodes sys j)\<lparr>rl_timers := remove1 (k', tok', due) (rl_timers (rs_nodes sys j))\<rparr>"
    obtain e where r: "redis_releaseWithToken ops background clk k' tok' (?l, rs_server sys) = (e, l, s)"
      using timer(5) by (cases "redis_releaseWithToken ops background clk k' tok' (?l, rs_server sys)") (simp add: redis_timer_def)
    have "rs_owner sys tok' = Some (j, k')" using redis_invD(2) [OF inv timer(3)] .
    then have ne: "k' = k \<Longrightarrow> tok' \<noteq> tok" using own lab timer(1) by auto
    show ?thesis using redis_release_keeps [OF ok r ne] en d unfolding redis_holds_def timer(2) by auto
  next
    case (expire s)
    then show ?thesis using lab by simp
  qed
qed

definition backoff_steps :: "duration set" where
  "backoff_steps = {5 * 10 ^ 6 * 2 ^ n | n. n \<le> 7}"

lemma base_step: "redis_baseInterval \<in> backoff_steps"
  by (auto simp: redis_baseInterval_def backoff_steps_def intro: exI [of _ 0])

lemma redis_wait_interval:
  assumes "redis_wait k iv es = Some (Inr iv')" and "iv \<in> backoff_steps"
  shows "iv' \<in> backoff_steps"
  using assms
proof (induction k iv es rule: redis_wait.induct)
  case (2 k iv payload es)
  then show ?case by (auto simp: base_step split: if_splits)
next
  case (4 k iv es)
  then obtain n where n: "iv = 5 * 10 ^ 6 * 2 ^ n" "n \<le> 7" by (auto simp: backoff_steps_def)
  show ?case
  proof (cases "iv < redis_maxInterval")
    case True
    then have "n < 7"
      using n by (cases "n = 7") (auto simp: redis_maxInterval_def)
    then show ?thesis using True 4(1) n by (auto simp: backoff_steps_def intro!: exI [of _ "Suc n"])
  next
    case False
    then show ?thesis using 4 by simp
  qed
qed auto

lemma redis_intervals_in: "iv \<in> backoff_steps \<Longrightarrow> set (redis_intervals k iv ess) \<subseteq> backoff_steps"
proof (induct ess arbitrary: iv)
  case (Cons es ess)
  have "set (redis_intervals k iv' ess) \<subseteq> backoff_steps" if "redis_wait k iv es = Some (Inr iv')" for iv'
    using Cons redis_wait_interval [OF that] by blast
  then show ?case using Cons.prems
    by (cases "redis_wait k iv es" rule: option.exhaust; cases "the (redis_wait k iv es)") simp_all
qed simp

section \<open>A server\<close>

definition redis_server :: "redis_db redis_lock_ops" where
  "redis_server = \<lparr>
     rdSetNX = (\<lambda>ctx clk k tok ttl d. if d k = None then (Inr True, d(k \<mapsto> tok)) else (Inr False, d)),
     rdRun = (\<lambda>ctx clk script d. (Inr (fst (script d)), snd (script d)))\<rparr>"

lemma redis_server_ok: "redis_lock_ok redis_server (\<lambda>d. d)"
  by (simp add: redis_lock_ok_def setnx_law_def run_law_def redis_server_def)

definition redis_example :: "redis_db redis_sys" where
  "redis_example = \<lparr>rs_server = [''k'' \<mapsto> ''t0''],
     rs_nodes = (\<lambda>_. NewRedis)(0 := \<lparr>rl_entries = [''k'' \<mapsto> \<lparr>re_token = ''t0'', re_timer = True\<rparr>], rl_timers = [(''k'', ''t0'', 10)]\<rparr>),
     rs_owner = [''t0'' \<mapsto> (0, ''k'')]\<rparr>"

lemma redis_example_reach: "redis_reach redis_server (\<lambda>d. d) redis_example"
proof -
  let ?s0 = "\<lparr>rs_server = Map.empty, rs_nodes = (\<lambda>_. NewRedis), rs_owner = Map.empty\<rparr> :: redis_db redis_sys"
  have 0: "redis_reach redis_server (\<lambda>d. d) ?s0" by (rule redis_reach.init) simp
  have "redis_step redis_server (\<lambda>d. d) (LTry 0 ''k'') ?s0 redis_example"
    using redis_step.attempt [of ?s0 "''t0''" redis_server background "\<lambda>_. 0" "''k''" 10 0 "Inr True"
        "\<lparr>rl_entries = [''k'' \<mapsto> \<lparr>re_token = ''t0'', re_timer = True\<rparr>], rl_timers = [(''k'', ''t0'', 10)]\<rparr>" "[''k'' \<mapsto> ''t0'']" "\<lambda>d. d"]
    by (simp add: redis_TryLock_def redis_server_def NewRedis_def redis_example_def time_Add_def)
  with 0 show ?thesis by (rule redis_reach.step)
qed

text \<open>The same after another locker called \<^verbatim>\<open>Release\<close> for the key.\<close>

definition redis_example_release :: "redis_db redis_sys" where
  "redis_example_release =
     (case redis_Release redis_server background (\<lambda>_. 0) ''k'' (rs_nodes redis_example 1, rs_server redis_example) of
        (e, l, s) \<Rightarrow> redis_example\<lparr>rs_server := s, rs_nodes := (rs_nodes redis_example)(1 := l)\<rparr>)"

section \<open>Properties\<close>

text \<open>
  C12. Mutual exclusion with ownership: among any number of lockers that share a server,
  only one holds a key, and nothing another locker does takes it away - not its
  attempts, its releases or its timers - nor do the holder's own timers of earlier
  locks. Only the holder's release, the timer of this lock and the server's expiry end it.
\<close>

theorem redis_lock_safe:
  assumes "redis_lock_ok ops db" and "redis_reach ops db sys" and "redis_holds db sys i k tok"
  shows "(\<forall>j tok'. redis_holds db sys j k tok' \<longrightarrow> j = i \<and> tok' = tok) \<and>
    (\<forall>lab sys'. redis_step ops db lab sys sys' \<longrightarrow> lab \<notin> {LRelease i k, LTimer i k tok, LExpire} \<longrightarrow> redis_holds db sys' i k tok)"
proof -
  have inv: "redis_inv db sys" using assms(1,2) by (rule redis_reach_inv)
  show ?thesis using redis_holds_unique [OF inv assms(3)] redis_holds_kept [OF assms(1) inv assms(3)] by simp
qed

theorem redis_lock_safe_witness:
  "redis_holds (\<lambda>d. d) redis_example 0 ''k'' ''t0'' \<and> redis_holds (\<lambda>d. d) redis_example_release 0 ''k'' ''t0''"
proof -
  have h: "redis_holds (\<lambda>d. d) redis_example 0 ''k'' ''t0''" by (simp add: redis_holds_def redis_example_def)
  have st: "redis_step redis_server (\<lambda>d. d) (LRelease 1 ''k'') redis_example redis_example_release"
    unfolding redis_example_release_def
    by (cases "redis_Release redis_server background (\<lambda>_. 0) ''k'' (rs_nodes redis_example 1, rs_server redis_example)")
      (simp add: redis_step.release)
  have "redis_holds (\<lambda>d. d) redis_example_release 0 ''k'' ''t0''"
    by (rule redis_lock_safe [OF redis_server_ok redis_example_reach h, THEN conjunct2, rule_format, OF st]) simp
  with h show ?thesis ..
qed

text \<open>
  C36. The intervals with which \<^verbatim>\<open>Acquire\<close> polls start at 5 ms and never exceed 640 ms,
  whatever it is woken by.
\<close>

theorem redis_backoff_bounds:
  assumes "iv \<in> set (redis_intervals k redis_baseInterval ess)"
  shows "redis_baseInterval \<le> iv \<and> iv \<le> 640 * 10 ^ 6"
proof -
  from redis_intervals_in [OF base_step] assms obtain n where n: "iv = 5 * 10 ^ 6 * 2 ^ n" "n \<le> 7"
    unfolding backoff_steps_def by blast
  have "(2 :: int) ^ n \<le> 2 ^ 7" using n(2) by (rule power_increasing) simp
  then show ?thesis using n(1) by (simp add: redis_baseInterval_def)
qed

theorem redis_backoff_bounds_witness:
  "640 * 10 ^ 6 \<in> set (redis_intervals ''k'' redis_baseInterval [[TimerFired], [TimerFired], [TimerFired], [TimerFired], [TimerFired], [TimerFired], [TimerFired]]) \<and>
   redis_maxInterval < 640 * 10 ^ 6 \<and> redis_baseInterval \<le> 640 * 10 ^ 6"
proof -
  have m: "640 * 10 ^ 6 \<in> set (redis_intervals ''k'' redis_baseInterval [[TimerFired], [TimerFired], [TimerFired], [TimerFired], [TimerFired], [TimerFired], [TimerFired]])"
    by (simp add: redis_baseInterval_def redis_maxInterval_def)
  with redis_backoff_bounds [OF m] show ?thesis by (simp add: redis_maxInterval_def)
qed

end
