(* ===== verification/Lock_NATS.thy ===== *)
theory Lock_NATS
  imports Warp_Prelude
begin

text \<open>
  The NATS locker (src/lock/nats.go). The JetStream key-value store is the parameter
  \<open>kv_ops\<close>, with \<open>kv_ok\<close> stating what its calls do to the entries, each a value with
  the revision it was written in: \<^verbatim>\<open>Create\<close> succeeds for an absent key, and a \<^verbatim>\<open>Delete\<close>
  with \<^verbatim>\<open>LastRevision\<close> for the entry of that revision; a call that fails may have taken
  effect.

  \<^verbatim>\<open>releaseWithToken\<close> reads the entry and then deletes it. The two are separate steps of
  \<open>nats_step\<close>, which interleaves several lockers.
\<close>

section \<open>The key-value store\<close>

datatype js_error = ErrStreamNameAlreadyInUse | ErrKeyExists | ErrKeyNotFound | StreamWrongLastSequence | JsErr go_error

datatype kv_operation = KeyValuePut | KeyValueDelete | KeyValuePurge

type_synonym kv_data = "key \<Rightarrow> (string \<times> nat) option"

text \<open>An update is \<open>None\<close> for the nil entry that a watcher sends.\<close>

record 's kv_ops =
  jsCreateKeyValue :: "string \<Rightarrow> 's \<Rightarrow> js_error option \<times> 's"
  jsKeyValue :: "string \<Rightarrow> 's \<Rightarrow> js_error option \<times> 's"
  kvCreate :: "ctx \<Rightarrow> clock \<Rightarrow> key \<Rightarrow> string \<Rightarrow> 's \<Rightarrow> (js_error + nat) \<times> 's"
  kvGet :: "ctx \<Rightarrow> clock \<Rightarrow> key \<Rightarrow> 's \<Rightarrow> (js_error + string \<times> nat) \<times> 's"
  kvDelete :: "ctx \<Rightarrow> clock \<Rightarrow> key \<Rightarrow> nat \<Rightarrow> 's \<Rightarrow> js_error option \<times> 's"
  kvWatch :: "ctx \<Rightarrow> clock \<Rightarrow> key \<Rightarrow> 's \<Rightarrow> (js_error + nat) \<times> 's"
  kvUpdates :: "nat \<Rightarrow> 's \<Rightarrow> kv_operation option list"

record 's kv_view =
  kvData :: "'s \<Rightarrow> kv_data"
  kvRev :: "'s \<Rightarrow> nat"

definition same_kv :: "'s kv_view \<Rightarrow> 's \<Rightarrow> 's \<Rightarrow> bool" where
  "same_kv v s s' \<longleftrightarrow> kvData v s' = kvData v s \<and> kvRev v s \<le> kvRev v s'"

definition created :: "'s kv_view \<Rightarrow> key \<Rightarrow> string \<Rightarrow> nat \<Rightarrow> 's \<Rightarrow> 's \<Rightarrow> bool" where
  "created v k val r s s' \<longleftrightarrow>
     kvData v s k = None \<and> kvData v s' = (kvData v s)(k \<mapsto> (val, r)) \<and> kvRev v s < r \<and> r \<le> kvRev v s'"

definition deleted :: "'s kv_view \<Rightarrow> key \<Rightarrow> nat \<Rightarrow> 's \<Rightarrow> 's \<Rightarrow> bool" where
  "deleted v k r s s' \<longleftrightarrow>
     (\<exists>val. kvData v s k = Some (val, r)) \<and> kvData v s' = (kvData v s)(k := None) \<and> kvRev v s \<le> kvRev v s'"

definition create_law :: "'s kv_view \<Rightarrow> key \<Rightarrow> string \<Rightarrow> 's \<Rightarrow> (js_error + nat) \<times> 's \<Rightarrow> bool" where
  "create_law v k val s res =
     (case res of
        (Inr r, s') \<Rightarrow> created v k val r s s'
      | (Inl e, s') \<Rightarrow>
          if e = ErrKeyExists then kvData v s k \<noteq> None \<and> same_kv v s s'
          else same_kv v s s' \<or> (\<exists>r. created v k val r s s'))"

definition get_law :: "'s kv_view \<Rightarrow> key \<Rightarrow> 's \<Rightarrow> (js_error + string \<times> nat) \<times> 's \<Rightarrow> bool" where
  "get_law v k s res =
     (same_kv v s (snd res) \<and>
      (case fst res of
         Inr e \<Rightarrow> kvData v s k = Some e
       | Inl e \<Rightarrow> e = ErrKeyNotFound \<longrightarrow> kvData v s k = None))"

definition delete_law :: "'s kv_view \<Rightarrow> key \<Rightarrow> nat \<Rightarrow> 's \<Rightarrow> js_error option \<times> 's \<Rightarrow> bool" where
  "delete_law v k r s res =
     (case res of
        (None, s') \<Rightarrow> deleted v k r s s'
      | (Some e, s') \<Rightarrow> same_kv v s s' \<or> deleted v k r s s')"

definition kv_ok :: "'s kv_ops \<Rightarrow> 's kv_view \<Rightarrow> bool" where
  "kv_ok ops v \<longleftrightarrow>
     (\<forall>s k val r. kvData v s k = Some (val, r) \<longrightarrow> r \<le> kvRev v s) \<and>
     (\<forall>b s. same_kv v s (snd (jsCreateKeyValue ops b s))) \<and> (\<forall>b s. same_kv v s (snd (jsKeyValue ops b s))) \<and>
     (\<forall>ctx clk k val s. create_law v k val s (kvCreate ops ctx clk k val s)) \<and>
     (\<forall>ctx clk k s. get_law v k s (kvGet ops ctx clk k s)) \<and>
     (\<forall>ctx clk k r s. delete_law v k r s (kvDelete ops ctx clk k r s)) \<and>
     (\<forall>ctx clk k s. same_kv v s (snd (kvWatch ops ctx clk k s)))"

section \<open>The locker\<close>

record nats_entry =
  ne_token :: string
  ne_timer :: bool

record nats_locker =
  nl_bucket :: string
  nl_locks :: "key \<Rightarrow> nats_entry option"
  nl_timers :: "(key \<times> string \<times> time) list"
  nl_once :: bool
  nl_kvErr :: "js_error option"

definition NewNATS :: "string \<Rightarrow> nats_locker" where
  "NewNATS bucket = \<lparr>nl_bucket = bucket, nl_locks = Map.empty, nl_timers = [], nl_once = False, nl_kvErr = None\<rparr>"

text \<open>\<^verbatim>\<open>getKV\<close>: its work is done once, and its error is kept.\<close>

definition getKV :: "'s kv_ops \<Rightarrow> nats_locker \<times> 's \<Rightarrow> js_error option \<times> nats_locker \<times> 's" where
  "getKV ops ls =
     (let (l, s) = ls
      in if nl_once l then (nl_kvErr l, l, s)
         else case jsCreateKeyValue ops (nl_bucket l) s of
                (None, s1) \<Rightarrow> (None, l\<lparr>nl_once := True\<rparr>, s1)
              | (Some e, s1) \<Rightarrow>
                  if e = ErrStreamNameAlreadyInUse then
                    case jsKeyValue ops (nl_bucket l) s1 of
                      (e', s2) \<Rightarrow> (e', l\<lparr>nl_once := True, nl_kvErr := e'\<rparr>, s2)
                  else (Some e, l\<lparr>nl_once := True, nl_kvErr := Some e\<rparr>, s1))"

definition nats_TryLock ::
    "'s kv_ops \<Rightarrow> string \<Rightarrow> ctx \<Rightarrow> clock \<Rightarrow> key \<Rightarrow> duration \<Rightarrow> nats_locker \<times> 's \<Rightarrow> (js_error + bool) \<times> nats_locker \<times> 's" where
  "nats_TryLock ops tok ctx clk k ttl ls =
     (case getKV ops ls of
        (Some e, ls1) \<Rightarrow> (Inl e, ls1)
      | (None, l, s) \<Rightarrow>
          (case kvCreate ops ctx clk k tok s of
             (Inl e, s1) \<Rightarrow> (if e = ErrKeyExists then Inr False else Inl e, l, s1)
           | (Inr rv, s1) \<Rightarrow>
               (let l1 = (if ttl > 0 then l\<lparr>nl_timers := nl_timers l @ [(k, tok, time_Add (clk 1) ttl)]\<rparr> else l)
                in (Inr True, l1\<lparr>nl_locks := (nl_locks l1)(k \<mapsto> \<lparr>ne_token = tok, ne_timer = ttl > 0\<rparr>)\<rparr>, s1))))"

definition nats_cleanupLocal :: "key \<Rightarrow> string \<Rightarrow> nats_locker \<Rightarrow> nats_locker" where
  "nats_cleanupLocal k tok l =
     (case nl_locks l k of
        Some e \<Rightarrow>
          if ne_token e = tok
          then (if ne_timer e then l\<lparr>nl_timers := filter (\<lambda>(k', t, due). (k', t) \<noteq> (k, tok)) (nl_timers l)\<rparr> else l)
                 \<lparr>nl_locks := (nl_locks l)(k := None)\<rparr>
          else l
      | None \<Rightarrow> l)"

text \<open>
  The two parts of \<^verbatim>\<open>releaseWithToken\<close>: up to the read of the entry, which ends the call
  or gives the revision to delete, and the deletion.
\<close>

definition nats_release_get ::
    "'s kv_ops \<Rightarrow> ctx \<Rightarrow> clock \<Rightarrow> key \<Rightarrow> string \<Rightarrow> nats_locker \<times> 's \<Rightarrow> (js_error option + nat) \<times> nats_locker \<times> 's" where
  "nats_release_get ops ctx clk k tok ls =
     (case getKV ops ls of
        (Some e, ls1) \<Rightarrow> (Inl (Some e), ls1)
      | (None, l, s) \<Rightarrow>
          (case kvGet ops ctx clk k s of
             (Inl e, s1) \<Rightarrow>
               if e = ErrKeyNotFound then (Inl None, nats_cleanupLocal k tok l, s1) else (Inl (Some e), l, s1)
           | (Inr (val, rv), s1) \<Rightarrow> if val \<noteq> tok then (Inl None, l, s1) else (Inr rv, l, s1)))"

definition nats_release_delete ::
    "'s kv_ops \<Rightarrow> ctx \<Rightarrow> clock \<Rightarrow> key \<Rightarrow> string \<Rightarrow> nat \<Rightarrow> nats_locker \<times> 's \<Rightarrow> js_error option \<times> nats_locker \<times> 's" where
  "nats_release_delete ops ctx clk k tok rv ls =
     (case kvDelete ops ctx clk k rv (snd ls) of
        (Some e, s1) \<Rightarrow> (if e = StreamWrongLastSequence then None else Some e, fst ls, s1)
      | (None, s1) \<Rightarrow> (None, nats_cleanupLocal k tok (fst ls), s1))"

definition nats_releaseWithToken where
  "nats_releaseWithToken ops ctx clk k tok ls =
     (case nats_release_get ops ctx clk k tok ls of
        (Inl e, ls1) \<Rightarrow> (e, ls1)
      | (Inr rv, ls1) \<Rightarrow> nats_release_delete ops ctx (tick 1 clk) k tok rv ls1)"

definition nats_Release :: "'s kv_ops \<Rightarrow> ctx \<Rightarrow> clock \<Rightarrow> key \<Rightarrow> nats_locker \<times> 's \<Rightarrow> js_error option \<times> nats_locker \<times> 's" where
  "nats_Release ops ctx clk k ls =
     (case nl_locks (fst ls) k of
        None \<Rightarrow> (None, ls)
      | Some e \<Rightarrow> nats_releaseWithToken ops ctx clk k (ne_token e) ls)"

section \<open>Acquire\<close>

text \<open>The loop over the updates of the watcher: whether one of them ends the wait.\<close>

fun nats_wait :: "kv_operation option list \<Rightarrow> bool" where
  "nats_wait [] = False"
| "nats_wait (None # us) = nats_wait us"
| "nats_wait (Some KeyValueDelete # us) = True"
| "nats_wait (Some u # us) = nats_wait us"

text \<open>
  A round of \<^verbatim>\<open>Acquire\<close>: what others do between the failed attempt and the creation of the
  watcher, what they do afterwards, and how the wait ends if no update ends it: with a
  closed channel, with a done context, or not.
\<close>

datatype wait_end = StillOpen | WatcherClosed | WaitDone js_error

record 's nats_round =
  nr_token :: string
  nr_clock :: clock
  nr_before :: "nats_locker \<times> 's \<Rightarrow> nats_locker \<times> 's"
  nr_during :: "nats_locker \<times> 's \<Rightarrow> nats_locker \<times> 's"
  nr_end :: wait_end

fun nats_Acquire ::
    "'s kv_ops \<Rightarrow> ctx \<Rightarrow> key \<Rightarrow> duration \<Rightarrow> 's nats_round list \<Rightarrow> nats_locker \<times> 's \<Rightarrow> js_error option option \<times> nats_locker \<times> 's" where
  "nats_Acquire ops ctx k ttl [] ls = (None, ls)"
| "nats_Acquire ops ctx k ttl (r # rs) ls =
     (case nats_TryLock ops (nr_token r) ctx (nr_clock r) k ttl ls of
        (Inl e, ls1) \<Rightarrow> (Some (Some e), ls1)
      | (Inr True, ls1) \<Rightarrow> (Some None, ls1)
      | (Inr False, ls1) \<Rightarrow>
          (case getKV ops (nr_before r ls1) of
             (Some e, ls2) \<Rightarrow> (Some (Some e), ls2)
           | (None, l, s) \<Rightarrow>
               (case kvWatch ops ctx (tick 2 (nr_clock r)) k s of
                  (Inl e, s1) \<Rightarrow> (Some (Some e), l, s1)
                | (Inr w, s1) \<Rightarrow>
                    (let ls2 = nr_during r (l, s1)
                     in if nats_wait (kvUpdates ops w (snd ls2)) then nats_Acquire ops ctx k ttl rs ls2
                        else case nr_end r of
                               StillOpen \<Rightarrow> (None, ls2)
                             | WatcherClosed \<Rightarrow> nats_Acquire ops ctx k ttl rs ls2
                             | WaitDone e \<Rightarrow> (Some (Some e), ls2)))))"

section \<open>Several lockers and one store\<close>

record 's nats_sys =
  ns_server :: 's
  ns_nodes :: "nat \<Rightarrow> nats_locker"
  ns_deleting :: "(nat \<times> key \<times> string \<times> nat) list"
  ns_owner :: "string \<Rightarrow> (nat \<times> key) option"

datatype nats_label = NTry nat key | NGet nat key string | NDelete nat key string | NLoss

inductive nats_step :: "'s kv_ops \<Rightarrow> 's kv_view \<Rightarrow> nats_label \<Rightarrow> 's nats_sys \<Rightarrow> 's nats_sys \<Rightarrow> bool" for ops v where
  attempt: "ns_owner sys tok = None \<Longrightarrow> nats_TryLock ops tok ctx clk k ttl (ns_nodes sys i, ns_server sys) = (r, l, s) \<Longrightarrow>
     nats_step ops v (NTry i k) sys
       (sys\<lparr>ns_server := s, ns_nodes := (ns_nodes sys)(i := l), ns_owner := (ns_owner sys)(tok \<mapsto> (i, k))\<rparr>)"
| get: "(\<exists>e. nl_locks (ns_nodes sys i) k = Some e \<and> ne_token e = tok) \<or> (\<exists>due. (k, tok, due) \<in> set (nl_timers (ns_nodes sys i))) \<Longrightarrow>
     nats_release_get ops ctx clk k tok (ns_nodes sys i, ns_server sys) = (r, l, s) \<Longrightarrow>
     nats_step ops v (NGet i k tok) sys
       (sys\<lparr>ns_server := s, ns_nodes := (ns_nodes sys)(i := l),
            ns_deleting := (case r of Inl e \<Rightarrow> ns_deleting sys | Inr rv \<Rightarrow> (i, k, tok, rv) # ns_deleting sys)\<rparr>)"
| delete: "(i, k, tok, rv) \<in> set (ns_deleting sys) \<Longrightarrow>
     nats_release_delete ops ctx clk k tok rv (ns_nodes sys i, ns_server sys) = (e, l, s) \<Longrightarrow>
     nats_step ops v (NDelete i k tok) sys
       (sys\<lparr>ns_server := s, ns_nodes := (ns_nodes sys)(i := l), ns_deleting := remove1 (i, k, tok, rv) (ns_deleting sys)\<rparr>)"
| loss: "kvData v s \<subseteq>\<^sub>m kvData v (ns_server sys) \<Longrightarrow> kvRev v (ns_server sys) \<le> kvRev v s \<Longrightarrow>
     nats_step ops v NLoss sys (sys\<lparr>ns_server := s\<rparr>)"

inductive nats_reach :: "'s kv_ops \<Rightarrow> 's kv_view \<Rightarrow> 's nats_sys \<Rightarrow> bool" for ops v where
  init: "kvData v s = Map.empty \<Longrightarrow>
     nats_reach ops v \<lparr>ns_server = s, ns_nodes = (\<lambda>_. NewNATS bucket), ns_deleting = [], ns_owner = Map.empty\<rparr>"
| step: "nats_reach ops v sys \<Longrightarrow> nats_step ops v lab sys sys' \<Longrightarrow> nats_reach ops v sys'"

definition nats_holds :: "'s kv_view \<Rightarrow> 's nats_sys \<Rightarrow> nat \<Rightarrow> key \<Rightarrow> string \<Rightarrow> bool" where
  "nats_holds v sys i k tok \<longleftrightarrow>
     (\<exists>e. nl_locks (ns_nodes sys i) k = Some e \<and> ne_token e = tok) \<and> (\<exists>r. kvData v (ns_server sys) k = Some (tok, r))"

text \<open>
  Every token has one owner, and a pending deletion has a revision under which only its
  token was ever written.
\<close>

definition nats_inv :: "'s kv_view \<Rightarrow> 's nats_sys \<Rightarrow> bool" where
  "nats_inv v sys \<longleftrightarrow>
     (\<forall>k tok r. kvData v (ns_server sys) k = Some (tok, r) \<longrightarrow> ns_owner sys tok \<noteq> None) \<and>
     (\<forall>i k e. nl_locks (ns_nodes sys i) k = Some e \<longrightarrow> ns_owner sys (ne_token e) = Some (i, k)) \<and>
     (\<forall>i k tok due. (k, tok, due) \<in> set (nl_timers (ns_nodes sys i)) \<longrightarrow> ns_owner sys tok = Some (i, k)) \<and>
     (\<forall>i k tok rv. (i, k, tok, rv) \<in> set (ns_deleting sys) \<longrightarrow>
        ns_owner sys tok = Some (i, k) \<and> rv \<le> kvRev v (ns_server sys) \<and>
        (\<forall>tok'. kvData v (ns_server sys) k = Some (tok', rv) \<longrightarrow> tok' = tok))"

section \<open>The operations on the store and on the entries\<close>

lemma kv_okD:
  assumes "kv_ok ops v"
  shows "kvData v s k = Some (val, r) \<Longrightarrow> r \<le> kvRev v s"
    and "same_kv v s (snd (jsCreateKeyValue ops b s))" and "same_kv v s (snd (jsKeyValue ops b s))"
    and "create_law v k val s (kvCreate ops ctx clk k val s)" and "get_law v k s (kvGet ops ctx clk k s)"
    and "delete_law v k r s (kvDelete ops ctx clk k r s)"
  using assms by (simp_all add: kv_ok_def)

lemma same_kv_refl [simp]: "same_kv v s s"
  by (simp add: same_kv_def)

lemma same_kv_trans: "same_kv v a b \<Longrightarrow> same_kv v b c \<Longrightarrow> same_kv v a c"
  by (auto simp: same_kv_def)

definition same_entries :: "nats_locker \<Rightarrow> nats_locker \<Rightarrow> bool" where
  "same_entries l l' \<longleftrightarrow> nl_locks l' = nl_locks l \<and> nl_timers l' = nl_timers l"

lemma getKV_same:
  assumes "kv_ok ops v" and "getKV ops (l, s) = (e, l', s')"
  shows "same_kv v s s' \<and> same_entries l l'"
proof (cases "nl_once l")
  case False
  obtain e1 s1 where 1: "jsCreateKeyValue ops (nl_bucket l) s = (e1, s1)" by (cases "jsCreateKeyValue ops (nl_bucket l) s")
  obtain e2 s2 where 2: "jsKeyValue ops (nl_bucket l) s1 = (e2, s2)" by (cases "jsKeyValue ops (nl_bucket l) s1")
  have "same_kv v s s1" "same_kv v s1 s2"
    using kv_okD(2) [OF assms(1), of s "nl_bucket l"] kv_okD(3) [OF assms(1), of s1 "nl_bucket l"] 1 2 by simp_all
  then show ?thesis using assms(2) False 1 2 same_kv_trans
    by (auto simp: getKV_def same_entries_def split: option.splits if_splits)
qed (use assms(2) in \<open>simp add: getKV_def same_entries_def\<close>)

lemma created_mono: "created v k val r s s1 \<Longrightarrow> same_kv v s0 s \<Longrightarrow> created v k val r s0 s1"
  by (auto simp: created_def same_kv_def)

lemma nats_TryLock_cases:
  assumes ok: "kv_ok ops v" and t: "nats_TryLock ops tok ctx clk k ttl (l, s) = (r, l', s')"
  obtains (refused) "r \<noteq> Inr True" "same_entries l l'" "same_kv v s s' \<or> (\<exists>rv. created v k tok rv s s')"
  | (locked) rv where "r = Inr True" "created v k tok rv s s'"
      "nl_locks l' = (nl_locks l)(k \<mapsto> \<lparr>ne_token = tok, ne_timer = ttl > 0\<rparr>)"
      "set (nl_timers l') \<subseteq> set (nl_timers l) \<union> {(k, tok, time_Add (clk 1) ttl)}"
proof -
  obtain e l1 s1 where g: "getKV ops (l, s) = (e, l1, s1)" by (cases "getKV ops (l, s)")
  note same = getKV_same [OF ok g]
  obtain c s2 where c: "kvCreate ops ctx clk k tok s1 = (c, s2)" by (cases "kvCreate ops ctx clk k tok s1")
  have law: "create_law v k tok s1 (c, s2)" using kv_okD(4) [OF ok, of k tok s1 ctx clk] c by simp
  show thesis
  proof (cases e)
    case (Some e0)
    then show thesis using t g same by (intro refused) (auto simp: nats_TryLock_def)
  next
    case None
    show thesis
    proof (cases c)
      case (Inl e1)
      have "same_kv v s1 s2 \<or> (\<exists>rv. created v k tok rv s1 s2)" using law Inl by (auto simp: create_law_def split: if_splits)
      then have "same_kv v s s2 \<or> (\<exists>rv. created v k tok rv s s2)" using same same_kv_trans [of v s s1 s2] created_mono [of v k tok _ s1 s2 s] by blast
      then show thesis using t g same c None Inl by (intro refused) (auto simp: nats_TryLock_def split: if_splits)
    next
      case (Inr rv)
      have "created v k tok rv s s2" using law same Inr created_mono by (auto simp: create_law_def)
      then show thesis using t g same c None Inr
        by (intro locked [of rv]) (auto simp: nats_TryLock_def same_entries_def split: if_splits)
    qed
  qed
qed

lemma nats_cleanup_entries:
  "nl_locks (nats_cleanupLocal k tok l) k' =
     (if k' = k \<and> (\<exists>e. nl_locks l k = Some e \<and> ne_token e = tok) then None else nl_locks l k')"
  "set (nl_timers (nats_cleanupLocal k tok l)) \<subseteq> set (nl_timers l)"
  by (auto simp: nats_cleanupLocal_def split: option.splits if_splits)

lemma nats_release_get_cases:
  assumes ok: "kv_ok ops v" and g: "nats_release_get ops ctx clk k tok (l, s) = (r, l', s')"
  shows "same_kv v s s'" and "nl_locks l' \<subseteq>\<^sub>m nl_locks l" and "set (nl_timers l') \<subseteq> set (nl_timers l)"
    and "\<And>rv. r = Inr rv \<Longrightarrow> kvData v s' k = Some (tok, rv)"
    and "\<And>k'. kvData v s k' \<noteq> None \<Longrightarrow> nl_locks l' k' = nl_locks l k'"
proof -
  obtain e l1 s1 where kv: "getKV ops (l, s) = (e, l1, s1)" by (cases "getKV ops (l, s)")
  note same = getKV_same [OF ok kv]
  obtain c s2 where c: "kvGet ops ctx clk k s1 = (c, s2)" by (cases "kvGet ops ctx clk k s1")
  have law: "get_law v k s1 (c, s2)" using kv_okD(5) [OF ok, of k s1 ctx clk] c by simp
  have "same_kv v s s' \<and> (l' = l1 \<or> kvData v s k = None \<and> l' = nats_cleanupLocal k tok l1) \<and>
      (\<forall>rv. r = Inr rv \<longrightarrow> kvData v s' k = Some (tok, rv))"
    using g kv same law c same_kv_trans [of v s s1 s2]
    by (cases e; cases c) (auto simp: nats_release_get_def get_law_def same_kv_def split: if_splits prod.splits)
  then show "same_kv v s s'" "nl_locks l' \<subseteq>\<^sub>m nl_locks l" "set (nl_timers l') \<subseteq> set (nl_timers l)"
    "\<And>rv. r = Inr rv \<Longrightarrow> kvData v s' k = Some (tok, rv)"
    "\<And>k'. kvData v s k' \<noteq> None \<Longrightarrow> nl_locks l' k' = nl_locks l k'"
    using same by (auto simp: same_entries_def map_le_def nats_cleanup_entries dom_def split: if_splits
        dest: subsetD [OF nats_cleanup_entries(2)])
qed

lemma nats_release_delete_cases:
  assumes ok: "kv_ok ops v" and d: "nats_release_delete ops ctx clk k tok rv (l, s) = (e, l', s')"
  shows "same_kv v s s' \<or> deleted v k rv s s'" and "l' = l \<or> l' = nats_cleanupLocal k tok l"
proof -
  obtain c s2 where c: "kvDelete ops ctx clk k rv s = (c, s2)" by (cases "kvDelete ops ctx clk k rv s")
  have law: "delete_law v k rv s (c, s2)" using kv_okD(6) [OF ok, of k rv s ctx clk] c by simp
  show "same_kv v s s' \<or> deleted v k rv s s'" "l' = l \<or> l' = nats_cleanupLocal k tok l"
    using d c law by (auto simp: nats_release_delete_def delete_law_def split: option.splits)
qed

section \<open>Tokens have one owner\<close>

lemma nats_invD:
  assumes "nats_inv v sys"
  shows "nl_locks (ns_nodes sys i) k = Some e \<Longrightarrow> ns_owner sys (ne_token e) = Some (i, k)"
    and "(k, tok, due) \<in> set (nl_timers (ns_nodes sys i)) \<Longrightarrow> ns_owner sys tok = Some (i, k)"
    and "(i, k, tok, rv) \<in> set (ns_deleting sys) \<Longrightarrow> ns_owner sys tok = Some (i, k)"
    and "(i, k, tok, rv) \<in> set (ns_deleting sys) \<Longrightarrow> rv \<le> kvRev v (ns_server sys)"
    and "(i, k, tok, rv) \<in> set (ns_deleting sys) \<Longrightarrow> kvData v (ns_server sys) k = Some (tok', rv) \<Longrightarrow> tok' = tok"
    and "kvData v (ns_server sys) k = Some (tok, rv) \<Longrightarrow> ns_owner sys tok \<noteq> None"
  using assms unfolding nats_inv_def by (simp, metis, metis, metis, metis, metis)

lemma nats_invI:
  assumes "\<And>k tok r. kvData v (ns_server sys) k = Some (tok, r) \<Longrightarrow> ns_owner sys tok \<noteq> None"
    and "\<And>i k e. nl_locks (ns_nodes sys i) k = Some e \<Longrightarrow> ns_owner sys (ne_token e) = Some (i, k)"
    and "\<And>i k tok due. (k, tok, due) \<in> set (nl_timers (ns_nodes sys i)) \<Longrightarrow> ns_owner sys tok = Some (i, k)"
    and "\<And>i k tok rv. (i, k, tok, rv) \<in> set (ns_deleting sys) \<Longrightarrow>
        ns_owner sys tok = Some (i, k) \<and> rv \<le> kvRev v (ns_server sys) \<and>
        (\<forall>tok'. kvData v (ns_server sys) k = Some (tok', rv) \<longrightarrow> tok' = tok)"
  shows "nats_inv v sys"
  using assms unfolding nats_inv_def by simp

lemma map_le_SomeD: "m \<subseteq>\<^sub>m m' \<Longrightarrow> m x = Some y \<Longrightarrow> m' x = Some y"
  by (auto simp: map_le_def dom_def)

lemma nats_inv_shrink:
  assumes inv: "nats_inv v sys" and d: "kvData v s \<subseteq>\<^sub>m kvData v (ns_server sys)" and r: "kvRev v (ns_server sys) \<le> kvRev v s"
    and e: "nl_locks l \<subseteq>\<^sub>m nl_locks (ns_nodes sys i)" and t: "set (nl_timers l) \<subseteq> set (nl_timers (ns_nodes sys i))"
    and q: "\<And>j k tok rv. (j, k, tok, rv) \<in> set dl \<Longrightarrow> (j, k, tok, rv) \<in> set (ns_deleting sys) \<or>
      ns_owner sys tok = Some (j, k) \<and> rv \<le> kvRev v s \<and> (\<forall>tok'. kvData v s k = Some (tok', rv) \<longrightarrow> tok' = tok)"
  shows "nats_inv v (sys\<lparr>ns_server := s, ns_nodes := (ns_nodes sys)(i := l), ns_deleting := dl\<rparr>)"
proof (rule nats_invI)
  let ?sys = "sys\<lparr>ns_server := s, ns_nodes := (ns_nodes sys)(i := l), ns_deleting := dl\<rparr>"
  show "ns_owner ?sys tok \<noteq> None" if "kvData v (ns_server ?sys) k = Some (tok, rv)" for k tok rv
    using nats_invD(6) [OF inv map_le_SomeD [OF d]] that by simp
  show "ns_owner ?sys (ne_token en) = Some (j, k)" if "nl_locks (ns_nodes ?sys j) k = Some en" for j k en
    using nats_invD(1) [OF inv, of j k en] map_le_SomeD [OF e, of k en] that by (simp split: if_splits)
  show "ns_owner ?sys tok = Some (j, k)" if "(k, tok, due) \<in> set (nl_timers (ns_nodes ?sys j))" for j k tok due
    using nats_invD(2) [OF inv, of k tok due j] subsetD [OF t, of "(k, tok, due)"] that by (simp split: if_splits)
  show "ns_owner ?sys tok = Some (j, k) \<and> rv \<le> kvRev v (ns_server ?sys) \<and>
      (\<forall>tok'. kvData v (ns_server ?sys) k = Some (tok', rv) \<longrightarrow> tok' = tok)"
    if "(j, k, tok, rv) \<in> set (ns_deleting ?sys)" for j k tok rv
  proof (cases "(j, k, tok, rv) \<in> set (ns_deleting sys)")
    case True
    note D = nats_invD(3-5) [OF inv True]
    show ?thesis using D r map_le_SomeD [OF d] by simp
  next
    case False
    then show ?thesis using q [of j k tok rv] that by simp
  qed
qed

lemma nats_inv_try:
  assumes ok: "kv_ok ops v" and inv: "nats_inv v sys" and new: "ns_owner sys tok = None"
    and t: "nats_TryLock ops tok ctx clk k ttl (ns_nodes sys i, ns_server sys) = (r, l, s)"
  shows "nats_inv v (sys\<lparr>ns_server := s, ns_nodes := (ns_nodes sys)(i := l), ns_owner := (ns_owner sys)(tok \<mapsto> (i, k))\<rparr>)"
proof (rule nats_invI)
  let ?sys = "sys\<lparr>ns_server := s, ns_nodes := (ns_nodes sys)(i := l), ns_owner := (ns_owner sys)(tok \<mapsto> (i, k))\<rparr>"
  have d: "kvData v s = kvData v (ns_server sys) \<and> kvRev v (ns_server sys) \<le> kvRev v s \<or>
      (\<exists>rv. kvData v s = (kvData v (ns_server sys))(k \<mapsto> (tok, rv)) \<and> kvRev v (ns_server sys) < rv \<and> rv \<le> kvRev v s)"
    using ok t by (cases rule: nats_TryLock_cases) (auto simp: same_kv_def created_def)
  have e: "nl_locks l k' = nl_locks (ns_nodes sys i) k' \<or> k' = k \<and> (\<exists>en. nl_locks l k' = Some en \<and> ne_token en = tok)" for k'
    using ok t by (cases rule: nats_TryLock_cases) (auto simp: same_entries_def)
  have tm: "set (nl_timers l) \<subseteq> set (nl_timers (ns_nodes sys i)) \<union> {(k, tok, time_Add (clk 1) ttl)}"
    using ok t by (cases rule: nats_TryLock_cases) (auto simp: same_entries_def)
  show "ns_owner ?sys tok' \<noteq> None" if "kvData v (ns_server ?sys) k' = Some (tok', rv)" for k' tok' rv
    using nats_invD(6) [OF inv, of k' tok' rv] d that by (auto split: if_splits)
  show "ns_owner ?sys (ne_token en) = Some (j, k')" if "nl_locks (ns_nodes ?sys j) k' = Some en" for j k' en
    using nats_invD(1) [OF inv, of j k' en] e [of k'] new that by (auto split: if_splits)
  show "ns_owner ?sys tok' = Some (j, k')" if "(k', tok', due) \<in> set (nl_timers (ns_nodes ?sys j))" for j k' tok' due
    using nats_invD(2) [OF inv, of k' tok' due j] tm new that by (auto split: if_splits)
  show "ns_owner ?sys tok' = Some (j, k') \<and> rv \<le> kvRev v (ns_server ?sys) \<and>
      (\<forall>tok''. kvData v (ns_server ?sys) k' = Some (tok'', rv) \<longrightarrow> tok'' = tok')"
    if "(j, k', tok', rv) \<in> set (ns_deleting ?sys)" for j k' tok' rv
  proof -
    have q: "(j, k', tok', rv) \<in> set (ns_deleting sys)" using that by simp
    note D = nats_invD(3-5) [OF inv q]
    show ?thesis using D d new by (auto split: if_splits)
  qed
qed

lemma nats_step_inv:
  assumes ok: "kv_ok ops v" and inv: "nats_inv v sys" and step: "nats_step ops v lab sys sys'"
  shows "nats_inv v sys'"
  using step
proof cases
  case (attempt tok ctx clk k ttl i r l s)
  then show ?thesis using nats_inv_try [OF ok inv] by simp
next
  case (get i k tok ctx clk r l s)
  note c = nats_release_get_cases [OF ok get(4)]
  have own: "ns_owner sys tok = Some (i, k)" using get(3) nats_invD(1,2) [OF inv] by auto
  have "rv \<le> kvRev v s \<and> (\<forall>tok'. kvData v s k = Some (tok', rv) \<longrightarrow> tok' = tok)" if "r = Inr rv" for rv
    using c(4) [OF that] kv_okD(1) [OF ok, of s k] by auto
  then show ?thesis
    unfolding get(2) using own c(1-3) by (intro nats_inv_shrink [OF inv]) (auto simp: same_kv_def split: sum.splits)
next
  case (delete i k tok rv ctx clk e l s)
  note c = nats_release_delete_cases [OF ok delete(4)]
  have "kvData v s \<subseteq>\<^sub>m kvData v (ns_server sys)" "kvRev v (ns_server sys) \<le> kvRev v s"
    using c(1) by (auto simp: same_kv_def deleted_def map_le_def split: if_splits)
  moreover have "nl_locks l \<subseteq>\<^sub>m nl_locks (ns_nodes sys i)" "set (nl_timers l) \<subseteq> set (nl_timers (ns_nodes sys i))"
    using c(2) by (auto simp: map_le_def nats_cleanup_entries split: if_splits dest: subsetD [OF nats_cleanup_entries(2)])
  ultimately show ?thesis
    unfolding delete(2) by (intro nats_inv_shrink [OF inv]) (auto dest: subsetD [OF set_remove1_subset])
next
  case (loss s)
  then show ?thesis using nats_inv_shrink [OF inv, of s "ns_nodes sys 0" 0 "ns_deleting sys"] by simp
qed

lemma nats_reach_inv:
  assumes "kv_ok ops v"
  shows "nats_reach ops v sys \<Longrightarrow> nats_inv v sys"
proof (induction rule: nats_reach.induct)
  case (init s bucket)
  then show ?case by (simp add: nats_inv_def NewNATS_def)
next
  case (step sys lab sys')
  then show ?case using nats_step_inv [OF assms] by simp
qed

lemma nats_holdsD:
  assumes "nats_inv v sys" and "nats_holds v sys i k tok"
  shows "ns_owner sys tok = Some (i, k)" and "\<exists>r. kvData v (ns_server sys) k = Some (tok, r)"
  using assms(2) nats_invD(1) [OF assms(1), of i k] by (auto simp: nats_holds_def)

lemma nats_holds_kept:
  assumes ok: "kv_ok ops v" and inv: "nats_inv v sys" and h: "nats_holds v sys i k tok"
    and step: "nats_step ops v lab sys sys'" and lab: "lab \<notin> {NDelete i k tok, NLoss}"
  shows "nats_holds v sys' i k tok"
proof -
  from h obtain en r where en: "nl_locks (ns_nodes sys i) k = Some en" "ne_token en = tok" and d: "kvData v (ns_server sys) k = Some (tok, r)"
    by (auto simp: nats_holds_def)
  have own: "ns_owner sys tok = Some (i, k)" using nats_holdsD(1) [OF inv h] .
  from step show ?thesis
  proof cases
    case (attempt tok' ctx clk k' ttl j res l s)
    from ok attempt(4) show ?thesis
    proof (cases rule: nats_TryLock_cases)
      case refused
      then show ?thesis using en d unfolding nats_holds_def attempt(2) by (auto simp: same_entries_def same_kv_def created_def)
    next
      case (locked rv)
      then have "k' \<noteq> k" using d by (auto simp: created_def)
      then show ?thesis using locked en d unfolding nats_holds_def attempt(2) by (auto simp: created_def)
    qed
  next
    case (get j k' tok' ctx clk res l s)
    note c = nats_release_get_cases [OF ok get(4)]
    have "nl_locks l k = nl_locks (ns_nodes sys j) k" using c(5) [of k] d by simp
    then show ?thesis using c(1) en d unfolding nats_holds_def get(2) by (auto simp: same_kv_def)
  next
    case (delete j k' tok' rv ctx clk e l s)
    note c = nats_release_delete_cases [OF ok delete(4)]
    have ne: "tok' \<noteq> tok" if "k' = k" using that nats_invD(3) [OF inv delete(3)] own lab delete(1) by auto
    then have rv: "rv \<noteq> r" if "k' = k" using that nats_invD(5) [OF inv delete(3)] d by auto
    have "kvData v s k = Some (tok, r)" using c(1) rv d by (cases "k' = k") (auto simp: same_kv_def deleted_def)
    moreover have "j = i \<Longrightarrow> nl_locks l k = Some en" using c(2) ne en by (cases "k' = k") (auto simp: nats_cleanup_entries)
    ultimately show ?thesis using en unfolding nats_holds_def delete(2) by auto
  next
    case (loss s)
    then show ?thesis using lab by simp
  qed
qed

section \<open>A key-value store\<close>

text \<open>
  A store as the log of its writes, the latest first, where a write without a value is
  a deletion and the revision of a write is its position; a watcher gets the writes of
  its key since it was created.
\<close>

record kv_store =
  ks_log :: "(key \<times> string option) list"
  ks_watchers :: "(key \<times> nat) list"

primrec kv_find :: "key \<Rightarrow> (key \<times> string option) list \<Rightarrow> (string \<times> nat) option" where
  "kv_find k [] = None"
| "kv_find k (e # es) =
     (if fst e = k then (case snd e of None \<Rightarrow> None | Some val \<Rightarrow> Some (val, length es + 1)) else kv_find k es)"

definition kv_updates :: "nat \<Rightarrow> kv_store \<Rightarrow> kv_operation option list" where
  "kv_updates w s =
     (case ks_watchers s ! w of
        (k, start) \<Rightarrow>
          map (\<lambda>e. Some (if snd e = None then KeyValueDelete else KeyValuePut))
            (filter (\<lambda>e. fst e = k) (drop start (rev (ks_log s)))))"

definition kv_server :: "kv_store kv_ops" where
  "kv_server = \<lparr>
     jsCreateKeyValue = (\<lambda>b s. (None, s)), jsKeyValue = (\<lambda>b s. (None, s)),
     kvCreate = (\<lambda>ctx clk k val s.
       if kv_find k (ks_log s) \<noteq> None then (Inl ErrKeyExists, s)
       else (Inr (length (ks_log s) + 1), s\<lparr>ks_log := (k, Some val) # ks_log s\<rparr>)),
     kvGet = (\<lambda>ctx clk k s. (case kv_find k (ks_log s) of None \<Rightarrow> Inl ErrKeyNotFound | Some e \<Rightarrow> Inr e, s)),
     kvDelete = (\<lambda>ctx clk k r s.
       case kv_find k (ks_log s) of
         Some (val, r') \<Rightarrow> if r' = r then (None, s\<lparr>ks_log := (k, None) # ks_log s\<rparr>) else (Some StreamWrongLastSequence, s)
       | None \<Rightarrow> (Some StreamWrongLastSequence, s)),
     kvWatch = (\<lambda>ctx clk k s. (Inr (length (ks_watchers s)), s\<lparr>ks_watchers := ks_watchers s @ [(k, length (ks_log s))]\<rparr>)),
     kvUpdates = kv_updates\<rparr>"

definition kv_server_view :: "kv_store kv_view" where
  "kv_server_view = \<lparr>kvData = (\<lambda>s k. kv_find k (ks_log s)), kvRev = (\<lambda>s. length (ks_log s))\<rparr>"

lemma kv_find_rev: "kv_find k es = Some (val, r) \<Longrightarrow> r \<le> length es"
  by (induct es) (auto split: if_splits option.splits)

lemma kv_server_ok: "kv_ok kv_server kv_server_view"
  by (auto simp: kv_ok_def kv_server_def kv_server_view_def same_kv_def create_law_def created_def get_law_def delete_law_def
      deleted_def kv_find_rev fun_eq_iff not_Some_eq [symmetric] split: option.split simp del: not_Some_eq)

text \<open>The first locker holds the key; the second one's \<^verbatim>\<open>Acquire\<close> comes later.\<close>

definition nats_holder :: nats_locker where
  "nats_holder = (NewNATS ''locks'')\<lparr>nl_once := True, nl_locks := [''k'' \<mapsto> \<lparr>ne_token = ''t0'', ne_timer = False\<rparr>]\<rparr>"

definition nats_example :: "kv_store nats_sys" where
  "nats_example = \<lparr>ns_server = \<lparr>ks_log = [(''k'', Some ''t0'')], ks_watchers = []\<rparr>,
     ns_nodes = (\<lambda>_. NewNATS ''locks'')(0 := nats_holder), ns_deleting = [], ns_owner = [''t0'' \<mapsto> (0, ''k'')]\<rparr>"

lemma nats_example_reach: "nats_reach kv_server kv_server_view nats_example"
proof -
  let ?s0 = "\<lparr>ns_server = \<lparr>ks_log = [], ks_watchers = []\<rparr>, ns_nodes = (\<lambda>_. NewNATS ''locks''), ns_deleting = [],
      ns_owner = Map.empty\<rparr> :: kv_store nats_sys"
  have 0: "nats_reach kv_server kv_server_view ?s0" by (rule nats_reach.init) (simp add: kv_server_view_def fun_eq_iff)
  have "nats_step kv_server kv_server_view (NTry 0 ''k'') ?s0 nats_example"
    using nats_step.attempt [of ?s0 "''t0''" kv_server background "\<lambda>_. 0" "''k''" 0 0 "Inr True" nats_holder
        "\<lparr>ks_log = [(''k'', Some ''t0'')], ks_watchers = []\<rparr>" kv_server_view]
    by (simp add: nats_TryLock_def getKV_def kv_server_def NewNATS_def nats_holder_def nats_example_def)
  with 0 show ?thesis by (rule nats_reach.step)
qed

definition nats_example_try :: "kv_store nats_sys" where
  "nats_example_try =
     (case nats_TryLock kv_server ''t1'' background (\<lambda>_. 0) ''k'' 0 (ns_nodes nats_example 1, ns_server nats_example) of
        (r, l, s) \<Rightarrow> nats_example\<lparr>ns_server := s, ns_nodes := (ns_nodes nats_example)(1 := l),
                      ns_owner := (ns_owner nats_example)(''t1'' \<mapsto> (1, ''k''))\<rparr>)"

text \<open>A round of \<^verbatim>\<open>Acquire\<close> in which the holder releases before the watcher is there.\<close>

definition release_before_watch :: "kv_store nats_round" where
  "release_before_watch = \<lparr>nr_token = ''t1'', nr_clock = (\<lambda>_. 0),
     nr_before = (\<lambda>(l, s). (l, snd (snd (nats_Release kv_server background (\<lambda>_. 0) ''k'' (nats_holder, s))))),
     nr_during = (\<lambda>ls. ls), nr_end = StillOpen\<rparr>"

section \<open>Properties\<close>

text \<open>
  C13. Mutual exclusion with ownership for the NATS locker: only one locker holds a key,
  and no step takes it from the holder but the deletion with the holder's own token and
  the loss of the entry in the store, although a release reads the entry and deletes it
  in two steps between which others may act.
\<close>

theorem nats_lock_safe:
  assumes "kv_ok ops v" and "nats_reach ops v sys" and "nats_holds v sys i k tok"
  shows "(\<forall>j tok'. nats_holds v sys j k tok' \<longrightarrow> j = i \<and> tok' = tok) \<and>
    (\<forall>lab sys'. nats_step ops v lab sys sys' \<longrightarrow> lab \<notin> {NDelete i k tok, NLoss} \<longrightarrow> nats_holds v sys' i k tok)"
proof -
  have inv: "nats_inv v sys" using assms(1,2) by (rule nats_reach_inv)
  have "j = i \<and> tok' = tok" if "nats_holds v sys j k tok'" for j tok'
    using nats_holdsD [OF inv assms(3)] nats_holdsD [OF inv that] by auto
  then show ?thesis using nats_holds_kept [OF assms(1) inv assms(3)] by simp
qed

theorem nats_lock_safe_witness:
  "nats_holds kv_server_view nats_example 0 ''k'' ''t0'' \<and> nats_holds kv_server_view nats_example_try 0 ''k'' ''t0''"
proof -
  have h: "nats_holds kv_server_view nats_example 0 ''k'' ''t0''"
    by (simp add: nats_holds_def nats_example_def nats_holder_def kv_server_view_def)
  have n: "ns_owner nats_example ''t1'' = None" by (simp add: nats_example_def)
  have st: "nats_step kv_server kv_server_view (NTry 1 ''k'') nats_example nats_example_try"
    unfolding nats_example_try_def
    by (cases "nats_TryLock kv_server ''t1'' background (\<lambda>_. 0) ''k'' 0 (ns_nodes nats_example 1, ns_server nats_example)")
      (simp add: nats_step.attempt [OF n])
  have "nats_holds kv_server_view nats_example_try 0 ''k'' ''t0''"
    by (rule nats_lock_safe [OF kv_server_ok nats_example_reach h, THEN conjunct2, rule_format, OF st]) simp
  with h show ?thesis ..
qed


end
