(* ===== verification/Store_Redis.thy ===== *)
theory Store_Redis
  imports Warp_Store Cache_Api
begin

text \<open>
  What the program keeps in Redis: the codecs (src/cache/codec.go), the store
  (src/adapter/redis_store.go) and the cache (src/cache/redis.go).

  The client library is the parameter \<open>redis_client\<close>. \<open>redis_client_ok le client db\<close> is
  what it promises about the data \<open>db\<close> of the server: \<open>le\<close> relates the data after a call
  to what the call makes of them, which is equality where nothing expires and \<open>\<subseteq>\<^sub>m\<close>
  where entries with a TTL may be gone; a call that fails may have taken effect. An
  iteration with \<^verbatim>\<open>SCAN\<close> is described by the keys \<open>left\<close> for a cursor. A codec is a pair
  of functions; JSON and gob are codecs of the standard library, and of a value that
  one of them encodes the store assumes that it is decoded again (\<open>codec_ok\<close>).
\<close>

section \<open>Codecs\<close>

record 'v codec =
  Marshal :: "'v \<Rightarrow> go_error + byte list"
  Unmarshal :: "byte list \<Rightarrow> go_error + 'v"

definition codec_ok :: "'v codec \<Rightarrow> bool" where
  "codec_ok cd \<longleftrightarrow> (\<forall>v d. Marshal cd v = Inr d \<longrightarrow> Unmarshal cd d = Inr v)"

text \<open>
  \<^verbatim>\<open>ByteCodec\<close> for a type of values: \<open>as_bytes\<close> is the type assertion \<^verbatim>\<open>v.([]byte)\<close>, and
  \<open>of_bytes\<close> is there when the value type is \<^verbatim>\<open>[]byte\<close>.
\<close>

definition ByteCodec :: "('v \<Rightarrow> byte list option) \<Rightarrow> (byte list \<Rightarrow> 'v) option \<Rightarrow> 'v codec" where
  "ByteCodec as_bytes of_bytes = \<lparr>
     Marshal = (\<lambda>v. case as_bytes v of Some b \<Rightarrow> Inr b | None \<Rightarrow> Inl (ErrOther ''ByteCodec: value is not []byte'')),
     Unmarshal = (\<lambda>d. case of_bytes of Some f \<Rightarrow> Inr (f d) | None \<Rightarrow> Inl (ErrOther ''ByteCodec: v is not *[]byte''))\<rparr>"

lemma ByteCodec_ok: "codec_ok (ByteCodec Some (Some (\<lambda>d. d)))"
  by (simp add: codec_ok_def ByteCodec_def)

section \<open>The client\<close>

datatype redis_err = RdNil | RdClosed | RdErr go_error

datatype redis_cmd = CmdSet key "byte list" duration | CmdDel "key list"

type_synonym redis_data = "key \<Rightarrow> byte list option"

record 'r redis_client =
  rcGet :: "ctx \<Rightarrow> clock \<Rightarrow> key \<Rightarrow> 'r \<Rightarrow> (redis_err + byte list) \<times> 'r"
  rcSet :: "ctx \<Rightarrow> clock \<Rightarrow> key \<Rightarrow> byte list \<Rightarrow> duration \<Rightarrow> 'r \<Rightarrow> redis_err option \<times> 'r"
  rcDel :: "ctx \<Rightarrow> clock \<Rightarrow> key list \<Rightarrow> 'r \<Rightarrow> redis_err option \<times> 'r"
  rcScan :: "ctx \<Rightarrow> clock \<Rightarrow> u64 \<Rightarrow> string \<Rightarrow> int \<Rightarrow> 'r \<Rightarrow> (redis_err + key list \<times> u64) \<times> 'r"
  rcExec :: "ctx \<Rightarrow> clock \<Rightarrow> redis_cmd list \<Rightarrow> 'r \<Rightarrow> redis_err option \<times> 'r"

fun run_cmd :: "redis_cmd \<Rightarrow> redis_data \<Rightarrow> redis_data" where
  "run_cmd (CmdSet k d ttl) m = m(k \<mapsto> d)"
| "run_cmd (CmdDel ks) m = (\<lambda>k. if k \<in> set ks then None else m k)"

text \<open>The outcome of a write that makes \<open>m\<close> of the data.\<close>

definition write_law ::
    "(redis_data \<Rightarrow> redis_data \<Rightarrow> bool) \<Rightarrow> ('r \<Rightarrow> redis_data) \<Rightarrow> 'r \<Rightarrow> redis_data \<Rightarrow> redis_err option \<times> 'r \<Rightarrow> bool" where
  "write_law le db s m res =
     (case fst res of
        None \<Rightarrow> le (db (snd res)) m
      | Some e \<Rightarrow> le (db (snd res)) (db s) \<or> le (db (snd res)) m)"

definition read_law ::
    "(redis_data \<Rightarrow> redis_data \<Rightarrow> bool) \<Rightarrow> ('r \<Rightarrow> redis_data) \<Rightarrow> 'r \<Rightarrow> key \<Rightarrow> (redis_err + byte list) \<times> 'r \<Rightarrow> bool" where
  "read_law le db s k res =
     (le (db (snd res)) (db s) \<and>
      (case fst res of
         Inr d \<Rightarrow> db s k = Some d
       | Inl e \<Rightarrow> e = RdNil \<longrightarrow> db (snd res) k = None))"

definition redis_client_ok :: "(redis_data \<Rightarrow> redis_data \<Rightarrow> bool) \<Rightarrow> 'r redis_client \<Rightarrow> ('r \<Rightarrow> redis_data) \<Rightarrow> bool" where
  "redis_client_ok le client db \<longleftrightarrow>
     (\<forall>ctx clk k s. read_law le db s k (rcGet client ctx clk k s)) \<and>
     (\<forall>ctx clk k d ttl s. write_law le db s ((db s)(k \<mapsto> d)) (rcSet client ctx clk k d ttl s)) \<and>
     (\<forall>ctx clk ks s. write_law le db s (run_cmd (CmdDel ks) (db s)) (rcDel client ctx clk ks s)) \<and>
     (\<forall>ctx clk cs s. write_law le db s (fold run_cmd cs (db s)) (rcExec client ctx clk cs s))"

text \<open>
  \<^verbatim>\<open>SCAN\<close>: it changes nothing, and the keys left for a cursor are those of the answer and
  those left for the next cursor, until that is 0; all keys are left at the start.
\<close>

definition scan_ok :: "'r redis_client \<Rightarrow> ('r \<Rightarrow> redis_data) \<Rightarrow> ('r \<Rightarrow> u64 \<Rightarrow> key set) \<Rightarrow> bool" where
  "scan_ok client db left \<longleftrightarrow>
     (\<forall>ctx clk c n s. db (snd (rcScan client ctx clk c ''*'' n s)) = db s) \<and>
     (\<forall>ctx clk c n s ks next s'. rcScan client ctx clk c ''*'' n s = (Inr (ks, next), s') \<longrightarrow>
        left s c = set ks \<union> (if next = 0 then {} else left s' next)) \<and>
     (\<forall>s. left s 0 = dom (db s))"

text \<open>A call under a context that is done fails.\<close>

definition scan_obeys_ctx :: "'r redis_client \<Rightarrow> bool" where
  "scan_obeys_ctx client \<longleftrightarrow>
     (\<forall>ctx clk c p n s. ctx (clk 0) \<noteq> None \<longrightarrow> (\<exists>e. fst (rcScan client ctx clk c p n s) = Inl e))"

section \<open>The errors that are reported\<close>

definition ctx_error :: "go_error \<Rightarrow> go_error" where
  "ctx_error e = (if e = DeadlineExceeded then ErrTimeout else e)"

fun client_error :: "redis_err \<Rightarrow> go_error" where
  "client_error (RdErr e) = (if e = DeadlineExceeded then ErrTimeout else e)"
| "client_error RdClosed = ErrConnectionClosed"
| "client_error RdNil = ErrOther ''redis: nil''"

section \<open>The store\<close>

record 'v redis_config =
  rs_timeout :: duration
  rs_codec :: "'v codec"

type_synonym 'v redis_option = "'v redis_config \<Rightarrow> 'v redis_config"

definition defaultRedisOpTimeout :: duration where
  "defaultRedisOpTimeout = 5 * 10 ^ 9"

definition WithTimeout :: "duration \<Rightarrow> 'v redis_option" where
  "WithTimeout d o1 = o1\<lparr>rs_timeout := d\<rparr>"

definition WithCodec :: "'v codec \<Rightarrow> 'v redis_option" where
  "WithCodec c o1 = o1\<lparr>rs_codec := c\<rparr>"

text \<open>\<open>gob\<close> is the codec of the standard library's encoding/gob for the value type.\<close>

definition NewRedisStore :: "'v codec \<Rightarrow> 'v redis_option list \<Rightarrow> 'v redis_config" where
  "NewRedisStore gob opts = fold (\<lambda>opt o1. opt o1) opts \<lparr>rs_timeout = defaultRedisOpTimeout, rs_codec = gob\<rparr>"

definition redis_Get ::
    "'r redis_client \<Rightarrow> duration \<Rightarrow> 'v codec \<Rightarrow> ctx \<Rightarrow> clock \<Rightarrow> key \<Rightarrow> 'r \<Rightarrow> (go_error + 'v option) \<times> 'r" where
  "redis_Get client timeout cd ctx clk k s =
     (case ctx (clk 0) of
        Some e \<Rightarrow> (Inl (ctx_error e), s)
      | None \<Rightarrow>
          (let cctx = with_timeout ctx (clk 1) timeout
           in case rcGet client cctx (tick 3 clk) k s of
                (Inl e, s1) \<Rightarrow> if e = RdNil then (Inr None, s1) else (Inl (client_error e), s1)
              | (Inr d, s1) \<Rightarrow>
                  (case cctx (clk 2) of
                     Some e \<Rightarrow> (Inl (ctx_error e), s1)
                   | None \<Rightarrow>
                       (case Unmarshal cd d of
                          Inl e \<Rightarrow> (Inl e, s1)
                        | Inr v \<Rightarrow> (Inr (Some v), s1)))))"

definition redis_Set ::
    "'r redis_client \<Rightarrow> duration \<Rightarrow> 'v codec \<Rightarrow> ctx \<Rightarrow> clock \<Rightarrow> key \<Rightarrow> 'v \<Rightarrow> duration \<Rightarrow> 'r \<Rightarrow> go_error option \<times> 'r" where
  "redis_Set client timeout cd ctx clk k v ttl s =
     (case ctx (clk 0) of
        Some e \<Rightarrow> (Some (ctx_error e), s)
      | None \<Rightarrow>
          (case Marshal cd v of
             Inl e \<Rightarrow> (Some e, s)
           | Inr d \<Rightarrow>
               (case rcSet client (with_timeout ctx (clk 1) timeout) (tick 2 clk) k d ttl s of
                  (Some e, s1) \<Rightarrow> (Some (client_error e), s1)
                | (None, s1) \<Rightarrow> (None, s1))))"

definition rstore_Get where
  "rstore_Get client cfg ctx clk k s = redis_Get client (rs_timeout cfg) (rs_codec cfg) ctx clk k s"

definition rstore_Set where
  "rstore_Set client cfg ctx clk k v s = redis_Set client (rs_timeout cfg) (rs_codec cfg) ctx clk k v 0 s"

text \<open>The loop of \<^verbatim>\<open>Keys\<close>; the \<open>i\<close>-th call of \<^verbatim>\<open>Scan\<close> begins at \<open>clk i\<close>. \<open>None\<close> is a loop that does not end.\<close>

partial_function (option) scan_loop ::
    "'r redis_client \<Rightarrow> ctx \<Rightarrow> clock \<Rightarrow> nat \<Rightarrow> u64 \<Rightarrow> key list \<Rightarrow> 'r \<Rightarrow> ((go_error + key list) \<times> 'r) option" where
  "scan_loop client cctx clk i cursor keys s =
     (case rcScan client cctx (tick i clk) cursor ''*'' 100 s of
        (Inl e, s1) \<Rightarrow> Some (Inl (client_error e), s1)
      | (Inr (ks, next), s1) \<Rightarrow>
          if next = 0 then Some (Inr (keys @ ks), s1)
          else scan_loop client cctx clk (Suc i) next (keys @ ks) s1)"

definition rstore_Keys ::
    "'r redis_client \<Rightarrow> 'v redis_config \<Rightarrow> ctx \<Rightarrow> clock \<Rightarrow> 'r \<Rightarrow> ((go_error + key list) \<times> 'r) option" where
  "rstore_Keys client cfg ctx clk s =
     (case ctx (clk 0) of
        Some e \<Rightarrow> Some (Inl (ctx_error e), s)
      | None \<Rightarrow>
          (let cctx = with_timeout ctx (clk 1) (rs_timeout cfg)
           in case scan_loop client cctx (tick 3 clk) 0 0 [] s of
                None \<Rightarrow> None
              | Some (Inl e, s1) \<Rightarrow> Some (Inl e, s1)
              | Some (Inr ks, s1) \<Rightarrow>
                  (case cctx (clk 2) of Some e \<Rightarrow> Some (Inl (ctx_error e), s1) | None \<Rightarrow> Some (Inr ks, s1))))"

text \<open>The batch: its sets are written in the order of the map, then the deletions.\<close>

fun marshal_sets :: "'v codec \<Rightarrow> (key \<times> 'v) list \<Rightarrow> go_error + redis_cmd list" where
  "marshal_sets cd [] = Inr []"
| "marshal_sets cd ((k, v) # kvs) =
     (case Marshal cd v of
        Inl e \<Rightarrow> Inl e
      | Inr d \<Rightarrow> (case marshal_sets cd kvs of Inl e \<Rightarrow> Inl e | Inr cs \<Rightarrow> Inr (CmdSet k d 0 # cs)))"

definition redisBatch_Commit ::
    "'r redis_client \<Rightarrow> 'v redis_config \<Rightarrow> ctx \<Rightarrow> clock \<Rightarrow> 'v batch \<Rightarrow> 'r \<Rightarrow> go_error option \<times> 'r" where
  "redisBatch_Commit client cfg ctx clk b s =
     (case ctx (clk 0) of
        Some e \<Rightarrow> (Some (ctx_error e), s)
      | None \<Rightarrow>
          (case marshal_sets (rs_codec cfg) (sets b) of
             Inl e \<Rightarrow> (Some e, s)
           | Inr cs \<Rightarrow>
               (let cmds = cs @ (if length (deletes b) > 0 then [CmdDel (deletes b)] else [])
                in case rcExec client (with_timeout ctx (clk 1) (rs_timeout cfg)) (tick 2 clk) cmds s of
                     (Some e, s1) \<Rightarrow> (Some (client_error e), s1)
                   | (None, s1) \<Rightarrow> (None, s1))))"

definition redisStore_Batch :: "ctx \<Rightarrow> clock \<Rightarrow> go_error + 'v batch" where
  "redisStore_Batch ctx clk = Inr \<lparr>sets = [], deletes = []\<rparr>"

definition redisBatch_Set :: "ctx \<Rightarrow> clock \<Rightarrow> key \<Rightarrow> 'v \<Rightarrow> 'v batch \<Rightarrow> go_error option \<times> 'v batch" where
  "redisBatch_Set ctx clk k v b = (None, b\<lparr>sets := gm_put (sets b) k v\<rparr>)"

definition redisBatch_Delete :: "ctx \<Rightarrow> clock \<Rightarrow> key \<Rightarrow> 'v batch \<Rightarrow> go_error option \<times> 'v batch" where
  "redisBatch_Delete ctx clk k b = (None, b\<lparr>deletes := deletes b @ [k]\<rparr>)"

text \<open>
  The store behind the interface. A call of \<^verbatim>\<open>Keys\<close> that never returned would have no
  result; \<open>scan_loop_returns\<close> says that there is none.
\<close>

definition redis_store_ops :: "'r redis_client \<Rightarrow> 'v redis_config \<Rightarrow> ('r, 'v, 'v batch) store_ops" where
  "redis_store_ops client cfg = \<lparr>
     stGet = rstore_Get client cfg, stSet = rstore_Set client cfg,
     stKeys = (\<lambda>ctx clk s. case rstore_Keys client cfg ctx clk s of Some r \<Rightarrow> r | None \<Rightarrow> (Inl ErrTimeout, s)),
     stBatch = Some redisStore_Batch, bSet = redisBatch_Set, bDelete = redisBatch_Delete,
     bCommit = redisBatch_Commit client cfg\<rparr>"

section \<open>The cache\<close>

definition redisCacheTimeout :: duration where
  "redisCacheTimeout = 5 * 10 ^ 9"

text \<open>\<open>json\<close> is the codec of encoding/json, the default.\<close>

definition NewRedisCache :: "'v codec \<Rightarrow> 'v codec option \<Rightarrow> 'v codec" where
  "NewRedisCache json cd = (case cd of None \<Rightarrow> json | Some c \<Rightarrow> c)"

definition rcache_Get where
  "rcache_Get client cd ctx clk k s = redis_Get client redisCacheTimeout cd ctx clk k s"

definition rcache_Set where
  "rcache_Set client cd ctx clk k v ttl s = redis_Set client redisCacheTimeout cd ctx clk k v ttl s"

definition rcache_Invalidate :: "'r redis_client \<Rightarrow> ctx \<Rightarrow> clock \<Rightarrow> key \<Rightarrow> 'r \<Rightarrow> go_error option \<times> 'r" where
  "rcache_Invalidate client ctx clk k s =
     (case ctx (clk 0) of
        Some e \<Rightarrow> (Some (ctx_error e), s)
      | None \<Rightarrow>
          (case rcDel client (with_timeout ctx (clk 1) redisCacheTimeout) (tick 2 clk) [k] s of
             (Some e, s1) \<Rightarrow> (Some (client_error e), s1)
           | (None, s1) \<Rightarrow> (None, s1)))"

definition redis_cache_ops :: "'r redis_client \<Rightarrow> 'v codec \<Rightarrow> ('r, 'v) cache_ops" where
  "redis_cache_ops client cd = \<lparr>cGet = rcache_Get client cd, cSet = rcache_Set client cd, cInvalidate = rcache_Invalidate client\<rparr>"

section \<open>What is stored\<close>

definition decoded :: "'v codec \<Rightarrow> redis_data \<Rightarrow> key \<Rightarrow> 'v option" where
  "decoded cd m k = (case m k of None \<Rightarrow> None | Some d \<Rightarrow> (case Unmarshal cd d of Inl e \<Rightarrow> None | Inr v \<Rightarrow> Some v))"

text \<open>Everything the server has is decoded by the codec.\<close>

definition decodable :: "'v codec \<Rightarrow> redis_data \<Rightarrow> bool" where
  "decodable cd m \<longleftrightarrow> (\<forall>k d. m k = Some d \<longrightarrow> (\<exists>v. Unmarshal cd d = Inr v))"

lemma decoded_simps [simp]:
  "codec_ok cd \<Longrightarrow> Marshal cd v = Inr d \<Longrightarrow> decoded cd (m(k \<mapsto> d)) = (decoded cd m)(k \<mapsto> v)"
  "decoded cd (m(k := None)) = (decoded cd m)(k := None)"
  "decoded cd (run_cmd (CmdDel ks) m) = (\<lambda>k. if k \<in> set ks then None else decoded cd m k)"
  by (auto simp: decoded_def codec_ok_def fun_eq_iff)

lemma decodable_simps:
  "codec_ok cd \<Longrightarrow> Marshal cd v = Inr d \<Longrightarrow> decodable cd m \<Longrightarrow> decodable cd (m(k \<mapsto> d))"
  "decodable cd m \<Longrightarrow> decodable cd (run_cmd (CmdDel ks) m)"
  "decodable cd m \<Longrightarrow> m' \<subseteq>\<^sub>m m \<Longrightarrow> decodable cd m'"
  by (auto simp: decodable_def codec_ok_def map_le_def dom_def split: if_splits)

lemma decoded_mono: "m \<subseteq>\<^sub>m m' \<Longrightarrow> decoded cd m \<subseteq>\<^sub>m decoded cd m'"
  by (intro map_leI) (auto simp: decoded_def split: option.splits dest: map_leD)

lemma decoded_dom: "decodable cd m \<Longrightarrow> dom (decoded cd m) = dom m"
  by (auto simp: decoded_def decodable_def split: option.splits sum.splits) (metis sum.distinct(1))

lemma redis_client_okD:
  assumes "redis_client_ok le client db"
  shows "read_law le db s k (rcGet client ctx clk k s)"
    and "write_law le db s ((db s)(k \<mapsto> d)) (rcSet client ctx clk k d ttl s)"
    and "write_law le db s (run_cmd (CmdDel ks) (db s)) (rcDel client ctx clk ks s)"
    and "write_law le db s (fold run_cmd cs (db s)) (rcExec client ctx clk cs s)"
  using assms unfolding redis_client_ok_def by (blast, blast, blast, blast)

text \<open>The three calls, under either relation.\<close>

lemma redis_Get_law:
  assumes ok: "redis_client_ok le client db" and refl: "\<And>m. le m m"
    and g: "redis_Get client timeout cd ctx clk k s = (r, s')"
  shows "le (db s') (db s)" and "r = Inr (Some v) \<Longrightarrow> decoded cd (db s) k = Some v"
    and "r = Inr None \<Longrightarrow> db s' k = None"
proof -
  obtain q s1 where q: "rcGet client (with_timeout ctx (clk 1) timeout) (tick 3 clk) k s = (q, s1)"
    by (cases "rcGet client (with_timeout ctx (clk 1) timeout) (tick 3 clk) k s")
  have law: "read_law le db s k (q, s1)" using redis_client_okD(1) [OF ok] q by metis
  show "le (db s') (db s)" "r = Inr (Some v) \<Longrightarrow> decoded cd (db s) k = Some v" "r = Inr None \<Longrightarrow> db s' k = None"
    using g q law refl
    by (auto simp: redis_Get_def read_law_def decoded_def Let_def split: option.splits sum.splits if_splits)
qed

lemma redis_Set_law:
  assumes ok: "redis_client_ok le client db" and refl: "\<And>m. le m m"
    and g: "redis_Set client timeout cd ctx clk k v ttl s = (e, s')"
  shows "(e \<noteq> None \<and> le (db s') (db s)) \<or> (\<exists>d. Marshal cd v = Inr d \<and> le (db s') ((db s)(k \<mapsto> d)))"
proof -
  have law: "write_law le db s ((db s)(k \<mapsto> d)) (rcSet client c cl k d ttl s)" for d c cl
    using redis_client_okD(2) [OF ok] by simp
  show ?thesis
  proof (cases "ctx (clk 0)")
    case (Some e0)
    then show ?thesis using g refl by (auto simp: redis_Set_def)
  next
    case None
    show ?thesis
    proof (cases "Marshal cd v")
      case (Inl e0)
      then show ?thesis using g refl None by (auto simp: redis_Set_def)
    next
      case (Inr d)
      obtain q s1 where q: "rcSet client (with_timeout ctx (clk 1) timeout) (tick 2 clk) k d ttl s = (q, s1)"
        by (cases "rcSet client (with_timeout ctx (clk 1) timeout) (tick 2 clk) k d ttl s")
      show ?thesis using g None Inr q law [of d "with_timeout ctx (clk 1) timeout" "tick 2 clk"]
        by (auto simp: redis_Set_def write_law_def split: option.splits)
    qed
  qed
qed

section \<open>Keys\<close>

lemma scan_loop_returns:
  assumes "scan_obeys_ctx client"
  shows "cctx (clk (i + n)) \<noteq> None \<Longrightarrow> \<exists>r. scan_loop client cctx clk i cursor keys s = Some r"
proof (induct n arbitrary: i cursor keys s)
  case 0
  obtain q s1 where q: "rcScan client cctx (tick i clk) cursor ''*'' 100 s = (q, s1)"
    by (cases "rcScan client cctx (tick i clk) cursor ''*'' 100 s")
  have "\<exists>e. fst (rcScan client cctx (tick i clk) cursor ''*'' 100 s) = Inl e"
    using assms 0 unfolding scan_obeys_ctx_def by simp
  then show ?case using q by (subst scan_loop.simps) auto
next
  case (Suc n)
  obtain q s1 where q: "rcScan client cctx (tick i clk) cursor ''*'' 100 s = (q, s1)"
    by (cases "rcScan client cctx (tick i clk) cursor ''*'' 100 s")
  have "\<exists>r. scan_loop client cctx clk (Suc i) c ks s1 = Some r" for c ks
    using Suc.hyps [of "Suc i"] Suc.prems by simp
  then show ?case using q by (subst scan_loop.simps) (auto split: sum.split)
qed

lemma scan_loop_keys:
  assumes "scan_ok client db left" and loop: "scan_loop client cctx clk i cursor keys s = Some y"
  shows "db (snd y) = db s \<and> (\<forall>ks. fst y = Inr ks \<longrightarrow> set ks = set keys \<union> left s cursor)"
proof -
  let ?P = "\<lambda>client cursor keys s y. scan_ok client db left \<longrightarrow>
    db (snd y) = db s \<and> (\<forall>ks. fst y = Inr ks \<longrightarrow> set ks = set keys \<union> left s cursor)"
  have "?P client cursor keys s y"
  proof (rule scan_loop.raw_induct [where P = "\<lambda>client cctx clk i cursor keys s y. ?P client cursor keys s y", OF _ loop])
    fix f client cctx clk i cursor keys s y
    assume ih: "\<And>client cctx clk i cursor keys s y. f client cctx clk i cursor keys s = Some y \<Longrightarrow> ?P client cursor keys s y"
      and body: "(case rcScan client cctx (tick i clk) cursor ''*'' 100 s of
        (Inl e, s1) \<Rightarrow> Some (Inl (client_error e), s1)
      | (Inr (ks, next), s1) \<Rightarrow>
          if next = 0 then Some (Inr (keys @ ks), s1) else f client cctx clk (Suc i) next (keys @ ks) s1) = Some y"
    show "?P client cursor keys s y"
    proof
      assume ok: "scan_ok client db left"
      obtain q s1 where q: "rcScan client cctx (tick i clk) cursor ''*'' 100 s = (q, s1)"
        by (cases "rcScan client cctx (tick i clk) cursor ''*'' 100 s")
      have db1: "db s1 = db s" using ok q unfolding scan_ok_def by (metis snd_conv)
      show "db (snd y) = db s \<and> (\<forall>ks. fst y = Inr ks \<longrightarrow> set ks = set keys \<union> left s cursor)"
      proof (cases q)
        case (Inl e)
        then show ?thesis using body q db1 by auto
      next
        case (Inr p)
        obtain ks nx where p: "p = (ks, nx)" by (cases p)
        have l: "left s cursor = set ks \<union> (if nx = 0 then {} else left s1 nx)"
          using ok q unfolding scan_ok_def Inr p by blast
        show ?thesis
        proof (cases "nx = 0")
          case True
          then show ?thesis using body q db1 l Inr p by auto
        next
          case False
          then have "f client cctx clk (Suc i) nx (keys @ ks) s1 = Some y" using body q Inr p by simp
          from ih [OF this] show ?thesis using ok db1 l False by auto
        qed
      qed
    qed
  qed
  with assms(1) show ?thesis by simp
qed

lemma rstore_Keys_law:
  assumes ok: "scan_ok client db left" and g: "rstore_Keys client cfg ctx clk s = Some (r, s')"
  shows "db s' = db s" and "r = Inr ks \<Longrightarrow> set ks = dom (db s)"
proof -
  have "db s' = db s \<and> (\<forall>ks. r = Inr ks \<longrightarrow> set ks = dom (db s))"
  proof (cases "ctx (clk 0)")
    case (Some e)
    then show ?thesis using g by (auto simp: rstore_Keys_def)
  next
    case None
    define cctx where "cctx = with_timeout ctx (clk 1) (rs_timeout cfg)"
    have l0: "left s 0 = dom (db s)" using ok by (simp add: scan_ok_def)
    show ?thesis
    proof (cases "scan_loop client cctx (tick 3 clk) 0 0 [] s")
      case None
      then show ?thesis using g \<open>ctx (clk 0) = None\<close> by (simp add: rstore_Keys_def cctx_def Let_def)
    next
      case (Some y)
      from scan_loop_keys [OF ok Some] l0
      show ?thesis using g Some \<open>ctx (clk 0) = None\<close>
        by (cases y; cases "fst y"; cases "cctx (clk 2)") (auto simp: rstore_Keys_def cctx_def Let_def)
    qed
  qed
  then show "db s' = db s" "r = Inr ks \<Longrightarrow> set ks = dom (db s)" by auto
qed

section \<open>Batches\<close>

lemma marshal_sets_effect:
  assumes ok: "codec_ok cd" and "marshal_sets cd kvs = Inr cs" and "gm_ok kvs"
  shows "decoded cd (fold run_cmd cs m) = decoded cd m ++ map_of kvs \<and> (decodable cd m \<longrightarrow> decodable cd (fold run_cmd cs m))"
  using assms(2,3)
proof (induct kvs arbitrary: cs m)
  case (Cons kv kvs)
  obtain k v where kv: "kv = (k, v)" by (cases kv)
  from Cons.prems(1) obtain d cs1 where d: "Marshal cd v = Inr d" "marshal_sets cd kvs = Inr cs1" "cs = CmdSet k d 0 # cs1"
    by (auto simp: kv split: sum.splits)
  have dis: "k \<notin> set (gm_keys kvs)" "gm_ok kvs" using Cons.prems(2) by (auto simp: kv)
  note ih = Cons.hyps [OF d(2) dis(2), of "m(k \<mapsto> d)"]
  have "(decoded cd m)(k \<mapsto> v) ++ map_of kvs = decoded cd m ++ map_of (kv # kvs)"
    using dis(1) by (auto simp: kv fun_eq_iff map_add_def gm_get_None_iff simp del: set_map split: option.splits dest: gm_get_in_keys)
  moreover have "fold run_cmd cs m = fold run_cmd cs1 (m(k \<mapsto> d))" by (simp add: d(3))
  ultimately show ?case using ih decodable_simps(1) [OF ok d(1), of m k] unfolding decoded_simps(1) [OF ok d(1)] by metis
qed simp

lemma redis_store_contract:
  assumes ok: "redis_client_ok (=) client db" and sc: "scan_ok client db left" and cd: "codec_ok (rs_codec cfg)"
  shows "store_contract (redis_store_ops client cfg) (\<lambda>s. decoded (rs_codec cfg) (db s)) (\<lambda>s. decodable (rs_codec cfg) (db s))"
proof (unfold_locales, goal_cases)
  case (1 s ctx clk k r s')
  then have g: "redis_Get client (rs_timeout cfg) (rs_codec cfg) ctx clk k s = (Inr r, s')"
    by (simp add: redis_store_ops_def rstore_Get_def)
  note l = redis_Get_law [OF ok refl g]
  show ?case
  proof (cases r)
    case None
    then show ?thesis using l(1) l(3) by (simp add: decoded_def)
  next
    case (Some v)
    then show ?thesis using l(2) [of v] by simp
  qed
next
  case (2 s ctx clk k q s')
  then have g: "redis_Get client (rs_timeout cfg) (rs_codec cfg) ctx clk k s = (q, s')"
    by (simp add: redis_store_ops_def rstore_Get_def)
  show ?case using redis_Get_law(1) [OF ok refl g] 2 by simp
next
  case (3 s ctx clk k v s')
  then have g: "redis_Set client (rs_timeout cfg) (rs_codec cfg) ctx clk k v 0 s = (None, s')"
    by (simp add: redis_store_ops_def rstore_Set_def)
  from redis_Set_law [OF ok refl g] show ?case using cd by auto
next
  case (4 s ctx clk k v e s')
  then have g: "redis_Set client (rs_timeout cfg) (rs_codec cfg) ctx clk k v 0 s = (Some e, s')"
    by (simp add: redis_store_ops_def rstore_Set_def)
  from redis_Set_law [OF ok refl g] show ?case using cd by auto
next
  case (5 s ctx clk k v e s')
  then have g: "redis_Set client (rs_timeout cfg) (rs_codec cfg) ctx clk k v 0 s = (e, s')"
    by (simp add: redis_store_ops_def rstore_Set_def)
  from redis_Set_law [OF ok refl g] show ?case using cd 5 decodable_simps(1) by auto
next
  case (6 s ctx clk ks s')
  then have "rstore_Keys client cfg ctx clk s = Some (Inr ks, s')" by (simp add: redis_store_ops_def split: option.splits)
  from rstore_Keys_law(2) [OF sc this refl] show ?case using 6 by (simp add: decoded_dom)
next
  case (7 s ctx clk p s')
  then show ?case using rstore_Keys_law(1) [OF sc, of cfg ctx clk s]
    by (cases "rstore_Keys client cfg ctx clk s") (auto simp: redis_store_ops_def)
qed

lemma redis_batch_store:
  assumes ok: "redis_client_ok (=) client db" and sc: "scan_ok client db left" and cd: "codec_ok (rs_codec cfg)"
  shows "batch_store (redis_store_ops client cfg) (\<lambda>s. decoded (rs_codec cfg) (db s)) (\<lambda>s. decodable (rs_codec cfg) (db s))
    (\<lambda>b k. gm_get (sets b) k) (\<lambda>b. set (deletes b)) (\<lambda>b. gm_ok (sets b))"
  unfolding batch_store_def
proof (intro conjI redis_store_contract [OF ok sc cd], unfold_locales, goal_cases)
  case (1 mk ctx clk b)
  then show ?case by (auto simp: redis_store_ops_def redisStore_Batch_def)
next
  case (2 b ctx clk k v b')
  then show ?case by (auto simp: redis_store_ops_def redisBatch_Set_def fun_eq_iff)
next
  case (3 b ctx clk k b')
  then show ?case by (auto simp: redis_store_ops_def redisBatch_Delete_def)
next
  case (4 s b ctx clk s')
  let ?cd = "rs_codec cfg"
  from 4(4) obtain cs where cs: "marshal_sets ?cd (sets b) = Inr cs" and c: "ctx (clk 0) = None"
    by (auto simp: redis_store_ops_def redisBatch_Commit_def split: option.splits sum.splits)
  define cmds where "cmds = cs @ (if length (deletes b) > 0 then [CmdDel (deletes b)] else [])"
  have "rcExec client (with_timeout ctx (clk 1) (rs_timeout cfg)) (tick 2 clk) cmds s = (None, s')"
    using 4(4) cs c by (auto simp: redis_store_ops_def redisBatch_Commit_def cmds_def Let_def split: option.splits prod.splits)
  then have s': "db s' = fold run_cmd cmds (db s)"
    using redis_client_okD(4) [OF ok, of s cmds "with_timeout ctx (clk 1) (rs_timeout cfg)" "tick 2 clk"] by (simp add: write_law_def)
  have f: "fold run_cmd cmds (db s) = run_cmd (CmdDel (deletes b)) (fold run_cmd cs (db s))"
    by (cases "deletes b") (auto simp: cmds_def)
  note e = marshal_sets_effect [OF cd cs 4(2), of "db s"]
  have "decodable ?cd (db s')" unfolding s' f using e 4(1) decodable_simps(2) by blast
  moreover have "decoded ?cd (db s') = (\<lambda>k. if k \<in> set (deletes b) then None else decoded ?cd (db s) k) ++ (\<lambda>k. gm_get (sets b) k)"
    unfolding s' f decoded_simps(3) conjunct1 [OF e] using 4(3) by (auto simp: fun_eq_iff map_add_def split: option.splits)
  ultimately show ?case by simp
qed

lemma redis_cache_contract:
  assumes ok: "redis_client_ok (\<subseteq>\<^sub>m) client db" and cd: "codec_ok cd"
  shows "cache_view (redis_cache_ops client cd) (\<lambda>s. decoded cd (db s)) (\<lambda>s. decodable cd (db s))"
proof -
  note get = redis_Get_law [OF ok map_le_refl] and set = redis_Set_law [OF ok map_le_refl]
  have set_le: "(e \<noteq> None \<and> decoded cd (db s') \<subseteq>\<^sub>m decoded cd (db s)) \<or> decoded cd (db s') \<subseteq>\<^sub>m (decoded cd (db s))(k \<mapsto> v)"
    if "redis_Set client redisCacheTimeout cd ctx clk k v ttl s = (e, s')" for ctx clk k v ttl s e s'
    using set [OF that] decoded_mono [where cd = cd] cd by (metis decoded_simps(1))
  have del: "decoded cd (db s') \<subseteq>\<^sub>m decoded cd (db s) \<and> (e = None \<longrightarrow> decoded cd (db s') \<subseteq>\<^sub>m (decoded cd (db s))(k := None)) \<and> db s' \<subseteq>\<^sub>m db s"
    if "rcache_Invalidate client ctx clk k s = (e, s')" for ctx clk k s e s'
  proof -
    obtain q s1 where q: "rcDel client (with_timeout ctx (clk 1) redisCacheTimeout) (tick 2 clk) [k] s = (q, s1)"
      by (cases "rcDel client (with_timeout ctx (clk 1) redisCacheTimeout) (tick 2 clk) [k] s")
    have law: "write_law (\<subseteq>\<^sub>m) db s ((db s)(k := None)) (q, s1)"
      using redis_client_okD(3) [OF ok, of s "[k]" "with_timeout ctx (clk 1) redisCacheTimeout" "tick 2 clk"] q
      by (simp add: fun_upd_def)
    have "db s' \<subseteq>\<^sub>m db s \<and> (e = None \<longrightarrow> db s' \<subseteq>\<^sub>m (db s)(k := None))"
      using that q law map_le_trans [OF _ map_le_del, of "db s1" "db s" k]
      by (auto simp: rcache_Invalidate_def write_law_def split: option.splits)
    then show ?thesis using decoded_mono [of _ _ cd] decoded_simps(2) [of cd "db s" k] by metis
  qed
  show ?thesis
  proof (unfold_locales, goal_cases)
    case (1 c ctx clk k v c')
    then show ?case using get(2) [OF _ refl] by (fastforce simp: redis_cache_ops_def rcache_Get_def)
  next
    case (2 c ctx clk k r c')
    then show ?case using get(1) decoded_mono by (fastforce simp: redis_cache_ops_def rcache_Get_def)
  next
    case (3 c ctx clk k v ttl c')
    then show ?case using set_le by (fastforce simp: redis_cache_ops_def rcache_Set_def)
  next
    case (4 c ctx clk k v ttl e c')
    then show ?case using set_le by (fastforce simp: redis_cache_ops_def rcache_Set_def)
  next
    case (5 c ctx clk k c')
    then show ?case using del by (fastforce simp: redis_cache_ops_def)
  next
    case (6 c ctx clk k e c')
    then show ?case using del by (fastforce simp: redis_cache_ops_def)
  next
    case (7 c ctx clk k)
    have "db (snd (redis_Get client redisCacheTimeout cd ctx clk k c)) \<subseteq>\<^sub>m db c" by (rule get(1) [OF prod.collapse [symmetric]])
    then show ?case using decodable_simps(3) [OF 7] by (simp add: redis_cache_ops_def rcache_Get_def)
  next
    case (8 c ctx clk k v ttl)
    let ?s = "snd (redis_Set client redisCacheTimeout cd ctx clk k v ttl c)"
    from set [OF prod.collapse [symmetric], of redisCacheTimeout cd ctx clk k v ttl c]
    have "decodable cd (db ?s)" using decodable_simps(3) [OF 8] decodable_simps(3) [OF decodable_simps(1) [OF cd _ 8]] by blast
    then show ?case by (simp add: redis_cache_ops_def rcache_Set_def)
  next
    case (9 c ctx clk k)
    have "db (snd (rcache_Invalidate client ctx clk k c)) \<subseteq>\<^sub>m db c" using del [OF prod.collapse [symmetric]] by blast
    then show ?case using decodable_simps(3) [OF 9] by (simp add: redis_cache_ops_def)
  qed
qed

section \<open>A client, and one whose iterations never end\<close>

definition table_client :: "byte list gomap redis_client" where
  "table_client = \<lparr>
     rcGet = (\<lambda>ctx clk k s. (case gm_get s k of None \<Rightarrow> Inl RdNil | Some d \<Rightarrow> Inr d, s)),
     rcSet = (\<lambda>ctx clk k d ttl s. (None, gm_put s k d)),
     rcDel = (\<lambda>ctx clk ks s. (None, fold (\<lambda>k s. gm_del s k) ks s)),
     rcScan = (\<lambda>ctx clk c p n s. case ctx (clk 0) of Some e \<Rightarrow> (Inl (RdErr e), s) | None \<Rightarrow> (Inr (gm_keys s, 0), s)),
     rcExec = (\<lambda>ctx clk cs s. (None, fold (\<lambda>c s. case c of CmdSet k d ttl \<Rightarrow> gm_put s k d | CmdDel ks \<Rightarrow> fold (\<lambda>k s. gm_del s k) ks s) cs s))\<rparr>"

definition endless_client :: "byte list gomap redis_client" where
  "endless_client = table_client\<lparr>rcScan := (\<lambda>ctx clk c p n s.
     case ctx (clk 0) of Some e \<Rightarrow> (Inl (RdErr e), s) | None \<Rightarrow> (Inr (gm_keys s, 1), s))\<rparr>"

lemma table_exec: "(\<lambda>k. gm_get (fold (\<lambda>c s. case c of CmdSet k d ttl \<Rightarrow> gm_put s k d | CmdDel ks \<Rightarrow> fold (\<lambda>k s. gm_del s k) ks s) cs s) k)
    = fold run_cmd cs (\<lambda>k. gm_get s k)"
proof (induct cs arbitrary: s)
  case (Cons c cs)
  have "(\<lambda>k. gm_get (case c of CmdSet k d ttl \<Rightarrow> gm_put s k d | CmdDel ks \<Rightarrow> fold (\<lambda>k s. gm_del s k) ks s) k) = run_cmd c (\<lambda>k. gm_get s k)"
    by (cases c) (auto simp: fun_eq_iff gm_get_fold_del)
  then show ?case using Cons by simp
qed simp

lemma table_client_ok: "redis_client_ok (=) table_client (\<lambda>s k. gm_get s k)"
proof -
  have "read_law (=) (\<lambda>s k. gm_get s k) s k (rcGet table_client ctx clk k s)" for ctx clk k s
    by (simp add: read_law_def table_client_def split: option.split)
  moreover have "write_law (=) (\<lambda>s k. gm_get s k) s ((\<lambda>k. gm_get s k)(k \<mapsto> d)) (rcSet table_client ctx clk k d ttl s)" for ctx clk k d ttl s
    by (simp add: write_law_def table_client_def fun_eq_iff)
  moreover have "write_law (=) (\<lambda>s k. gm_get s k) s (run_cmd (CmdDel ks) (\<lambda>k. gm_get s k)) (rcDel table_client ctx clk ks s)" for ctx clk ks s
    by (simp add: write_law_def table_client_def gm_get_fold_del fun_eq_iff)
  moreover have "write_law (=) (\<lambda>s k. gm_get s k) s (fold run_cmd cs (\<lambda>k. gm_get s k)) (rcExec table_client ctx clk cs s)" for ctx clk cs s
    using table_exec [of cs s] by (simp add: write_law_def table_client_def)
  ultimately show ?thesis unfolding redis_client_ok_def by blast
qed

lemma table_scan_ok: "scan_ok table_client (\<lambda>s k. gm_get s k) (\<lambda>s c. set (gm_keys s))"
  by (auto simp: scan_ok_def table_client_def dom_map_of_conv_image_fst split: option.splits)

definition bytes_config :: "byte list redis_config" where
  "bytes_config = NewRedisStore (ByteCodec Some (Some (\<lambda>d. d))) []"

lemma bytes_config_ok: "codec_ok (rs_codec bytes_config)"
  by (simp add: bytes_config_def NewRedisStore_def ByteCodec_ok)

section \<open>Properties\<close>

text \<open>
  C26. The Redis store keeps the contract of a store with batches: over a client that reads
  and writes the server's data and a codec that decodes what it encodes, it is a map
  from keys to values - a read returns the value written last, a failed write is
  applied or not, \<^verbatim>\<open>Keys\<close> returns the keys, and committing a batch applies its sets and
  deletions together.
\<close>

theorem redis_store_refines_map:
  assumes "redis_client_ok (=) client db" and "scan_ok client db left" and "codec_ok (rs_codec cfg)"
  shows "batch_store (redis_store_ops client cfg) (\<lambda>s. decoded (rs_codec cfg) (db s)) (\<lambda>s. decodable (rs_codec cfg) (db s))
    (\<lambda>b k. gm_get (sets b) k) (\<lambda>b. set (deletes b)) (\<lambda>b. gm_ok (sets b))"
  using assms by (rule redis_batch_store)

theorem redis_store_refines_map_witness:
  "batch_store (redis_store_ops table_client bytes_config) (\<lambda>s. decoded (rs_codec bytes_config) (\<lambda>k. gm_get s k))
     (\<lambda>s. decodable (rs_codec bytes_config) (\<lambda>k. gm_get s k)) (\<lambda>b k. gm_get (sets b) k) (\<lambda>b. set (deletes b)) (\<lambda>b. gm_ok (sets b))"
  by (rule redis_store_refines_map [OF table_client_ok table_scan_ok bytes_config_ok])

text \<open>
  C27. \<^verbatim>\<open>Keys\<close> returns: its loop over \<^verbatim>\<open>SCAN\<close> ends even for a server whose cursors never come
  back to 0, because a call under the timed-out context fails.
\<close>

theorem redis_keys_terminates:
  assumes "scan_obeys_ctx client" and "clk 1 + rs_timeout cfg \<le> clk (3 + n)"
  shows "\<exists>r s'. rstore_Keys client cfg ctx clk s = Some (r, s')"
proof -
  let ?cctx = "with_timeout ctx (clk 1) (rs_timeout cfg)"
  have "?cctx (tick 3 clk (0 + n)) \<noteq> None" using assms(2) by (simp add: with_timeout_def add.commute split: option.split)
  from scan_loop_returns [OF assms(1), where cctx = ?cctx and clk = "tick 3 clk" and i = 0 and n = n and cursor = 0 and keys = "[]" and s = s, OF this]
  obtain r s' where "scan_loop client ?cctx (tick 3 clk) 0 0 [] s = Some (r, s')" by auto
  then show ?thesis by (cases "ctx (clk 0)"; cases r; cases "?cctx (clk 2)") (auto simp: rstore_Keys_def Let_def)
qed

theorem redis_keys_terminates_witness:
  "\<exists>r s'. rstore_Keys endless_client bytes_config background (\<lambda>i. 10 ^ 9 * int i) [(''k'', [1])] = Some (r, s')"
proof -
  have e: "scan_obeys_ctx endless_client" by (auto simp: scan_obeys_ctx_def endless_client_def split: option.split)
  show ?thesis
    by (rule redis_keys_terminates [OF e, of _ _ 3]) (simp add: bytes_config_def NewRedisStore_def defaultRedisOpTimeout_def)
qed

end
