(* ===== verification/Store_Gorm.thy ===== *)
theory Store_Gorm
  imports Store_Redis
begin

text \<open>
  The store in a database table (src/adapter/gorm_store.go).

  GORM is the parameter \<open>gorm_db\<close>: one field per chain of calls the store makes, each
  under a context. \<open>gorm_ok gdb rows\<close> is what it promises about the \<open>rows\<close> of the tables:
  a query reads them, an upsert and a deletion change the rows of their table, a call
  that fails may have taken effect, and a transaction keeps what its function did if
  the function returned no error and the commit succeeded, and nothing otherwise.
\<close>

section \<open>The database\<close>

record gormKV =
  Key :: key
  Value :: "byte list"

datatype gorm_err = RecordNotFound | DbErr go_error

type_synonym tables = "string \<Rightarrow> key \<Rightarrow> byte list option"

record 'g gorm_db =
  gdHasTable :: "string \<Rightarrow> 'g \<Rightarrow> bool"
  gdAutoMigrate :: "string \<Rightarrow> 'g \<Rightarrow> gorm_err option \<times> 'g"
  gdFirst :: "ctx \<Rightarrow> clock \<Rightarrow> string \<Rightarrow> key \<Rightarrow> 'g \<Rightarrow> (gorm_err + gormKV) \<times> 'g"
  gdCreate :: "ctx \<Rightarrow> clock \<Rightarrow> string \<Rightarrow> gormKV \<Rightarrow> 'g \<Rightarrow> gorm_err option \<times> 'g"
  gdPluck :: "ctx \<Rightarrow> clock \<Rightarrow> string \<Rightarrow> 'g \<Rightarrow> (gorm_err + key list) \<times> 'g"
  gdDelete :: "ctx \<Rightarrow> clock \<Rightarrow> string \<Rightarrow> key list \<Rightarrow> 'g \<Rightarrow> gorm_err option \<times> 'g"
  gdCreateInBatches :: "ctx \<Rightarrow> clock \<Rightarrow> string \<Rightarrow> gormKV list \<Rightarrow> int \<Rightarrow> 'g \<Rightarrow> gorm_err option \<times> 'g"
  gdTransaction :: "ctx \<Rightarrow> clock \<Rightarrow> ('g \<Rightarrow> gorm_err option \<times> 'g) \<Rightarrow> 'g \<Rightarrow> gorm_err option \<times> 'g"

fun upserts :: "gormKV list \<Rightarrow> (key \<Rightarrow> byte list option) \<Rightarrow> key \<Rightarrow> byte list option" where
  "upserts [] m = m"
| "upserts (kv # kvs) m = upserts kvs (m(Key kv \<mapsto> Value kv))"

definition first_law :: "('g \<Rightarrow> tables) \<Rightarrow> string \<Rightarrow> key \<Rightarrow> 'g \<Rightarrow> (gorm_err + gormKV) \<times> 'g \<Rightarrow> bool" where
  "first_law rows t k s res =
     (rows (snd res) = rows s \<and>
      (case fst res of
         Inr kv \<Rightarrow> rows s t k = Some (Value kv)
       | Inl e \<Rightarrow> e = RecordNotFound \<longrightarrow> rows s t k = None))"

definition change_law :: "('g \<Rightarrow> tables) \<Rightarrow> string \<Rightarrow> (key \<Rightarrow> byte list option) \<Rightarrow> 'g \<Rightarrow> gorm_err option \<times> 'g \<Rightarrow> bool" where
  "change_law rows t m s res =
     (rows (snd res) = (rows s)(t := m) \<or> fst res \<noteq> None \<and> rows (snd res) = rows s)"

definition pluck_law :: "('g \<Rightarrow> tables) \<Rightarrow> string \<Rightarrow> 'g \<Rightarrow> (gorm_err + key list) \<times> 'g \<Rightarrow> bool" where
  "pluck_law rows t s res =
     (rows (snd res) = rows s \<and> (case fst res of Inr ks \<Rightarrow> set ks = dom (rows s t) | Inl e \<Rightarrow> True))"

text \<open>\<^verbatim>\<open>CreateInBatches\<close> sends several statements, and one that fails may have sent some.\<close>

definition batches_law :: "('g \<Rightarrow> tables) \<Rightarrow> string \<Rightarrow> gormKV list \<Rightarrow> 'g \<Rightarrow> gorm_err option \<times> 'g \<Rightarrow> bool" where
  "batches_law rows t kvs s res =
     (fst res = None \<longrightarrow> rows (snd res) = (rows s)(t := upserts kvs (rows s t)))"

definition transaction_law ::
    "('g \<Rightarrow> tables) \<Rightarrow> ('g \<Rightarrow> gorm_err option \<times> 'g) \<Rightarrow> 'g \<Rightarrow> gorm_err option \<times> 'g \<Rightarrow> bool" where
  "transaction_law rows f s res \<longleftrightarrow>
     (fst res \<noteq> None \<and> rows (snd res) = rows s) \<or>
     (\<exists>s0. rows s0 = rows s \<and> fst (f s0) = None \<and> rows (snd res) = rows (snd (f s0)))"

definition gorm_ok :: "'g gorm_db \<Rightarrow> ('g \<Rightarrow> tables) \<Rightarrow> bool" where
  "gorm_ok gdb rows \<longleftrightarrow>
     (\<forall>t s. rows (snd (gdAutoMigrate gdb t s)) = rows s) \<and>
     (\<forall>ctx clk t k s. first_law rows t k s (gdFirst gdb ctx clk t k s)) \<and>
     (\<forall>ctx clk t kv s. change_law rows t ((rows s t)(Key kv \<mapsto> Value kv)) s (gdCreate gdb ctx clk t kv s)) \<and>
     (\<forall>ctx clk t s. pluck_law rows t s (gdPluck gdb ctx clk t s)) \<and>
     (\<forall>ctx clk t ks s. change_law rows t (\<lambda>k. if k \<in> set ks then None else rows s t k) s (gdDelete gdb ctx clk t ks s)) \<and>
     (\<forall>ctx clk t kvs n s. batches_law rows t kvs s (gdCreateInBatches gdb ctx clk t kvs n s)) \<and>
     (\<forall>ctx clk f s. transaction_law rows f s (gdTransaction gdb ctx clk f s))"

lemma gorm_okD:
  assumes "gorm_ok gdb rows"
  shows "rows (snd (gdAutoMigrate gdb t s)) = rows s"
    and "first_law rows t k s (gdFirst gdb ctx clk t k s)"
    and "change_law rows t ((rows s t)(Key kv \<mapsto> Value kv)) s (gdCreate gdb ctx clk t kv s)"
    and "pluck_law rows t s (gdPluck gdb ctx clk t s)"
    and "change_law rows t (\<lambda>k. if k \<in> set ks then None else rows s t k) s (gdDelete gdb ctx clk t ks s)"
    and "batches_law rows t kvs s (gdCreateInBatches gdb ctx clk t kvs n s)"
    and "transaction_law rows f s (gdTransaction gdb ctx clk f s)"
  using assms unfolding gorm_ok_def by simp_all

section \<open>The store\<close>

record 'v gorm_config =
  tableName :: string
  gs_timeout :: duration
  gs_codec :: "'v codec"

type_synonym 'v gorm_option = "'v gorm_config \<Rightarrow> 'v gorm_config"

definition defaultGormTableName :: string where
  "defaultGormTableName = ''warp_kv_store''"

definition defaultGormOpTimeout :: duration where
  "defaultGormOpTimeout = 5 * 10 ^ 9"

definition WithGormTableName :: "string \<Rightarrow> 'v gorm_option" where
  "WithGormTableName name o1 = o1\<lparr>tableName := name\<rparr>"

definition WithGormTimeout :: "duration \<Rightarrow> 'v gorm_option" where
  "WithGormTimeout d o1 = o1\<lparr>gs_timeout := d\<rparr>"

definition WithGormCodec :: "'v codec \<Rightarrow> 'v gorm_option" where
  "WithGormCodec c o1 = o1\<lparr>gs_codec := c\<rparr>"

definition NewGormStore :: "'v codec \<Rightarrow> 'g gorm_db \<Rightarrow> 'v gorm_option list \<Rightarrow> 'g \<Rightarrow> 'v gorm_config \<times> 'g" where
  "NewGormStore gob gdb opts s =
     (let cfg = fold (\<lambda>opt o1. opt o1) opts
            \<lparr>tableName = defaultGormTableName, gs_timeout = defaultGormOpTimeout, gs_codec = gob\<rparr>
      in if gdHasTable gdb (tableName cfg) s then (cfg, s)
         else (cfg, snd (gdAutoMigrate gdb (tableName cfg) s)))"

fun db_error :: "gorm_err \<Rightarrow> go_error" where
  "db_error (DbErr e) = (if e = DeadlineExceeded then ErrTimeout else e)"
| "db_error RecordNotFound = ErrOther ''record not found''"

definition gorm_Get ::
    "'g gorm_db \<Rightarrow> 'v gorm_config \<Rightarrow> ctx \<Rightarrow> clock \<Rightarrow> key \<Rightarrow> 'g \<Rightarrow> (go_error + 'v option) \<times> 'g" where
  "gorm_Get gdb cfg ctx clk k s =
     (case ctx (clk 0) of
        Some e \<Rightarrow> (Inl (ctx_error e), s)
      | None \<Rightarrow>
          (let cctx = with_timeout ctx (clk 1) (gs_timeout cfg)
           in case gdFirst gdb cctx (tick 3 clk) (tableName cfg) k s of
                (Inl e, s1) \<Rightarrow> if e = RecordNotFound then (Inr None, s1) else (Inl (db_error e), s1)
              | (Inr kv, s1) \<Rightarrow>
                  (case cctx (clk 2) of
                     Some e \<Rightarrow> (Inl (ctx_error e), s1)
                   | None \<Rightarrow>
                       (case Unmarshal (gs_codec cfg) (Value kv) of
                          Inl e \<Rightarrow> (Inl e, s1)
                        | Inr v \<Rightarrow> (Inr (Some v), s1)))))"

definition gorm_Set ::
    "'g gorm_db \<Rightarrow> 'v gorm_config \<Rightarrow> ctx \<Rightarrow> clock \<Rightarrow> key \<Rightarrow> 'v \<Rightarrow> 'g \<Rightarrow> go_error option \<times> 'g" where
  "gorm_Set gdb cfg ctx clk k v s =
     (case ctx (clk 0) of
        Some e \<Rightarrow> (Some (ctx_error e), s)
      | None \<Rightarrow>
          (case Marshal (gs_codec cfg) v of
             Inl e \<Rightarrow> (Some e, s)
           | Inr d \<Rightarrow>
               (case gdCreate gdb (with_timeout ctx (clk 1) (gs_timeout cfg)) (tick 2 clk) (tableName cfg)
                       \<lparr>Key = k, Value = d\<rparr> s of
                  (Some e, s1) \<Rightarrow> (Some (db_error e), s1)
                | (None, s1) \<Rightarrow> (None, s1))))"

definition gorm_Keys ::
    "'g gorm_db \<Rightarrow> 'v gorm_config \<Rightarrow> ctx \<Rightarrow> clock \<Rightarrow> 'g \<Rightarrow> (go_error + key list) \<times> 'g" where
  "gorm_Keys gdb cfg ctx clk s =
     (case ctx (clk 0) of
        Some e \<Rightarrow> (Inl (ctx_error e), s)
      | None \<Rightarrow>
          (case gdPluck gdb (with_timeout ctx (clk 1) (gs_timeout cfg)) (tick 2 clk) (tableName cfg) s of
             (Inl e, s1) \<Rightarrow> (Inl (db_error e), s1)
           | (Inr ks, s1) \<Rightarrow> (Inr ks, s1)))"

section \<open>Batches\<close>

definition gormStore_Batch :: "ctx \<Rightarrow> clock \<Rightarrow> go_error + 'v batch" where
  "gormStore_Batch ctx clk = Inr \<lparr>sets = [], deletes = []\<rparr>"

definition gormBatch_Set :: "ctx \<Rightarrow> clock \<Rightarrow> key \<Rightarrow> 'v \<Rightarrow> 'v batch \<Rightarrow> go_error option \<times> 'v batch" where
  "gormBatch_Set ctx clk k v b = (None, b\<lparr>sets := gm_put (sets b) k v\<rparr>)"

definition gormBatch_Delete :: "ctx \<Rightarrow> clock \<Rightarrow> key \<Rightarrow> 'v batch \<Rightarrow> go_error option \<times> 'v batch" where
  "gormBatch_Delete ctx clk k b = (None, b\<lparr>deletes := deletes b @ [k]\<rparr>)"

fun marshal_kvs :: "'v codec \<Rightarrow> (key \<times> 'v) list \<Rightarrow> go_error + gormKV list" where
  "marshal_kvs cd [] = Inr []"
| "marshal_kvs cd ((k, v) # kvs) =
     (case Marshal cd v of
        Inl e \<Rightarrow> Inl e
      | Inr d \<Rightarrow> (case marshal_kvs cd kvs of Inl e \<Rightarrow> Inl e | Inr l \<Rightarrow> Inr (\<lparr>Key = k, Value = d\<rparr> # l)))"

text \<open>The function the transaction runs: the deletions, then the sets.\<close>

definition batch_tx ::
    "'g gorm_db \<Rightarrow> 'v gorm_config \<Rightarrow> ctx \<Rightarrow> clock \<Rightarrow> 'v batch \<Rightarrow> 'g \<Rightarrow> gorm_err option \<times> 'g" where
  "batch_tx gdb cfg cctx clk b s =
     (let (e1, s1) = if length (deletes b) > 0 then gdDelete gdb cctx clk (tableName cfg) (deletes b) s else (None, s)
      in case e1 of
           Some e \<Rightarrow> (Some e, s1)
         | None \<Rightarrow>
             if length (sets b) > 0 then
               (case marshal_kvs (gs_codec cfg) (sets b) of
                  Inl e \<Rightarrow> (Some (DbErr e), s1)
                | Inr kvs \<Rightarrow> gdCreateInBatches gdb cctx (tick 1 clk) (tableName cfg) kvs 100 s1)
             else (None, s1))"

definition gormBatch_Commit ::
    "'g gorm_db \<Rightarrow> 'v gorm_config \<Rightarrow> ctx \<Rightarrow> clock \<Rightarrow> 'v batch \<Rightarrow> 'g \<Rightarrow> go_error option \<times> 'g" where
  "gormBatch_Commit gdb cfg ctx clk b s =
     (case ctx (clk 0) of
        Some e \<Rightarrow> (Some (ctx_error e), s)
      | None \<Rightarrow>
          (let cctx = with_timeout ctx (clk 1) (gs_timeout cfg)
           in case gdTransaction gdb cctx (tick 2 clk) (batch_tx gdb cfg cctx (tick 3 clk) b) s of
                (Some e, s1) \<Rightarrow> (Some (db_error e), s1)
              | (None, s1) \<Rightarrow> (None, s1)))"

definition gorm_store_ops :: "'g gorm_db \<Rightarrow> 'v gorm_config \<Rightarrow> ('g, 'v, 'v batch) store_ops" where
  "gorm_store_ops gdb cfg = \<lparr>
     stGet = gorm_Get gdb cfg, stSet = gorm_Set gdb cfg, stKeys = gorm_Keys gdb cfg,
     stBatch = Some gormStore_Batch, bSet = gormBatch_Set, bDelete = gormBatch_Delete,
     bCommit = gormBatch_Commit gdb cfg\<rparr>"

section \<open>The store is a map, and a commit is atomic\<close>

lemma marshal_kvs_cmds:
  "marshal_kvs cd kvs = Inr l \<Longrightarrow> \<exists>cs. marshal_sets cd kvs = Inr cs \<and> (\<forall>m. upserts l m = fold run_cmd cs m)"
  by (induct kvs arbitrary: l) (auto split: sum.splits)

lemma marshal_kvs_effect:
  assumes "codec_ok cd" and "marshal_kvs cd kvs = Inr l" and "gm_ok kvs"
  shows "decoded cd (upserts l m) = decoded cd m ++ map_of kvs"
    and "decodable cd m \<Longrightarrow> decodable cd (upserts l m)"
  using marshal_kvs_cmds [OF assms(2)] marshal_sets_effect [OF assms(1) _ assms(3)] by metis+

text \<open>What a batch makes of the values.\<close>

abbreviation batch_view :: "'v batch \<Rightarrow> (key \<Rightarrow> 'v option) \<Rightarrow> key \<Rightarrow> 'v option" where
  "batch_view b m \<equiv> (\<lambda>k. if k \<in> set (deletes b) then None else m k) ++ (\<lambda>k. gm_get (sets b) k)"

lemma batch_tx_effect:
  assumes ok: "gorm_ok gdb rows" and cd: "codec_ok (gs_codec cfg)" and b: "gm_ok (sets b)"
    and tx: "batch_tx gdb cfg cctx clk b s = (None, s')"
  shows "\<exists>m. rows s' = (rows s)(tableName cfg := m) \<and> decoded (gs_codec cfg) m = batch_view b (decoded (gs_codec cfg) (rows s (tableName cfg))) \<and>
    (decodable (gs_codec cfg) (rows s (tableName cfg)) \<longrightarrow> decodable (gs_codec cfg) m)"
proof -
  let ?t = "tableName cfg" and ?cd = "gs_codec cfg"
  let ?d = "run_cmd (CmdDel (deletes b)) (rows s ?t)"
  obtain e1 s1 where del: "(if length (deletes b) > 0 then gdDelete gdb cctx clk ?t (deletes b) s else (None, s)) = (e1, s1)"
    by (meson surj_pair)
  have e1: "e1 = None" using tx del by (auto simp: batch_tx_def split: option.splits prod.splits if_splits)
  have s1: "rows s1 = (rows s)(?t := ?d)"
  proof (cases "deletes b")
    case Nil
    then show ?thesis using del by (auto simp: fun_eq_iff)
  next
    case (Cons k ks)
    then show ?thesis using del e1 gorm_okD(5) [OF ok, where t = ?t and s = s and ks = "deletes b" and ctx = cctx and clk = clk] by (auto simp: change_law_def)
  qed
  show ?thesis
  proof (cases "sets b")
    case Nil
    then have "s' = s1" using tx del e1 by (auto simp: batch_tx_def split: prod.splits if_splits)
    then show ?thesis using s1 decodable_simps(2) decoded_simps(3) [of ?cd "deletes b" "rows s ?t"] Nil
      by (intro exI [of _ ?d]) (auto simp: fun_eq_iff)
  next
    case (Cons kv kvs)
    then obtain l where l: "marshal_kvs ?cd (sets b) = Inr l" and c: "gdCreateInBatches gdb cctx (tick 1 clk) ?t l 100 s1 = (None, s')"
      using tx del e1 by (auto simp: batch_tx_def split: prod.splits if_splits sum.splits)
    have "rows s' = (rows s1)(?t := upserts l (rows s1 ?t))"
      using gorm_okD(6) [OF ok, of ?t l s1 cctx "tick 1 clk" 100] c by (simp add: batches_law_def)
    then have "rows s' = (rows s)(?t := upserts l ?d)" using s1 by simp
    then show ?thesis
      using marshal_kvs_effect [OF cd l b, of ?d] decodable_simps(2) decoded_simps(3) [of ?cd "deletes b" "rows s ?t"]
      by (intro exI [of _ "upserts l ?d"]) auto
  qed
qed

lemma gorm_Commit_cases:
  assumes ok: "gorm_ok gdb rows" and cd: "codec_ok (gs_codec cfg)" and b: "gm_ok (sets b)"
    and c: "gormBatch_Commit gdb cfg ctx clk b s = (r, s')"
  shows "(r \<noteq> None \<and> rows s' = rows s) \<or>
    (\<exists>m. rows s' = (rows s)(tableName cfg := m) \<and> decoded (gs_codec cfg) m = batch_view b (decoded (gs_codec cfg) (rows s (tableName cfg))) \<and>
      (decodable (gs_codec cfg) (rows s (tableName cfg)) \<longrightarrow> decodable (gs_codec cfg) m))"
proof (cases "ctx (clk 0)")
  case None
  define cctx where "cctx = with_timeout ctx (clk 1) (gs_timeout cfg)"
  define f where "f = batch_tx gdb cfg cctx (tick 3 clk) b"
  obtain q s1 where q: "gdTransaction gdb cctx (tick 2 clk) f s = (q, s1)" by (meson surj_pair)
  have "s1 = s'" and r: "r = None \<longleftrightarrow> q = None"
    using c q None by (auto simp: gormBatch_Commit_def Let_def cctx_def f_def split: option.splits)
  with gorm_okD(7) [OF ok, of f s cctx "tick 2 clk"] q consider "q \<noteq> None" "rows s' = rows s"
    | s0 where "rows s0 = rows s" "fst (f s0) = None" "rows s' = rows (snd (f s0))"
    by (auto simp: transaction_law_def)
  then show ?thesis
  proof cases
    case 2
    then have "batch_tx gdb cfg cctx (tick 3 clk) b s0 = (None, snd (f s0))" by (metis f_def prod.collapse)
    from batch_tx_effect [OF ok cd b this] show ?thesis unfolding 2(1) 2(3) by (rule disjI2)
  qed (simp add: r)
qed (use c in \<open>auto simp: gormBatch_Commit_def\<close>)

lemma gorm_Get_law:
  assumes ok: "gorm_ok gdb rows" and g: "gorm_Get gdb cfg ctx clk k s = (q, s')"
  shows "rows s' = rows s"
    and "q = Inr r \<Longrightarrow> decodable (gs_codec cfg) (rows s (tableName cfg)) \<Longrightarrow> r = decoded (gs_codec cfg) (rows s (tableName cfg)) k"
proof -
  let ?cctx = "with_timeout ctx (clk 1) (gs_timeout cfg)"
  obtain p s1 where p: "gdFirst gdb ?cctx (tick 3 clk) (tableName cfg) k s = (p, s1)" by (meson surj_pair)
  note law = gorm_okD(2) [OF ok, of "tableName cfg" k s ?cctx "tick 3 clk", unfolded p first_law_def, simplified]
  show "rows s' = rows s" using g law p by (auto simp: gorm_Get_def Let_def split: option.splits sum.splits if_splits)
  show "r = decoded (gs_codec cfg) (rows s (tableName cfg)) k" if "q = Inr r" "decodable (gs_codec cfg) (rows s (tableName cfg))"
    using g law p that by (auto simp: gorm_Get_def Let_def decoded_def split: option.splits sum.splits if_splits)
qed

lemma gorm_Set_law:
  assumes ok: "gorm_ok gdb rows" and g: "gorm_Set gdb cfg ctx clk k v s = (q, s')"
  shows "(q \<noteq> None \<and> rows s' = rows s) \<or>
    (\<exists>d. Marshal (gs_codec cfg) v = Inr d \<and> rows s' = (rows s)(tableName cfg := (rows s (tableName cfg))(k \<mapsto> d)))"
proof (cases "Marshal (gs_codec cfg) v")
  case (Inr d)
  let ?cctx = "with_timeout ctx (clk 1) (gs_timeout cfg)" and ?kv = "\<lparr>Key = k, Value = d\<rparr>"
  obtain p s1 where p: "gdCreate gdb ?cctx (tick 2 clk) (tableName cfg) ?kv s = (p, s1)" by (meson surj_pair)
  note law = gorm_okD(3) [OF ok, of "tableName cfg" s ?kv ?cctx "tick 2 clk", unfolded p change_law_def, simplified]
  show ?thesis using g law p Inr by (auto simp: gorm_Set_def split: option.splits)
qed (use g in \<open>auto simp: gorm_Set_def split: option.splits\<close>)

lemma gorm_Keys_law:
  assumes ok: "gorm_ok gdb rows" and g: "gorm_Keys gdb cfg ctx clk s = (q, s')"
  shows "rows s' = rows s" and "q = Inr ks \<Longrightarrow> set ks = dom (rows s (tableName cfg))"
proof -
  let ?cctx = "with_timeout ctx (clk 1) (gs_timeout cfg)"
  obtain p s1 where p: "gdPluck gdb ?cctx (tick 2 clk) (tableName cfg) s = (p, s1)" by (meson surj_pair)
  note law = gorm_okD(4) [OF ok, of "tableName cfg" s ?cctx "tick 2 clk", unfolded p pluck_law_def, simplified]
  show "rows s' = rows s" using g law p by (auto simp: gorm_Keys_def split: option.splits sum.splits)
  show "set ks = dom (rows s (tableName cfg))" if "q = Inr ks"
    using g law p that by (auto simp: gorm_Keys_def split: option.splits sum.splits)
qed

lemma NewGormStore_keeps_rows: "gorm_ok gdb rows \<Longrightarrow> NewGormStore gob gdb opts s = (cfg, s') \<Longrightarrow> rows s' = rows s"
  by (auto simp: NewGormStore_def Let_def gorm_okD(1) split: if_splits)

lemma gorm_batch_store:
  assumes ok: "gorm_ok gdb rows" and cd: "codec_ok (gs_codec cfg)"
  shows "batch_store (gorm_store_ops gdb cfg) (\<lambda>s. decoded (gs_codec cfg) (rows s (tableName cfg))) (\<lambda>s. decodable (gs_codec cfg) (rows s (tableName cfg)))
    (\<lambda>b k. gm_get (sets b) k) (\<lambda>b. set (deletes b)) (\<lambda>b. gm_ok (sets b))"
proof (unfold_locales, goal_cases)
  case (1 s ctx clk k r s')
  then show ?case using gorm_Get_law(2) [OF ok _ refl] by (simp add: gorm_store_ops_def)
next
  case (2 s ctx clk k q s')
  then show ?case using gorm_Get_law(1) [OF ok, of cfg ctx clk k s q s'] by (simp add: gorm_store_ops_def)
next
  case (3 s ctx clk k v s')
  then show ?case using gorm_Set_law [OF ok, of cfg ctx clk k v s None s'] cd by (auto simp: gorm_store_ops_def)
next
  case (4 s ctx clk k v e s')
  then show ?case using gorm_Set_law [OF ok, of cfg ctx clk k v s "Some e" s'] cd by (auto simp: gorm_store_ops_def)
next
  case (5 s ctx clk k v e s')
  then show ?case using gorm_Set_law [OF ok, of cfg ctx clk k v s e s'] cd decodable_simps(1) by (auto simp: gorm_store_ops_def)
next
  case (6 s ctx clk ks s')
  then show ?case using gorm_Keys_law(2) [OF ok _ refl, of cfg ctx clk s ks s'] by (simp add: gorm_store_ops_def decoded_dom)
next
  case (7 s ctx clk p s')
  then show ?case using gorm_Keys_law(1) [OF ok, of cfg ctx clk s p s'] by (simp add: gorm_store_ops_def)
next
  case (8 mk ctx clk b)
  then show ?case by (auto simp: gorm_store_ops_def gormStore_Batch_def)
next
  case (9 b ctx clk k v b')
  then show ?case by (auto simp: gorm_store_ops_def gormBatch_Set_def fun_eq_iff)
next
  case (10 b ctx clk k b')
  then show ?case by (auto simp: gorm_store_ops_def gormBatch_Delete_def)
next
  case (11 s b ctx clk s')
  then show ?case using gorm_Commit_cases [OF ok cd, of b ctx clk s None s'] by (auto simp: gorm_store_ops_def)
qed

section \<open>A database\<close>

definition table_db :: "(string \<Rightarrow> byte list gomap) gorm_db" where
  "table_db = \<lparr>
     gdHasTable = (\<lambda>t s. True), gdAutoMigrate = (\<lambda>t s. (None, s)),
     gdFirst = (\<lambda>ctx clk t k s. (case gm_get (s t) k of None \<Rightarrow> Inl RecordNotFound | Some d \<Rightarrow> Inr \<lparr>Key = k, Value = d\<rparr>, s)),
     gdCreate = (\<lambda>ctx clk t kv s. (None, s(t := gm_put (s t) (Key kv) (Value kv)))),
     gdPluck = (\<lambda>ctx clk t s. (Inr (gm_keys (s t)), s)),
     gdDelete = (\<lambda>ctx clk t ks s. (None, s(t := fold (\<lambda>k s. gm_del s k) ks (s t)))),
     gdCreateInBatches = (\<lambda>ctx clk t kvs n s. (None, s(t := fold (\<lambda>kv s. gm_put s (Key kv) (Value kv)) kvs (s t)))),
     gdTransaction = (\<lambda>ctx clk f s. case f s of (None, s1) \<Rightarrow> (None, s1) | (Some e, s1) \<Rightarrow> (Some e, s))\<rparr>"

abbreviation table_rows :: "(string \<Rightarrow> byte list gomap) \<Rightarrow> tables" where
  "table_rows \<equiv> (\<lambda>s t k. gm_get (s t) k)"

lemma table_upserts: "(\<lambda>k. gm_get (fold (\<lambda>kv s. gm_put s (Key kv) (Value kv)) kvs s) k) = upserts kvs (\<lambda>k. gm_get s k)"
proof (induct kvs arbitrary: s)
  case (Cons kv kvs)
  have "(\<lambda>k. gm_get (gm_put s (Key kv) (Value kv)) k) = (\<lambda>k. gm_get s k)(Key kv \<mapsto> Value kv)" by (simp add: fun_eq_iff)
  then show ?case using Cons [of "gm_put s (Key kv) (Value kv)"] by simp
qed simp

lemma table_db_ok: "gorm_ok table_db table_rows"
proof -
  have "batches_law table_rows t kvs s (gdCreateInBatches table_db ctx clk t kvs n s)" for ctx clk t kvs n s
    using table_upserts [of kvs "s t"] by (simp add: batches_law_def table_db_def fun_eq_iff)
  moreover have "transaction_law table_rows f s (gdTransaction table_db ctx clk f s)" for ctx clk f s
    by (cases "f s"; cases "fst (f s)") (auto simp: transaction_law_def table_db_def)
  moreover have "first_law table_rows t k s (gdFirst table_db ctx clk t k s)" for ctx clk t k s
    by (simp add: first_law_def table_db_def split: option.split)
  moreover have "change_law table_rows t ((table_rows s t)(Key kv \<mapsto> Value kv)) s (gdCreate table_db ctx clk t kv s)" for ctx clk t kv s
    by (simp add: change_law_def table_db_def fun_eq_iff)
  moreover have "pluck_law table_rows t s (gdPluck table_db ctx clk t s)" for ctx clk t s
    by (simp add: pluck_law_def table_db_def dom_map_of_conv_image_fst)
  moreover have "change_law table_rows t (\<lambda>k. if k \<in> set ks then None else table_rows s t k) s (gdDelete table_db ctx clk t ks s)" for ctx clk t ks s
    by (simp add: change_law_def table_db_def gm_get_fold_del fun_eq_iff)
  ultimately show ?thesis unfolding gorm_ok_def by (simp add: table_db_def)
qed

text \<open>A codec that refuses one value, the empty list.\<close>

definition partial_codec :: "byte list codec" where
  "partial_codec = ByteCodec (\<lambda>v. if v = [] then None else Some v) (Some (\<lambda>d. d))"

lemma partial_codec_ok: "codec_ok partial_codec"
  by (simp add: codec_ok_def partial_codec_def ByteCodec_def)

definition example_config :: "byte list gorm_config" where
  "example_config = fst (NewGormStore partial_codec table_db [] (\<lambda>t. []))"

lemma example_config_codec [simp]: "gs_codec example_config = partial_codec"
  by (simp add: example_config_def NewGormStore_def Let_def)

section \<open>Properties\<close>

text \<open>
  The database store keeps the contract of a store with batches.
\<close>

theorem gorm_store_refines_map:
  assumes "gorm_ok gdb rows" and "codec_ok (gs_codec cfg)"
  shows "batch_store (gorm_store_ops gdb cfg) (\<lambda>s. decoded (gs_codec cfg) (rows s (tableName cfg))) (\<lambda>s. decodable (gs_codec cfg) (rows s (tableName cfg)))
    (\<lambda>b k. gm_get (sets b) k) (\<lambda>b. set (deletes b)) (\<lambda>b. gm_ok (sets b))"
  using assms by (rule gorm_batch_store)

theorem gorm_store_refines_map_witness:
  "batch_store (gorm_store_ops table_db example_config) (\<lambda>s. decoded (gs_codec example_config) (table_rows s (tableName example_config)))
     (\<lambda>s. decodable (gs_codec example_config) (table_rows s (tableName example_config)))
     (\<lambda>b k. gm_get (sets b) k) (\<lambda>b. set (deletes b)) (\<lambda>b. gm_ok (sets b))"
  by (rule gorm_store_refines_map [OF table_db_ok]) (simp add: partial_codec_ok)

text \<open>
  C14. A commit is atomic. Whatever fails - the context, the deletions, the encoding of
  one of the values after the deletions, the upserts, the commit of the transaction -
  the table has all changes of the batch or none, and all of them if no error is
  reported; a key that is both set and deleted has the value set. Other tables are
  not touched.
\<close>

theorem gorm_commit_atomic:
  assumes "gorm_ok gdb rows" and "codec_ok (gs_codec cfg)" and "gm_ok (sets b)"
    and "gormBatch_Commit gdb cfg ctx clk b s = (r, s')"
  defines "view \<equiv> \<lambda>s. decoded (gs_codec cfg) (rows s (tableName cfg))"
  shows "(rows s' = rows s \<or> view s' = (\<lambda>k. if k \<in> set (deletes b) then None else view s k) ++ (\<lambda>k. gm_get (sets b) k)) \<and>
    (r = None \<longrightarrow> view s' = (\<lambda>k. if k \<in> set (deletes b) then None else view s k) ++ (\<lambda>k. gm_get (sets b) k)) \<and>
    (\<forall>t. t \<noteq> tableName cfg \<longrightarrow> rows s' t = rows s t)"
  using gorm_Commit_cases [OF assms(1-4)] unfolding view_def by auto

theorem gorm_commit_atomic_witness:
  "(let b = \<lparr>sets = [(''x'', [2]), (''y'', [])], deletes = [''a'']\<rparr>;
        s = (\<lambda>t. [(''a'', [7])]); (r, s') = gormBatch_Commit table_db example_config background (\<lambda>i. 0) b s
    in r = Some (ErrOther ''ByteCodec: value is not []byte'') \<and> table_rows s' = table_rows s)"
proof -
  let ?b = "\<lparr>sets = [(''x'', [2]), (''y'', [])], deletes = [''a'']\<rparr> :: byte list batch"
  let ?s = "(\<lambda>t. [(''a'', [7])]) :: string \<Rightarrow> byte list gomap"
  have c: "gormBatch_Commit table_db example_config background (\<lambda>i. 0) ?b ?s = (Some (ErrOther ''ByteCodec: value is not []byte''), ?s)"
    by (simp add: gormBatch_Commit_def Let_def table_db_def batch_tx_def background_def partial_codec_def ByteCodec_def)
  show ?thesis
    using gorm_commit_atomic [OF table_db_ok _ _ c] c by (simp add: partial_codec_ok)
qed

text \<open>
  What a batch leaves of a key that is set and then deleted in it depends on the
  store: the Redis store has no value for it after the commit, the database store has
  the value set.
\<close>

theorem batch_conflict_differs:
  assumes "redis_client_ok (=) client db" and "gorm_ok gdb rows" and "codec_ok (gs_codec cfg')"
    and "redisBatch_Commit client cfg ctx clk (snd (redisBatch_Delete ctx clk k (snd (redisBatch_Set ctx clk k v \<lparr>sets = [], deletes = []\<rparr>)))) s = (None, s')"
    and "gormBatch_Commit gdb cfg' ctx clk (snd (gormBatch_Delete ctx clk k (snd (gormBatch_Set ctx clk k v \<lparr>sets = [], deletes = []\<rparr>)))) g = (None, g')"
  shows "decoded (rs_codec cfg) (db s') k = None \<and> decoded (gs_codec cfg') (rows g' (tableName cfg')) k = Some v"
proof
  let ?b = "\<lparr>sets = [(k, v)], deletes = [k]\<rparr>"
  have r: "redisBatch_Commit client cfg ctx clk ?b s = (None, s')" and g: "gormBatch_Commit gdb cfg' ctx clk ?b g = (None, g')"
    using assms(4,5) by (simp_all add: redisBatch_Set_def redisBatch_Delete_def gormBatch_Set_def gormBatch_Delete_def)
  from r obtain cs where "rcExec client (with_timeout ctx (clk 1) (rs_timeout cfg)) (tick 2 clk) (cs @ [CmdDel [k]]) s = (None, s')"
    by (auto simp: redisBatch_Commit_def Let_def split: option.splits sum.splits prod.splits)
  then have "db s' = fold run_cmd (cs @ [CmdDel [k]]) (db s)"
    using redis_client_okD(4) [OF assms(1), of s "cs @ [CmdDel [k]]" "with_timeout ctx (clk 1) (rs_timeout cfg)" "tick 2 clk"]
    by (simp add: write_law_def)
  then show "decoded (rs_codec cfg) (db s') k = None" by (simp add: decoded_def)
  show "decoded (gs_codec cfg') (rows g' (tableName cfg')) k = Some v"
    using gorm_Commit_cases [OF assms(2,3) _ g] by auto
qed

theorem batch_conflict_differs_witness:
  "(let b = \<lparr>sets = [(''x'', [2])], deletes = [''x'']\<rparr>;
        (r, s') = redisBatch_Commit table_client bytes_config background (\<lambda>i. 0) b [];
        (r', g') = gormBatch_Commit table_db example_config background (\<lambda>i. 0) b (\<lambda>t. [])
    in r = None \<and> r' = None \<and> decoded (rs_codec bytes_config) (\<lambda>k. gm_get s' k) ''x'' = None \<and>
       decoded (gs_codec example_config) (table_rows g' (tableName example_config)) ''x'' = Some [2])"
proof -
  let ?b = "\<lparr>sets = [(''x'', [2])], deletes = [''x'']\<rparr> :: byte list batch"
  have r: "\<exists>s'. redisBatch_Commit table_client bytes_config background (\<lambda>i. 0) ?b [] = (None, s')"
    by (simp add: redisBatch_Commit_def Let_def table_client_def background_def bytes_config_def NewRedisStore_def ByteCodec_def)
  have g: "\<exists>g'. gormBatch_Commit table_db example_config background (\<lambda>i. 0) ?b (\<lambda>t. []) = (None, g')"
    by (simp add: gormBatch_Commit_def Let_def table_db_def batch_tx_def background_def partial_codec_def ByteCodec_def)
  from r g obtain s' g' where e: "redisBatch_Commit table_client bytes_config background (\<lambda>i. 0) ?b [] = (None, s')"
      "gormBatch_Commit table_db example_config background (\<lambda>i. 0) ?b (\<lambda>t. []) = (None, g')"
    by blast
  show ?thesis
    using batch_conflict_differs [OF table_client_ok table_db_ok, of example_config bytes_config background "\<lambda>i. 0" "''x''" "[2]" "[]" s' "\<lambda>t. []" g'] e
    by (simp add: partial_codec_ok redisBatch_Set_def redisBatch_Delete_def gormBatch_Set_def gormBatch_Delete_def)
qed

end
