(* ===== verification/Spec2Isabelle.thy ===== *)
theory Spec2Isabelle
  imports Warp_Merge Warp_LRU Warp_TTL Cache_Wrappers Warp_Store Warp_Syncbus Warp_Commit Warp_Lock Warp_Validator Stream_Wire Stream_Bus
    Stream_Session Redis_Bus Kafka_Bus NATS_Bus Mesh_Bus Watch_Bus Lock_Redis Lock_NATS Store_Gorm
begin

text \<open>
  A verification of go-warp, a library that puts a multi-level cache in front of a store and
  keeps the caches of several nodes in step over a message bus.

  \<^bold>\<open>The program and its parts.\<close>
  The orchestrator of package core (src/core) serves reads from an in-memory cache
  (src/cache), falls back to a store (src/adapter), writes through to both, resolves
  conflicting values with a merge engine (src/merge), and tells other nodes over a sync
  bus (src/syncbus) which keys have changed. Leases and transactions are built on it. Locks
  (src/lock) and the validator (src/validator) use the same caches, stores and buses. Two
  further buses carry data: the watch bus (src/watchbus) and the stream bus (src/streambus),
  the latter with a wire protocol and a WebTransport handler.

  \<^bold>\<open>How the code is modelled.\<close>
  A struct is a record, an enumeration a datatype or the integer it is in Go, a method a
  function from the arguments and the state to the results and the new state. Errors are
  values of \<open>go_error\<close> or of a type of the package. Instants come from a \<open>clock\<close>, one for each
  point of a call where the code reads the time or polls its context. An interface is the
  record of its methods, and what a client relies on is a locale (\<open>cache_base\<close>,
  \<open>cache_contract\<close>, \<open>cache_view\<close>, \<open>store_contract\<close>, \<open>batch_store\<close>, \<open>write_through\<close>,
  \<open>stream_provider\<close> and others) that is interpreted on the model of the implementation. A
  library that is not part of the repository (Redis, NATS, Kafka, GORM, Ristretto, UUIDs, the
  network, WebTransport) is a parameter; what is assumed of it is a predicate with the
  documented behaviour. Goroutines are steps: where the code is concurrent, an
  inductive relation interleaves the calls at their synchronisation points with the
  background goroutines, the timers and the environment, and the properties are invariants
  of the reachable states.

  \<^bold>\<open>Theories.\<close>
  \<^item> \<open>Warp_Prelude\<close>: time, contexts, errors, Go maps as association lists, decimal notation.
  \<^item> \<open>Warp_Merge\<close> (src/merge): vector clocks, values, strategies, the engine, histories. \<open>Compare\<close>
    is shown to decide the order of clocks.
  \<^item> \<open>Warp_TTL\<close>, \<open>Cache_Api\<close>, \<open>Warp_LRU\<close>, \<open>Cache_Wrappers\<close> (src/cache): TTL options and strategies;
    the cache interface and its contracts; the in-memory cache, whose invariant covers
    every reachable state and whose recency list refines the abstract LRU policy; the
    resilient, Ristretto, LFU, adaptive and versioned caches.
  \<^item> \<open>Warp_Store\<close>, \<open>Store_Redis\<close>, \<open>Store_Gorm\<close> (src/adapter, src/cache/codec.go, src/cache/redis.go):
    the store interface and its three implementations. Each refines a map, batches are
    compared with sequences of writes, the commit of the database store is atomic, and the
    SCAN loop of the Redis store ends although nothing bounds it in the code.
  \<^item> \<open>Warp_Syncbus\<close> (src/syncbus/syncbus.go, circuit_breaker.go), and over the shared map of
    subscribers \<open>Bus_Registry\<close>: \<open>Redis_Bus\<close>, \<open>Kafka_Bus\<close>, \<open>NATS_Bus\<close>, \<open>Mesh_Packet\<close>, \<open>Mesh_Bus\<close>
    (src/syncbus/redis, kafka, nats, mesh). For each: no send on a closed channel, exactly
    the keys of the calls under way are pending, and what the bus promises about
    delivery, reconnecting and closing.
  \<^item> \<open>Warp_Core\<close>, \<open>Warp_Registry\<close>, \<open>Warp_Coherence\<close>, \<open>Warp_Lease\<close>, \<open>Warp_Txn\<close>, \<open>Warp_Commit\<close>
    (src/core): the orchestrator, whose sharded registry refines a map; write-through
    coherence of every operation; leases; transactions, with what a commit that succeeds
    has done and what one that fails leaves behind.
  \<^item> \<open>Warp_Lock\<close>, \<open>Lock_Redis\<close>, \<open>Lock_NATS\<close> (src/lock): mutual exclusion, expiry and the waiting
    loops of the three lockers.
  \<^item> \<open>Warp_Validator\<close> (src/validator): a scan in the healing mode leaves no mismatch.
  \<^item> \<open>Stream_Types\<close>, \<open>Stream_Queue\<close>, \<open>Stream_Sub\<close>, \<open>Stream_Bus\<close>, \<open>Stream_Wire\<close>, \<open>Stream_Session\<close>
    (src/streambus): the priority queue refines a list; a subscription never gets stuck; a
    publication reaches exactly the matching subscribers and a resumed subscriber misses
    nothing; the wire format round-trips; a WebTransport session forwards every frame
    once and ends without a leak.
  \<^item> \<open>Watch_Bus\<close> (src/watchbus/inmemory_watchbus.go, src/core/watch.go): a publication
    reaches exactly the watchers of the key and of its prefixes.

  \<^bold>\<open>Bounds and fuel.\<close>
  Loops over data are recursive functions that terminate. Loops that wait for the outside
  are partial functions, so that not returning is the value \<^const>\<open>None\<close> (the retry loops of
  the NATS bus, the SCAN loop), and returning is proved, or run over the list of what they
  receive. The waits of \<^verbatim>\<open>enqueue\<close> are an argument: a call that is still waiting at its end
  has the result \<^const>\<open>None\<close>. Integers keep their width where the code can wrap (sequence
  numbers and ids, hashes, varints, durations); in the relation for the stream bus the 64-bit
  ids are not exhausted, which is a premise of the steps.

  \<^bold>\<open>Not modelled.\<close>
  Metrics and tracing (src/metrics, the Prometheus and OpenTelemetry calls): they have no
  influence on the results of the operations. JSON, gob and gzip: of the encodings of the
  standard library only the inversion is assumed. The Redis and NATS watch buses and the HTTP
  handlers of src/watchbus, the presets, which only call constructors, the command-line tools
  of src/cmd, the examples and the browser client of src/warp-store.
\<close>

end
